(* ===== verification/Prelude.thy ===== *)
theory Prelude
  imports Main "HOL-Library.Word" "HOL-Library.Monad_Syntax"
begin

unbundle bit_operations_syntax

text \<open>
  Shared vocabulary of the development: the machine integers of the C sources at their
  width, C strings, the three ways a C routine of this code base can end, and the
  collections of rewrite rules the component theories feed.

  \<^item> \<open>u8\<close>, \<open>u16\<close>, \<open>u32\<close>, \<open>u64\<close> are \<open>uchar\<close>, \<open>ushort\<close>/\<open>Rune\<close>, \<open>u32int\<close>/\<open>ulong\<close>
    (32-bit targets) and \<open>vlong\<close> bit patterns.
  \<^item> \<open>cstr\<close> is the contents of a NUL-terminated string, the terminator left out.
  \<^item> \<open>outcome\<close>: \<open>Undef\<close> is undefined behaviour of C (a read or write outside its object),
    \<open>Fail\<close> an error return, \<open>Ok\<close> a result.
\<close>

section \<open>Machine types\<close>

type_synonym u8 = "8 word"
type_synonym u16 = "16 word"
type_synonym u32 = "32 word"
type_synonym u64 = "64 word"
type_synonym bytes = "u8 list"
type_synonym cstr = "u8 list"

named_theorems codec_simps
named_theorems word_nat

datatype 'a outcome = Undef | Fail | Ok 'a

fun obind :: "'a outcome \<Rightarrow> ('a \<Rightarrow> 'b outcome) \<Rightarrow> 'b outcome" where
  "obind Undef f = Undef"
| "obind Fail f = Fail"
| "obind (Ok x) f = f x"

lemma obind_eq_Ok [simp]: "obind m f = Ok y \<longleftrightarrow> (\<exists>x. m = Ok x \<and> f x = Ok y)"
  by (cases m) auto

lemma obind_eq_Undef: "obind m f = Undef \<longleftrightarrow> m = Undef \<or> (\<exists>x. m = Ok x \<and> f x = Undef)"
  by (cases m) auto

lemma obind_cong [fundef_cong]:
  "m = m' \<Longrightarrow> (\<And>x. m' = Ok x \<Longrightarrow> f x = f' x) \<Longrightarrow> obind m f = obind m' f'"
  by (cases m') auto

text \<open>A read or write at an offset of an object.\<close>

definition rdat :: "'a list \<Rightarrow> nat \<Rightarrow> 'a outcome" where
  "rdat m i = (if i < length m then Ok (m ! i) else Undef)"

definition wrat :: "'a list \<Rightarrow> nat \<Rightarrow> 'a \<Rightarrow> 'a list outcome" where
  "wrat m i x = (if i < length m then Ok (m[i := x]) else Undef)"

lemma rdat_simps [simp]:
  "rdat (x # m) 0 = Ok x" "rdat (x # m) (Suc i) = rdat m i" "rdat [] i = Undef"
  "rdat m i = Ok y \<longleftrightarrow> i < length m \<and> m ! i = y" "rdat m i \<noteq> Fail"
  by (auto simp: rdat_def)

lemma wrat_simps [simp]:
  "wrat m i x = Ok m' \<longleftrightarrow> i < length m \<and> m' = m[i := x]" "wrat m i x \<noteq> Fail"
  by (auto simp: wrat_def)

text \<open>Memory reads: the first \<open>n\<close> entries of an object, undefined when it is shorter.\<close>

definition rdmem :: "nat \<Rightarrow> 'a list \<Rightarrow> 'a list outcome" where
  "rdmem n m = (if length m < n then Undef else Ok (take n m))"

section \<open>C strings in memory\<close>

text \<open>The string a pointer to \<open>bs\<close> denotes: the bytes before the first NUL.\<close>

definition cstr_of :: "bytes \<Rightarrow> cstr" where
  "cstr_of bs = takeWhile (\<lambda>b. b \<noteq> 0) bs"

definition no_nul :: "bytes \<Rightarrow> bool" where
  "no_nul s \<longleftrightarrow> 0 \<notin> set s"

lemma cstr_of_no_nul [simp]: "no_nul s \<Longrightarrow> cstr_of s = s"
  by (auto simp: cstr_of_def no_nul_def takeWhile_eq_all_conv)

lemma no_nul_cstr_of [simp]: "no_nul (cstr_of s)"
  unfolding no_nul_def cstr_of_def by (auto dest: set_takeWhileD)

lemma cstr_of_append_nul: "no_nul s \<Longrightarrow> cstr_of (s @ 0 # t) = s"
  unfolding no_nul_def cstr_of_def by (subst takeWhile_append2) auto

lemma length_cstr_of: "length (cstr_of s) \<le> length s"
  by (simp add: cstr_of_def length_takeWhile_le)

section \<open>Words and naturals\<close>

lemma unat_of_nat_lt [word_nat]:
  "n < 2 ^ LENGTH('a) \<Longrightarrow> unat (of_nat n :: 'a::len word) = n"
  by (simp add: unat_of_nat take_bit_nat_eq_self)

lemma unat_u8_lt [simp]: "unat (x :: u8) < 256"
  using unsigned_less [of x] by simp

lemma unat_u16_lt [simp]: "unat (x :: u16) < 65536"
  using unsigned_less [of x] by simp

lemma unat_u32_lt [simp]: "unat (x :: u32) < 4294967296"
  using unsigned_less [of x] by simp

lemma unat_u16_lt_num [simp]: "(65536 :: nat) \<le> numeral w \<Longrightarrow> unat (x :: u16) < numeral w"
  using unat_u16_lt [of x] by linarith

end
