(* ===== verification/Wire.thy ===== *)
theory Wire
  imports Prelude
begin

unbundle bit_operations_syntax

text \<open>
  The little-endian accessors of \<open>include/fcall.h\<close> (\<open>GBIT8 .. GBIT64\<close>, \<open>PBIT8 .. PBIT64\<close>)
  and the cursor with which the decoders walk a message: the bytes before and after the
  pointer \<open>p\<close>.  A bounds check \<open>p + k > ep\<close> of the source is \<open>length rest < k\<close>.
\<close>

section \<open>Accessors\<close>

definition GBIT8 :: "bytes \<Rightarrow> u8" where
  "GBIT8 p = p ! 0"

definition GBIT16 :: "bytes \<Rightarrow> u16" where
  "GBIT16 p = ucast (p ! 0) OR push_bit 8 (ucast (p ! 1))"

definition GBIT32 :: "bytes \<Rightarrow> u32" where
  "GBIT32 p = ucast (p ! 0) OR push_bit 8 (ucast (p ! 1)) OR push_bit 16 (ucast (p ! 2))
     OR push_bit 24 (ucast (p ! 3))"

definition GBIT64 :: "bytes \<Rightarrow> u64" where
  "GBIT64 p =
     ucast (ucast (p ! 0) OR push_bit 8 (ucast (p ! 1)) OR push_bit 16 (ucast (p ! 2))
       OR push_bit 24 (ucast (p ! 3)) :: u32)
     OR push_bit 32 (scast (ucast (p ! 4) OR push_bit 8 (ucast (p ! 5))
       OR push_bit 16 (ucast (p ! 6)) OR push_bit 24 (ucast (p ! 7)) :: u32))"

definition PBIT8 :: "u8 \<Rightarrow> bytes" where
  "PBIT8 v = [v]"

definition PBIT16 :: "u16 \<Rightarrow> bytes" where
  "PBIT16 v = [ucast v, ucast (drop_bit 8 v)]"

definition PBIT32 :: "u32 \<Rightarrow> bytes" where
  "PBIT32 v = [ucast v, ucast (drop_bit 8 v), ucast (drop_bit 16 v), ucast (drop_bit 24 v)]"

definition PBIT64 :: "u64 \<Rightarrow> bytes" where
  "PBIT64 v = [ucast v, ucast (drop_bit 8 v), ucast (drop_bit 16 v), ucast (drop_bit 24 v),
     ucast (drop_bit 32 v), ucast (drop_bit 40 v), ucast (drop_bit 48 v),
     ucast (drop_bit 56 v)]"

lemma length_PBIT [simp]:
  "length (PBIT8 a) = 1" "length (PBIT16 b) = 2" "length (PBIT32 c) = 4" "length (PBIT64 d) = 8"
  by (simp_all add: PBIT8_def PBIT16_def PBIT32_def PBIT64_def)

lemma take_drop_PBIT [codec_simps]:
  "take (Suc 0) (PBIT8 a @ r) = PBIT8 a" "drop (Suc 0) (PBIT8 a @ r) = r"
  "take 2 (PBIT16 b @ r) = PBIT16 b" "drop 2 (PBIT16 b @ r) = r"
  "take 4 (PBIT32 c @ r) = PBIT32 c" "drop 4 (PBIT32 c @ r) = r"
  "take 8 (PBIT64 d @ r) = PBIT64 d" "drop 8 (PBIT64 d @ r) = r"
  by (simp_all add: PBIT8_def PBIT16_def PBIT32_def PBIT64_def)

section \<open>Reading what was written\<close>

lemma GBIT8_PBIT8 [codec_simps]: "GBIT8 (PBIT8 v @ r) = v"
  by (simp add: GBIT8_def PBIT8_def)

lemma GBIT16_PBIT16 [codec_simps]: "GBIT16 (PBIT16 v @ r) = v"
  by (rule bit_eqI) (auto simp: GBIT16_def PBIT16_def bit_simps)

lemma join32:
  fixes v :: u32
  shows "(ucast (ucast v :: u8) OR push_bit 8 (ucast (ucast (drop_bit 8 v) :: u8))
     OR push_bit 16 (ucast (ucast (drop_bit 16 v) :: u8))
     OR push_bit 24 (ucast (ucast (drop_bit 24 v) :: u8)) :: u32) = v"
    (is "?l = v")
proof (rule bit_word_eqI)
  fix n
  assume "n < LENGTH(32)"
  then have "n < 8 \<or> (8 \<le> n \<and> n < 16) \<or> (16 \<le> n \<and> n < 24) \<or> (24 \<le> n \<and> n < 32)"
    by auto
  then show "bit ?l n = bit v n"
    by (elim disjE) (auto simp: bit_simps)
qed

lemma GBIT32_PBIT32 [codec_simps]: "GBIT32 (PBIT32 v @ r) = v"
  by (simp add: GBIT32_def PBIT32_def join32)

lemma join64: "ucast (ucast v :: u32) OR push_bit 32 (scast (ucast (drop_bit 32 v) :: u32)) = (v :: u64)"
  by (rule bit_eqI) (auto simp: bit_simps)

lemma PBIT64_PBIT32: "PBIT64 v = PBIT32 (ucast v) @ PBIT32 (ucast (drop_bit 32 v))"
  unfolding PBIT64_def PBIT32_def append.simps list.inject
  by (intro conjI; (rule refl | (rule bit_eqI; force simp: bit_simps)))

lemma GBIT64_GBIT32: "GBIT64 p = ucast (GBIT32 p) OR push_bit 32 (scast (GBIT32 (drop 4 p)))"
  if "8 \<le> length p"
  using that by (simp add: GBIT64_def GBIT32_def nth_drop)

lemma GBIT64_PBIT64 [codec_simps]: "GBIT64 (PBIT64 v @ r) = v"
proof -
  have "GBIT64 (PBIT64 v @ r) = ucast (GBIT32 (PBIT64 v @ r))
      OR push_bit 32 (scast (GBIT32 (drop 4 (PBIT64 v @ r))))"
    by (rule GBIT64_GBIT32) simp
  also have "\<dots> = v"
    by (simp add: PBIT64_PBIT32 GBIT32_PBIT32 take_drop_PBIT join64)
  finally show ?thesis .
qed

section \<open>The decoding cursor\<close>

text \<open>\<open>(done, rest)\<close>: the bytes of the buffer before and from the pointer \<open>p\<close> on.\<close>

type_synonym cursor = "bytes \<times> bytes"

definition adv :: "nat \<Rightarrow> cursor \<Rightarrow> cursor" where
  "adv k c = (fst c @ take k (snd c), drop k (snd c))"

definition need :: "nat \<Rightarrow> cursor \<Rightarrow> unit option" where
  "need k c = (if length (snd c) < k then None else Some ())"

lemma adv_simp [codec_simps]: "adv k (d, r) = (d @ take k r, drop k r)"
  by (simp add: adv_def)

lemma need_simp [codec_simps]: "need k (d, r) = (if length r < k then None else Some ())"
  by (simp add: need_def)

lemma need_take [codec_simps]:
  "n \<le> length m \<Longrightarrow> need n (d, take n m @ r) = Some ()"
  "n \<le> length m \<Longrightarrow> adv n (d, take n m @ r) = (d @ take n m, r)"
  by (simp_all add: need_def adv_def)

lemma need_eq_Some [simp]: "need k c = Some u \<longleftrightarrow> k \<le> length (snd c)"
  by (auto simp: need_def)

text \<open>A decoder only moves the cursor forward: the buffer keeps its length, and what lies
  behind the new position is what lay there before.\<close>

definition advances :: "cursor \<Rightarrow> cursor \<Rightarrow> bool" where
  "advances c c' \<longleftrightarrow> (\<exists>k \<le> length (snd c). snd c' = drop k (snd c)
     \<and> length (fst c') = length (fst c) + k \<and> take (length (fst c)) (fst c') = fst c)"

lemma advances_refl [simp]: "advances c c"
  by (auto simp: advances_def intro: exI [of _ 0])

lemma advances_adv [simp]: "k \<le> length (snd c) \<Longrightarrow> advances c (adv k c)"
  by (auto simp: advances_def adv_def)

lemma advances_trans: "advances a b \<Longrightarrow> advances b c \<Longrightarrow> advances a c"
proof -
  assume ab: "advances a b" and bc: "advances b c"
  from ab obtain k where k: "k \<le> length (snd a)" "snd b = drop k (snd a)"
    "length (fst b) = length (fst a) + k" "take (length (fst a)) (fst b) = fst a"
    by (auto simp: advances_def)
  from bc obtain l where l: "l \<le> length (snd b)" "snd c = drop l (snd b)"
    "length (fst c) = length (fst b) + l" "take (length (fst b)) (fst c) = fst b"
    by (auto simp: advances_def)
  have "take (length (fst a)) (fst c) = take (length (fst a)) (take (length (fst b)) (fst c))"
    using k(3) by simp
  then have "take (length (fst a)) (fst c) = fst a"
    using l(4) k(4) by simp
  with k l show "advances a c"
    unfolding advances_def by (intro exI [of _ "k + l"]) (auto simp: add.commute)
qed

lemma advances_length: "advances c c' \<Longrightarrow>
    length (fst c') + length (snd c') = length (fst c) + length (snd c)"
  by (auto simp: advances_def)

end
