(* ===== verification/Styx.thy ===== *)
theory Styx
  imports Wire
begin

text \<open>
  The Styx/9P2000 message codec of \<open>lib9\<close>: \<open>convS2M\<close> and \<open>sizeS2M\<close>
  (\<open>lib9/convS2M.c\<close>) turn an \<open>Fcall\<close> into bytes, \<open>convM2S\<close> (\<open>lib9/convM2S.c\<close>) turns
  bytes back.  The record has the fields of \<open>struct Fcall\<close> (\<open>include/fcall.h\<close>); a
  \<open>char*\<close> is \<open>None\<close> for \<open>nil\<close>.  \<open>data\<close> and \<open>stat\<close> are the memory the pointers lead to;
  \<open>wname\<close> and \<open>wqid\<close> are the arrays of \<open>MAXWELEM\<close> entries.
\<close>

section \<open>Message types and the Fcall structure\<close>

abbreviation "Tversion \<equiv> (100 :: u8)"
abbreviation "Rversion \<equiv> (101 :: u8)"
abbreviation "Tauth \<equiv> (102 :: u8)"
abbreviation "Rauth \<equiv> (103 :: u8)"
abbreviation "Tattach \<equiv> (104 :: u8)"
abbreviation "Rattach \<equiv> (105 :: u8)"
abbreviation "Rerror \<equiv> (107 :: u8)"
abbreviation "Tflush \<equiv> (108 :: u8)"
abbreviation "Rflush \<equiv> (109 :: u8)"
abbreviation "Twalk \<equiv> (110 :: u8)"
abbreviation "Rwalk \<equiv> (111 :: u8)"
abbreviation "Topen \<equiv> (112 :: u8)"
abbreviation "Ropen \<equiv> (113 :: u8)"
abbreviation "Tcreate \<equiv> (114 :: u8)"
abbreviation "Rcreate \<equiv> (115 :: u8)"
abbreviation "Tread \<equiv> (116 :: u8)"
abbreviation "Rread \<equiv> (117 :: u8)"
abbreviation "Twrite \<equiv> (118 :: u8)"
abbreviation "Rwrite \<equiv> (119 :: u8)"
abbreviation "Tclunk \<equiv> (120 :: u8)"
abbreviation "Rclunk \<equiv> (121 :: u8)"
abbreviation "Tremove \<equiv> (122 :: u8)"
abbreviation "Rremove \<equiv> (123 :: u8)"
abbreviation "Tstat \<equiv> (124 :: u8)"
abbreviation "Rstat \<equiv> (125 :: u8)"
abbreviation "Twstat \<equiv> (126 :: u8)"
abbreviation "Rwstat \<equiv> (127 :: u8)"
abbreviation "MAXWELEM \<equiv> (16 :: nat)"

record qid =
  qtype :: u8
  qvers :: u32
  qpath :: u64

record fcall =
  mtype :: u8
  fid :: u32
  tag :: u16
  msize :: u32
  version :: "cstr option"
  oldtag :: u16
  ename :: "cstr option"
  fqid :: qid
  iounit :: u32
  aqid :: qid
  afid :: u32
  uname :: "cstr option"
  aname :: "cstr option"
  perm :: u32
  fname :: "cstr option"
  mode :: u8
  newfid :: u32
  nwname :: u16
  wname :: "cstr option list"
  nwqid :: u16
  wqid :: "qid list"
  foffset :: u64
  fcount :: u32
  fdata :: bytes
  nstat :: u16
  fstat :: bytes

section \<open>Encoding\<close>

definition pstring :: "cstr option \<Rightarrow> bytes" where
  "pstring s = (case s of None \<Rightarrow> PBIT16 0 | Some s \<Rightarrow> PBIT16 (of_nat (length s)) @ s)"

definition pqid :: "qid \<Rightarrow> bytes" where
  "pqid q = PBIT8 (qtype q) @ PBIT32 (qvers q) @ PBIT64 (qpath q)"

definition stringsz :: "cstr option \<Rightarrow> u32" where
  "stringsz s = (case s of None \<Rightarrow> 2 | Some s \<Rightarrow> 2 + of_nat (length s))"

text \<open>The sum is a 32-bit \<open>uint\<close>, so it wraps around; \<open>Ok 0\<close> is the error return.\<close>

definition sizeS2M :: "fcall \<Rightarrow> u32 outcome" where
  "sizeS2M f = (let n = 4 + 1 + 2; t = mtype f in
     if t = Tversion then Ok (n + 4 + stringsz (version f))
     else if t = Tflush then Ok (n + 2)
     else if t = Tauth then Ok (n + 4 + stringsz (uname f) + stringsz (aname f))
     else if t = Tattach then Ok (n + 4 + 4 + stringsz (uname f) + stringsz (aname f))
     else if t = Twalk then
       obind (rdmem (unat (nwname f)) (wname f)) (\<lambda>ws.
         Ok (foldl (\<lambda>n s. n + stringsz s) (n + 4 + 4 + 2) ws))
     else if t = Topen then Ok (n + 4 + 1)
     else if t = Tcreate then Ok (n + 4 + stringsz (fname f) + 4 + 1)
     else if t = Tread then Ok (n + 4 + 8 + 4)
     else if t = Twrite then Ok (n + 4 + 8 + 4 + fcount f)
     else if t = Tclunk \<or> t = Tremove then Ok (n + 4)
     else if t = Tstat then Ok (n + 4)
     else if t = Twstat then Ok (n + 4 + 2 + ucast (nstat f))
     else if t = Rversion then Ok (n + 4 + stringsz (version f))
     else if t = Rerror then Ok (n + stringsz (ename f))
     else if t = Rflush then Ok n
     else if t = Rauth then Ok (n + 13)
     else if t = Rattach then Ok (n + 13)
     else if t = Rwalk then Ok (n + 2 + ucast (nwqid f) * 13)
     else if t = Ropen \<or> t = Rcreate then Ok (n + 13 + 4)
     else if t = Rread then Ok (n + 4 + fcount f)
     else if t = Rwrite then Ok (n + 4)
     else if t = Rclunk then Ok n
     else if t = Rremove then Ok n
     else if t = Rstat then Ok (n + 2 + ucast (nstat f))
     else if t = Rwstat then Ok n
     else Ok 0)"

text \<open>The two halves of the switch of \<open>convS2M\<close>: what is written after the header.\<close>

definition s2m_T :: "fcall \<Rightarrow> bytes outcome" where
  "s2m_T f = (let t = mtype f in
     if t = Tversion then Ok (PBIT32 (msize f) @ pstring (version f))
     else if t = Tflush then Ok (PBIT16 (oldtag f))
     else if t = Tauth then Ok (PBIT32 (afid f) @ pstring (uname f) @ pstring (aname f))
     else if t = Tattach then
       Ok (PBIT32 (fid f) @ PBIT32 (afid f) @ pstring (uname f) @ pstring (aname f))
     else if t = Twalk then
       if MAXWELEM < unat (nwname f) then Fail
       else obind (rdmem (unat (nwname f)) (wname f)) (\<lambda>ws.
         Ok (PBIT32 (fid f) @ PBIT32 (newfid f) @ PBIT16 (nwname f) @ concat (map pstring ws)))
     else if t = Topen then Ok (PBIT32 (fid f) @ PBIT8 (mode f))
     else if t = Tcreate then
       Ok (PBIT32 (fid f) @ pstring (fname f) @ PBIT32 (perm f) @ PBIT8 (mode f))
     else if t = Tread then Ok (PBIT32 (fid f) @ PBIT64 (foffset f) @ PBIT32 (fcount f))
     else if t = Twrite then
       obind (rdmem (unat (fcount f)) (fdata f)) (\<lambda>d.
         Ok (PBIT32 (fid f) @ PBIT64 (foffset f) @ PBIT32 (fcount f) @ d))
     else if t = Tclunk \<or> t = Tremove then Ok (PBIT32 (fid f))
     else if t = Tstat then Ok (PBIT32 (fid f))
     else if t = Twstat then
       obind (rdmem (unat (nstat f)) (fstat f)) (\<lambda>d.
         Ok (PBIT32 (fid f) @ PBIT16 (nstat f) @ d))
     else Fail)"

definition s2m_R :: "fcall \<Rightarrow> bytes outcome" where
  "s2m_R f = (let t = mtype f in
     if t = Rversion then Ok (PBIT32 (msize f) @ pstring (version f))
     else if t = Rerror then Ok (pstring (ename f))
     else if t = Rflush then Ok []
     else if t = Rauth then Ok (pqid (aqid f))
     else if t = Rattach then Ok (pqid (fqid f))
     else if t = Rwalk then
       if MAXWELEM < unat (nwqid f) then Fail
       else obind (rdmem (unat (nwqid f)) (wqid f)) (\<lambda>qs.
         Ok (PBIT16 (nwqid f) @ concat (map pqid qs)))
     else if t = Ropen \<or> t = Rcreate then Ok (pqid (fqid f) @ PBIT32 (iounit f))
     else if t = Rread then
       obind (rdmem (unat (fcount f)) (fdata f)) (\<lambda>d. Ok (PBIT32 (fcount f) @ d))
     else if t = Rwrite then Ok (PBIT32 (fcount f))
     else if t = Rclunk then Ok []
     else if t = Rremove then Ok []
     else if t = Rstat then
       obind (rdmem (unat (nstat f)) (fstat f)) (\<lambda>d. Ok (PBIT16 (nstat f) @ d))
     else if t = Rwstat then Ok []
     else Fail)"

definition T_types :: "u8 list" where
  "T_types = [Tversion, Tflush, Tauth, Tattach, Twalk, Topen, Tcreate, Tread, Twrite,
     Tclunk, Tremove, Tstat, Twstat]"

definition R_types :: "u8 list" where
  "R_types = [Rversion, Rerror, Rflush, Rauth, Rattach, Rwalk, Ropen, Rcreate, Rread, Rwrite,
     Rclunk, Rremove, Rstat, Rwstat]"

text \<open>
  \<open>convS2M f nap\<close> is the contents of \<open>ap[0 .. size)\<close> on success.  The body writes without
  looking at \<open>nap\<close> again, so output longer than \<open>nap\<close> is a write outside the buffer.
\<close>

definition convS2M :: "fcall \<Rightarrow> nat \<Rightarrow> bytes outcome" where
  "convS2M f nap = obind (sizeS2M f) (\<lambda>size.
     if size = 0 then Fail
     else if nap < unat size then Fail
     else obind (if mtype f \<in> set T_types then s2m_T f else s2m_R f) (\<lambda>body.
       let out = PBIT32 size @ PBIT8 (mtype f) @ PBIT16 (tag f) @ body in
       if nap < length out then Undef
       else if size \<noteq> of_nat (length out) then Fail
       else Ok out))"

section \<open>Decoding\<close>

text \<open>
  \<open>gstring\<close> moves the string down by one byte, over the second byte of its count, to make
  room for the NUL; the result is the string the returned pointer denotes.
\<close>

definition gstring :: "cursor \<Rightarrow> (cstr \<times> cursor) option" where
  "gstring c =
     (if length (snd c) < 2 then None
      else let n = unat (GBIT16 (snd c)) in
        if length (snd c) < 1 + n + 1 then None
        else let s = take n (drop 2 (snd c)) in
          Some (cstr_of (s @ [0]),
            (fst c @ take 1 (snd c) @ s @ [0], drop (2 + n) (snd c))))"

definition gqid :: "cursor \<Rightarrow> (qid \<times> cursor) option" where
  "gqid c =
     (if length (snd c) < 13 then None
      else let c1 = adv 1 c; c2 = adv 4 c1; c3 = adv 8 c2 in
        Some (\<lparr>qtype = GBIT8 (snd c), qvers = GBIT32 (snd c1), qpath = GBIT64 (snd c2)\<rparr>, c3))"

fun grepeat :: "(cursor \<Rightarrow> ('a \<times> cursor) option) \<Rightarrow> nat \<Rightarrow> cursor \<Rightarrow> ('a list \<times> cursor) option" where
  "grepeat g 0 c = Some ([], c)"
| "grepeat g (Suc n) c = do {
     (x, c) \<leftarrow> g c;
     (xs, c) \<leftarrow> grepeat g n c;
     Some (x # xs, c) }"

text \<open>Writing the first entries of an array field.\<close>

definition arrset :: "'a list \<Rightarrow> 'a list \<Rightarrow> 'a list" where
  "arrset xs a = xs @ drop (length xs) a"

definition m2s_T :: "fcall \<Rightarrow> cursor \<Rightarrow> (fcall \<times> cursor) option" where
  "m2s_T f c = (let t = mtype f in
     if t = Tversion then do {
       need 4 c;
       (s, c') \<leftarrow> gstring (adv 4 c);
       Some (f\<lparr>msize := GBIT32 (snd c), version := Some s\<rparr>, c') }
     else if t = Tflush then do {
       need 2 c;
       Some (f\<lparr>oldtag := GBIT16 (snd c)\<rparr>, adv 2 c) }
     else if t = Tauth then do {
       need 4 c;
       (u, c1) \<leftarrow> gstring (adv 4 c);
       (a, c2) \<leftarrow> gstring c1;
       Some (f\<lparr>afid := GBIT32 (snd c), uname := Some u, aname := Some a\<rparr>, c2) }
     else if t = Tattach then do {
       need 4 c;
       let c1 = adv 4 c;
       need 4 c1;
       (u, c2) \<leftarrow> gstring (adv 4 c1);
       (a, c3) \<leftarrow> gstring c2;
       Some (f\<lparr>fid := GBIT32 (snd c), afid := GBIT32 (snd c1), uname := Some u,
         aname := Some a\<rparr>, c3) }
     else if t = Twalk then do {
       need (4 + 4 + 2) c;
       let c1 = adv 4 c;
       let c2 = adv 4 c1;
       let n = GBIT16 (snd c2);
       if MAXWELEM < unat n then None else do {
       (ws, c3) \<leftarrow> grepeat gstring (unat n) (adv 2 c2);
       Some (f\<lparr>fid := GBIT32 (snd c), newfid := GBIT32 (snd c1), nwname := n,
         wname := arrset (map Some ws) (wname f)\<rparr>, c3) } }
     else if t = Topen then do {
       need (4 + 1) c;
       let c1 = adv 4 c;
       Some (f\<lparr>fid := GBIT32 (snd c), mode := GBIT8 (snd c1)\<rparr>, adv 1 c1) }
     else if t = Tcreate then do {
       need 4 c;
       (s, c1) \<leftarrow> gstring (adv 4 c);
       need (4 + 1) c1;
       let c2 = adv 4 c1;
       Some (f\<lparr>fid := GBIT32 (snd c), fname := Some s, perm := GBIT32 (snd c1),
         mode := GBIT8 (snd c2)\<rparr>, adv 1 c2) }
     else if t = Tread then do {
       need (4 + 8 + 4) c;
       let c1 = adv 4 c;
       let c2 = adv 8 c1;
       Some (f\<lparr>fid := GBIT32 (snd c), foffset := GBIT64 (snd c1), fcount := GBIT32 (snd c2)\<rparr>,
         adv 4 c2) }
     else if t = Twrite then do {
       need (4 + 8 + 4) c;
       let c1 = adv 4 c;
       let c2 = adv 8 c1;
       let n = GBIT32 (snd c2);
       let c3 = adv 4 c2;
       need (unat n) c3;
       Some (f\<lparr>fid := GBIT32 (snd c), foffset := GBIT64 (snd c1), fcount := n,
         fdata := snd c3\<rparr>, adv (unat n) c3) }
     else if t = Tclunk \<or> t = Tremove then do {
       need 4 c;
       Some (f\<lparr>fid := GBIT32 (snd c)\<rparr>, adv 4 c) }
     else if t = Tstat then do {
       need 4 c;
       Some (f\<lparr>fid := GBIT32 (snd c)\<rparr>, adv 4 c) }
     else if t = Twstat then do {
       need (4 + 2) c;
       let c1 = adv 4 c;
       let n = GBIT16 (snd c1);
       let c2 = adv 2 c1;
       need (unat n) c2;
       Some (f\<lparr>fid := GBIT32 (snd c), nstat := n, fstat := snd c2\<rparr>, adv (unat n) c2) }
     else None)"

definition m2s_R :: "fcall \<Rightarrow> cursor \<Rightarrow> (fcall \<times> cursor) option" where
  "m2s_R f c = (let t = mtype f in
     if t = Rversion then do {
       need 4 c;
       (s, c') \<leftarrow> gstring (adv 4 c);
       Some (f\<lparr>msize := GBIT32 (snd c), version := Some s\<rparr>, c') }
     else if t = Rerror then do {
       (s, c') \<leftarrow> gstring c;
       Some (f\<lparr>ename := Some s\<rparr>, c') }
     else if t = Rflush then Some (f, c)
     else if t = Rauth then do {
       (q, c') \<leftarrow> gqid c;
       Some (f\<lparr>aqid := q\<rparr>, c') }
     else if t = Rattach then do {
       (q, c') \<leftarrow> gqid c;
       Some (f\<lparr>fqid := q\<rparr>, c') }
     else if t = Rwalk then do {
       need 2 c;
       let n = GBIT16 (snd c);
       if MAXWELEM < unat n then None else do {
       (qs, c') \<leftarrow> grepeat gqid (unat n) (adv 2 c);
       Some (f\<lparr>nwqid := n, wqid := arrset qs (wqid f)\<rparr>, c') } }
     else if t = Ropen \<or> t = Rcreate then do {
       (q, c1) \<leftarrow> gqid c;
       need 4 c1;
       Some (f\<lparr>fqid := q, iounit := GBIT32 (snd c1)\<rparr>, adv 4 c1) }
     else if t = Rread then do {
       need 4 c;
       let n = GBIT32 (snd c);
       let c1 = adv 4 c;
       need (unat n) c1;
       Some (f\<lparr>fcount := n, fdata := snd c1\<rparr>, adv (unat n) c1) }
     else if t = Rwrite then do {
       need 4 c;
       Some (f\<lparr>fcount := GBIT32 (snd c)\<rparr>, adv 4 c) }
     else if t = Rclunk \<or> t = Rremove then Some (f, c)
     else if t = Rstat then do {
       need 2 c;
       let n = GBIT16 (snd c);
       let c1 = adv 2 c;
       need (unat n) c1;
       Some (f\<lparr>nstat := n, fstat := snd c1\<rparr>, adv (unat n) c1) }
     else if t = Rwstat then Some (f, c)
     else None)"

text \<open>On success: the size returned, the structure, and the buffer as it is left.\<close>

definition convM2S :: "bytes \<Rightarrow> fcall \<Rightarrow> (u32 \<times> fcall \<times> bytes) option" where
  "convM2S ap f = (let c = ([], ap) in do {
     need (4 + 1 + 2) c;
     let size = GBIT32 (snd c);
     let c1 = adv 4 c;
     if size < 4 + 1 + 2 then None else do {
     let c2 = adv 1 c1;
     let f = f\<lparr>mtype := GBIT8 (snd c1), tag := GBIT16 (snd c2)\<rparr>;
     let c3 = adv 2 c2;
     (f, c) \<leftarrow> (if mtype f \<in> set T_types then m2s_T f c3 else m2s_R f c3);
     if unat size = length (fst c) then Some (size, f, fst c @ snd c) else None } })"

section \<open>What a message means\<close>

text \<open>A \<open>nil\<close> string is sent as an empty one and comes back as one.\<close>

definition strval :: "cstr option \<Rightarrow> cstr" where
  "strval s = (case s of None \<Rightarrow> [] | Some s \<Rightarrow> s)"

definition str_ok :: "cstr option \<Rightarrow> bool" where
  "str_ok s \<longleftrightarrow> no_nul (strval s) \<and> length (strval s) < 65536"

text \<open>Agreement of two structures on the fields their message type carries.\<close>

definition same_msg :: "fcall \<Rightarrow> fcall \<Rightarrow> bool" where
  "same_msg f g \<longleftrightarrow> mtype f = mtype g \<and> tag f = tag g \<and> (let t = mtype f in
     if t = Tversion \<or> t = Rversion then
       msize f = msize g \<and> strval (version f) = strval (version g)
     else if t = Tflush then oldtag f = oldtag g
     else if t = Tauth then afid f = afid g \<and> strval (uname f) = strval (uname g)
       \<and> strval (aname f) = strval (aname g)
     else if t = Tattach then fid f = fid g \<and> afid f = afid g
       \<and> strval (uname f) = strval (uname g) \<and> strval (aname f) = strval (aname g)
     else if t = Twalk then fid f = fid g \<and> newfid f = newfid g \<and> nwname f = nwname g
       \<and> map strval (take (unat (nwname f)) (wname f)) = map strval (take (unat (nwname g)) (wname g))
     else if t = Topen then fid f = fid g \<and> mode f = mode g
     else if t = Tcreate then fid f = fid g \<and> strval (fname f) = strval (fname g)
       \<and> perm f = perm g \<and> mode f = mode g
     else if t = Tread then fid f = fid g \<and> foffset f = foffset g \<and> fcount f = fcount g
     else if t = Twrite then fid f = fid g \<and> foffset f = foffset g \<and> fcount f = fcount g
       \<and> take (unat (fcount f)) (fdata f) = take (unat (fcount g)) (fdata g)
     else if t = Tclunk \<or> t = Tremove \<or> t = Tstat then fid f = fid g
     else if t = Twstat then fid f = fid g \<and> nstat f = nstat g
       \<and> take (unat (nstat f)) (fstat f) = take (unat (nstat g)) (fstat g)
     else if t = Rerror then strval (ename f) = strval (ename g)
     else if t = Rauth then aqid f = aqid g
     else if t = Rattach then fqid f = fqid g
     else if t = Rwalk then nwqid f = nwqid g
       \<and> take (unat (nwqid f)) (wqid f) = take (unat (nwqid g)) (wqid g)
     else if t = Ropen \<or> t = Rcreate then fqid f = fqid g \<and> iounit f = iounit g
     else if t = Rread then fcount f = fcount g
       \<and> take (unat (fcount f)) (fdata f) = take (unat (fcount g)) (fdata g)
     else if t = Rwrite then fcount f = fcount g
     else if t = Rstat then nstat f = nstat g
       \<and> take (unat (nstat f)) (fstat f) = take (unat (nstat g)) (fstat g)
     else True)"

text \<open>
  The invariant of a structure the C program can hold: arrays of their declared size, data
  objects as long as their counts say, strings short enough for a 16-bit count, and a
  message that fits the 32-bit size.
\<close>

definition fcall_wf :: "fcall \<Rightarrow> bool" where
  "fcall_wf f \<longleftrightarrow>
     list_all str_ok (version f # ename f # uname f # aname f # fname f # wname f)
     \<and> length (wname f) = MAXWELEM \<and> length (wqid f) = MAXWELEM
     \<and> unat (nwname f) \<le> MAXWELEM \<and> unat (nwqid f) \<le> MAXWELEM
     \<and> (mtype f \<in> {Twrite, Rread} \<longrightarrow>
          unat (fcount f) \<le> length (fdata f) \<and> unat (fcount f) < 2 ^ 31)
     \<and> (mtype f \<in> {Twstat, Rstat} \<longrightarrow> unat (nstat f) \<le> length (fstat f))"

section \<open>Sizes\<close>

lemma length_pqid [simp]: "length (pqid q) = 13"
  by (simp add: pqid_def)

lemma stringsz_pstring: "stringsz s = of_nat (length (pstring s))"
  by (simp add: stringsz_def pstring_def split: option.split)

lemma length_pstring_eq: "length (pstring s) = 2 + length (strval s)"
  by (simp add: pstring_def strval_def split: option.split)

lemma foldl_stringsz:
  "foldl (\<lambda>n s. n + stringsz s) n ws = n + of_nat (length (concat (map pstring ws)))"
  by (induction ws arbitrary: n) (simp_all add: stringsz_pstring)

lemmas foldl_pstring = foldl_stringsz [unfolded stringsz_pstring]

lemma length_concat_pqid: "length (concat (map pqid qs)) = 13 * length qs"
  by (induction qs) simp_all

lemma rdmem_Ok [simp]: "rdmem n m = Ok xs \<longleftrightarrow> n \<le> length m \<and> xs = take n m"
  by (auto simp: rdmem_def)

lemma size_s2m_T:
  assumes "mtype f \<in> set T_types" "sizeS2M f = Ok sz" "s2m_T f = Ok b"
  shows "sz = of_nat (7 + length b)"
  using assms unfolding T_types_def
  by (auto simp: sizeS2M_def s2m_T_def stringsz_pstring foldl_pstring Let_def
      split: if_splits)

lemma size_s2m_R:
  assumes "mtype f \<in> set R_types" "sizeS2M f = Ok sz" "s2m_R f = Ok b"
  shows "sz = of_nat (7 + length b)"
  using assms unfolding R_types_def
  by (auto simp: sizeS2M_def s2m_R_def stringsz_pstring length_concat_pqid Let_def
      split: if_splits)

lemma sizeS2M_types:
  assumes "sizeS2M f = Ok sz" "sz \<noteq> 0"
  shows "mtype f \<in> set T_types \<or> mtype f \<in> set R_types"
  using assms by (auto simp: sizeS2M_def T_types_def R_types_def Let_def split: if_splits)

section \<open>Decoding what was encoded\<close>

definition moved :: "cstr option \<Rightarrow> bytes" where
  "moved s = take 1 (pstring s) @ strval s @ [0]"

lemma length_moved [simp]: "length (moved s) = length (pstring s)"
  by (simp add: moved_def pstring_def strval_def PBIT16_def split: option.split)

lemma length_concat_moved: "length (concat (map moved ws)) = length (concat (map pstring ws))"
  by (induction ws) simp_all

lemma pstring_strval: "pstring s = PBIT16 (of_nat (length (strval s))) @ strval s"
  by (simp add: pstring_def strval_def split: option.split)

lemma gstring_pstring [codec_simps]:
  "str_ok s \<Longrightarrow> gstring (d, pstring s @ r) = Some (strval s, (d @ moved s, r))"
  by (auto simp: gstring_def str_ok_def pstring_strval moved_def codec_simps unat_of_nat_lt
      Let_def cstr_of_append_nul)

lemma gqid_pqid [codec_simps]: "gqid (d, pqid q @ r) = Some (q, (d @ pqid q, r))"
  by (simp add: gqid_def pqid_def codec_simps Let_def)

lemma grepeat_gstring [codec_simps]:
  "list_all str_ok ws \<Longrightarrow> grepeat gstring (length ws) (d, concat (map pstring ws) @ r)
     = Some (map strval ws, (d @ concat (map moved ws), r))"
  by (induction ws arbitrary: d) (simp_all add: codec_simps)

lemma grepeat_gqid [codec_simps]:
  "grepeat gqid (length qs) (d, concat (map pqid qs) @ r)
     = Some (qs, (d @ concat (map pqid qs), r))"
  by (induction qs arbitrary: d) (simp_all add: codec_simps)

lemma strval_Some [simp]: "strval (Some s) = s"
  by (simp add: strval_def)

lemma take_arrset [simp]: "take (length xs) (arrset xs a) = xs"
  by (simp add: arrset_def)

lemma fcall_wf_take: "fcall_wf f \<Longrightarrow> list_all str_ok (take n (wname f))"
  by (auto simp: fcall_wf_def list_all_iff dest: in_set_takeD)

definition decodes :: "(fcall \<Rightarrow> cursor \<Rightarrow> (fcall \<times> cursor) option) \<Rightarrow> fcall \<Rightarrow> fcall \<Rightarrow> bytes \<Rightarrow> bool" where
  "decodes g f f0 b \<longleftrightarrow> (\<forall>d r. \<exists>f' d'. g f0 (d, b @ r) = Some (f', (d', r))
     \<and> length d' = length d + length b \<and> same_msg f f')"

lemma grepeat_gstring_take [codec_simps]:
  assumes "fcall_wf f" "n \<le> length (wname f)"
  shows "grepeat gstring n (d, concat (map pstring (take n (wname f))) @ r)
     = Some (map strval (take n (wname f)), (d @ concat (map moved (take n (wname f))), r))"
  using grepeat_gstring [OF fcall_wf_take [OF assms(1), of n], of d r] assms(2) by simp

lemma take_arrset_map [simp]:
  "n \<le> length xs \<Longrightarrow> take n (arrset (map g (take n xs)) a) = map g (take n xs)"
  using take_arrset [of "map g (take n xs)" a] by simp

lemma m2s_T_s2m_T:
  assumes wf: "fcall_wf f" and enc: "s2m_T f = Ok b"
    and f0: "mtype f0 = mtype f" "tag f0 = tag f"
  shows "decodes m2s_T f f0 b"
proof -
  have ok: "str_ok (version f)" "str_ok (uname f)" "str_ok (aname f)" "str_ok (fname f)"
    using wf by (simp_all add: fcall_wf_def)
  have "mtype f \<in> set T_types"
    using enc by (auto simp: s2m_T_def T_types_def Let_def split: if_splits)
  then show ?thesis
    using enc f0 ok wf unfolding decodes_def T_types_def list.set insert_iff empty_iff
    apply (elim disjE)
    apply (simp_all add: s2m_T_def m2s_T_def Let_def split: if_split_asm)
    apply (clarsimp, simp add: codec_simps same_msg_def Let_def length_concat_moved)+
    done
qed

lemma grepeat_gqid_take [codec_simps]:
  "n \<le> length qs \<Longrightarrow> grepeat gqid n (d, concat (map pqid (take n qs)) @ r)
     = Some (take n qs, (d @ concat (map pqid (take n qs)), r))"
  using grepeat_gqid [of "take n qs" d r] by simp

lemma take_arrset_take [simp]:
  "n \<le> length xs \<Longrightarrow> take n (arrset (take n xs) a) = take n xs"
  using take_arrset [of "take n xs" a] by simp

lemma m2s_R_s2m_R:
  assumes wf: "fcall_wf f" and enc: "s2m_R f = Ok b"
    and f0: "mtype f0 = mtype f" "tag f0 = tag f"
  shows "decodes m2s_R f f0 b"
proof -
  have ok: "str_ok (version f)" "str_ok (ename f)"
    using wf by (simp_all add: fcall_wf_def)
  have "mtype f \<in> set R_types"
    using enc by (auto simp: s2m_R_def R_types_def Let_def split: if_splits)
  then show ?thesis
    using enc f0 ok wf unfolding decodes_def R_types_def list.set insert_iff empty_iff
    apply (elim disjE)
    apply (simp_all add: s2m_R_def m2s_R_def Let_def split: if_split_asm)
    apply (clarsimp, simp add: codec_simps same_msg_def Let_def length_concat_moved)+
    done
qed

section \<open>Message lengths fit 32 bits\<close>

lemma length_pstring_ok: "str_ok s \<Longrightarrow> length (pstring s) < 65538"
  by (simp add: length_pstring_eq str_ok_def)

lemma length_concat_pstring:
  "list_all str_ok ws \<Longrightarrow> length (concat (map pstring ws)) \<le> 65538 * length ws"
proof (induction ws)
  case (Cons w ws)
  then show ?case using length_pstring_ok [of w] by simp
qed simp

lemma length_s2m_T:
  assumes "fcall_wf f" "s2m_T f = Ok b"
  shows "length b < 2 ^ 32 - 7"
proof -
  have ok: "length (pstring (version f)) < 65538" "length (pstring (uname f)) < 65538"
    "length (pstring (aname f)) < 65538" "length (pstring (fname f)) < 65538"
    using assms(1) by (simp_all add: fcall_wf_def length_pstring_ok)
  have w: "length (concat (map pstring (take (unat (nwname f)) (wname f)))) \<le> 65538 * 16"
    using length_concat_pstring [OF fcall_wf_take [OF assms(1), of "unat (nwname f)"]] assms(1)
    by (simp add: fcall_wf_def)
  have n: "unat (fcount f) < 2 ^ 31" if "mtype f = Twrite"
    using assms(1) that by (simp add: fcall_wf_def)
  from ok w n assms(2) show ?thesis
    by (auto simp: s2m_T_def Let_def min_def split: if_splits)
qed

lemma length_s2m_R:
  assumes "fcall_wf f" "s2m_R f = Ok b"
  shows "length b < 2 ^ 32 - 7"
proof -
  have ok: "length (pstring (version f)) < 65538" "length (pstring (ename f)) < 65538"
    using assms(1) by (simp_all add: fcall_wf_def length_pstring_ok)
  have n: "unat (fcount f) < 2 ^ 31" if "mtype f = Rread"
    using assms(1) that by (simp add: fcall_wf_def)
  from ok n assms(2) show ?thesis
    by (auto simp: s2m_R_def Let_def length_concat_pqid min_def split: if_splits)
qed

lemma not_T_is_R: "mtype f \<in> set R_types \<Longrightarrow> mtype f \<notin> set T_types"
  by (auto simp: T_types_def R_types_def)

lemma body_size:
  assumes "sizeS2M f = Ok sz" "sz \<noteq> 0" "(if mtype f \<in> set T_types then s2m_T f else s2m_R f) = Ok b"
  shows "sz = of_nat (7 + length b)"
  using assms sizeS2M_types [of f sz] size_s2m_T [of f sz b] size_s2m_R [of f sz b]
  by (auto split: if_splits)

lemma body_length:
  assumes "fcall_wf f" "(if mtype f \<in> set T_types then s2m_T f else s2m_R f) = Ok b"
  shows "length b < 2 ^ 32 - 7"
  using assms length_s2m_T [of f b] length_s2m_R [of f b] by (auto split: if_splits)

lemma sizeS2M_defined: "fcall_wf f \<Longrightarrow> sizeS2M f \<noteq> Undef"
  by (auto simp: sizeS2M_def fcall_wf_def Let_def rdmem_def)

lemma body_defined:
  "fcall_wf f \<Longrightarrow> (if mtype f \<in> set T_types then s2m_T f else s2m_R f) \<noteq> Undef"
  by (auto simp: s2m_T_def s2m_R_def T_types_def fcall_wf_def Let_def rdmem_def)

lemma body_Ok:
  assumes "fcall_wf f" "mtype f \<in> set T_types \<union> set R_types"
  obtains b where "(if mtype f \<in> set T_types then s2m_T f else s2m_R f) = Ok b"
proof -
  have "(if mtype f \<in> set T_types then s2m_T f else s2m_R f) \<noteq> Fail"
    using assms by (auto simp: s2m_T_def s2m_R_def T_types_def R_types_def fcall_wf_def Let_def rdmem_def)
  then show thesis
    using that body_defined [OF assms(1)]
    by (cases "if mtype f \<in> set T_types then s2m_T f else s2m_R f") blast+
qed

lemma sizeS2M_Ok:
  assumes "fcall_wf f"
  obtains sz where "sizeS2M f = Ok sz"
proof -
  have "sizeS2M f \<noteq> Fail"
    using assms by (auto simp: sizeS2M_def fcall_wf_def Let_def rdmem_def)
  then show thesis using that sizeS2M_defined [OF assms] by (cases "sizeS2M f") blast+
qed

lemma sizeS2M_body:
  assumes "fcall_wf f" "mtype f \<in> set T_types \<union> set R_types"
    "(if mtype f \<in> set T_types then s2m_T f else s2m_R f) = Ok b"
  shows "sizeS2M f = Ok (of_nat (7 + length b))"
proof -
  obtain sz where sz: "sizeS2M f = Ok sz" using sizeS2M_Ok [OF assms(1)] .
  then have "sz = of_nat (7 + length b)"
    using assms(2,3) size_s2m_T [of f sz b] size_s2m_R [of f sz b] by (auto split: if_splits)
  with sz show ?thesis by simp
qed

text \<open>C2: For a well-formed structure of a known type \<open>sizeS2M\<close> is the length of the message, which does
  not wrap; \<open>convS2M\<close> fills exactly that many bytes with the header and the body whenever they fit in
  the buffer, and returns 0 when they do not. A structure of any other type is refused. No branch
  reads or writes outside its objects.\<close>

theorem convS2M_safe:
  assumes "fcall_wf f"
  shows "if mtype f \<in> set T_types \<union> set R_types
    then \<exists>b. (if mtype f \<in> set T_types then s2m_T f else s2m_R f) = Ok b \<and> 7 + length b < 2 ^ 32
      \<and> sizeS2M f = Ok (of_nat (7 + length b))
      \<and> (\<forall>nap. convS2M f nap = (if 7 + length b \<le> nap
           then Ok (PBIT32 (of_nat (7 + length b)) @ PBIT8 (mtype f) @ PBIT16 (tag f) @ b) else Fail))
    else \<forall>nap. convS2M f nap = Fail"
proof (cases "mtype f \<in> set T_types \<union> set R_types")
  case True
  obtain b where b: "(if mtype f \<in> set T_types then s2m_T f else s2m_R f) = Ok b"
    using body_Ok [OF assms True] .
  note sz = sizeS2M_body [OF assms True b]
  have len: "7 + length b < 2 ^ 32" using body_length [OF assms b] by simp
  then have u: "unat (of_nat (7 + length b) :: u32) = 7 + length b"
    by (intro unat_of_nat_lt) simp
  then have "(of_nat (7 + length b) :: u32) \<noteq> 0" by (metis add_is_0 unat_0 zero_neq_numeral)
  then have "convS2M f nap = (if 7 + length b \<le> nap
      then Ok (PBIT32 (of_nat (7 + length b)) @ PBIT8 (mtype f) @ PBIT16 (tag f) @ b) else Fail)" for nap
    using u by (simp add: convS2M_def sz b Let_def del: of_nat_add)
  with True b len sz show ?thesis by simp
next
  case False
  obtain sz where "sizeS2M f = Ok sz" using sizeS2M_Ok [OF assms] .
  moreover from this False have "sz = 0" using sizeS2M_types [of f sz] by auto
  ultimately show ?thesis using False by (simp add: convS2M_def)
qed

lemma convS2M_OkE:
  assumes "convS2M f nap = Ok bs"
  obtains b where "bs = PBIT32 (of_nat (length bs)) @ PBIT8 (mtype f) @ PBIT16 (tag f) @ b"
    "length bs \<le> nap" "sizeS2M f = Ok (of_nat (length bs))"
    "(if mtype f \<in> set T_types then s2m_T f else s2m_R f) = Ok b"
proof -
  obtain sz where sz: "sizeS2M f = Ok sz"
    and r1: "(if sz = 0 then Fail else if nap < unat sz then Fail
      else obind (if mtype f \<in> set T_types then s2m_T f else s2m_R f) (\<lambda>body.
       let out = PBIT32 sz @ PBIT8 (mtype f) @ PBIT16 (tag f) @ body in
       if nap < length out then Undef
       else if sz \<noteq> of_nat (length out) then Fail
       else Ok out)) = Ok bs"
    using assms unfolding convS2M_def obind_eq_Ok by blast
  obtain b where b: "(if mtype f \<in> set T_types then s2m_T f else s2m_R f) = Ok b"
    and r2: "(let out = PBIT32 sz @ PBIT8 (mtype f) @ PBIT16 (tag f) @ b in
       if nap < length out then Undef
       else if sz \<noteq> of_nat (length out) then Fail
       else Ok out) = Ok bs"
    using r1 unfolding if_distrib [of "\<lambda>x. x = Ok bs"] obind_eq_Ok by (auto split: if_split_asm)
  have bs: "bs = PBIT32 sz @ PBIT8 (mtype f) @ PBIT16 (tag f) @ b"
    and le: "length (PBIT32 sz @ PBIT8 (mtype f) @ PBIT16 (tag f) @ b) \<le> nap"
    and eq: "sz = of_nat (length (PBIT32 sz @ PBIT8 (mtype f) @ PBIT16 (tag f) @ b))"
    using r2 unfolding Let_def by (simp_all split: if_split_asm)
  note eq' = eq [folded bs, symmetric]
  show thesis
  proof (rule that [of b])
    show "bs = PBIT32 (of_nat (length bs)) @ PBIT8 (mtype f) @ PBIT16 (tag f) @ b"
      unfolding eq' by (rule bs)
    show "sizeS2M f = Ok (of_nat (length bs))"
      unfolding eq' by (rule sz)
  qed (use le [folded bs] b in simp_all)
qed

text \<open>C1: what \<open>convS2M\<close> wrote, followed by anything, is read back by \<open>convM2S\<close> into any
  structure as the same message, and its size is the number of bytes written.\<close>

theorem styx_roundtrip:
  assumes "fcall_wf f" "convS2M f nap = Ok bs" "nap < 2 ^ 32"
  shows "\<exists>g buf. convM2S (bs @ rest) f0 = Some (of_nat (length bs), g, buf @ rest)
    \<and> length buf = length bs \<and> same_msg f g"
proof -
  obtain b where bs: "bs = PBIT32 (of_nat (length bs)) @ PBIT8 (mtype f) @ PBIT16 (tag f) @ b"
    and le: "length bs \<le> nap"
    and b: "(if mtype f \<in> set T_types then s2m_T f else s2m_R f) = Ok b"
    using assms(2) by (rule convS2M_OkE) blast
  define sz :: u32 where "sz = of_nat (length bs)"
  have sz: "unat sz = length bs" "\<not> sz < 7"
  proof -
    show "unat sz = length bs"
      unfolding sz_def by (rule unat_of_nat_lt) (use le assms(3) in simp)
    then show "\<not> sz < 7"
      using arg_cong [OF bs, of length] by (simp add: word_less_nat_alt)
  qed
  define d where "d = PBIT32 sz @ PBIT8 (mtype f) @ PBIT16 (tag f)"
  define g0 where "g0 = f0\<lparr>mtype := mtype f, tag := tag f\<rparr>"
  have "decodes (if mtype f \<in> set T_types then m2s_T else m2s_R) f g0 b"
    using assms(1) b m2s_T_s2m_T [of f b g0] m2s_R_s2m_R [of f b g0]
    by (auto simp: g0_def split: if_splits)
  then obtain g d' where
    g: "(if mtype f \<in> set T_types then m2s_T else m2s_R) g0 (d, b @ rest) = Some (g, (d', rest))"
    "length d' = length d + length b" "same_msg f g"
    unfolding decodes_def by blast
  have "length d' = length bs"
    using g(2) arg_cong [OF bs, of length] by (simp add: d_def)
  have bs': "bs = d @ b" using bs by (simp add: d_def sz_def)
  have "convM2S (bs @ rest) f0 = Some (sz, g, d' @ rest)"
    unfolding bs'
    using g(1) \<open>length d' = length bs\<close> sz
    by (simp add: convM2S_def d_def codec_simps Let_def flip: g0_def split: if_splits)
  with g(3) \<open>length d' = length bs\<close> show ?thesis
    by (auto simp: sz_def)
qed

section \<open>The decoder stays inside the buffer\<close>

lemma length_snd_adv [simp]: "length (snd (adv k c)) = length (snd c) - k"
  by (simp add: adv_def)

lemma advances_adv_trans [simp]: "advances c d \<Longrightarrow> k \<le> length (snd d) \<Longrightarrow> advances c (adv k d)"
  by (blast intro: advances_trans advances_adv)

lemma gstring_advances: "gstring c = Some (s, c') \<Longrightarrow> advances c c'"
  by (auto simp: gstring_def Let_def advances_def min_def split: if_splits
      intro!: exI [of _ "2 + unat (GBIT16 (snd c))"])

lemma length_cstr_of_snoc: "length (cstr_of (take n s @ [0])) \<le> n"
  by (auto simp: cstr_of_def takeWhile_append intro: order_trans [OF length_takeWhile_le])

lemma gstring_str_ok: "gstring c = Some (s, c') \<Longrightarrow> str_ok (Some s)"
  by (auto simp: gstring_def Let_def str_ok_def split: if_splits
      intro!: le_less_trans [OF length_cstr_of_snoc])

lemma gqid_advances: "gqid c = Some (q, c') \<Longrightarrow> advances c c'"
  by (auto simp: gqid_def Let_def split: if_splits intro!: advances_adv_trans)

lemma grepeat_advances:
  assumes "\<And>x c c'. g c = Some (x, c') \<Longrightarrow> advances c c'"
  shows "grepeat g n c = Some (xs, c') \<Longrightarrow> advances c c' \<and> length xs = n"
proof (induction n arbitrary: c xs c')
  case (Suc n)
  then obtain x d ys where "g c = Some (x, d)" "grepeat g n d = Some (ys, c')" "xs = x # ys"
    by (auto simp: bind_eq_Some_conv)
  with Suc.IH [of d ys c'] assms [of c x d] show ?case
    by (auto intro: advances_trans)
qed simp

lemma grepeat_all:
  assumes "\<And>x c c'. g c = Some (x, c') \<Longrightarrow> P x"
  shows "grepeat g n c = Some (xs, c') \<Longrightarrow> list_all P xs"
proof (induction n arbitrary: c xs c')
  case (Suc n)
  then obtain x d ys where "g c = Some (x, d)" "grepeat g n d = Some (ys, c')" "xs = x # ys"
    by (auto simp: bind_eq_Some_conv)
  with Suc.IH [of d ys c'] assms [of c x d] show ?case by auto
qed simp

lemma gstrings_advances: "grepeat gstring n c = Some (xs, c') \<Longrightarrow> advances c c'"
  using grepeat_advances [of gstring n c xs c'] gstring_advances by blast

lemma gqids_advances: "grepeat gqid n c = Some (xs, c') \<Longrightarrow> advances c c'"
  using grepeat_advances [of gqid n c xs c'] gqid_advances by blast

lemmas m2s_advances = gstring_advances [THEN advances_trans [rotated]]
  gqid_advances [THEN advances_trans [rotated]]
  gstrings_advances [THEN advances_trans [rotated]] gqids_advances [THEN advances_trans [rotated]]

lemma m2s_T_advances: "m2s_T f c = Some (g, c') \<Longrightarrow> advances c c'"
  unfolding m2s_T_def Let_def
  by (auto simp: bind_eq_Some_conv split: if_split_asm) (auto intro!: advances_adv_trans elim!: m2s_advances)

lemma m2s_R_advances: "m2s_R f c = Some (g, c') \<Longrightarrow> advances c c'"
  unfolding m2s_R_def Let_def
  by (auto simp: bind_eq_Some_conv split: if_split_asm) (auto intro!: advances_adv_trans elim!: m2s_advances)

text \<open>Types whose messages carry a string.\<close>

definition string_types :: "u8 list" where
  "string_types = [Tversion, Tauth, Tattach, Twalk, Tcreate, Rversion, Rerror]"

lemma length_fst_adv [simp]: "k \<le> length (snd c) \<Longrightarrow> length (fst (adv k c)) = length (fst c) + k"
  by (simp add: adv_def)

lemma gqid_length: "gqid c = Some (q, c') \<Longrightarrow> length (fst c') = length (fst c) + 13"
  by (auto simp: gqid_def Let_def split: if_splits)

lemma gqids_size: "grepeat gqid n c = Some (qs, c') \<Longrightarrow> length (fst c') = length (fst c) + 13 * n"
proof (induction n arbitrary: c qs c')
  case (Suc n)
  then obtain q d rs where "gqid c = Some (q, d)" "grepeat gqid n d = Some (rs, c')"
    by (auto simp: bind_eq_Some_conv)
  with Suc.IH [of d rs c'] gqid_length [of c q d] show ?case by simp
qed simp

lemma m2s_T_mtype: "m2s_T f c = Some (g, c') \<Longrightarrow> mtype g = mtype f"
  unfolding m2s_T_def Let_def by (auto simp: bind_eq_Some_conv split: if_split_asm)

lemma m2s_R_mtype: "m2s_R f c = Some (g, c') \<Longrightarrow> mtype g = mtype f"
  unfolding m2s_R_def Let_def by (auto simp: bind_eq_Some_conv split: if_split_asm)

lemma m2s_T_size:
  assumes "m2s_T f c = Some (g, c')" "mtype f \<notin> set string_types"
  shows "\<exists>k. length (fst c') = length (fst c) + k \<and> sizeS2M g = Ok (of_nat (7 + k))"
proof -
  have "mtype f \<in> set T_types"
    using assms(1) by (auto simp: m2s_T_def T_types_def Let_def split: if_splits)
  then have "mtype f \<in> {Tflush, Topen, Tread, Twrite, Tclunk, Tremove, Tstat, Twstat}"
    using assms(2) by (simp add: T_types_def string_types_def)
  then show ?thesis
    using assms(1) unfolding insert_iff empty_iff
    apply (elim disjE)
    apply (simp_all add: m2s_T_def Let_def bind_eq_Some_conv)
    apply (clarsimp, simp add: sizeS2M_def Let_def)+
    done
qed

lemma m2s_R_size:
  assumes "m2s_R f c = Some (g, c')" "mtype f \<notin> set string_types"
  shows "\<exists>k. length (fst c') = length (fst c) + k \<and> sizeS2M g = Ok (of_nat (7 + k))"
proof -
  have "mtype f \<in> set R_types"
    using assms(1) by (auto simp: m2s_R_def R_types_def Let_def split: if_splits)
  then have "mtype f \<in> {Rflush, Rauth, Rattach, Rwalk, Ropen, Rcreate, Rread, Rwrite, Rclunk, Rremove, Rstat, Rwstat}"
    using assms(2) by (simp add: R_types_def string_types_def)
  then show ?thesis
    using assms(1) unfolding insert_iff empty_iff
    apply (elim disjE)
    apply (simp_all add: m2s_R_def Let_def bind_eq_Some_conv split: if_split_asm)
    apply (clarsimp, (drule gqid_length gqids_size)?, simp add: sizeS2M_def Let_def)+
    done
qed
text \<open>The parts of a successful \<open>convM2S\<close>: the bytes of the header, and where the decoder of the
  body stops.\<close>

lemma convM2S_Some:
  assumes "convM2S ap f = Some (n, g, buf)"
  obtains f' c' where "7 \<le> length ap" "n = GBIT32 ap" "7 \<le> unat n"
    "f' = f\<lparr>mtype := GBIT8 (drop 4 ap), tag := GBIT16 (drop 5 ap)\<rparr>"
    "(if mtype f' \<in> set T_types then m2s_T f' (take 7 ap, drop 7 ap) else m2s_R f' (take 7 ap, drop 7 ap))
       = Some (g, c')"
    "unat n = length (fst c')" "buf = fst c' @ snd c'"
proof -
  have 7: "adv 2 (adv 1 (adv 4 ([], ap))) = (take 7 ap, drop 7 ap)"
    by (simp add: adv_def flip: take_add)
  have "drop 4 ap = snd (adv 4 ([], ap))" "drop 5 ap = snd (adv 1 (adv 4 ([], ap)))"
    by (simp_all add: adv_def)
  note d = this
  define f' where "f' = f\<lparr>mtype := GBIT8 (drop 4 ap), tag := GBIT16 (drop 5 ap)\<rparr>"
  show thesis
    using assms unfolding convM2S_def Let_def 7 d [symmetric] f'_def [symmetric] bind_eq_Some_conv
    by (auto simp: word_less_nat_alt f'_def [symmetric] bind_eq_Some_conv intro!: that [OF _ _ _ f'_def] split: if_split_asm)
qed

text \<open>C6: The size \<open>convM2S\<close> returns is the count in the header, at least 7 and within the buffer, and
  it is where the decoder of the body stops: with the size the encoder gives the structure when it
  carries no string (a string may lose what follows a NUL in it). The buffer keeps its length;
  neither the header nor a byte behind the message changes.\<close>

theorem convM2S_frame:
  assumes "convM2S ap f = Some (n, g, buf)"
  shows "n = GBIT32 ap \<and> 7 \<le> unat n \<and> unat n \<le> length ap
    \<and> (\<exists>c'. (if GBIT8 (drop 4 ap) \<in> set T_types then m2s_T else m2s_R)
          (f\<lparr>mtype := GBIT8 (drop 4 ap), tag := GBIT16 (drop 5 ap)\<rparr>) (take 7 ap, drop 7 ap) = Some (g, c')
        \<and> unat n = length (fst c') \<and> buf = fst c' @ snd c')
    \<and> (mtype g \<in> set string_types \<or> sizeS2M g = Ok n)
    \<and> length buf = length ap \<and> drop (unat n) buf = drop (unat n) ap \<and> take 7 buf = take 7 ap"
proof -
  define c where "c = (take 7 ap, drop 7 ap)"
  obtain f' c' where len: "7 \<le> length ap" and hd: "n = GBIT32 ap" "7 \<le> unat n"
    and f': "f' = f\<lparr>mtype := GBIT8 (drop 4 ap), tag := GBIT16 (drop 5 ap)\<rparr>"
    and d: "(if mtype f' \<in> set T_types then m2s_T f' c else m2s_R f' c) = Some (g, c')"
    and n: "unat n = length (fst c')" and buf: "buf = fst c' @ snd c'"
    using assms unfolding c_def by (rule convM2S_Some)
  have "advances c c'" using d m2s_T_advances m2s_R_advances by (auto split: if_splits)
  then obtain k where k: "k \<le> length (snd c)" "snd c' = drop k (snd c)"
    "length (fst c') = length (fst c) + k" "take (length (fst c)) (fst c') = fst c"
    by (auto simp: advances_def)
  have c: "length (fst c) = 7" "fst c = take 7 ap" "snd c = drop 7 ap" using len by (simp_all add: c_def)
  have "mtype g \<in> set string_types \<or> sizeS2M g = Ok n"
  proof (cases "mtype f' \<in> set string_types")
    case True
    then show ?thesis using d m2s_T_mtype m2s_R_mtype by (auto split: if_splits)
  next
    case False
    then obtain j where "length (fst c') = length (fst c) + j" "sizeS2M g = Ok (of_nat (7 + j))"
      using d m2s_T_size m2s_R_size by (metis (lifting))
    then have "sizeS2M g = Ok (of_nat (unat n))" using n c(1) by simp
    then show ?thesis by simp
  qed
  moreover have "(if GBIT8 (drop 4 ap) \<in> set T_types then m2s_T else m2s_R) f' c = Some (g, c')"
    using d f' by (auto split: if_splits)
  ultimately show ?thesis
    using hd n buf len k c f' by (auto simp: c_def add.commute)
qed

section \<open>Decoded structures are well formed\<close>

definition fcall_arrays :: "fcall \<Rightarrow> bool" where
  "fcall_arrays f \<longleftrightarrow> length (wname f) = MAXWELEM \<and> length (wqid f) = MAXWELEM
     \<and> list_all str_ok (version f # ename f # uname f # aname f # fname f # wname f)
     \<and> unat (nwname f) \<le> MAXWELEM \<and> unat (nwqid f) \<le> MAXWELEM"

lemma fcall_arrays_hdr [simp]:
  "fcall_arrays (f\<lparr>mtype := t, tag := u\<rparr>) = fcall_arrays f"
  by (simp add: fcall_arrays_def)

lemma gstrings_ok:
  "grepeat gstring n c = Some (xs, c') \<Longrightarrow> length xs = n \<and> list_all (str_ok \<circ> Some) xs"
  using grepeat_advances [of gstring n c xs c'] gstring_advances
    grepeat_all [of gstring "str_ok \<circ> Some" n c xs c'] gstring_str_ok by auto

lemma gqids_length: "grepeat gqid n c = Some (xs, c') \<Longrightarrow> length xs = n"
  using grepeat_advances [of gqid n c xs c'] gqid_advances by blast

lemma arrset_map_ok:
  "list_all (str_ok \<circ> Some) xs \<Longrightarrow> list_all str_ok a \<Longrightarrow> list_all str_ok (arrset (map Some xs) a)"
  by (auto simp: arrset_def list_all_iff dest: in_set_dropD)

lemma length_arrset [simp]: "length xs \<le> length a \<Longrightarrow> length (arrset xs a) = length a"
  by (simp add: arrset_def)

lemma m2s_T_arrays: "m2s_T f c = Some (g, c') \<Longrightarrow> fcall_arrays f \<Longrightarrow> fcall_arrays g \<and> mtype g = mtype f"
  unfolding m2s_T_def Let_def fcall_arrays_def
  by (auto simp: bind_eq_Some_conv arrset_map_ok split: if_split_asm
      dest: gstring_str_ok gstrings_ok)

lemma m2s_R_arrays: "m2s_R f c = Some (g, c') \<Longrightarrow> fcall_arrays f \<Longrightarrow> fcall_arrays g \<and> mtype g = mtype f"
  unfolding m2s_R_def Let_def fcall_arrays_def
  by (auto simp: bind_eq_Some_conv arrset_map_ok split: if_split_asm
      dest: gstring_str_ok gqids_length)

definition has_data :: "fcall \<Rightarrow> bool" where
  "has_data f \<longleftrightarrow>
     (mtype f \<in> {Twrite, Rread} \<longrightarrow> unat (fcount f) \<le> length (fdata f))
     \<and> (mtype f \<in> {Twstat, Rstat} \<longrightarrow> unat (nstat f) \<le> length (fstat f))"

lemma m2s_T_data: "m2s_T f c = Some (g, c') \<Longrightarrow> has_data g \<and> (mtype g = Twrite \<longrightarrow> unat (fcount g) \<le> length (snd c))"
  unfolding m2s_T_def Let_def has_data_def
  by (auto simp: bind_eq_Some_conv split: if_split_asm)

lemma m2s_R_data: "m2s_R f c = Some (g, c') \<Longrightarrow> has_data g \<and> (mtype g = Rread \<longrightarrow> unat (fcount g) \<le> length (snd c))"
  unfolding m2s_R_def Let_def has_data_def
  by (auto simp: bind_eq_Some_conv split: if_split_asm)

text \<open>C5: whatever bytes arrive, what \<open>convM2S\<close> accepts is a well-formed structure: at most
  \<open>MAXWELEM\<close> names or qids, NUL-free strings under 64K, data counts inside the buffer.\<close>

theorem convM2S_wf:
  assumes "convM2S ap f = Some (n, g, buf)" "fcall_arrays f" "length ap < 2 ^ 31"
  shows "fcall_wf g"
proof -
  define c where "c = adv 2 (adv 1 (adv 4 ([], ap)))"
  define f' where "f' = f\<lparr>mtype := GBIT8 (snd (adv 4 ([], ap))),
    tag := GBIT16 (snd (adv 1 (adv 4 ([], ap))))\<rparr>"
  have f': "fcall_arrays f'" using assms(2) by (simp add: f'_def)
  obtain c' where "(if mtype f' \<in> set T_types then m2s_T f' c else m2s_R f' c) = Some (g, c')"
    using assms(1) unfolding convM2S_def Let_def f'_def [symmetric] c_def [symmetric] bind_eq_Some_conv
    by (auto simp: bind_eq_Some_conv simp flip: f'_def c_def split: if_split_asm)
  then have g: "fcall_arrays g" "mtype g = mtype f'"
    "has_data g" "mtype g = Twrite \<or> mtype g = Rread \<longrightarrow> unat (fcount g) \<le> length (snd c)"
    using m2s_T_arrays [of f' c g c'] m2s_R_arrays [of f' c g c'] m2s_T_data [of f' c g c']
      m2s_R_data [of f' c g c'] f' by (auto simp: T_types_def split: if_splits)
  moreover have "length (snd c) < 2 ^ 31"
    using assms(3) by (simp add: c_def)
  ultimately show ?thesis
    by (auto simp: fcall_wf_def fcall_arrays_def has_data_def)
qed

section \<open>Where the encoder leaves its buffer\<close>

text \<open>C18: the size is summed in 32 bits: a \<open>Twrite\<close> whose count is near \<open>2 ^ 32\<close> gets size 1,
  passes the test against \<open>nap\<close>, and \<open>convS2M\<close> writes past the buffer.\<close>

theorem convS2M_size_wraps:
  assumes "mtype f = Twrite" "unat (fcount f) \<le> length (fdata f)"
    "unat (fcount f) = 2 ^ 32 - 22" "1 \<le> nap" "nap < 2 ^ 31"
  shows "sizeS2M f = Ok 1 \<and> convS2M f nap = Undef"
proof -
  have "of_nat (unat (fcount f)) = fcount f" by simp
  then have c: "fcount f = 4294967274" unfolding assms(3) by simp
  have "sizeS2M f = Ok 1"
    using assms(1) c by (simp add: sizeS2M_def Let_def)
  with assms show ?thesis
    by (simp add: convS2M_def s2m_T_def T_types_def rdmem_def Let_def)
qed

text \<open>\<open>convS2M\<close> sizes a \<open>Twalk\<close> before it tests \<open>nwname\<close> against \<open>MAXWELEM\<close>, so a count
  above \<open>MAXWELEM\<close> reads past the array \<open>wname\<close>; the test after it never takes effect.\<close>

theorem convS2M_walk_overrun:
  assumes "mtype f = Twalk" "length (wname f) = MAXWELEM" "MAXWELEM < unat (nwname f)"
  shows "convS2M f nap = Undef"
  using assms by (simp add: convS2M_def sizeS2M_def rdmem_def Let_def)

section \<open>Witnesses\<close>

definition sample_qid :: qid where
  "sample_qid = \<lparr>qtype = 128, qvers = 1, qpath = 7\<rparr>"

definition sample_fcall :: fcall where
  "sample_fcall = \<lparr>mtype = Twalk, fid = 1, tag = 5, msize = 8192,
     version = Some [57, 80, 50, 48, 48, 48], oldtag = 0, ename = None, fqid = sample_qid,
     iounit = 0, aqid = sample_qid, afid = 0, uname = Some [109], aname = None, perm = 0,
     fname = None, mode = 0, newfid = 2, nwname = 2,
     wname = [Some [117, 115, 114], None] @ replicate 14 None, nwqid = 0,
     wqid = replicate 16 sample_qid, foffset = 0, fcount = 0, fdata = [], nstat = 0,
     fstat = []\<rparr>"

definition sample_walk :: bytes where
  "sample_walk = [24, 0, 0, 0, 110, 5, 0, 1, 0, 0, 0, 2, 0, 0, 0, 2, 0, 3, 0, 117, 115, 114, 0, 0]"

lemma sample_wf [simp]: "fcall_wf sample_fcall"
  by (simp add: fcall_wf_def sample_fcall_def str_ok_def strval_def no_nul_def list_all_iff)

lemma sample_arrays [simp]: "fcall_arrays sample_fcall"
  by (simp add: fcall_arrays_def sample_fcall_def str_ok_def strval_def no_nul_def list_all_iff)

lemma sample_encoded: "convS2M sample_fcall 100 = Ok sample_walk"
  by (simp add: convS2M_def sizeS2M_def s2m_T_def T_types_def sample_fcall_def sample_walk_def
      rdmem_def Let_def stringsz_def pstring_def PBIT8_def PBIT16_def PBIT32_def)

lemma sample_flush: "convM2S [9, 0, 0, 0, 108, 5, 0, 3, 0, 77] sample_fcall =
    Some (9, sample_fcall\<lparr>mtype := Tflush, tag := 5, oldtag := 3\<rparr>, [9, 0, 0, 0, 108, 5, 0, 3, 0, 77])"
  by (simp add: convM2S_def m2s_T_def T_types_def adv_def need_def GBIT8_def GBIT16_def GBIT32_def
      Let_def)

theorem convM2S_frame_witness:
  "(9 :: u32) = GBIT32 [9, 0, 0, 0, 108, 5, 0, 3, 0, 77] \<and> sizeS2M (sample_fcall\<lparr>mtype := Tflush, tag := 5, oldtag := 3\<rparr>) = Ok 9"
  using convM2S_frame [OF sample_flush] by (simp add: string_types_def)

theorem convM2S_wf_witness: "fcall_wf (sample_fcall\<lparr>mtype := Tflush, tag := 5, oldtag := 3\<rparr>)"
  using convM2S_wf [OF sample_flush sample_arrays] by simp

theorem styx_roundtrip_witness:
  "\<exists>g buf. convM2S (sample_walk @ [9]) sample_fcall = Some (24, g, buf @ [9]) \<and> same_msg sample_fcall g"
  using styx_roundtrip [OF sample_wf sample_encoded, of "[9]" sample_fcall]
  by (auto simp: sample_walk_def)

theorem convS2M_safe_witness: "sizeS2M sample_fcall = Ok 24 \<and> convS2M sample_fcall 24 = Ok sample_walk \<and> convS2M sample_fcall 23 = Fail"
proof -
  have t: "mtype sample_fcall \<in> set T_types" by (simp add: sample_fcall_def T_types_def)
  have b: "s2m_T sample_fcall = Ok (drop 7 sample_walk)"
    by (simp add: s2m_T_def sample_fcall_def sample_walk_def rdmem_def Let_def pstring_def PBIT16_def PBIT32_def)
  have l: "7 + length (drop 7 sample_walk) = 24" by (simp add: sample_walk_def)
  have "PBIT32 24 @ PBIT8 (mtype sample_fcall) @ PBIT16 (fcall.tag sample_fcall) @ drop 7 sample_walk = sample_walk"
    by (simp add: sample_fcall_def sample_walk_def PBIT8_def PBIT16_def PBIT32_def)
  then show ?thesis
    using convS2M_safe [OF sample_wf] t b l by simp
qed

theorem convS2M_size_wraps_witness:
  "convS2M (sample_fcall\<lparr>mtype := Twrite, fcount := 4294967274, fdata := replicate (2 ^ 32) 0\<rparr>) 100 = Undef"
  using convS2M_size_wraps
    [of "sample_fcall\<lparr>mtype := Twrite, fcount := 4294967274, fdata := replicate (2 ^ 32) 0\<rparr>" 100]
  by simp

theorem convS2M_walk_overrun_witness: "convS2M (sample_fcall\<lparr>nwname := 17\<rparr>) 100 = Undef"
  by (rule convS2M_walk_overrun) (simp_all add: sample_fcall_def)

end
