(* ===== verification/StatMsg.thy ===== *)
theory StatMsg
  imports Styx
begin

text \<open>
  Directory entries on the wire: \<open>sizeD2M\<close>, \<open>convD2M\<close> (\<open>lib9/convD2M.c\<close>), \<open>statcheck\<close>
  and \<open>convM2D\<close> (\<open>lib9/convM2D.c\<close>).  \<open>convD2M\<close> returns a byte count and the bytes it
  wrote; \<open>convM2D\<close> the bytes it consumed, the structure and what it stored in \<open>strs\<close>.
\<close>

abbreviation "STATFIXLEN \<equiv> (49 :: nat)"

record dir =
  dtype :: u16
  ddev :: u32
  dqid :: qid
  dmode :: u32
  atime :: u32
  mtime :: u32
  dlength :: u64
  dname :: "cstr option"
  uid :: "cstr option"
  gid :: "cstr option"
  muid :: "cstr option"

section \<open>Encoding\<close>

definition sizeD2M :: "dir \<Rightarrow> nat" where
  "sizeD2M d = (let sv = [dname d, uid d, gid d, muid d];
       ns = foldl (\<lambda>ns s. case s of None \<Rightarrow> ns | Some s \<Rightarrow> ns + length s) 0 sv
     in STATFIXLEN + ns)"

fun d2m_strs :: "nat \<Rightarrow> cstr option list \<Rightarrow> bytes \<Rightarrow> bool \<times> bytes" where
  "d2m_strs nbuf [] p = (True, p)"
| "d2m_strs nbuf (s # sv) p =
     (let s = (case s of None \<Rightarrow> [] | Some s \<Rightarrow> s); ns = length s in
      if nbuf < length p + ns + 2 then (False, p)
      else d2m_strs nbuf sv (p @ PBIT16 (of_nat ns) @ s))"

definition convD2M :: "dir \<Rightarrow> nat \<Rightarrow> nat \<times> bytes" where
  "convD2M d nbuf =
     (if nbuf < 2 then (0, [])
      else
        let sv = [dname d, uid d, gid d, muid d];
            ns = foldl (\<lambda>ns s. case s of None \<Rightarrow> ns + 0 | Some s \<Rightarrow> ns + length s) 0 sv;
            ss = STATFIXLEN + ns;
            p = PBIT16 (of_nat (ss - 2))
        in if nbuf < ss then (2, p)
        else
          let p = p @ PBIT16 (dtype d) @ PBIT32 (ddev d) @ PBIT8 (qtype (dqid d))
                @ PBIT32 (qvers (dqid d)) @ PBIT64 (qpath (dqid d)) @ PBIT32 (dmode d)
                @ PBIT32 (atime d) @ PBIT32 (mtime d) @ PBIT64 (dlength d);
              (ok, p) = d2m_strs nbuf sv p
          in if \<not> ok then (0, p)
          else if ss \<noteq> length p then (0, p)
          else (length p, p))"

section \<open>Checking and decoding\<close>

fun statcheck_loop :: "bytes \<Rightarrow> nat \<Rightarrow> nat \<Rightarrow> nat option" where
  "statcheck_loop buf 0 p = Some p"
| "statcheck_loop buf (Suc i) p =
     (if length buf < p + 2 then None
      else statcheck_loop buf i (p + (2 + unat (GBIT16 (drop p buf)))))"

text \<open>\<open>True\<close> is the return value 0, \<open>False\<close> is -1.\<close>

definition statcheck :: "bytes \<Rightarrow> bool" where
  "statcheck buf =
     (if length buf < STATFIXLEN \<or> length buf \<noteq> 2 + unat (GBIT16 buf) then False
      else case statcheck_loop buf 4 (STATFIXLEN - 4 * 2) of
        None \<Rightarrow> False
      | Some p \<Rightarrow> p = length buf)"

text \<open>The string loop: each string copied to \<open>strs\<close>, with a NUL behind it.\<close>

fun m2d_strs :: "nat \<Rightarrow> cursor \<Rightarrow> (bytes list \<times> cursor) option" where
  "m2d_strs 0 c = Some ([], c)"
| "m2d_strs (Suc i) c = do {
     need 2 c;
     let ns = unat (GBIT16 (snd c));
     let c = adv 2 c;
     need ns c;
     (sv, c') \<leftarrow> m2d_strs i (adv ns c);
     Some (take ns (snd c) # sv, c') }"

definition convM2D :: "bytes \<Rightarrow> bool \<Rightarrow> (nat \<times> dir \<times> bytes) option" where
  "convM2D buf strs =
     (if length buf < STATFIXLEN then None
      else
        let c0 = adv 2 ([], buf); c1 = adv 2 c0; c2 = adv 4 c1; c3 = adv 1 c2; c4 = adv 4 c3;
            c5 = adv 8 c4; c6 = adv 4 c5; c7 = adv 4 c6; c8 = adv 4 c7
        in do {
        (sv, c) \<leftarrow> m2d_strs 4 (adv 8 c8);
        let str = (\<lambda>i. if strs then Some (cstr_of (sv ! i @ [0])) else Some []);
        Some (length (fst c),
          \<lparr>dtype = GBIT16 (snd c0), ddev = GBIT32 (snd c1),
           dqid = \<lparr>qtype = GBIT8 (snd c2), qvers = GBIT32 (snd c3), qpath = GBIT64 (snd c4)\<rparr>,
           dmode = GBIT32 (snd c5), atime = GBIT32 (snd c6), mtime = GBIT32 (snd c7),
           dlength = GBIT64 (snd c8),
           dname = str 0, uid = str 1, gid = str 2, muid = str 3\<rparr>,
          if strs then concat (map (\<lambda>s. s @ [0]) sv) else []) })"

section \<open>Properties\<close>

definition dir_ok :: "dir \<Rightarrow> bool" where
  "dir_ok d \<longleftrightarrow> list_all str_ok [dname d, uid d, gid d, muid d]"

text \<open>\<open>nil\<close> strings come back as empty ones.\<close>

definition dir_norm :: "dir \<Rightarrow> dir" where
  "dir_norm d = d\<lparr>dname := Some (strval (dname d)), uid := Some (strval (uid d)),
     gid := Some (strval (gid d)), muid := Some (strval (muid d))\<rparr>"

lemma sizeD2M_strval: "sizeD2M d = 49 + length (strval (dname d)) + length (strval (uid d))
    + length (strval (gid d)) + length (strval (muid d))"
  by (simp add: sizeD2M_def strval_def Let_def split: option.split)

lemma d2m_ns: "foldl (\<lambda>ns s. case s of None \<Rightarrow> ns + 0 | Some s \<Rightarrow> ns + length s) 0
    [dname d, uid d, gid d, muid d] = sizeD2M d - 49"
  by (simp add: sizeD2M_strval strval_def split: option.split)

lemma pstring_case: "PBIT16 (of_nat (length (case s of None \<Rightarrow> [] | Some s \<Rightarrow> s))) @
    (case s of None \<Rightarrow> [] | Some s \<Rightarrow> s) = pstring s"
  by (simp add: pstring_def split: option.split)

lemma d2m_strs_eq:
  "length p + length (concat (map pstring sv)) \<le> nbuf \<Longrightarrow>
     d2m_strs nbuf sv p = (True, p @ concat (map pstring sv))"
  by (induction sv arbitrary: p) (auto simp: Let_def pstring_case length_pstring_eq
      strval_def split: option.split)

definition dir_bytes :: "dir \<Rightarrow> bytes" where
  "dir_bytes d = PBIT16 (of_nat (sizeD2M d - 2)) @ PBIT16 (dtype d) @ PBIT32 (ddev d)
     @ PBIT8 (qtype (dqid d)) @ PBIT32 (qvers (dqid d)) @ PBIT64 (qpath (dqid d))
     @ PBIT32 (dmode d) @ PBIT32 (atime d) @ PBIT32 (mtime d) @ PBIT64 (dlength d)
     @ concat (map pstring [dname d, uid d, gid d, muid d])"

lemma length_dir_bytes: "length (dir_bytes d) = sizeD2M d"
  by (simp add: dir_bytes_def sizeD2M_strval length_pstring_eq)

lemma convD2M_eq:
  "convD2M d nbuf = (if nbuf < 2 then (0, [])
     else if nbuf < sizeD2M d then (2, PBIT16 (of_nat (sizeD2M d - 2)))
     else (sizeD2M d, dir_bytes d))"
proof -
  have s: "49 + (sizeD2M d - 49) = sizeD2M d" by (simp add: sizeD2M_strval)
  have l: "length (concat (map pstring [dname d, uid d, gid d, muid d])) = sizeD2M d - 41"
    by (simp add: sizeD2M_strval length_pstring_eq)
  show ?thesis
    unfolding convD2M_def Let_def d2m_ns s
    using l by (cases "nbuf < sizeD2M d")
      (auto simp: d2m_strs_eq dir_bytes_def sizeD2M_strval length_pstring_eq simp del: d2m_strs.simps)
qed

text \<open>\<open>convD2M\<close> fails only below two bytes of buffer; when the entry does not fit it
  returns 2 and writes exactly the 16-bit count (the room needed less 2); otherwise it fills
  \<open>sizeD2M\<close> bytes.  It never writes past the buffer.\<close>

theorem convD2M_spec:
  "case convD2M d nbuf of (n, out) \<Rightarrow>
     n = length out \<and> length out \<le> nbuf
     \<and> n = (if nbuf < 2 then 0 else if nbuf < sizeD2M d then 2 else sizeD2M d)
     \<and> take 2 out = (if nbuf < 2 then [] else PBIT16 (of_nat (sizeD2M d - 2)))"
  by (simp add: convD2M_eq length_dir_bytes) (simp add: dir_bytes_def codec_simps)

lemma m2d_strs_pstrings:
  "list_all str_ok sv \<Longrightarrow> m2d_strs (length sv) (d, concat (map pstring sv) @ r)
     = Some (map strval sv, (d @ concat (map pstring sv), r))"
  by (induction sv arbitrary: d) (simp_all add: codec_simps pstring_strval str_ok_def
      unat_of_nat_lt Let_def)

text \<open>C13: an entry written by \<open>convD2M\<close> and followed by anything is read back by \<open>convM2D\<close>
  with every field, the same length, and its four strings in \<open>strs\<close>.\<close>

theorem dir_roundtrip:
  assumes "dir_ok d" "convD2M d nbuf = (n, out)" "sizeD2M d \<le> nbuf"
  shows "convM2D (out @ rest) True = Some (n, dir_norm d,
    concat (map (\<lambda>s. strval s @ [0]) [dname d, uid d, gid d, muid d]))"
proof -
  have out: "out = dir_bytes d" "n = sizeD2M d"
    using assms(2,3) by (simp_all add: convD2M_eq sizeD2M_strval split: if_splits)
  have sv: "m2d_strs 4 (p, pstring (dname d) @ pstring (uid d) @ pstring (gid d) @ pstring (muid d) @ rest)
     = Some (map strval [dname d, uid d, gid d, muid d],
        (p @ concat (map pstring [dname d, uid d, gid d, muid d]), rest))" for p
  proof -
    have "length [dname d, uid d, gid d, muid d] = 4" by simp
    then show ?thesis
      using m2d_strs_pstrings [of "[dname d, uid d, gid d, muid d]" p rest] assms(1)
      unfolding dir_ok_def by (simp only: concat.simps list.map append_assoc append_Nil2 append_Nil)
  qed
  have ok: "no_nul (strval (dname d))" "no_nul (strval (uid d))" "no_nul (strval (gid d))"
    "no_nul (strval (muid d))"
    using assms(1) by (simp_all add: dir_ok_def str_ok_def)
  show ?thesis
    unfolding out by (simp add: convM2D_def dir_bytes_def codec_simps sv Let_def dir_norm_def ok
      cstr_of_append_nul sizeD2M_strval length_pstring_eq)
qed

definition sample_dir :: dir where
  "sample_dir = \<lparr>dtype = 77, ddev = 3, dqid = \<lparr>qtype = 128, qvers = 2, qpath = 0x100000001\<rparr>,
     dmode = 0x800001ED, atime = 5, mtime = 6, dlength = 0, dname = Some [97, 98], uid = Some [99],
     gid = None, muid = Some []\<rparr>"

lemma sample_dir_facts:
  "dir_ok sample_dir" "sizeD2M sample_dir = 52"
  "convD2M sample_dir 100 = (52, dir_bytes sample_dir)"
  by (simp_all add: convD2M_eq) (simp_all add: sample_dir_def dir_ok_def str_ok_def no_nul_def
    strval_def sizeD2M_strval)

theorem dir_roundtrip_witness:
  "convM2D (dir_bytes sample_dir @ [1, 2]) True = Some (52, dir_norm sample_dir,
     concat (map (\<lambda>s. strval s @ [0]) [dname sample_dir, uid sample_dir, gid sample_dir,
       muid sample_dir]))"
  by (rule dir_roundtrip [where nbuf = 100]) (simp_all add: sample_dir_facts)

lemma statcheck_loop_m2d:
  "p \<le> length buf \<Longrightarrow> statcheck_loop buf i p = Some (length buf) \<longleftrightarrow>
     (\<exists>sv d. m2d_strs i (take p buf, drop p buf) = Some (sv, (d, [])))"
proof (induction i arbitrary: p)
  case 0
  then show ?case by auto
next
  case (Suc i)
  let ?n = "unat (GBIT16 (drop p buf))"
  show ?case
  proof (cases "p + 2 + ?n \<le> length buf")
    case True
    have "take p buf @ take 2 (drop p buf) @ take ?n (drop (p + 2) buf) = take (p + 2 + ?n) buf"
      unfolding take_add drop_drop by (simp only: append_assoc add.commute)
    then have c: "adv ?n (adv 2 (take p buf, drop p buf))
        = (take (p + (2 + ?n)) buf, drop (p + (2 + ?n)) buf)"
      by (simp only: adv_def fst_conv snd_conv drop_drop append_assoc ac_simps)
    have n: "need 2 (take p buf, drop p buf) = Some ()"
      "need ?n (adv 2 (take p buf, drop p buf)) = Some ()"
      using True by (simp_all add: adv_def)
    have "statcheck_loop buf (Suc i) p = statcheck_loop buf i (p + (2 + ?n))"
      using True by simp
    then show ?thesis
      using True Suc.IH [of "p + (2 + ?n)"]
      by (simp only: m2d_strs.simps n c Let_def snd_conv) (fastforce simp: bind_eq_Some_conv)
  next
    case False
    have "statcheck_loop buf j q \<noteq> Some (length buf)" if "length buf < q" for j q
      using that by (induction j arbitrary: q) auto
    with False show ?thesis
      by (auto simp: codec_simps Let_def bind_eq_Some_conv)
  qed
qed

lemma m2d_strs_advances: "m2d_strs i c = Some (sv, c') \<Longrightarrow> advances c c' \<and> length sv = i"
proof (induction i arbitrary: c sv)
  case (Suc i)
  let ?n = "unat (GBIT16 (snd c))"
  from Suc.prems obtain sv' where 2: "2 \<le> length (snd c)" "?n \<le> length (snd (adv 2 c))"
    and sv: "m2d_strs i (adv ?n (adv 2 c)) = Some (sv', c')" "length sv = Suc (length sv')"
    by (auto simp: bind_eq_Some_conv Let_def)
  have "advances c (adv ?n (adv 2 c))"
    using 2 by (blast intro: advances_trans advances_adv)
  with Suc.IH [OF sv(1)] sv(2) show ?case
    by (auto intro: advances_trans)
qed simp

text \<open>C14: \<open>statcheck\<close> accepts exactly the buffers whose count is right and which
  \<open>convM2D\<close> decodes to the last byte.\<close>

theorem statcheck_iff_convM2D:
  "statcheck buf \<longleftrightarrow> length buf = 2 + unat (GBIT16 buf)
     \<and> (\<exists>d s. convM2D buf b = Some (length buf, d, s))"
proof (cases "length buf < 49")
  case True
  then show ?thesis by (simp add: statcheck_def convM2D_def)
next
  case False
  have c: "adv 8 (adv 4 (adv 4 (adv 4 (adv 8 (adv 4 (adv 1 (adv 4 (adv 2 (adv 2 ([], buf))))))))))
      = (take 41 buf, drop 41 buf)"
    by (simp add: codec_simps flip: take_add)
  have "(\<exists>d s. convM2D buf b = Some (length buf, d, s)) \<longleftrightarrow>
     (\<exists>sv d. m2d_strs 4 (take 41 buf, drop 41 buf) = Some (sv, (d, [])))"
  proof -
    have "length (fst c') = length buf \<longleftrightarrow> snd c' = []"
      if "m2d_strs 4 (take 41 buf, drop 41 buf) = Some (sv, c')" for sv c'
      using m2d_strs_advances [OF that] False advances_length by fastforce
    then show ?thesis
      using False unfolding convM2D_def Let_def c
      by (auto simp: bind_eq_Some_conv)
  qed
  with False show ?thesis
    using statcheck_loop_m2d [of 41 buf 4] by (auto simp: statcheck_def split: option.splits)
qed

end
