(* ===== verification/Rune.thy ===== *)
theory Rune
  imports Prelude
begin

unbundle bit_operations_syntax

text \<open>
  UTF-8 for 16-bit runes, \<open>lib9/rune.c\<close>: \<open>chartorune\<close>, \<open>runetochar\<close>, \<open>runelen\<close>,
  \<open>runenlen\<close>, \<open>fullrune\<close>.  A \<open>char*\<close> is the memory from the pointer on; reading behind the
  end of it is \<open>Undef\<close>.  \<open>int\<close> and \<open>long\<close> variables that hold byte values are 32-bit words.
  The decoder is first rewritten into arithmetic on byte values (\<open>chartorune_ctr\<close>,
  \<open>runetochar_arith\<close>); the two theorems say that encoding and decoding are inverse and that
  no other spelling is accepted.
\<close>

section \<open>rune.c\<close>

abbreviation "Runeself \<equiv> (0x80 :: u8)"
abbreviation "Bitx \<equiv> (6 :: nat)"
abbreviation "Tx \<equiv> (0x80 :: u32)"
abbreviation "T2 \<equiv> (0xC0 :: u32)"
abbreviation "T3 \<equiv> (0xE0 :: u32)"
abbreviation "T4 \<equiv> (0xF0 :: u32)"
abbreviation "Rune1 \<equiv> (0x7F :: u32)"
abbreviation "Rune2 \<equiv> (0x7FF :: u32)"
abbreviation "Rune3 \<equiv> (0xFFFF :: u32)"
abbreviation "Maskx \<equiv> (0x3F :: u32)"
abbreviation "Testx \<equiv> (0xC0 :: u32)"
abbreviation "Bad \<equiv> (0x80 :: u16)"

definition chartorune :: "bytes \<Rightarrow> (u16 \<times> nat) outcome" where
  "chartorune str = obind (rdat str 0) (\<lambda>b. let c = ucast b :: u32; bad = Ok (Bad, 1) in
     if c < Tx then Ok (ucast c, 1)
     else obind (rdat str 1) (\<lambda>b1. let c1 = ucast b1 XOR Tx in
       if c1 AND Testx \<noteq> 0 then bad
       else if c < T3 then
         if c < T2 then bad
         else let l = (push_bit Bitx c OR c1) AND Rune2 in
           if l \<le> Rune1 then bad else Ok (ucast l, 2)
       else obind (rdat str 2) (\<lambda>b2. let c2 = ucast b2 XOR Tx in
         if c2 AND Testx \<noteq> 0 then bad
         else if c < T4 then
           let l = (push_bit Bitx (push_bit Bitx c OR c1) OR c2) AND Rune3 in
             if l \<le> Rune2 then bad else Ok (ucast l, 3)
         else bad)))"

definition runetochar :: "u16 \<Rightarrow> bytes" where
  "runetochar r = (let c = ucast r :: u32 in
     if c \<le> Rune1 then [ucast c]
     else if c \<le> Rune2 then
       [ucast (T2 OR drop_bit Bitx c), ucast (Tx OR (c AND Maskx))]
     else
       [ucast (T3 OR drop_bit (2 * Bitx) c), ucast (Tx OR (drop_bit Bitx c AND Maskx)),
        ucast (Tx OR (c AND Maskx))])"

definition runelen :: "u32 \<Rightarrow> nat" where
  "runelen c = (if c \<le> Rune1 then 1 else if c \<le> Rune2 then 2 else 3)"

fun runenlen :: "u16 list \<Rightarrow> nat" where
  "runenlen [] = 0"
| "runenlen (c # r) =
     (if ucast c \<le> Rune1 then 1 else if ucast c \<le> Rune2 then 2 else 3) + runenlen r"

definition fullrune :: "bytes \<Rightarrow> int \<Rightarrow> bool outcome" where
  "fullrune str n =
     (if n > 0 then
        obind (rdat str 0) (\<lambda>b. let c = ucast b :: u32 in
          if c < Tx then Ok True
          else if n > 1 \<and> (c < T3 \<or> n > 2) then Ok True
          else Ok False)
      else Ok False)"

section \<open>The decoder in arithmetic\<close>

definition cont_byte :: "u8 \<Rightarrow> bool" where
  "cont_byte b \<longleftrightarrow> (ucast b AND 0xC0 :: u32) = 0x80"

lemma unat_ucast_u8_u32 [simp]: "unat (ucast (b :: u8) :: u32) = unat b"
proof -
  have "unat b < 2 ^ 32" using unat_u8_lt [of b] by (rule less_trans) simp
  then show ?thesis by (simp add: unsigned_ucast_eq take_bit_nat_eq_self)
qed

lemma bit_128_192:
  "bit (2 :: int) n \<longleftrightarrow> n = 1" "bit (128 :: int) n \<longleftrightarrow> n = 7" "bit (192 :: int) n \<longleftrightarrow> n = 6 \<or> n = 7"
proof -
  have "(2 :: int) = push_bit 1 1" and "(128 :: int) = push_bit 7 1" and "(192 :: int) = push_bit 6 (mask 2)"
    by (simp_all add: mask_eq_exp_minus_1)
  then show "bit (2 :: int) n \<longleftrightarrow> n = 1" "bit (128 :: int) n \<longleftrightarrow> n = 7" "bit (192 :: int) n \<longleftrightarrow> n = 6 \<or> n = 7"
    by (simp_all only: bit_push_bit_iff bit_1_iff bit_mask_iff possible_bit_def) auto
qed

lemma cont_byte_bits: "cont_byte b \<longleftrightarrow> bit b 7 \<and> \<not> bit b 6"
proof -
  have "cont_byte b \<longleftrightarrow> (\<forall>n < 32. (bit b n \<and> (n = 6 \<or> n = 7)) = (n = 7))"
    by (auto simp: cont_byte_def bit_eq_iff [of _ "0x80 :: u32"] bit_and_iff bit_128_192 bit_ucast_iff)
  also have "\<dots> \<longleftrightarrow> bit b 7 \<and> \<not> bit b 6"
    by (auto dest: spec [of _ 6] spec [of _ 7])
  finally show ?thesis .
qed

lemma xor_eq_0: "x XOR y = 0 \<longleftrightarrow> x = y" for x y :: "'a::len word"
  by (auto simp: bit_eq_iff bit_xor_iff)

lemma cont_byte_xor: "(ucast b XOR 0x80 :: u32) AND 0xC0 = 0 \<longleftrightarrow> cont_byte b"
proof -
  have "(ucast b XOR 0x80 :: u32) AND 0xC0 = (ucast b AND 0xC0) XOR 0x80"
    by (rule bit_word_eqI) (auto simp: bit_xor_iff bit_and_iff bit_128_192)
  then show ?thesis by (simp add: cont_byte_def xor_eq_0)
qed

lemma cont_byte_take: "cont_byte b \<Longrightarrow> (ucast b XOR 0x80 :: u32) = take_bit 6 (ucast b)"
proof (rule bit_word_eqI)
  fix n assume b: "cont_byte b" and "n < LENGTH(32)"
  have "n < 6 \<or> n = 6 \<or> n = 7 \<or> 8 \<le> n" by arith
  then show "bit (ucast b XOR 0x80 :: u32) n = bit (take_bit 6 (ucast b) :: u32) n"
    using b unfolding cont_byte_bits
    by (elim disjE) (auto simp: bit_simps bit_128_192 dest: bit_imp_le_length)
qed

lemma u8_split: "cont_byte b \<longleftrightarrow> unat b div 64 = 2"
proof -
  have "drop_bit 6 b = 2 \<longleftrightarrow> bit b 7 \<and> \<not> bit b 6"
  proof -
    have "drop_bit 6 b = 2 \<longleftrightarrow> (\<forall>n < 8. bit b (6 + n) = (n = 1))"
      by (auto simp: bit_eq_iff [of _ "2 :: u8"] bit_drop_bit_eq bit_128_192)
    also have "\<dots> \<longleftrightarrow> bit b 7 \<and> \<not> bit b 6"
    proof
      assume a: "\<forall>n < 8. bit b (6 + n) = (n = 1)"
      from a [rule_format, of 0] a [rule_format, of 1] show "bit b 7 \<and> \<not> bit b 6" by simp
    next
      assume a: "bit b 7 \<and> \<not> bit b 6"
      show "\<forall>n < 8. bit b (6 + n) = (n = 1)"
      proof (intro allI impI)
        fix n :: nat
        have "n = 0 \<or> n = 1 \<or> 8 \<le> 6 + n" by arith
        with a show "bit b (6 + n) = (n = 1)" using bit_imp_le_length [of b "6 + n"] by auto
      qed
    qed
    finally show ?thesis .
  qed
  then show ?thesis
    by (simp add: cont_byte_bits word_unat_eq_iff unsigned_drop_bit_eq take_bit_nat_eq_self)
      (simp add: drop_bit_eq_div)
qed

lemma cont_byte [word_nat]: "cont_byte b \<longleftrightarrow> 128 \<le> unat b \<and> unat b < 192"
  unfolding u8_split by arith

lemma cont_byte_val: "cont_byte b \<Longrightarrow> unat (ucast b XOR 0x80 :: u32) = unat b - 128"
proof -
  assume b: "cont_byte b"
  then have "unat b div 64 = 2" by (simp add: u8_split)
  then have "unat b mod 64 = unat b - 128"
    using mod_mult_div_eq [of "unat b" 64] by linarith
  then show ?thesis
    using b by (simp add: cont_byte_take take_bit_eq_mod unat_mod_distrib)
qed

lemma or_plus:
  fixes c d :: u32
  assumes "2 ^ k * unat c + unat d < 2 ^ 32" "unat d < 2 ^ k"
  shows "unat (push_bit k c OR d) = 2 ^ k * unat c + unat d"
proof -
  have d: "take_bit k d = d"
    using assms(2) by (simp add: word_unat_eq_iff unsigned_take_bit_eq take_bit_nat_eq_self)
  have "push_bit k c AND take_bit k d = 0"
    by (rule bit_word_eqI) (auto simp: bit_simps)
  then have "push_bit k c OR d = push_bit k c + d"
    unfolding d by (simp add: disjunctive_add_eq_or)
  also have "\<dots> = of_nat (2 ^ k * unat c + unat d)"
    by (simp add: push_bit_eq_mult)
  finally show ?thesis
    using assms(1) by (simp add: unat_of_nat_lt del: of_nat_add of_nat_mult)
qed

lemma or_plus_eq:
  "unat c = m \<Longrightarrow> unat d = k \<Longrightarrow> m < 67108864 \<Longrightarrow> k < 64 \<Longrightarrow>
     unat (push_bit 6 c OR d :: u32) = 64 * m + k"
  using or_plus [of 6 c d] by simp

lemma or_tag: "unat d < 64 \<Longrightarrow> unat (Tx OR d) = 128 + unat d"
  "unat d < 64 \<Longrightarrow> unat (T2 OR d) = 192 + unat d" "unat d < 32 \<Longrightarrow> unat (T3 OR d) = 224 + unat d"
  using or_plus [of 6 2 d] or_plus [of 6 3 d] or_plus [of 5 7 d] by simp_all

lemma unat_and_mask [word_nat]:
  "unat (x AND 0x7FF :: u32) = unat x mod 2048"
  "unat (x AND 0xFFFF :: u32) = unat x mod 65536"
  "unat (x AND 0x3F :: u32) = unat x mod 64"
proof -
  have "unat (x AND mask n) = unat x mod 2 ^ n" for n
    using unsigned_take_bit_eq [of n x] by (simp add: take_bit_eq_mod flip: take_bit_eq_mask)
  from this [of 11] this [of 16] this [of 6] show "unat (x AND 0x7FF :: u32) = unat x mod 2048"
    "unat (x AND 0xFFFF :: u32) = unat x mod 65536" "unat (x AND 0x3F :: u32) = unat x mod 64"
    by (simp_all add: mask_eq_exp_minus_1)
qed

lemma cont_byte_mod: "192 \<le> unat b \<Longrightarrow> (64 * unat b + k) mod 2048 = (64 * (unat b - 192) + k) mod 2048"
  for b :: u8
proof -
  assume "192 \<le> unat b"
  then have "64 * unat b + k = 64 * (unat b - 192) + k + 6 * 2048" by simp
  then show ?thesis by (metis mod_mult_self1)
qed

text \<open>\<open>chartorune\<close> with the bit operations read as arithmetic on the bytes.\<close>

definition ctr :: "bytes \<Rightarrow> (u16 \<times> nat) outcome" where
  "ctr s = obind (rdat s 0) (\<lambda>b.
     if unat b < 128 then Ok (ucast b, 1)
     else obind (rdat s 1) (\<lambda>b1.
       if \<not> cont_byte b1 then Ok (Bad, 1)
       else if unat b < 224 then
         let l = 64 * (unat b - 192) + (unat b1 - 128) in
         if unat b < 192 \<or> l < 128 then Ok (Bad, 1) else Ok (of_nat l, 2)
       else obind (rdat s 2) (\<lambda>b2.
         let l = 4096 * (unat b - 224) + 64 * (unat b1 - 128) + (unat b2 - 128) in
         if \<not> cont_byte b2 \<or> 240 \<le> unat b \<or> l < 2048 then Ok (Bad, 1)
         else Ok (of_nat l, 3))))"

lemma chartorune_ctr: "chartorune s = ctr s"
proof -
  have 2: "unat ((push_bit 6 (ucast b) OR (ucast b1 XOR 0x80)) AND 0x7FF :: u32)
      = 64 * (unat b - 192) + (unat b1 - 128)"
    if b: "cont_byte b1" "192 \<le> unat b" "unat b < 224" for b b1 :: u8
  proof -
    have "unat b1 - 128 < 64" using b(1) unfolding cont_byte by linarith
    then show ?thesis
      using b unat_u8_lt [of b] cont_byte_mod [OF b(2), of "unat b1 - 128"]
      by (simp add: unat_and_mask or_plus cont_byte_val)
  qed
  have 3: "unat ((push_bit 6 (push_bit 6 (ucast b) OR (ucast b1 XOR 0x80)) OR (ucast b2 XOR 0x80))
      AND 0xFFFF :: u32) = 4096 * (unat b - 224) + 64 * (unat b1 - 128) + (unat b2 - 128)"
    if b: "cont_byte b1" "cont_byte b2" "224 \<le> unat b" "unat b < 240" for b b1 b2 :: u8
  proof -
    have "unat b1 - 128 < 64" "unat b2 - 128 < 64" using b(1,2) unfolding cont_byte by linarith+
    note lt = this
    have 1: "unat (push_bit 6 (ucast b) OR (ucast b1 XOR 0x80) :: u32) = 64 * unat b + (unat b1 - 128)"
      by (rule or_plus_eq [OF unat_ucast_u8_u32 cont_byte_val [OF b(1)]]) (use lt b in simp_all)
    have 2: "unat (push_bit 6 (push_bit 6 (ucast b) OR (ucast b1 XOR 0x80)) OR (ucast b2 XOR 0x80) :: u32)
       = 64 * (64 * unat b + (unat b1 - 128)) + (unat b2 - 128)"
      by (rule or_plus_eq [OF 1 cont_byte_val [OF b(2)]]) (use lt b in simp_all)
    have "64 * (64 * unat b + (unat b1 - 128)) + (unat b2 - 128)
      = 4096 * (unat b - 224) + 64 * (unat b1 - 128) + (unat b2 - 128) + 14 * 65536"
      using b(3) by simp
    moreover have "4096 * (unat b - 224) + 64 * (unat b1 - 128) + (unat b2 - 128) < 65536"
      using lt b(4) by simp
    ultimately show ?thesis
      unfolding unat_and_mask 2 by (metis mod_less mod_mult_self1)
  qed
  have u: "ucast x = (of_nat n :: u16)" if "unat x = n" for x :: u32 and n
    by (simp flip: that)
  have cmp: "(ucast b < Tx) = (unat b < 128)" "(ucast b < T2) = (unat b < 192)"
    "(ucast b < T3) = (unat b < 224)" "(ucast b < T4) = (unat b < 240)"
    "(x \<le> Rune1) = (unat x < 128)" "(x \<le> Rune2) = (unat x < 2048)" for b :: u8 and x :: u32
    by (auto simp: word_less_nat_alt word_le_nat_alt)
  have "(x AND Testx \<noteq> 0) = (\<not> cont_byte b)" if "x = ucast b XOR Tx" for x :: u32 and b
    using that by (simp add: cont_byte_xor)
  then have c: "(ucast b XOR Tx) AND Testx \<noteq> (0 :: u32) \<longleftrightarrow> \<not> cont_byte b" for b
    by simp
  show ?thesis
    unfolding chartorune_def ctr_def Let_def cmp c
    by (intro obind_cong refl, rename_tac b, case_tac "unat b < 192"; case_tac "unat b < 224";
      case_tac "unat b < 240") (auto simp: 2 3 u not_less intro!: obind_cong
      simp del: push_bit_or push_bit_xor)
qed

lemma unat_ucast_u16_u32 [simp]: "unat (ucast (r :: u16) :: u32) = unat r"
proof -
  have "unat r < 2 ^ 32" using unat_u16_lt [of r] by (rule less_trans) simp
  then show ?thesis by (simp add: unsigned_ucast_eq take_bit_nat_eq_self)
qed

lemma runetochar_arith:
  "runetochar r = (let c = unat r in
     if c < 128 then [of_nat c]
     else if c < 2048 then [of_nat (192 + c div 64), of_nat (128 + c mod 64)]
     else [of_nat (224 + c div 4096), of_nat (128 + c div 64 mod 64), of_nat (128 + c mod 64)])"
proof -
  have u: "ucast x = (of_nat (unat x) :: u8)" for x :: u32
    by simp
  have d: "unat (drop_bit 6 x) = unat x div 64" "unat (drop_bit 12 x) = unat x div 4096" for x :: u32
    by (simp_all add: drop_bit_eq_div unat_div_distrib)
  have r: "unat r div 4096 < 32" using unat_u16_lt [of r] by linarith
  show ?thesis
    unfolding runetochar_def Let_def u
    by (auto simp: word_le_nat_alt or_tag d unat_and_mask r simp del: of_nat_unat of_nat_add)
qed

lemma length_runetochar: "length (runetochar r) = runelen (ucast r)"
  by (simp add: runetochar_def runelen_def Let_def)

lemma runelen_pos [simp]: "0 < runelen c" "runelen c \<le> 3"
  by (simp_all add: runelen_def)

lemma unat_of_nat_u8 [word_nat]: "n < 256 \<Longrightarrow> unat (of_nat n :: u8) = n"
  by (rule unat_of_nat_lt) simp

lemma chartorune_runetochar_len:
  "chartorune (runetochar r @ rest) = Ok (r, length (runetochar r))"
proof -
  have m: "m mod 64 < 64" for m :: nat by simp
  have c: "unat (of_nat (128 + m mod 64) :: u8) = 128 + m mod 64" for m
    using m [of m] by (intro unat_of_nat_u8) linarith
  have r: "unat r < 65536" by simp
  have w: "(of_nat (unat r) :: u16) = r" by simp
  have u: "(ucast (of_nat (unat r) :: u8) :: u16) = r" if "unat r < 128"
    using that by (simp add: word_unat_eq_iff unsigned_ucast_eq unat_of_nat_u8 take_bit_nat_eq_self
      del: of_nat_unat)
  consider "unat r < 128" | "128 \<le> unat r" "unat r < 2048" | "2048 \<le> unat r" by linarith
  then show ?thesis
  proof cases
    case 1
    then show ?thesis
      unfolding chartorune_ctr ctr_def runetochar_arith Let_def
      by (simp add: unat_of_nat_u8 u del: of_nat_unat)
  next
    case 2
    then have 3: "unat (of_nat (192 + unat r div 64) :: u8) = 192 + unat r div 64"
      by (intro unat_of_nat_u8) linarith
    have d: "2 \<le> unat r div 64" "unat r div 64 < 32" using 2 by linarith+
    have "64 * (unat r div 64) + unat r mod 64 = unat r" by simp
    then show ?thesis
      using 2 d m [of "unat r"]
      unfolding chartorune_ctr ctr_def runetochar_arith Let_def
      by (simp add: 3 c cont_byte w del: of_nat_add of_nat_unat)
  next
    case 3
    have d: "unat r div 4096 < 16" using r by linarith
    then have 4: "unat (of_nat (224 + unat r div 4096) :: u8) = 224 + unat r div 4096"
      by (intro unat_of_nat_u8) linarith
    have "unat r div 4096 = unat r div 64 div 64" by (simp flip: div_mult2_eq)
    then have e: "4096 * (unat r div 4096) + 64 * (unat r div 64 mod 64) + unat r mod 64 = unat r"
      using mult_div_mod_eq [of 64 "unat r"] mult_div_mod_eq [of 64 "unat r div 64"] by linarith
    show ?thesis
      using 3 d m [of "unat r"] m [of "unat r div 64"] e
      unfolding chartorune_ctr ctr_def runetochar_arith Let_def
      by (simp add: 4 c cont_byte w del: of_nat_add of_nat_unat)
  qed
qed

text \<open>C15: every 16-bit rune is written by \<open>runetochar\<close> as \<open>runelen\<close> bytes that
  \<open>chartorune\<close> reads back, whatever follows them.\<close>

theorem chartorune_runetochar:
  "length (runetochar r) = runelen (ucast r)
   \<and> chartorune (runetochar r @ rest) = Ok (r, runelen (ucast r))"
  using chartorune_runetochar_len [of r rest] by (simp add: length_runetochar)

lemma rune_nat: "l < 65536 \<Longrightarrow> unat (of_nat l :: u16) = l"
  by (intro unat_of_nat_lt) simp

lemma runetochar_two:
  assumes l: "l = 64 * (unat x - 192) + (unat y - 128)" "cont_byte y" "192 \<le> unat x" "unat x < 224" "128 \<le> l"
  shows "runetochar (of_nat l) = [x, y]"
proof -
  have y: "128 \<le> unat y" "unat y < 192" using l(2) by (simp_all add: cont_byte)
  have ll: "l < 2048" using l y by linarith
  have "l = (unat x - 192) * 64 + (unat y - 128)" "unat y - 128 < 64" using l(1) y by linarith+
  then have "l div 64 = unat x - 192" "l mod 64 = unat y - 128" by simp_all
  then have "192 + l div 64 = unat x" "128 + l mod 64 = unat y" using l(3) y by linarith+
  with ll l(5) show ?thesis by (simp add: runetochar_arith rune_nat del: of_nat_add)
qed

lemma runetochar_three:
  assumes l: "l = 4096 * (unat x - 224) + 64 * (unat y - 128) + (unat z - 128)" "cont_byte y"
    "cont_byte z" "224 \<le> unat x" "unat x < 240" "2048 \<le> l"
  shows "runetochar (of_nat l) = [x, y, z]"
proof -
  have y: "128 \<le> unat y" "unat y < 192" "128 \<le> unat z" "unat z < 192"
    using l(2,3) by (simp_all add: cont_byte)
  have ll: "l < 65536" using l y by linarith
  have dm: "(a * 64 + b) div 64 = a \<and> (a * 64 + b) mod 64 = b" if "b < 64" for a b :: nat
    using that by simp
  have "l = ((unat x - 224) * 64 + (unat y - 128)) * 64 + (unat z - 128)"
    unfolding l(1) by (simp add: algebra_simps)
  moreover have lt: "unat z - 128 < 64" "unat y - 128 < 64" using y by linarith+
  ultimately have d: "l div 64 = (unat x - 224) * 64 + (unat y - 128)" "l mod 64 = unat z - 128"
    using dm by presburger+
  have dy: "l div 64 div 64 = unat x - 224" "l div 64 mod 64 = unat y - 128"
    unfolding d(1) using dm lt(2) by blast+
  have "l div 4096 = l div 64 div 64" by (simp flip: div_mult2_eq)
  then have "l div 4096 = unat x - 224" "l div 64 mod 64 = unat y - 128" using dy by simp_all
  then have "224 + l div 4096 = unat x" "128 + l div 64 mod 64 = unat y" "128 + l mod 64 = unat z"
    using l(4) y d(2) by linarith+
  with ll l(6) show ?thesis by (simp add: runetochar_arith rune_nat del: of_nat_add)
qed

lemma runetochar_one: "unat x < 128 \<Longrightarrow> runetochar (ucast x) = [x]" for x :: u8
proof -
  assume h: "unat x < 128"
  then have "unat (ucast x :: u16) = unat x" by (simp add: unsigned_ucast_eq take_bit_nat_eq_self)
  with h show ?thesis by (simp add: runetochar_arith)
qed

lemma take_bytes:
  "0 < length s \<Longrightarrow> take 1 s = [s ! 0]"
  "1 < length s \<Longrightarrow> take 2 s = [s ! 0, s ! 1]"
  "2 < length s \<Longrightarrow> take 3 s = [s ! 0, s ! 1, s ! 2]"
proof -
  show "0 < length s \<Longrightarrow> take 1 s = [s ! 0]" by (cases s) auto
  show "1 < length s \<Longrightarrow> take 2 s = [s ! 0, s ! 1]" by (cases s; cases "tl s") auto
  show "2 < length s \<Longrightarrow> take 3 s = [s ! 0, s ! 1, s ! 2]"
    by (cases s; cases "tl s"; cases "tl (tl s)") (auto simp: numeral_3_eq_3)
qed

text \<open>C16: \<open>chartorune\<close> accepts no other spelling: what it takes from the string is either the
  encoding of the rune it returns or one byte of a malformed sequence, reported as
  \<open>Runeerror\<close>.\<close>

theorem chartorune_canonical:
  assumes "chartorune s = Ok (r, n)"
  shows "take n s = runetochar r \<or> n = 1 \<and> r = Bad \<and> Runeself \<le> s ! 0"
proof -
  have u: "Runeself \<le> x \<longleftrightarrow> 128 \<le> unat x" for x by (simp add: word_le_nat_alt)
  show ?thesis
    using assms take_bytes [of s] runetochar_two [OF refl] runetochar_three [OF refl]
    by (auto simp: chartorune_ctr ctr_def Let_def u runetochar_one not_less split: if_splits)
qed

theorem chartorune_canonical_witness:
  "take 2 [0xC3, 0xA9, 0] = runetochar 0xE9 \<or> (2 :: nat) = 1 \<and> (0xE9 :: u16) = Bad \<and> Runeself \<le> [0xC3, 0xA9, 0] ! 0"
  by (rule chartorune_canonical) (simp add: chartorune_ctr ctr_def rdat_def cont_byte)

end
