(* ===== verification/Utf.thy ===== *)
theory Utf
  imports Rune
begin

text \<open>
  The C string routines over UTF-8: \<open>lib9/utflen.c\<close>, \<open>utfnlen.c\<close>, \<open>utfrune.c\<close>,
  \<open>utfrrune.c\<close>, \<open>utfecpy.c\<close>, \<open>runestrlen.c\<close>.  Pointer results are offsets from the string
  given.  \<open>strchr\<close>, \<open>strrchr\<close> and \<open>memccpy\<close> are those of the C library.
\<close>

section \<open>Operations\<close>

lemma chartorune_bounds:
  assumes "chartorune s = Ok (r, n)"
  shows "1 \<le> n" "n \<le> 3" "n \<le> length s"
  using assms by (auto simp: chartorune_ctr ctr_def Let_def Suc_le_eq split: if_splits)

function utflen_loop :: "bytes \<Rightarrow> nat \<Rightarrow> nat outcome" where
  "utflen_loop s n = obind (rdat s 0) (\<lambda>c.
     if c < Runeself then
       if c = 0 then Ok n else utflen_loop (drop 1 s) (n + 1)
     else obind (chartorune s) (\<lambda>(rune, k). utflen_loop (drop k s) (n + 1)))"
  by auto
termination
  by (relation "measure (\<lambda>(s, n). length s)") (auto dest: chartorune_bounds)

definition utflen :: "bytes \<Rightarrow> nat outcome" where
  "utflen s = utflen_loop s 0"

text \<open>\<open>m\<close> is \<open>es - s\<close>.\<close>

function utfnlen_loop :: "bytes \<Rightarrow> int \<Rightarrow> nat \<Rightarrow> nat outcome" where
  "utfnlen_loop s m n =
     (if m \<le> 0 then Ok n
      else obind (rdat s 0) (\<lambda>c.
        if c < Runeself then
          if c = 0 then Ok n else utfnlen_loop (drop 1 s) (m - 1) (n + 1)
        else obind (fullrune s m) (\<lambda>full.
          if \<not> full then Ok n
          else obind (chartorune s) (\<lambda>(rune, k).
            utfnlen_loop (drop k s) (m - int k) (n + 1)))))"
  by auto
termination
  by (relation "measure (\<lambda>(s, m, n). length s)") (auto dest: chartorune_bounds)

definition utfnlen :: "bytes \<Rightarrow> int \<Rightarrow> nat outcome" where
  "utfnlen s m = utfnlen_loop s m 0"

fun strchr :: "bytes \<Rightarrow> u8 \<Rightarrow> nat \<Rightarrow> nat option outcome" where
  "strchr [] c i = Undef"
| "strchr (b # s) c i =
     (if b = c then Ok (Some i) else if b = 0 then Ok None else strchr s c (i + 1))"

fun strrchr :: "bytes \<Rightarrow> u8 \<Rightarrow> nat \<Rightarrow> nat option \<Rightarrow> nat option outcome" where
  "strrchr [] c i l = Undef"
| "strrchr (b # s) c i l = (let l = if b = c then Some i else l in
     if b = 0 then Ok l else strrchr s c (i + 1) l)"

function utfrune_loop :: "bytes \<Rightarrow> int \<Rightarrow> nat \<Rightarrow> nat option outcome" where
  "utfrune_loop s c i = obind (rdat s 0) (\<lambda>c1.
     if c1 < Runeself then
       if c1 = 0 then Ok None
       else if uint c1 = c then Ok (Some i)
       else utfrune_loop (drop 1 s) c (i + 1)
     else obind (chartorune s) (\<lambda>(r, n).
       if uint r = c then Ok (Some i) else utfrune_loop (drop n s) c (i + n)))"
  by auto
termination
  by (relation "measure (\<lambda>(s, c, i). length s)") (auto dest: chartorune_bounds)

definition utfrune :: "bytes \<Rightarrow> int \<Rightarrow> nat option outcome" where
  "utfrune s c = (if c < 0x80 then strchr s (of_int c) 0 else utfrune_loop s c 0)"

function utfrrune_loop :: "bytes \<Rightarrow> int \<Rightarrow> nat \<Rightarrow> nat option \<Rightarrow> nat option outcome" where
  "utfrrune_loop s c i s1 = obind (rdat s 0) (\<lambda>c1.
     if c1 < Runeself then
       if c1 = 0 then Ok s1
       else utfrrune_loop (drop 1 s) c (i + 1) (if uint c1 = c then Some i else s1)
     else obind (chartorune s) (\<lambda>(r, n).
       utfrrune_loop (drop n s) c (i + n) (if uint r = c then Some i else s1)))"
  by auto
termination
  by (relation "measure (\<lambda>(s, c, i, l). length s)") (auto dest: chartorune_bounds)

definition utfrrune :: "bytes \<Rightarrow> int \<Rightarrow> nat option outcome" where
  "utfrrune s c = (if c < 0x80 then strrchr s (of_int c) 0 None else utfrrune_loop s c 0 None)"

text \<open>\<open>runestrlen\<close> counts runes up to the zero rune.\<close>

fun runestrlen :: "u16 list \<Rightarrow> nat outcome" where
  "runestrlen [] = Undef"
| "runestrlen (c # s) = (if c \<noteq> 0 then obind (runestrlen s) (\<lambda>i. Ok (i + 1)) else Ok 0)"

text \<open>\<open>memccpy(to, from, 0, n)\<close>: the bytes copied and whether a NUL was among them.\<close>

fun memccpy0 :: "bytes \<Rightarrow> nat \<Rightarrow> (bytes \<times> bool) outcome" where
  "memccpy0 from 0 = Ok ([], False)"
| "memccpy0 [] (Suc n) = Undef"
| "memccpy0 (b # from) (Suc n) = (if b = 0 then Ok ([b], True)
     else obind (memccpy0 from n) (\<lambda>(c, f). Ok (b # c, f)))"

fun utfecpy_back :: "bytes \<Rightarrow> nat \<Rightarrow> nat" where
  "utfecpy_back buf 0 = 0"
| "utfecpy_back buf (Suc e) =
     (if (ucast (buf ! e) AND 0xC0 :: u32) = 0x80 then utfecpy_back buf e else e)"

text \<open>\<open>to\<close> is the buffer from \<open>to\<close> to \<open>e\<close>; the result is the buffer and the offset returned.\<close>

definition utfecpy :: "bytes \<Rightarrow> bytes \<Rightarrow> (bytes \<times> nat) outcome" where
  "utfecpy to from =
     (if to = [] then Ok (to, 0)
      else obind (memccpy0 from (length to)) (\<lambda>(copied, found).
        let to = copied @ drop (length copied) to in
        if \<not> found then
          let end = utfecpy_back to (length to) in Ok (to[end := 0], end)
        else Ok (to, length copied - 1)))"

section \<open>Encoded strings\<close>

definition utf_of :: "u16 list \<Rightarrow> bytes" where
  "utf_of rs = concat (map runetochar rs)"

lemma utf_of_simps [simp]: "utf_of [] = []" "utf_of (r # rs) = runetochar r @ utf_of rs"
  "utf_of (rs @ qs) = utf_of rs @ utf_of qs"
  by (simp_all add: utf_of_def)

lemma runetochar_ascii:
  assumes "unat r < 128"
  shows "runetochar r = [ucast r]" "(ucast r :: u8) < Runeself" "uint (ucast r :: u8) = uint r"
    "(ucast r :: u8) = 0 \<longleftrightarrow> r = 0"
proof -
  have u: "unat (ucast r :: u8) = unat r"
    using assms by (simp add: unsigned_ucast_eq take_bit_nat_eq_self)
  have "runetochar r = [of_nat (unat r)]"
    using assms unfolding runetochar_arith by (simp add: Let_def)
  then show "runetochar r = [ucast r]" by simp
  show "(ucast r :: u8) < Runeself" using assms by (simp add: word_less_nat_alt u)
  show "uint (ucast r :: u8) = uint r" by (simp only: uint_nat u)
  show "(ucast r :: u8) = 0 \<longleftrightarrow> r = 0" using u by (simp add: word_unat_eq_iff)
qed

text \<open>Every encoding is one byte that is no continuation, and continuation bytes.\<close>

lemma runetochar_multi:
  assumes "128 \<le> unat r"
  obtains b ts where "runetochar r = b # ts" "192 \<le> unat b" "list_all cont_byte ts"
    "length ts = (if unat b < 224 then 1 else 2)"
proof -
  have c: "cont_byte (of_nat (128 + m mod 64))" for m :: nat
  proof -
    have "m mod 64 < 64" by simp
    then show ?thesis by (simp add: cont_byte unat_of_nat_u8 del: of_nat_add)
  qed
  show thesis
  proof (cases "unat r < 2048")
    case True
    then have "unat (of_nat (192 + unat r div 64) :: u8) = 192 + unat r div 64"
      by (intro unat_of_nat_u8) linarith
    then show thesis
      using that [of "of_nat (192 + unat r div 64)" "[of_nat (128 + unat r mod 64)]"] True assms c
      by (simp add: runetochar_arith Let_def del: of_nat_add)
  next
    case False
    have "unat r div 4096 < 16" using unat_u16_lt [of r] by linarith
    then have "unat (of_nat (224 + unat r div 4096) :: u8) = 224 + unat r div 4096"
      by (intro unat_of_nat_u8) linarith
    then show thesis
      using that [of "of_nat (224 + unat r div 4096)"
          "[of_nat (128 + unat r div 64 mod 64), of_nat (128 + unat r mod 64)]"] False c
      by (simp add: runetochar_arith Let_def del: of_nat_add)
  qed
qed

lemma runetochar_hd:
  "\<exists>b ts. runetochar r = b # ts \<and> \<not> cont_byte b \<and> list_all cont_byte ts
     \<and> (b = 0 \<longleftrightarrow> r = 0)"
proof (cases "unat r < 128")
  case True
  then have "\<not> cont_byte (ucast r)"
    using runetochar_ascii(2) [OF True] by (simp add: cont_byte word_less_nat_alt)
  then show ?thesis using runetochar_ascii [OF True] by simp
next
  case False
  then have "128 \<le> unat r" by simp
  then obtain b ts where b: "runetochar r = b # ts" "192 \<le> unat b" "list_all cont_byte ts"
    "length ts = (if unat b < 224 then 1 else 2)"
    by (rule runetochar_multi)
  then have "\<not> cont_byte b" "b \<noteq> 0" "r \<noteq> 0" using False by (auto simp: cont_byte)
  with b show ?thesis by blast
qed

lemma fullrune_multi:
  assumes "128 \<le> unat r"
  shows "fullrune (runetochar r @ s) m = Ok (int (length (runetochar r)) \<le> m)"
proof -
  obtain b ts where b: "runetochar r = b # ts" "192 \<le> unat b" "list_all cont_byte ts"
    "length ts = (if unat b < 224 then 1 else 2)"
    using assms by (rule runetochar_multi)
  show ?thesis
    using b by (auto simp add: fullrune_def word_less_nat_alt Let_def)
qed

lemma runetochar_nonempty [simp]: "runetochar r \<noteq> []"
  by (simp add: runetochar_def Let_def)

lemma rdat_runetochar: "rdat (runetochar r @ s) 0 = Ok (hd (runetochar r))"
  by (simp add: hd_conv_nth nth_append)

lemma first_multi: "128 \<le> unat r \<Longrightarrow> \<not> hd (runetochar r) < Runeself"
  using runetochar_multi [of r] by (force simp: word_less_nat_alt)

section \<open>Counting\<close>

declare utflen_loop.simps [simp del] utfnlen_loop.simps [simp del] utfrune_loop.simps [simp del]
  utfrrune_loop.simps [simp del]

lemma utflen_loop_step:
  "r \<noteq> 0 \<Longrightarrow> utflen_loop (runetochar r @ s) n = utflen_loop s (n + 1)"
proof (cases "unat r < 128")
  case True
  assume "r \<noteq> 0"
  then show ?thesis
    by (subst utflen_loop.simps) (simp add: runetochar_ascii [OF True])
next
  case False
  then show ?thesis
    by (subst utflen_loop.simps)
      (simp add: rdat_runetochar first_multi chartorune_runetochar_len del: rdat_simps)
qed

lemma utflen_loop_utf: "0 \<notin> set rs \<Longrightarrow> utflen_loop (utf_of rs @ 0 # t) n = Ok (n + length rs)"
proof (induction rs arbitrary: n)
  case Nil
  then show ?case by (subst utflen_loop.simps) simp
qed (simp add: utflen_loop_step)

text \<open>How many runes of a string fit into \<open>m\<close> bytes.\<close>

fun fitting :: "nat \<Rightarrow> u16 list \<Rightarrow> nat" where
  "fitting m [] = 0"
| "fitting m (r # rs) = (if length (runetochar r) \<le> m
     then Suc (fitting (m - length (runetochar r)) rs) else 0)"

lemma fitting_spec:
  "fitting m rs \<le> length rs \<and> length (utf_of (take (fitting m rs) rs)) \<le> m
   \<and> (fitting m rs = length rs \<or> m < length (utf_of (take (Suc (fitting m rs)) rs)))"
  by (induction m rs rule: fitting.induct) auto

lemma utfnlen_loop_step:
  assumes "r \<noteq> 0" "0 < m"
  shows "utfnlen_loop (runetochar r @ s) m n = (if int (length (runetochar r)) \<le> m
     then utfnlen_loop s (m - int (length (runetochar r))) (n + 1) else Ok n)"
proof (cases "unat r < 128")
  case True
  then show ?thesis
    using assms by (subst utfnlen_loop.simps) (simp add: runetochar_ascii [OF True])
next
  case False
  then show ?thesis
    using assms(2) by (subst utfnlen_loop.simps)
      (simp add: rdat_runetochar first_multi fullrune_multi chartorune_runetochar_len del: rdat_simps)
qed

lemma utfnlen_loop_utf:
  "0 \<notin> set rs \<Longrightarrow> utfnlen_loop (utf_of rs @ 0 # t) (int m) n = Ok (n + fitting m rs)"
proof (induction rs arbitrary: m n)
  case Nil
  then show ?case by (subst utfnlen_loop.simps) simp
next
  case (Cons r rs)
  show ?case
  proof (cases "m = 0")
    case True
    then show ?thesis by (subst utfnlen_loop.simps) simp
  next
    case False
    then show ?thesis
      using Cons utfnlen_loop_step [of r "int m" "utf_of rs @ 0 # t" n]
      by (auto simp flip: of_nat_diff)
  qed
qed

text \<open>on a NUL-terminated encoding \<open>utflen\<close> returns the number of runes and \<open>utfnlen\<close>
  the number of runes that lie wholly in the first \<open>m\<close> bytes; neither reads past the NUL.\<close>

theorem utflen_utfnlen_count:
  assumes "0 \<notin> set rs"
  shows "utflen (utf_of rs @ 0 # t) = Ok (length rs)
    \<and> utfnlen (utf_of rs @ 0 # t) (int m) = Ok (fitting m rs)"
  using assms by (simp add: utflen_def utfnlen_def utflen_loop_utf utfnlen_loop_utf)

theorem utflen_utfnlen_count_witness:
  "utflen (utf_of [97, 0xE9, 0x20AC] @ 0 # []) = Ok (length [97 :: u16, 0xE9, 0x20AC])
    \<and> utfnlen (utf_of [97, 0xE9, 0x20AC] @ 0 # []) (int 5) = Ok (fitting 5 [97, 0xE9, 0x20AC])"
  by (rule utflen_utfnlen_count) simp

section \<open>Searching\<close>

lemma runetochar_high: "128 \<le> unat r \<Longrightarrow> list_all (\<lambda>b. Runeself \<le> b) (runetochar r)"
proof -
  assume "128 \<le> unat r"
  then obtain b ts where "runetochar r = b # ts" "192 \<le> unat b" "list_all cont_byte ts"
    "length ts = (if unat b < 224 then 1 else 2)"
    by (rule runetochar_multi)
  then show ?thesis by (auto simp: list_all_iff cont_byte word_le_nat_alt)
qed

lemma str_high:
  assumes "list_all (\<lambda>b. Runeself \<le> b) bs" "c < Runeself"
  shows "strchr (bs @ s) c i = strchr s c (i + length bs)"
    "strrchr (bs @ s) c i l = strrchr s c (i + length bs) l"
  using assms by (induction bs arbitrary: i) (auto simp: Let_def word_less_nat_alt word_le_nat_alt)

text \<open>Both searches seen from one rune of the string.\<close>

definition rune_find :: "bytes \<Rightarrow> u16 \<Rightarrow> nat \<Rightarrow> nat option outcome" where
  "rune_find s q i = (if uint q < 0x80 then strchr s (of_int (uint q)) i
     else utfrune_loop s (uint q) i)"

definition rune_rfind :: "bytes \<Rightarrow> u16 \<Rightarrow> nat \<Rightarrow> nat option \<Rightarrow> nat option outcome" where
  "rune_rfind s q i l = (if uint q < 0x80 then strrchr s (of_int (uint q)) i l
     else utfrrune_loop s (uint q) i l)"

lemma uint_lt_128: "uint q < 0x80 \<longleftrightarrow> unat q < 128" for q :: u16
  using of_nat_less_iff [of "unat q" 128, where 'a = int] by (simp only: uint_nat of_nat_numeral)

lemma of_int_small: "of_int (uint q) = (ucast q :: u8)"
  by (rule ucast_eq [symmetric])

lemma ascii_inj: "unat r < 128 \<Longrightarrow> unat q < 128 \<Longrightarrow> (ucast r :: u8) = ucast q \<longleftrightarrow> r = q"
  for r q :: u16
proof -
  assume r: "unat r < 128" and q: "unat q < 128"
  show ?thesis
    unfolding word_uint_eq_iff [of "ucast r :: u8"] word_uint_eq_iff [of r]
      runetochar_ascii(3) [OF r] runetochar_ascii(3) [OF q] by (rule refl)
qed

lemma rune_find_step:
  assumes "r \<noteq> 0" "q \<noteq> 0"
  shows "rune_find (runetochar r @ s) q i
      = (if r = q then Ok (Some i) else rune_find s q (i + length (runetochar r)))"
    "rune_rfind (runetochar r @ s) q i l
      = rune_rfind s q (i + length (runetochar r)) (if r = q then Some i else l)"
proof -
  note f = rune_find_def rune_rfind_def uint_lt_128 of_int_small
  consider "unat q < 128" "unat r < 128" | "unat q < 128" "128 \<le> unat r"
    | "128 \<le> unat q" "unat r < 128" | "128 \<le> unat q" "128 \<le> unat r"
    by linarith
  then have "rune_find (runetochar r @ s) q i
      = (if r = q then Ok (Some i) else rune_find s q (i + length (runetochar r)))
    \<and> rune_rfind (runetochar r @ s) q i l
      = rune_rfind s q (i + length (runetochar r)) (if r = q then Some i else l)"
  proof cases
    case 1
    then show ?thesis
      using assms by (simp add: f runetochar_ascii Let_def ascii_inj)
  next
    case 2
    then have "r \<noteq> q" by auto
    with 2 show ?thesis
      by (simp add: f str_high [OF runetochar_high] runetochar_ascii(2))
  next
    case 3
    then have "r \<noteq> q" by auto
    with 3 assms show ?thesis
      by (simp add: f utfrune_loop.simps [of "ucast r # s"]
        utfrrune_loop.simps [of "ucast r # s"] runetochar_ascii word_uint_eq_iff)
  next
    case 4
    then show ?thesis
      by (simp add: f utfrune_loop.simps [of "runetochar r @ s"]
        utfrrune_loop.simps [of "runetochar r @ s"] rdat_runetochar first_multi
        chartorune_runetochar_len word_uint_eq_iff del: rdat_simps)
  qed
  then show "rune_find (runetochar r @ s) q i
      = (if r = q then Ok (Some i) else rune_find s q (i + length (runetochar r)))"
    "rune_rfind (runetochar r @ s) q i l
      = rune_rfind s q (i + length (runetochar r)) (if r = q then Some i else l)"
    by blast+
qed

lemma rune_find_nul:
  "q \<noteq> 0 \<Longrightarrow> rune_find (0 # t) q i = Ok None" "q \<noteq> 0 \<Longrightarrow> rune_rfind (0 # t) q i l = Ok l"
  using runetochar_ascii(4) [of q]
  by (auto simp: rune_find_def rune_rfind_def uint_lt_128 of_int_small utfrune_loop.simps [of "0 # t"]
    utfrrune_loop.simps [of "0 # t"] Let_def)

lemma rune_find_utf:
  assumes "0 \<notin> set rs" "q \<noteq> 0"
  shows "rune_find (utf_of rs @ 0 # t) q i = Ok (if q \<in> set rs
     then Some (i + length (utf_of (takeWhile (\<lambda>x. x \<noteq> q) rs))) else None)"
  using assms by (induction rs arbitrary: i) (auto simp: rune_find_nul rune_find_step)

lemma rune_rfind_skip:
  assumes "0 \<notin> set rs" "q \<noteq> 0"
  shows "\<exists>l'. rune_rfind (utf_of rs @ s) q i l = rune_rfind s q (i + length (utf_of rs)) l'
     \<and> (q \<notin> set rs \<longrightarrow> l' = l)"
  using assms
proof (induction rs arbitrary: i l)
  case (Cons r rs)
  then show ?case
    using Cons.IH [of "i + length (runetochar r)" "if r = q then Some i else l"]
    by (auto simp: rune_find_step add.assoc)
qed auto

lemma rune_searches:
  assumes "0 \<notin> set rs" "q \<noteq> 0"
  shows "utfrune (utf_of rs @ 0 # t) (uint q) = Ok (if q \<in> set rs
      then Some (length (utf_of (takeWhile (\<lambda>x. x \<noteq> q) rs))) else None)"
    and "utfrrune (utf_of rs @ 0 # t) (uint q) = Ok (if q \<in> set rs
      then Some (length (utf_of (butlast (rev (dropWhile (\<lambda>x. x \<noteq> q) (rev rs)))))) else None)"
proof -
  show "utfrune (utf_of rs @ 0 # t) (uint q) = Ok (if q \<in> set rs
      then Some (length (utf_of (takeWhile (\<lambda>x. x \<noteq> q) rs))) else None)"
    using rune_find_utf [OF assms, of t 0] by (simp add: rune_find_def utfrune_def)
  have r: "utfrrune s (uint q) = rune_rfind s q 0 None" for s
    by (simp add: rune_rfind_def utfrrune_def)
  show "utfrrune (utf_of rs @ 0 # t) (uint q) = Ok (if q \<in> set rs
      then Some (length (utf_of (butlast (rev (dropWhile (\<lambda>x. x \<noteq> q) (rev rs)))))) else None)"
  proof (cases "q \<in> set rs")
    case True
    then obtain xs ys where rs: "rs = xs @ q # ys" "q \<notin> set ys"
      by (meson split_list_last)
    have "butlast (rev (dropWhile (\<lambda>x. x \<noteq> q) (rev rs))) = xs"
      unfolding rs(1) using rs(2) by (simp add: dropWhile_append3 dropWhile_append)
    moreover obtain l where "rune_rfind (utf_of xs @ (runetochar q @ utf_of ys @ 0 # t)) q 0 None
        = rune_rfind (runetochar q @ utf_of ys @ 0 # t) q (0 + length (utf_of xs)) l"
      using rune_rfind_skip [of xs q] assms rs by fastforce
    moreover have "rune_rfind (runetochar q @ utf_of ys @ 0 # t) q n l = Ok (Some n)" for n l
      using rune_rfind_skip [of ys q "0 # t"] assms rs
      by (simp add: rune_find_step) (metis rune_find_nul(2))
    ultimately show ?thesis
      using True by (simp add: r rs(1))
  next
    case False
    then show ?thesis
      using rune_rfind_skip [OF assms, of "0 # t" 0 None] assms(2) by (auto simp: r rune_find_nul)
  qed
qed

text \<open>on a NUL-terminated encoding \<open>utfrune\<close> finds the first and \<open>utfrrune\<close> the last
  occurrence of a rune, ASCII or not, as the offset of its first byte; \<open>nil\<close> when there is
  none.\<close>

theorem utfrune_utfrrune_find:
  assumes "0 \<notin> set rs" "q \<noteq> 0"
  shows "utfrune (utf_of rs @ 0 # t) (uint q) = Ok (if q \<in> set rs
      then Some (length (utf_of (takeWhile (\<lambda>x. x \<noteq> q) rs))) else None)
    \<and> utfrrune (utf_of rs @ 0 # t) (uint q) = Ok (if q \<in> set rs
      then Some (length (utf_of (butlast (rev (dropWhile (\<lambda>x. x \<noteq> q) (rev rs)))))) else None)"
  using rune_searches [OF assms] by (rule conjI)

theorem utfrune_utfrrune_find_witness:
  "utfrune (utf_of [0xE9, 97, 0xE9] @ 0 # [1]) (uint (0xE9 :: u16)) = Ok (Some 0)
   \<and> utfrrune (utf_of [0xE9, 97, 0xE9] @ 0 # [1]) (uint (0xE9 :: u16)) = Ok (Some 3)"
proof -
  have "length (utf_of [0xE9, 97]) = 3" by (simp add: length_runetochar runelen_def)
  then show ?thesis
    using utfrune_utfrrune_find [of "[0xE9, 97, 0xE9]" "0xE9" "[1]"] by simp
qed

section \<open>Bounded copy\<close>

lemma memccpy0_spec:
  assumes "no_nul s"
  shows "memccpy0 (s @ 0 # t) n
    = Ok (if n \<le> length s then (take n s, False) else (s @ [0], True))"
  using assms
proof (induction s arbitrary: n)
  case Nil
  then show ?case by (cases n) auto
next
  case (Cons b s)
  then show ?case by (cases n) (auto simp: no_nul_def)
qed

lemma utf_of_no_nul: "0 \<notin> set rs \<Longrightarrow> no_nul (utf_of rs)"
proof (induction rs)
  case (Cons r rs)
  obtain b ts where "runetochar r = b # ts" "list_all cont_byte ts" "b = 0 \<longleftrightarrow> r = 0"
    using runetochar_hd [of r] by blast
  with Cons show ?case by (auto simp: no_nul_def list_all_iff cont_byte)
qed (simp add: no_nul_def)

lemma utfecpy_back_eq:
  "p < e \<Longrightarrow> \<not> cont_byte (buf ! p) \<Longrightarrow> (\<And>i. p < i \<Longrightarrow> i < e \<Longrightarrow> cont_byte (buf ! i)) \<Longrightarrow>
     utfecpy_back buf e = p"
proof (induction e)
  case (Suc e)
  show ?case
  proof (cases "p = e")
    case True
    with Suc.prems show ?thesis by (simp add: cont_byte_def)
  next
    case False
    with Suc.prems(1) have "p < e" by simp
    moreover from this have "cont_byte (buf ! e)" using Suc.prems(3) by simp
    ultimately show ?thesis using Suc by (simp add: cont_byte_def)
  qed
qed simp

text \<open>Backing up from a buffer that was filled stops at the rune that does not fit.\<close>

lemma utfecpy_cut:
  assumes lt: "k < length rs" and k: "length (utf_of (take k rs)) \<le> n - 1" and n: "0 < n"
    and big: "n - 1 < length (utf_of (take (Suc k) rs))"
  shows "utfecpy_back (take n (utf_of rs)) n = length (utf_of (take k rs))"
proof -
  define s p where "s = utf_of rs" and "p = length (utf_of (take k rs))"
  note k = k [folded p_def]
  obtain b ts where b: "runetochar (rs ! k) = b # ts" "\<not> cont_byte b" "list_all cont_byte ts"
    using runetochar_hd [of "rs ! k"] by blast
  have split: "s = utf_of (take k rs) @ (b # ts) @ utf_of (drop (Suc k) rs)"
    using id_take_nth_drop [OF lt] b(1) unfolding s_def p_def by (metis utf_of_simps(2,3))
  have "n \<le> p + Suc (length ts)"
    using big lt b(1) by (simp add: p_def take_Suc_conv_app_nth)
  note len = this
  have nth: "take n s ! i = (b # ts) ! (i - p)" if "p \<le> i" "i < n" for i
  proof -
    have "i - p < length (b # ts)" using that len by simp
    then have "((b # ts) @ utf_of (drop (Suc k) rs)) ! (i - p) = (b # ts) ! (i - p)"
      by (simp only: nth_append if_True)
    then show ?thesis
      using that unfolding split by (subst nth_take) (simp_all add: nth_append p_def)
  qed
  show ?thesis unfolding s_def [symmetric] p_def [symmetric]
  proof (rule utfecpy_back_eq)
    show "p < n" using k n by linarith
    then show "\<not> cont_byte (take n s ! p)" using b(2) by (simp only: nth) simp
    fix i
    assume i: "p < i" "i < n"
    then have "i - p - 1 < length ts" using len by linarith
    with i b(3) show "cont_byte (take n s ! i)"
      by (simp only: nth less_imp_le) (simp add: nth_Cons' list_all_length)
  qed
qed

text \<open>C17: \<open>utfecpy\<close> fills a non-empty buffer with the longest prefix of whole runes of the
  source that leaves room for a NUL, terminates it, returns the offset of the NUL and keeps
  the buffer's length; it never cuts a rune in two.\<close>

theorem utfecpy_whole_runes:
  assumes "0 \<notin> set rs" "buf \<noteq> []"
  defines "k \<equiv> fitting (length buf - 1) rs"
  shows "\<exists>buf'. utfecpy buf (utf_of rs @ 0 # t) = Ok (buf', length (utf_of (take k rs)))
    \<and> length buf' = length buf
    \<and> take (Suc (length (utf_of (take k rs)))) buf' = utf_of (take k rs) @ [0]"
proof -
  let ?n = "length buf" and ?s = "utf_of rs" and ?p = "length (utf_of (take k rs))"
  have n: "0 < ?n" using assms(2) by simp
  have k: "k \<le> length rs" "?p \<le> ?n - 1" "k = length rs \<or> ?n - 1 < length (utf_of (take (Suc k) rs))"
    using fitting_spec [of "?n - 1" rs] unfolding k_def by auto
  note m = memccpy0_spec [OF utf_of_no_nul [OF assms(1)], of t ?n]
  show ?thesis
  proof (cases "?n \<le> length ?s")
    case False
    have "k = length rs"
    proof (rule ccontr)
      assume "k \<noteq> length rs"
      then have "?n - 1 < length (utf_of (take (Suc k) rs))" using k(3) by simp
      also have "\<dots> \<le> length ?s"
        using append_take_drop_id [of "Suc k" rs] utf_of_simps(3) by (metis le_add1 length_append)
      finally show False using False by simp
    qed
    then show ?thesis
      using False n by (simp add: utfecpy_def m Let_def)
  next
    case True
    have "k \<noteq> length rs"
    proof
      assume "k = length rs"
      then have "?p = length ?s" by simp
      with True k(2) n show False by linarith
    qed
    then have lt: "k < length rs" and big: "?n - 1 < length (utf_of (take (Suc k) rs))"
      using k by auto
    have bk: "utfecpy_back (take ?n ?s) ?n = ?p" by (rule utfecpy_cut [OF lt k(2) n big])
    have "?s = utf_of (take k rs) @ utf_of (drop k rs)" by (simp flip: utf_of_simps(3))
    then have split: "take ?p (take ?n ?s) = utf_of (take k rs)" using k(2) by (simp add: min_def)
    have "length (take ?n ?s) = ?n" using True by simp
    moreover note split
    moreover have "?p < ?n" using k(2) n by linarith
    ultimately show ?thesis
      using True k(2) n assms(2) by (simp add: utfecpy_def m Let_def bk take_Suc_conv_app_nth)
  qed
qed

theorem utfecpy_whole_runes_witness:
  "\<exists>buf'. utfecpy [1, 2, 3, 4] (utf_of [97, 98, 0xE9] @ 0 # []) = Ok (buf', 2)
    \<and> length buf' = 4 \<and> take 3 buf' = utf_of [97, 98] @ [0]"
proof -
  have l: "length (runetochar 97) = 1" "length (runetochar 98) = 1" "length (runetochar 0xE9) = 2"
    by (simp_all add: length_runetochar runelen_def)
  have z: "0 \<notin> set [97 :: u16, 98, 0xE9]" by simp
  have f: "fitting (length [1 :: u8, 2, 3, 4] - 1) [97, 98, 0xE9] = 2"
    by (simp add: l)
  show ?thesis
    using utfecpy_whole_runes [OF z, of "[1, 2, 3, 4]" "[]"] l
    unfolding f by (simp add: eval_nat_numeral)
qed

end
