(* ===== verification/DisString.thy ===== *)
theory DisString
  imports Utf Wire "HOL-Library.List_Lexorder"
begin

unbundle bit_operations_syntax

text \<open>
  The strings of the Dis virtual machine, \<open>libinterp/string.c\<close>.  A \<open>String\<close> holds ASCII
  bytes when \<open>len >= 0\<close> and \<open>-len\<close> 16-bit runes when \<open>len < 0\<close>, in one union \<open>dat\<close>.  The heap
  is the list of the strings ever allocated; a pointer is an index, \<open>None\<close> is \<open>H\<close>, and
  \<open>sref\<close> the reference count of the \<open>Heap\<close> header.

  The allocator is a parameter \<open>al\<close>: \<open>al nb\<close> is the room for data, beyond \<open>sizeof(String)\<close>,
  in the block got for \<open>sizeof(String)+nb\<close> bytes (\<open>hmsize\<close> of the block less the two
  headers); it is at least \<open>nb\<close>.  The union itself adds \<open>STRUCTALIGN\<close> bytes.  \<open>Undef\<close> is an
  access outside of \<open>dat\<close>, \<open>Fail\<close> is \<open>error(exBounds)\<close> or \<open>error(exNilref)\<close>.
\<close>

section \<open>Representation\<close>

abbreviation "STRUCTALIGN \<equiv> (4 :: nat)"

record dstr =
  sref :: nat
  slen :: int
  smax :: nat
  dat :: bytes

type_synonym sheap = "dstr list"
type_synonym sptr = "nat option"

definition blit :: "bytes \<Rightarrow> nat \<Rightarrow> bytes \<Rightarrow> bytes outcome" where
  "blit d off bs = (if off + length bs \<le> length d
     then Ok (take off d @ bs @ drop (off + length bs) d) else Undef)"

definition Srune :: "bytes \<Rightarrow> nat \<Rightarrow> u16 outcome" where
  "Srune d i = (if length d < 2 * i + 2 then Undef else Ok (GBIT16 (drop (2 * i) d)))"

definition enc :: "u16 list \<Rightarrow> bytes" where
  "enc rs = concat (map PBIT16 rs)"

definition setstr :: "sheap \<Rightarrow> nat \<Rightarrow> (dstr \<Rightarrow> dstr) \<Rightarrow> sheap" where
  "setstr hp p f = hp[p := f (hp ! p)]"

section \<open>Allocation\<close>

definition newstring :: "(nat \<Rightarrow> nat) \<Rightarrow> sheap \<Rightarrow> nat \<Rightarrow> sheap \<times> nat" where
  "newstring al hp nb = (hp @ [\<lparr>sref = 1, slen = int nb, smax = al nb,
     dat = replicate (al nb + STRUCTALIGN) 0\<rparr>], length hp)"

definition newrunes :: "(nat \<Rightarrow> nat) \<Rightarrow> sheap \<Rightarrow> int \<Rightarrow> sheap \<times> nat" where
  "newrunes al hp nr =
     (if nr = 0 then newstring al hp 0
      else let nr = nat (if nr < 0 then - nr else nr) in
        (hp @ [\<lparr>sref = 1, slen = - int nr, smax = al (nr * 2) div 2,
           dat = replicate (al (nr * 2) + STRUCTALIGN) 0\<rparr>], length hp))"

text \<open>\<open>destroy\<close> drops a reference; a string whose count is 0 has been freed.\<close>

definition destroy :: "sheap \<Rightarrow> sptr \<Rightarrow> sheap" where
  "destroy hp p = (case p of None \<Rightarrow> hp | Some p \<Rightarrow> setstr hp p (\<lambda>s. s\<lparr>sref := sref s - 1\<rparr>))"

text \<open>A \<open>memmove\<close> or a store into the data of a string.\<close>

definition store :: "sheap \<Rightarrow> nat \<Rightarrow> nat \<Rightarrow> bytes \<Rightarrow> sheap outcome" where
  "store hp p off bs = obind (blit (dat (hp ! p)) off bs) (\<lambda>d.
     Ok (setstr hp p (\<lambda>s. s\<lparr>dat := d\<rparr>)))"

definition stringdup :: "(nat \<Rightarrow> nat) \<Rightarrow> sheap \<Rightarrow> sptr \<Rightarrow> (sheap \<times> sptr) outcome" where
  "stringdup al hp s = (case s of None \<Rightarrow> Ok (hp, None) | Some s \<Rightarrow>
     let l = slen (hp ! s) in
     if 0 \<le> l then
       let (hp', ns) = newstring al hp (nat l) in
       obind (rdmem (nat l) (dat (hp ! s))) (\<lambda>m.
       obind (store hp' ns 0 m) (\<lambda>hp'. Ok (hp', Some ns)))
     else
       let (hp', ns) = newrunes al hp (- l) in
       obind (rdmem (nat (- l) * 2) (dat (hp ! s))) (\<lambda>m.
       obind (store hp' ns 0 m) (\<lambda>hp'. Ok (hp', Some ns))))"

text \<open>\<open>cvtup\<close> writes the bytes of an ASCII string as runes at rune offset \<open>off\<close> of \<open>r\<close>.\<close>

definition cvtup :: "sheap \<Rightarrow> nat \<Rightarrow> nat \<Rightarrow> nat \<Rightarrow> sheap outcome" where
  "cvtup hp r off s = obind (rdmem (nat (slen (hp ! s))) (dat (hp ! s))) (\<lambda>bs.
     store hp r (2 * off) (enc (map ucast bs)))"

definition splitc :: "(nat \<Rightarrow> nat) \<Rightarrow> sheap \<Rightarrow> nat \<Rightarrow> bool \<Rightarrow> (sheap \<times> nat) outcome" where
  "splitc al hp ss expand =
     (if expand \<and> 0 < slen (hp ! ss) then
        let (hp, ns) = newrunes al hp (slen (hp ! ss)) in
        obind (cvtup hp ns 0 ss) (\<lambda>hp. Ok (destroy hp (Some ss), ns))
      else
        obind (stringdup al hp (Some ss)) (\<lambda>(hp, ns).
          Ok (destroy hp (Some ss), the ns)))"

section \<open>Indexing\<close>

definition indc :: "sheap \<Rightarrow> sptr \<Rightarrow> nat \<Rightarrow> int outcome" where
  "indc hp ss v = (case ss of None \<Rightarrow> Fail | Some ss \<Rightarrow>
     let l = slen (hp ! ss) in
     if l < 0 then
       if - l \<le> int v then Fail
       else obind (Srune (dat (hp ! ss)) v) (\<lambda>r. Ok (uint r))
     else
       if l \<le> int v then Fail
       else obind (rdat (dat (hp ! ss)) v) (\<lambda>c. Ok (sint c)))"

definition lenc :: "sheap \<Rightarrow> sptr \<Rightarrow> int" where
  "lenc hp ss = (case ss of None \<Rightarrow> 0 | Some ss \<Rightarrow>
     let l = slen (hp ! ss) in if l < 0 then - l else l)"

text \<open>\<open>insc\<close>: the rune branch (label \<open>r\<close>), the ASCII branch, and the instruction.  The result is
  the heap and the pointer left in \<open>R.d\<close>.\<close>

definition insc_rune :: "(nat \<Rightarrow> nat) \<Rightarrow> sheap \<Rightarrow> nat \<Rightarrow> int \<Rightarrow> nat \<Rightarrow> int \<Rightarrow> (sheap \<times> nat) outcome" where
  "insc_rune al hp ss l v r =
     (if int v < l then
        obind (store hp ss (2 * v) (PBIT16 (of_int r))) (\<lambda>hp. Ok (hp, ss))
      else if int v = l \<and> v < smax (hp ! ss) then
        obind (store (setstr hp ss (\<lambda>s. s\<lparr>slen := - (int v + 1)\<rparr>)) ss (2 * v) (PBIT16 (of_int r)))
          (\<lambda>hp. Ok (hp, ss))
      else if int v \<noteq> l then Fail
      else
        let (hp, ns) = newstring al hp ((v + 1 + v div 4) * 2) in
        obind (rdmem (nat (- slen (hp ! ss)) * 2) (dat (hp ! ss))) (\<lambda>m.
        obind (store hp ns 0 m) (\<lambda>hp.
        obind (store hp ns (2 * v) (PBIT16 (of_int r))) (\<lambda>hp.
          Ok (setstr hp ns (\<lambda>s. s\<lparr>slen := - (int v + 1), smax := smax s div 2\<rparr>), ns)))))"

definition insc_ascii :: "(nat \<Rightarrow> nat) \<Rightarrow> sheap \<Rightarrow> nat \<Rightarrow> int \<Rightarrow> nat \<Rightarrow> int \<Rightarrow> (sheap \<times> nat) outcome" where
  "insc_ascii al hp ss l v r =
     (if int v < l then
        obind (store hp ss v [of_int r]) (\<lambda>hp. Ok (hp, ss))
      else if int v = l \<and> v < smax (hp ! ss) then
        obind (store (setstr hp ss (\<lambda>s. s\<lparr>slen := int v + 1\<rparr>)) ss v [of_int r])
          (\<lambda>hp. Ok (hp, ss))
      else if int v \<noteq> l then Fail
      else
        let (hp, ns) = newstring al hp (v + 1 + v div 4) in
        obind (rdmem (nat l) (dat (hp ! ss))) (\<lambda>m.
        obind (store hp ns 0 m) (\<lambda>hp.
        obind (store hp ns v [of_int r]) (\<lambda>hp.
          Ok (setstr hp ns (\<lambda>s. s\<lparr>slen := int v + 1\<rparr>), ns)))))"

definition insc :: "(nat \<Rightarrow> nat) \<Rightarrow> sheap \<Rightarrow> sptr \<Rightarrow> nat \<Rightarrow> int \<Rightarrow> (sheap \<times> nat) outcome" where
  "insc al hp d v r = (let expand = 0x80 \<le> r in
     case d of
       None \<Rightarrow>
         let (hp, ss) = newstring al hp 0 in
         if expand then
           insc_rune al (setstr hp ss (\<lambda>s. s\<lparr>smax := smax s div 2\<rparr>)) ss 0 v r
         else insc_ascii al hp ss (slen (hp ! ss)) v r
     | Some ss \<Rightarrow>
         obind (if 1 < sref (hp ! ss) \<or> (expand \<and> 0 < slen (hp ! ss))
           then splitc al hp ss expand else Ok (hp, ss)) (\<lambda>(hp, d).
         let l = slen (hp ! d) in
         obind (if l < 0 \<or> expand then insc_rune al hp d (- l) v r else insc_ascii al hp d l v r)
           (\<lambda>(hp, ss). Ok (if ss \<noteq> d then destroy hp (Some d) else hp, ss))))"

section \<open>Slices and concatenation\<close>

definition slicer :: "(nat \<Rightarrow> nat) \<Rightarrow> sheap \<Rightarrow> nat \<Rightarrow> nat \<Rightarrow> sptr \<Rightarrow> (sheap \<times> sptr) outcome" where
  "slicer al hp start v ds = (case ds of
     None \<Rightarrow> if start = 0 \<and> v = 0 then Ok (hp, None) else Fail
   | Some ds \<Rightarrow>
       let nc = v - start in
       if slen (hp ! ds) < 0 then
         let l = nat (- slen (hp ! ds)) in
         if v < start \<or> l < v then Fail
         else if nc = 0 then Ok (hp, None)
         else let (hp, ns) = newrunes al hp (int nc) in
           obind (rdmem (nc * 2) (drop (start * 2) (dat (hp ! ds)))) (\<lambda>m.
           obind (store hp ns 0 m) (\<lambda>hp. Ok (hp, Some ns)))
       else
         let l = nat (slen (hp ! ds)) in
         if v < start \<or> l < v then Fail
         else if nc = 0 then Ok (hp, None)
         else let (hp, ns) = newstring al hp nc in
           obind (rdmem nc (drop start (dat (hp ! ds)))) (\<lambda>m.
           obind (store hp ns 0 m) (\<lambda>hp. Ok (hp, Some ns))))"

definition slicec :: "(nat \<Rightarrow> nat) \<Rightarrow> sheap \<Rightarrow> nat \<Rightarrow> nat \<Rightarrow> sptr \<Rightarrow> (sheap \<times> sptr) outcome" where
  "slicec al hp start v d = obind (slicer al hp start v d) (\<lambda>(hp, ns). Ok (destroy hp d, ns))"

definition addstring :: "(nat \<Rightarrow> nat) \<Rightarrow> sheap \<Rightarrow> sptr \<Rightarrow> sptr \<Rightarrow> bool \<Rightarrow> (sheap \<times> sptr) outcome" where
  "addstring al hp s1 s2 app = (case (s1, s2) of
     (None, None) \<Rightarrow> Ok (hp, None)
   | (None, Some _) \<Rightarrow> stringdup al hp s2
   | (Some s, None) \<Rightarrow>
       let app = (if 1 < sref (hp ! s) then False else app) in
       if app then Ok (hp, s1) else stringdup al hp s1
   | (Some s, Some t) \<Rightarrow>
       let app = (if 1 < sref (hp ! s) then False else app) in
       if slen (hp ! s) < 0 then
         let l1 = nat (- slen (hp ! s));
             l = l1 + nat \<bar>slen (hp ! t)\<bar> in
         obind (if app \<and> l \<le> smax (hp ! s) then Ok (hp, s)
                else let (hp, ns) = newrunes al hp (int (if app then l + l div 4 else l)) in
                  obind (rdmem (l1 * 2) (dat (hp ! s))) (\<lambda>m.
                  obind (store hp ns 0 m) (\<lambda>hp. Ok (hp, ns)))) (\<lambda>(hp, ns).
         let hp = setstr hp ns (\<lambda>s. s\<lparr>slen := - int l\<rparr>) in
         obind (if slen (hp ! t) < 0 then
                  obind (rdmem (nat (- slen (hp ! t)) * 2) (dat (hp ! t))) (\<lambda>m.
                    store hp ns (2 * l1) m)
                else cvtup hp ns l1 t) (\<lambda>hp. Ok (hp, Some ns)))
       else if slen (hp ! t) < 0 then
         let l2 = nat (- slen (hp ! t)); l = nat (slen (hp ! s)) + l2;
             (hp, ns) = newrunes al hp (int (if app then l + l div 4 else l));
             hp = setstr hp ns (\<lambda>s. s\<lparr>slen := - int l\<rparr>) in
         obind (cvtup hp ns 0 s) (\<lambda>hp.
         obind (rdmem (l2 * 2) (dat (hp ! t))) (\<lambda>m.
         obind (store hp ns (2 * nat (slen (hp ! s))) m) (\<lambda>hp. Ok (hp, Some ns))))
       else
         let l1 = nat (slen (hp ! s)); l = l1 + nat (slen (hp ! t)) in
         obind (if app \<and> l \<le> smax (hp ! s) then Ok (hp, s)
                else let (hp, ns) = newstring al hp (if app then l + l div 4 else l) in
                  obind (rdmem l1 (dat (hp ! s))) (\<lambda>m.
                  obind (store hp ns 0 m) (\<lambda>hp. Ok (hp, ns)))) (\<lambda>(hp, ns).
         let hp = setstr hp ns (\<lambda>s. s\<lparr>slen := int l\<rparr>) in
         obind (rdmem (nat (slen (hp ! t))) (dat (hp ! t))) (\<lambda>m.
         obind (store hp ns l1 m) (\<lambda>hp. Ok (hp, Some ns)))))"

text \<open>\<open>same\<close> is \<open>R.m == R.d\<close>; \<open>d\<close> is the old contents of \<open>R.d\<close>.\<close>

definition addc :: "(nat \<Rightarrow> nat) \<Rightarrow> sheap \<Rightarrow> sptr \<Rightarrow> sptr \<Rightarrow> bool \<Rightarrow> sptr \<Rightarrow> (sheap \<times> sptr) outcome" where
  "addc al hp m s same d = obind (addstring al hp m s same) (\<lambda>(hp, ns).
     Ok (if ns \<noteq> d then destroy hp d else hp, ns))"

section \<open>Comparison\<close>

text \<open>The loops of \<open>stringcmp\<close>: the first difference of the first \<open>n\<close> elements; \<open>char\<close> is
  signed, \<open>memcmp\<close> compares unsigned bytes.\<close>

fun cmp_loop :: "int list \<Rightarrow> int list \<Rightarrow> int" where
  "cmp_loop (c1 # r1) (c2 # r2) = (if c1 \<noteq> c2 then if c1 < c2 then -1 else 1 else cmp_loop r1 r2)"
| "cmp_loop _ _ = 0"

definition snil :: dstr where
  "snil = \<lparr>sref = 1, slen = 0, smax = 0, dat = replicate STRUCTALIGN 0\<rparr>"

definition stringcmp :: "sheap \<Rightarrow> sptr \<Rightarrow> sptr \<Rightarrow> int outcome" where
  "stringcmp hp p1 p2 =
     (if p1 = p2 then Ok 0
      else
        let s1 = (case p1 of None \<Rightarrow> snil | Some p \<Rightarrow> hp ! p);
            s2 = (case p2 of None \<Rightarrow> snil | Some p \<Rightarrow> hp ! p);
            n1 = nat \<bar>slen s1\<bar>; n2 = nat \<bar>slen s2\<bar>; n = (if n2 < n1 then n2 else n1);
            asc = (\<lambda>s. obind (rdmem n (dat s)) (\<lambda>m. Ok (map sint m)));
            run = (\<lambda>s. obind (rdmem (n * 2) (dat s)) (\<lambda>m.
                     Ok (map (\<lambda>i. uint (GBIT16 (drop (2 * i) m))) [0..<n])))
        in
        if 0 \<le> slen s1 \<and> 0 \<le> slen s2 then
          obind (rdmem n (dat s1)) (\<lambda>a1. obind (rdmem n (dat s2)) (\<lambda>a2.
            let r = cmp_loop (map uint a1) (map uint a2) in
            Ok (if r = 0 then int n1 - int n2 else r)))
        else
          obind (if slen s1 < 0 then run s1 else asc s1) (\<lambda>r1.
          obind (if slen s2 < 0 then run s2 else asc s2) (\<lambda>r2.
            let r = cmp_loop r1 r2 in Ok (if r = 0 then int n1 - int n2 else r))))"

section \<open>Conversion to and from UTF-8\<close>

text \<open>The bytes of the array \<open>cvtca\<close> makes; the rune loop fills \<open>runenlen\<close> bytes.\<close>

definition cvtca :: "sheap \<Rightarrow> sptr \<Rightarrow> bytes outcome" where
  "cvtca hp ss = (case ss of None \<Rightarrow> Ok [] | Some ss \<Rightarrow>
     if slen (hp ! ss) < 0 then
       let l = nat (- slen (hp ! ss)) in
       obind (rdmem (l * 2) (dat (hp ! ss))) (\<lambda>m.
         let rs = map (\<lambda>i. GBIT16 (drop (2 * i) m)) [0..<l];
             out = foldl (\<lambda>p r. p @ runetochar r) [] rs in
         if runenlen rs < length out then Undef
         else Ok (out @ replicate (runenlen rs - length out) 0))
     else rdmem (nat (slen (hp ! ss))) (dat (hp ! ss)))"

fun first_rune :: "bytes \<Rightarrow> nat \<Rightarrow> nat option" where
  "first_rune [] i = None"
| "first_rune (c # p) i = (if Runeself \<le> c then Some i else first_rune p (i + 1))"

function c2s_count :: "bytes \<Rightarrow> nat \<Rightarrow> nat outcome" where
  "c2s_count p nc =
     (if p = [] then Ok nc
      else if p ! 0 < Runeself then c2s_count (drop 1 p) (nc + 1)
      else obind (if 3 \<le> length p then Ok True else fullrune p (int (length p))) (\<lambda>full.
        if \<not> full then Ok nc
        else obind (chartorune p) (\<lambda>(junk, k). c2s_count (drop k p) (nc + 1))))"
  by auto
termination
  by (relation "measure (\<lambda>(p, nc). length p)") (auto dest: chartorune_bounds)

fun c2s_runes :: "bytes \<Rightarrow> nat \<Rightarrow> u16 list outcome" where
  "c2s_runes cs 0 = Ok []"
| "c2s_runes cs (Suc nc) = obind (chartorune cs) (\<lambda>(r, k).
     obind (c2s_runes (drop k cs) nc) (\<lambda>rs. Ok (r # rs)))"

definition c2string :: "(nat \<Rightarrow> nat) \<Rightarrow> sheap \<Rightarrow> bytes \<Rightarrow> (sheap \<times> nat) outcome" where
  "c2string al hp cs = (case first_rune cs 0 of
     None \<Rightarrow>
       let (hp, s) = newstring al hp (length cs) in
       obind (store hp s 0 cs) (\<lambda>hp. Ok (hp, s))
   | Some p \<Rightarrow>
       obind (c2s_count (drop p cs) p) (\<lambda>nc.
       let (hp, s) = newrunes al hp (int nc) in
       obind (c2s_runes cs nc) (\<lambda>rs.
       obind (store hp s 0 (enc rs)) (\<lambda>hp. Ok (hp, s)))))"

text \<open>\<open>string2c\<close>: the C string; it puts a NUL behind ASCII data and encodes runes into \<open>tmp\<close>,
  which has room for \<open>nc * UTFmax + UTFmax\<close> bytes.\<close>

definition string2c :: "sheap \<Rightarrow> sptr \<Rightarrow> (sheap \<times> bytes) outcome" where
  "string2c hp s = (case s of None \<Rightarrow> Ok (hp, [0]) | Some s \<Rightarrow>
     if 0 \<le> slen (hp ! s) then
       obind (store hp s (nat (slen (hp ! s))) [0]) (\<lambda>hp.
       obind (rdmem (nat (slen (hp ! s)) + 1) (dat (hp ! s))) (\<lambda>m. Ok (hp, m)))
     else
       let nc = nat (- slen (hp ! s)); l = nc * 3 + 3 in
       obind (rdmem (nc * 2) (dat (hp ! s))) (\<lambda>m.
         let rs = map (\<lambda>i. GBIT16 (drop (2 * i) m)) [0..<nc];
             p = foldl (\<lambda>p c. if ucast c < (0x80 :: u32) then p @ [ucast c] else p @ runetochar c) [] rs @ [0]
         in if l < length p then Undef else Ok (hp, p)))"

section \<open>The string a String stands for\<close>

definition getr :: "bytes \<Rightarrow> nat \<Rightarrow> u16 list" where
  "getr d n = map (\<lambda>i. GBIT16 (drop (2 * i) d)) [0..<n]"

definition runes_of :: "dstr \<Rightarrow> u16 list" where
  "runes_of s = (if slen s < 0 then getr (dat s) (nat (- slen s))
     else map ucast (take (nat (slen s)) (dat s)))"

definition runesp :: "sheap \<Rightarrow> sptr \<Rightarrow> u16 list" where
  "runesp hp p = (case p of None \<Rightarrow> [] | Some p \<Rightarrow> runes_of (hp ! p))"

definition wf_str :: "dstr \<Rightarrow> bool" where
  "wf_str s \<longleftrightarrow> (if slen s < 0 then nat (- slen s) \<le> smax s \<and> 2 * smax s + STRUCTALIGN \<le> length (dat s)
     else nat (slen s) \<le> smax s \<and> smax s + STRUCTALIGN \<le> length (dat s)
       \<and> list_all (\<lambda>b. b < Runeself) (take (nat (slen s)) (dat s)))"

definition wf_ptr :: "sheap \<Rightarrow> sptr \<Rightarrow> bool" where
  "wf_ptr hp p \<longleftrightarrow> (case p of None \<Rightarrow> True | Some p \<Rightarrow> p < length hp \<and> wf_str (hp ! p))"

lemma length_enc [simp]: "length (enc rs) = 2 * length rs"
  by (induction rs) (auto simp: enc_def)

lemma enc_simps [simp]: "enc [] = []" "enc (r # rs) = PBIT16 r @ enc rs"
  "enc (rs @ qs) = enc rs @ enc qs"
  by (simp_all add: enc_def)

lemma length_getr [simp]: "length (getr d n) = n"
  by (simp add: getr_def)

lemma getr_Suc: "getr d (Suc n) = GBIT16 d # getr (drop 2 d) n"
  unfolding getr_def upt_conv_Cons [OF zero_less_Suc] list.map
  by (simp add: map_Suc_upt [symmetric] comp_def del: upt_Suc)

lemma getr_enc [simp]: "n = length rs \<Longrightarrow> getr (enc rs @ x) n = rs"
proof (induction rs arbitrary: n)
  case (Cons r rs)
  then show ?case
    by (simp add: getr_Suc GBIT16_PBIT16 take_drop_PBIT)
qed (simp add: getr_def)

lemma PBIT16_GBIT16: "2 \<le> length d \<Longrightarrow> PBIT16 (GBIT16 d) = take 2 d"
proof -
  assume "2 \<le> length d"
  then obtain a b x where d: "d = a # b # x"
    by (cases d; cases "tl d") auto
  have "ucast (ucast a OR push_bit 8 (ucast b) :: u16) = a"
    "ucast (drop_bit 8 (ucast a OR push_bit 8 (ucast b) :: u16)) = b"
    by (rule bit_eqI; auto simp: bit_simps dest: bit_imp_le_length)+
  then show ?thesis by (simp add: d PBIT16_def GBIT16_def)
qed

lemma enc_getr: "2 * n \<le> length d \<Longrightarrow> enc (getr d n) = take (2 * n) d"
proof (induction n arbitrary: d)
  case (Suc n)
  then have "enc (getr d (Suc n)) = take 2 d @ take (2 * n) (drop 2 d)"
    by (simp add: getr_Suc PBIT16_GBIT16)
  also have "\<dots> = take (2 * Suc n) d"
    by (simp only: take_add [symmetric] mult_Suc_right)
  finally show ?case .
qed (simp add: getr_def)

lemma runes_of_runeI:
  "slen s = - int (length rs) \<Longrightarrow> rs \<noteq> [] \<Longrightarrow> dat s = enc rs @ x \<Longrightarrow> runes_of s = rs"
  by (simp add: runes_of_def)

lemma runes_of_asciiI:
  "slen s = int (length bs) \<Longrightarrow> dat s = bs @ x \<Longrightarrow> runes_of s = map ucast bs"
  by (simp add: runes_of_def)

lemma wf_runeE:
  assumes "wf_str s" "slen s < 0"
  obtains x where "dat s = enc (runes_of s) @ x" "slen s = - int (length (runes_of s))"
    "runes_of s \<noteq> []" "length (runes_of s) \<le> smax s"
    "2 * smax s + STRUCTALIGN \<le> length (dat s)"
proof -
  have "2 * nat (- slen s) \<le> length (dat s)" using assms by (auto simp: wf_str_def)
  then have "enc (runes_of s) = take (2 * nat (- slen s)) (dat s)"
    using assms by (simp add: runes_of_def enc_getr)
  then have "dat s = enc (runes_of s) @ drop (2 * nat (- slen s)) (dat s)" by simp
  moreover have "length (runes_of s) = nat (- slen s)"
    using assms by (simp add: runes_of_def)
  moreover from this have "runes_of s \<noteq> []" using assms(2) by (metis list.size(3) neg_0_less_iff_less zero_less_nat_eq less_numeral_extra(3))
  ultimately show thesis
    using assms by (intro that) (auto simp: wf_str_def)
qed

lemma wf_asciiE:
  assumes "wf_str s" "0 \<le> slen s"
  obtains bs x where "dat s = bs @ x" "slen s = int (length bs)" "runes_of s = map ucast bs"
    "length bs \<le> smax s" "smax s + STRUCTALIGN \<le> length (dat s)" "list_all (\<lambda>b. b < Runeself) bs"
proof -
  have "length (take (nat (slen s)) (dat s)) = nat (slen s)"
    using assms by (auto simp: wf_str_def)
  then show thesis
    using that [of "take (nat (slen s)) (dat s)" "drop (nat (slen s)) (dat s)"] assms
    by (auto simp: wf_str_def runes_of_def)
qed

lemma blit_eq_Ok [simp]: "blit d off bs = Ok d' \<longleftrightarrow> off + length bs \<le> length d
    \<and> d' = take off d @ bs @ drop (off + length bs) d"
  by (auto simp: blit_def)

lemma rdmem_eq_Ok [simp]: "rdmem n m = Ok r \<longleftrightarrow> n \<le> length m \<and> r = take n m"
  by (auto simp: rdmem_def)

lemma setstr_simps [simp]: "length (setstr hp p f) = length hp"
  "p < length hp \<Longrightarrow> setstr hp p f ! p = f (hp ! p)"
  "q \<noteq> p \<Longrightarrow> setstr hp p f ! q = hp ! q"
  by (simp_all add: setstr_def)

lemma destroy_nth: "destroy hp p ! q = (if p = Some q \<and> q < length hp
    then (hp ! q)\<lparr>sref := sref (hp ! q) - 1\<rparr> else hp ! q)"
proof (cases "q < length hp")
  case False
  then have "hp[x := y] ! q = hp ! q" for x y
    by (cases "x = q") (auto simp: list_update_beyond)
  with False show ?thesis by (simp add: destroy_def setstr_def split: option.split)
qed (auto simp: destroy_def setstr_def nth_list_update split: option.split)

lemma destroy_simps [simp]: "length (destroy hp p) = length hp"
  "runes_of (destroy hp p ! q) = runes_of (hp ! q)"
  "wf_str (destroy hp p ! q) = wf_str (hp ! q)"
  "dat (destroy hp p ! q) = dat (hp ! q)" "slen (destroy hp p ! q) = slen (hp ! q)"
  "smax (destroy hp p ! q) = smax (hp ! q)"
  by (simp_all add: destroy_nth runes_of_def wf_str_def)
    (simp add: destroy_def setstr_def split: option.split)

section \<open>What every operation keeps\<close>

text \<open>\<open>frees\<close>: the strings the other pointers see are untouched.\<close>

definition keeps :: "sheap \<Rightarrow> sheap \<Rightarrow> nat set \<Rightarrow> bool" where
  "keeps hp hp' M \<longleftrightarrow> length hp \<le> length hp'
     \<and> (\<forall>p < length hp. p \<notin> M \<longrightarrow> runes_of (hp' ! p) = runes_of (hp ! p)
          \<and> (wf_str (hp ! p) \<longrightarrow> wf_str (hp' ! p)))"

text \<open>\<open>denotes hp q rs\<close>: \<open>q\<close> is a well-formed string of the runes \<open>rs\<close>.\<close>

definition denotes :: "sheap \<Rightarrow> nat \<Rightarrow> u16 list \<Rightarrow> bool" where
  "denotes hp q rs \<longleftrightarrow> q < length hp \<and> wf_str (hp ! q) \<and> runes_of (hp ! q) = rs"

lemma keeps_refl [simp]: "keeps hp hp M"
  by (simp add: keeps_def)

lemma keeps_trans: "keeps a b M \<Longrightarrow> keeps b c M \<Longrightarrow> keeps a c M"
  by (auto simp: keeps_def)

lemma keeps_mono: "keeps a b M \<Longrightarrow> M \<subseteq> N \<Longrightarrow> keeps a b N"
  by (auto simp: keeps_def)

lemma keeps_append [simp]: "keeps hp (hp @ x) M"
  by (auto simp: keeps_def nth_append)

lemma keeps_destroy [simp]: "keeps hp (destroy hp' p) M = keeps hp hp' M"
  by (simp add: keeps_def)

lemma keeps_fresh: "keeps hp hp' M \<Longrightarrow> length hp \<le> p \<Longrightarrow> keeps hp (setstr hp' p f) M"
  by (auto simp: keeps_def)

lemma denotes_destroy [simp]: "denotes (destroy hp p) q rs = denotes hp q rs"
  by (simp add: denotes_def)

lemma small_byte: "b < Runeself \<Longrightarrow> (ucast b :: u16) = of_nat (unat b)"
  by simp

lemma wf_new_rune:
  assumes "dat s = enc rs @ x" "slen s = - int (length rs)" "rs \<noteq> []" "length rs \<le> smax s"
    "2 * smax s + STRUCTALIGN \<le> length (dat s)"
  shows "wf_str s" "runes_of s = rs"
  using assms by (simp_all add: wf_str_def runes_of_def)

lemma wf_new_ascii:
  assumes "dat s = bs @ x" "slen s = int (length bs)" "length bs \<le> smax s"
    "smax s + STRUCTALIGN \<le> length (dat s)" "list_all (\<lambda>b. b < Runeself) bs"
  shows "wf_str s" "runes_of s = map ucast bs"
  using assms by (simp_all add: wf_str_def runes_of_def)

lemma newstring_facts:
  assumes "newstring al hp n = (hp', p)"
  shows "p = length hp" "length hp' = Suc (length hp)" "keeps hp hp' {}"
    "q < length hp \<Longrightarrow> hp' ! q = hp ! q"
    "hp' ! p = \<lparr>sref = 1, slen = int n, smax = al n, dat = replicate (al n + STRUCTALIGN) 0\<rparr>"
  using assms by (auto simp: newstring_def nth_append)

lemma newrunes_facts:
  assumes "newrunes al hp (int n) = (hp', p)" "0 < n"
  shows "p = length hp" "length hp' = Suc (length hp)" "keeps hp hp' {}"
    "q < length hp \<Longrightarrow> hp' ! q = hp ! q"
    "hp' ! p = \<lparr>sref = 1, slen = - int n, smax = al (n * 2) div 2,
       dat = replicate (al (n * 2) + STRUCTALIGN) 0\<rparr>"
  using assms by (auto simp: newrunes_def nth_append)

lemma store_eq_Ok [simp]: "store hp p off bs = Ok hp' \<longleftrightarrow>
    off + length bs \<le> length (dat (hp ! p))
    \<and> hp' = setstr hp p (\<lambda>s. s\<lparr>dat := take off (dat s) @ bs @ drop (off + length bs) (dat s)\<rparr>)"
  by (auto simp: store_def setstr_def)

lemma enc_take_drop:
  "v \<le> length rs \<Longrightarrow> take (2 * v) (enc rs) = enc (take v rs)"
  "v \<le> length rs \<Longrightarrow> drop (2 * v) (enc rs) = enc (drop v rs)"
proof -
  assume "v \<le> length rs"
  then have "length (enc (take v rs)) = 2 * v" by simp
  moreover have "enc rs = enc (take v rs) @ enc (drop v rs)"
    by (metis append_take_drop_id enc_simps(3))
  ultimately show "take (2 * v) (enc rs) = enc (take v rs)" "drop (2 * v) (enc rs) = enc (drop v rs)"
    by (metis append_eq_conv_conj)+
qed

lemma enc_update:
  assumes "v < length rs"
  shows "take (2 * v) (enc rs @ x) @ PBIT16 r @ drop (2 * v + 2) (enc rs @ x) = enc (rs[v := r]) @ x"
proof -
  have "drop (2 * Suc v) (enc rs) = enc (drop (Suc v) rs)"
    using assms by (intro enc_take_drop) simp
  then have "drop (2 * v + 2) (enc rs) = enc (drop (Suc v) rs)" by simp
  then show ?thesis
    using assms enc_take_drop(1) [of v rs] by (simp add: upd_conv_take_nth_drop)
qed

lemma stringdup_spec:
  assumes "\<And>n. n \<le> al n" "p < length hp" "wf_str (hp ! p)"
  shows "\<exists>hp'. stringdup al hp (Some p) = Ok (hp', Some (length hp)) \<and> keeps hp hp' {}
    \<and> denotes hp' (length hp) (runes_of (hp ! p)) \<and> slen (hp' ! length hp) = slen (hp ! p)"
proof (cases "0 \<le> slen (hp ! p)")
  case True
  then obtain bs x where b: "dat (hp ! p) = bs @ x" "slen (hp ! p) = int (length bs)"
    "runes_of (hp ! p) = map ucast bs" "list_all (\<lambda>b. b < Runeself) bs"
    using assms(3) by (auto elim: wf_asciiE)
  obtain hp1 q where n: "newstring al hp (length bs) = (hp1, q)"
    by (cases "newstring al hp (length bs)")
  note f = newstring_facts [OF n]
  have "bs @ drop (length bs) (replicate (al (length bs) + STRUCTALIGN) 0)
    = bs @ replicate (al (length bs) + STRUCTALIGN - length bs) 0" by simp
  let ?s = "(hp1 ! q)\<lparr>dat := bs @ replicate (al (length bs) + STRUCTALIGN - length bs) 0\<rparr>"
  have "wf_str ?s" "runes_of ?s = map ucast bs"
    using assms(1) [of "length bs"] b(4) f(5)
    by (auto intro!: wf_new_ascii [where x = "replicate (al (length bs) + STRUCTALIGN - length bs) 0"])
  then show ?thesis
    using True b n f assms(1) [of "length bs"]
    by (simp add: stringdup_def Let_def denotes_def keeps_fresh)
next
  case False
  then obtain x where b: "dat (hp ! p) = enc (runes_of (hp ! p)) @ x"
    "slen (hp ! p) = - int (length (runes_of (hp ! p)))" "runes_of (hp ! p) \<noteq> []"
    using assms(3) by (auto elim: wf_runeE)
  let ?rs = "runes_of (hp ! p)"
  obtain hp1 q where n: "newrunes al hp (int (length ?rs)) = (hp1, q)"
    by (cases "newrunes al hp (int (length ?rs))")
  have "0 < length ?rs" using b(3) by simp
  note f = newrunes_facts [OF n this]
  have al: "2 * length ?rs \<le> al (length ?rs * 2)" using assms(1) [of "length ?rs * 2"] by simp
  let ?x = "replicate (al (length ?rs * 2) + STRUCTALIGN - 2 * length ?rs) 0"
  let ?s = "(hp1 ! q)\<lparr>dat := enc ?rs @ ?x\<rparr>"
  have "wf_str ?s" "runes_of ?s = ?rs"
    using al b(3) f(5) by (auto intro!: wf_new_rune [where x = ?x and rs = ?rs])
  then show ?thesis
    using False b n f al
    by (simp add: stringdup_def Let_def denotes_def keeps_fresh mult.commute)
qed

lemma splitc_spec:
  assumes "\<And>n. n \<le> al n" "p < length hp" "wf_str (hp ! p)"
  shows "\<exists>hp'. splitc al hp p expand = Ok (hp', length hp) \<and> keeps hp hp' {}
    \<and> denotes hp' (length hp) (runes_of (hp ! p))
    \<and> (slen (hp' ! length hp) < 0 \<longleftrightarrow> slen (hp ! p) < 0 \<or> expand \<and> 0 < slen (hp ! p))"
proof (cases "expand \<and> 0 < slen (hp ! p)")
  case False
  then show ?thesis
    using stringdup_spec [OF assms] by (auto simp: splitc_def)
next
  case True
  then obtain bs x where b: "dat (hp ! p) = bs @ x" "slen (hp ! p) = int (length bs)"
    "runes_of (hp ! p) = map ucast bs"
    using assms(3) by (auto elim: wf_asciiE)
  obtain hp1 q where n: "newrunes al hp (int (length bs)) = (hp1, q)"
    by (cases "newrunes al hp (int (length bs))")
  have "0 < length bs" using b True by simp
  note f = newrunes_facts [OF n this]
  have al: "2 * length bs \<le> al (length bs * 2)" using assms(1) [of "length bs * 2"] by simp
  let ?x = "replicate (al (length bs * 2) + STRUCTALIGN - 2 * length bs) 0"
  let ?rs = "map ucast bs :: u16 list"
  let ?s = "(hp1 ! q)\<lparr>dat := enc ?rs @ ?x\<rparr>"
  have "wf_str ?s" "runes_of ?s = ?rs"
    using al \<open>0 < length bs\<close> f(5) by (auto intro!: wf_new_rune [where x = ?x and rs = ?rs])
  then show ?thesis
    using True b n f al assms(2)
    by (simp add: splitc_def cvtup_def Let_def denotes_def keeps_fresh)
qed

lemma insc_rune_spec:
  assumes al: "\<And>n. n \<le> al n" and ss: "ss < length hp"
    and d: "dat (hp ! ss) = enc rs @ x" "2 * smax (hp ! ss) + STRUCTALIGN \<le> length (dat (hp ! ss))"
      "length rs \<le> smax (hp ! ss)" "slen (hp ! ss) = - int (length rs)"
  shows "if length rs < v then insc_rune al hp ss (int (length rs)) v r = Fail
    else \<exists>hp' q. insc_rune al hp ss (int (length rs)) v r = Ok (hp', q) \<and> keeps hp hp' {ss}
      \<and> denotes hp' q (if v < length rs then rs[v := of_int r] else rs @ [of_int r])
      \<and> (q = ss \<or> length hp \<le> q \<and> runes_of (hp' ! ss) = runes_of (hp ! ss))"
proof -
  let ?r = "of_int r :: u16"
  consider "length rs < v" | "v < length rs" | "v = length rs" "v < smax (hp ! ss)"
    | "v = length rs" "\<not> v < smax (hp ! ss)" by linarith
  then show ?thesis
  proof cases
    case 1
    then show ?thesis by (simp add: insc_rune_def)
  next
    case 2
    have u: "take (2 * v) (enc rs) @ PBIT16 ?r @ drop (Suc (Suc (2 * v))) (enc rs) @ x
        = enc (rs[v := ?r]) @ x"
      using enc_update [OF 2, of x ?r] 2 by simp
    let ?s = "(hp ! ss)\<lparr>dat := enc (rs[v := ?r]) @ x\<rparr>"
    have "wf_str ?s" "runes_of ?s = rs[v := ?r]"
      using 2 d by (auto intro!: wf_new_rune [where x = x and rs = "rs[v := ?r]"])
    then show ?thesis
      using 2 d ss by (simp add: insc_rune_def keeps_def denotes_def u)
  next
    case 3
    have l: "take (2 * v) (dat (hp ! ss)) = enc rs" using 3 d by simp
    let ?x = "drop (2 * v + 2) (dat (hp ! ss))"
    let ?s = "(hp ! ss)\<lparr>slen := - (int v + 1), dat := enc rs @ PBIT16 ?r @ ?x\<rparr>"
    have "wf_str ?s" "runes_of ?s = rs @ [?r]"
      using 3 d by (auto intro!: wf_new_rune [where x = ?x and rs = "rs @ [?r]"])
    then show ?thesis
      using 3 d(2) ss l by (simp add: insc_rune_def keeps_def denotes_def)
  next
    case 4
    obtain hp1 q where n: "newstring al hp ((v + 1 + v div 4) * 2) = (hp1, q)"
      by (cases "newstring al hp ((v + 1 + v div 4) * 2)")
    note f = newstring_facts [OF n]
    let ?n = "al ((v + 1 + v div 4) * 2)"
    have a: "(v + 1 + v div 4) * 2 \<le> ?n" by (rule al)
    then have c: "2 * v + 2 \<le> ?n" by simp
    let ?x = "replicate (?n + STRUCTALIGN - (2 * v + 2)) 0"
    let ?s = "(hp1 ! q)\<lparr>dat := enc rs @ PBIT16 ?r @ ?x, slen := - (int v + 1), smax := ?n div 2\<rparr>"
    have "wf_str ?s" "runes_of ?s = rs @ [?r]"
      using 4 c f(5) by (auto intro!: wf_new_rune [where x = ?x and rs = "rs @ [?r]"])
    moreover have "keeps hp hp1 {ss}" using f(3) by (rule keeps_mono) simp
    ultimately show ?thesis
      using 4 d n f c ss by (auto simp: insc_rune_def Let_def keeps_fresh denotes_def)
  qed
qed

lemma ascii_of_int:
  "0 \<le> r \<Longrightarrow> r < 128 \<Longrightarrow> (of_int r :: u8) < Runeself \<and> (ucast (of_int r :: u8) :: u16) = of_int r"
proof -
  assume r: "0 \<le> r" "r < 128"
  then have u: "uint (of_int r :: u8) = r" "uint (of_int r :: u16) = r"
    by (simp_all add: uint_word_of_int)
  then have "uint (ucast (of_int r :: u8) :: u16) = r"
    using r by (simp add: unsigned_ucast_eq take_bit_int_eq_self)
  with u r show ?thesis by (simp add: word_less_def word_uint_eq_iff)
qed

lemma insc_ascii_spec:
  assumes al: "\<And>n. n \<le> al n" and ss: "ss < length hp" and r: "0 \<le> r" "r < 128"
    and d: "dat (hp ! ss) = bs @ x" "smax (hp ! ss) + STRUCTALIGN \<le> length (dat (hp ! ss))"
      "length bs \<le> smax (hp ! ss)" "slen (hp ! ss) = int (length bs)" "list_all (\<lambda>b. b < Runeself) bs"
  shows "if length bs < v then insc_ascii al hp ss (int (length bs)) v r = Fail
    else \<exists>hp' q. insc_ascii al hp ss (int (length bs)) v r = Ok (hp', q) \<and> keeps hp hp' {ss}
      \<and> denotes hp' q (if v < length bs then (map ucast bs)[v := of_int r] else map ucast bs @ [of_int r])
      \<and> (q = ss \<or> length hp \<le> q \<and> runes_of (hp' ! ss) = runes_of (hp ! ss))"
proof -
  let ?r = "of_int r :: u8"
  have rr: "?r < Runeself" "(ucast ?r :: u16) = of_int r" using ascii_of_int [OF r] by auto
  consider "length bs < v" | "v < length bs" | "v = length bs" "v < smax (hp ! ss)"
    | "v = length bs" "\<not> v < smax (hp ! ss)" by linarith
  then show ?thesis
  proof cases
    case 1
    then show ?thesis by (simp add: insc_ascii_def)
  next
    case 2
    have u: "take v bs @ ?r # drop (Suc v) bs @ x = bs[v := ?r] @ x"
      using 2 by (simp add: upd_conv_take_nth_drop)
    let ?s = "(hp ! ss)\<lparr>dat := bs[v := ?r] @ x\<rparr>"
    have a: "list_all (\<lambda>b. b < Runeself) (bs[v := ?r])"
      using d(5) rr(1) 2 by (auto simp: list_all_length nth_list_update)
    have "wf_str ?s" "runes_of ?s = (map ucast bs)[v := of_int r]"
      using 2 d a rr(2) wf_new_ascii [where x = x and bs = "bs[v := ?r]" and s = ?s]
      by (auto simp: map_update)
    then show ?thesis
      using 2 d ss by (simp add: insc_ascii_def keeps_def denotes_def u)
  next
    case 3
    let ?x = "drop (v + 1) (dat (hp ! ss))"
    let ?s = "(hp ! ss)\<lparr>slen := int v + 1, dat := bs @ ?r # ?x\<rparr>"
    have "wf_str ?s" "runes_of ?s = map ucast bs @ [of_int r]"
      using 3 d rr wf_new_ascii [where x = ?x and bs = "bs @ [?r]" and s = ?s] by auto
    then show ?thesis
      using 3 d(1,2) ss by (simp add: insc_ascii_def keeps_def denotes_def)
  next
    case 4
    obtain hp1 q where n: "newstring al hp (v + 1 + v div 4) = (hp1, q)"
      by (cases "newstring al hp (v + 1 + v div 4)")
    note f = newstring_facts [OF n]
    let ?n = "al (v + 1 + v div 4)"
    have "v + 1 + v div 4 \<le> ?n" by (rule al)
    then have c: "v + 1 \<le> ?n" by simp
    let ?x = "replicate (?n + STRUCTALIGN - (v + 1)) 0"
    let ?s = "(hp1 ! q)\<lparr>dat := bs @ ?r # ?x, slen := int v + 1\<rparr>"
    have "wf_str ?s" "runes_of ?s = map ucast bs @ [of_int r]"
      using 4 c f(5) d(5) rr wf_new_ascii [where x = ?x and bs = "bs @ [?r]" and s = ?s] by auto
    moreover have "keeps hp hp1 {ss}" using f(3) by (rule keeps_mono) simp
    ultimately show ?thesis
      using 4 d n f c ss by (auto simp: insc_ascii_def Let_def keeps_fresh denotes_def)
  qed
qed

text \<open>On a nil string.\<close>

lemma insc_nil:
  assumes "\<And>n. n \<le> al n" "0 \<le> r" "r < 65536"
  shows "if 0 < v then insc al hp None v r = Fail
    else \<exists>hp' q. insc al hp None v r = Ok (hp', q) \<and> denotes hp' q [of_int r] \<and> keeps hp hp' {}"
proof -
  obtain hp1 q where n: "newstring al hp 0 = (hp1, q)" by (cases "newstring al hp 0")
  note f = newstring_facts [OF n]
  have k: "keeps hp hp' {}" if "keeps hp1 hp' {q}" for hp'
    using keeps_trans [of hp hp1 "{q}" hp'] that f(1,3) by (auto simp: keeps_def)
  show ?thesis
  proof (cases "128 \<le> r")
    case True
    let ?hp = "setstr hp1 q (\<lambda>s. s\<lparr>smax := smax s div 2\<rparr>)"
    have k': "keeps hp hp' {}" if "keeps ?hp hp' {q}" for hp'
      using that f(1,2,4) by (auto simp: keeps_def)
    have "insc al hp None v r = insc_rune al ?hp q 0 v r"
      using True by (simp add: insc_def n)
    then show ?thesis
      using insc_rune_spec [OF assms(1), of q ?hp "[]" "dat (hp1 ! q)" v r] f k'
      by fastforce
  next
    case False
    then have "insc al hp None v r = insc_ascii al hp1 q 0 v r"
      using f(5) by (simp add: insc_def n)
    then show ?thesis
      using insc_ascii_spec [OF assms(1), of q hp1 r "[]" "dat (hp1 ! q)" v] f k False assms(2)
      by fastforce
  qed
qed

text \<open>The string written to, after the first one has been split off its other references or
  expanded to runes.\<close>

lemma insc_target:
  assumes al: "\<And>n. n \<le> al n" and p: "p < length hp" "wf_str (hp ! p)"
  obtains hp1 d1 where "(if 1 < sref (hp ! p) \<or> (ex \<and> 0 < slen (hp ! p)) then splitc al hp p ex else Ok (hp, p)) = Ok (hp1, d1)"
    "keeps hp hp1 {}" "denotes hp1 d1 (runes_of (hp ! p))"
    "slen (hp1 ! d1) < 0 \<longleftrightarrow> slen (hp ! p) < 0 \<or> ex \<and> 0 < slen (hp ! p)"
    "d1 = p \<and> sref (hp ! p) \<le> 1 \<or> length hp \<le> d1"
proof (cases "1 < sref (hp ! p) \<or> (ex \<and> 0 < slen (hp ! p))")
  case True
  then show thesis using that splitc_spec [OF al p, of ex] by auto
next
  case False
  then show thesis using that [of hp p] p by (auto simp: denotes_def)
qed

text \<open>The two branches on it.\<close>

lemma insc_branch:
  assumes al: "\<And>n. n \<le> al n" and r: "0 \<le> r" "128 \<le> r \<Longrightarrow> slen (hp ! q) < 0" and d: "denotes hp q rs"
  shows "let res = (if slen (hp ! q) < 0 \<or> 128 \<le> r then insc_rune al hp q (- slen (hp ! q)) v r else insc_ascii al hp q (slen (hp ! q)) v r) in
    if length rs < v then res = Fail
    else \<exists>hp' q'. res = Ok (hp', q') \<and> keeps hp hp' {q} \<and> denotes hp' q' (if v < length rs then rs[v := of_int r] else rs @ [of_int r])"
proof (cases "slen (hp ! q) < 0")
  case neg: True
  have w: "q < length hp" "wf_str (hp ! q)" "runes_of (hp ! q) = rs" using d by (auto simp: denotes_def)
  obtain x where x: "dat (hp ! q) = enc rs @ x" "slen (hp ! q) = - int (length rs)"
    "length rs \<le> smax (hp ! q)" "2 * smax (hp ! q) + STRUCTALIGN \<le> length (dat (hp ! q))"
    using w(2) neg by (rule wf_runeE) (use w(3) in auto)
  show ?thesis
    using insc_rune_spec [OF al w(1) x(1,4,3,2), of v r] neg x(2) by (auto simp: Let_def split: if_splits)
next
  case False
  have w: "q < length hp" "wf_str (hp ! q)" "runes_of (hp ! q) = rs" using d by (auto simp: denotes_def)
  obtain bs x where x: "dat (hp ! q) = bs @ x" "slen (hp ! q) = int (length bs)"
    "rs = map ucast bs" "length bs \<le> smax (hp ! q)"
    "smax (hp ! q) + STRUCTALIGN \<le> length (dat (hp ! q))" "list_all (\<lambda>b. b < Runeself) bs"
    using wf_asciiE [OF w(2)] False w(3) by (metis not_less)
  have lo: "r < 128" using r(2) False by linarith
  then have c: "\<not> (slen (hp ! q) < 0 \<or> 128 \<le> r)" using False by linarith
  show ?thesis
    using insc_ascii_spec [OF al w(1) r(1) lo x(1,5,4,2,6), of v] x(2,3)
    unfolding if_not_P [OF c] Let_def by (auto split: if_splits)
qed

text \<open>C3: \<open>s[v] = r\<close>.  An index past the length raises a bounds error; otherwise the
  instruction succeeds and \<open>R.d\<close> holds the old string with rune \<open>v\<close> replaced, or appended when
  \<open>v\<close> is the length, whatever changes of representation and reallocations that takes, and every
  other reference still sees its old string (copy on write).  The rune must be one of the 16-bit
  runes, and the string not an allocated empty one if the rune is not ASCII (see
  \<open>insc_empty_overrun\<close>).\<close>

theorem insc_spec:
  assumes "\<And>n. n \<le> al n" "wf_ptr hp d" "0 \<le> r" "r < 65536"
    and "\<And>p. d = Some p \<Longrightarrow> 128 \<le> r \<Longrightarrow> slen (hp ! p) \<noteq> 0"
  shows "let rs = runesp hp d in
    if length rs < v then insc al hp d v r = Fail
    else \<exists>hp' q. insc al hp d v r = Ok (hp', q)
      \<and> denotes hp' q (if v < length rs then rs[v := of_int r] else rs @ [of_int r])
      \<and> keeps hp hp' {p. d = Some p \<and> sref (hp ! p) \<le> 1}"
proof (cases d)
  case None
  then show ?thesis
    using insc_nil [OF assms(1,3,4), of v hp] by (auto simp: runesp_def split: if_splits)
next
  case (Some p)
  let ?rs = "runes_of (hp ! p)"
  let ?new = "if v < length ?rs then ?rs[v := of_int r] else ?rs @ [of_int r]"
  have p: "p < length hp" "wf_str (hp ! p)" using assms(2) Some by (auto simp: wf_ptr_def)
  obtain hp1 d1 where 1: "(if 1 < sref (hp ! p) \<or> (128 \<le> r \<and> 0 < slen (hp ! p)) then splitc al hp p (128 \<le> r) else Ok (hp, p)) = Ok (hp1, d1)"
    "keeps hp hp1 {}" "denotes hp1 d1 ?rs"
    "slen (hp1 ! d1) < 0 \<longleftrightarrow> slen (hp ! p) < 0 \<or> 128 \<le> r \<and> 0 < slen (hp ! p)"
    "d1 = p \<and> sref (hp ! p) \<le> 1 \<or> length hp \<le> d1"
    by (rule insc_target [OF assms(1) p])
  let ?body = "\<lambda>l. if l < 0 \<or> 128 \<le> r then insc_rune al hp1 d1 (- l) v r else insc_ascii al hp1 d1 l v r"
  have "128 \<le> r \<Longrightarrow> slen (hp1 ! d1) < 0" using 1(4) assms(5) [OF Some] by linarith
  then have body: "if length ?rs < v then ?body (slen (hp1 ! d1)) = Fail
    else \<exists>hp' q. ?body (slen (hp1 ! d1)) = Ok (hp', q) \<and> keeps hp1 hp' {d1} \<and> denotes hp' q ?new"
    using insc_branch [OF assms(1,3) _ 1(3), of v] unfolding Let_def by blast
  have k: "keeps hp hp' {p. d = Some p \<and> sref (hp ! p) \<le> 1}" if "keeps hp1 hp' {d1}" for hp'
  proof -
    have "q \<noteq> d1" if "q < length hp" "q \<notin> {p. d = Some p \<and> sref (hp ! p) \<le> 1}" for q
      using that 1(5) Some by auto
    with 1(2) that show ?thesis by (simp add: keeps_def)
  qed
  have i: "insc al hp d v r = obind (?body (slen (hp1 ! d1)))
      (\<lambda>(hp, ss). Ok (if ss \<noteq> d1 then destroy hp (Some d1) else hp, ss))"
    unfolding insc_def Let_def Some using 1(1) by simp
  show ?thesis
  proof (cases "length ?rs < v")
    case True
    with body have "?body (slen (hp1 ! d1)) = Fail" by simp
    with True show ?thesis unfolding i by (simp add: Some runesp_def)
  next
    case False
    with body obtain hp2 q where 2: "?body (slen (hp1 ! d1)) = Ok (hp2, q)" "keeps hp1 hp2 {d1}"
      "denotes hp2 q ?new" by auto
    let ?hp = "if q \<noteq> d1 then destroy hp2 (Some d1) else hp2"
    have "insc al hp d v r = Ok (?hp, q)" unfolding i 2(1) by simp
    moreover have "denotes ?hp q X = denotes hp2 q X" for X by simp
    then have "denotes ?hp q ?new" using 2(3) by (rule iffD2)
    moreover have "keeps hp ?hp {p. d = Some p \<and> sref (hp ! p) \<le> 1}"
      using k [OF 2(2)] by simp
    ultimately show ?thesis
      using False unfolding Let_def runesp_def Some option.case by (simp only: if_False) blast
  qed
qed

definition sample_heap :: sheap where
  "sample_heap = [\<lparr>sref = 1, slen = 2, smax = 4, dat = [97, 98, 0, 0, 0, 0, 0, 0]\<rparr>,
     \<lparr>sref = 2, slen = -2, smax = 3, dat = [0xE9, 0, 98, 0, 0, 0, 0, 0, 0, 0]\<rparr>]"

lemma sample_heap:
  "wf_ptr sample_heap (Some 0)" "wf_ptr sample_heap (Some 1)"
  "runesp sample_heap (Some 0) = [97, 98]" "runesp sample_heap (Some 1) = [0xE9, 98]"
  "sref (sample_heap ! 0) = 1" "slen (sample_heap ! 1) = -2"
  by (simp_all add: sample_heap_def wf_ptr_def wf_str_def runesp_def runes_of_def getr_def
    GBIT16_def upt_conv_Cons)

theorem insc_spec_witness:
  "\<exists>hp' q. insc (\<lambda>n. n) sample_heap (Some 1) 2 0x20AC = Ok (hp', q)
     \<and> denotes hp' q [0xE9, 98, 0x20AC]
     \<and> keeps sample_heap hp' {p. Some 1 = Some p \<and> sref (sample_heap ! p) \<le> 1}"
  using insc_spec [of "\<lambda>n. n" sample_heap "Some 1" "0x20AC" 2]
  by (simp add: sample_heap sample_heap(2,4,6) [unfolded One_nat_def])

fun insc_seq :: "(nat \<Rightarrow> nat) \<Rightarrow> sheap \<Rightarrow> sptr \<Rightarrow> nat \<Rightarrow> int list \<Rightarrow> (sheap \<times> sptr) outcome" where
  "insc_seq al hp d v [] = Ok (hp, d)"
| "insc_seq al hp d v (r # rs) =
     obind (insc al hp d v r) (\<lambda>(hp, q). insc_seq al hp (Some q) (v + 1) rs)"

definition ok :: "'a outcome \<Rightarrow> bool" where
  "ok m \<longleftrightarrow> (case m of Ok _ \<Rightarrow> True | _ \<Rightarrow> False)"

text \<open>the exception of \<open>insc_spec\<close> is needed.  The empty string that \<open>cvtac\<close> makes of an
  empty array is an allocated one, and the first non-ASCII rune appended to it turns \<open>len\<close>
  negative without dividing \<open>max\<close> by the size of a rune, so that later appends run past the
  block: with an allocator that gives 12 bytes more than asked, nine appends starting from
  \<open>H\<close> succeed, and the same nine starting from the empty string write outside the heap
  block.\<close>

theorem insc_empty_overrun:
  "ok (insc_seq (\<lambda>n. n + 12) [] None 0 (replicate 9 0xE9))
   \<and> obind (c2string (\<lambda>n. n + 12) [] []) (\<lambda>(hp, s).
        insc_seq (\<lambda>n. n + 12) hp (Some s) 0 (replicate 9 0xE9)) = Undef"
  by code_simp

end
