(* ===== verification/DisStringOps.thy ===== *)
theory DisStringOps
  imports DisString
begin

unbundle bit_operations_syntax

text \<open>
  What the string instructions of \<open>libinterp/string.c\<close> compute, stated on the rune sequences
  of \<open>DisString\<close>: concatenation, slices, comparison, and conversion to and from UTF-8.
\<close>

section \<open>Concatenation\<close>

lemma wf_strE:
  assumes "wf_str s"
  obtains (rune) x where "slen s < 0" "dat s = enc (runes_of s) @ x"
      "slen s = - int (length (runes_of s))" "runes_of s \<noteq> []"
      "length (runes_of s) \<le> smax s" "2 * smax s + STRUCTALIGN \<le> length (dat s)"
  | (ascii) bs x where "0 \<le> slen s" "dat s = bs @ x" "slen s = int (length bs)"
      "runes_of s = map ucast bs" "length bs \<le> smax s" "smax s + STRUCTALIGN \<le> length (dat s)"
      "list_all (\<lambda>b. b < Runeself) bs"
  using assms by (cases "slen s < 0") (auto elim: wf_runeE wf_asciiE)

text \<open>Appending the runes of \<open>t\<close> to a rune string already holding \<open>rs\<close>.\<close>

lemma append_tail:
  assumes t: "t < length hp" "wf_str (hp ! t)" and ns: "ns < length hp" "ns \<noteq> t"
    and d: "dat (hp ! ns) = enc rs @ x" "length rs + length (runes_of (hp ! t)) \<le> smax (hp ! ns)"
      "2 * smax (hp ! ns) + STRUCTALIGN \<le> length (dat (hp ! ns))"
      "slen (hp ! ns) = - int (length rs + length (runes_of (hp ! t)))"
      "rs \<noteq> [] \<or> runes_of (hp ! t) \<noteq> []"
  shows "\<exists>hp'. (if slen (hp ! t) < 0 then
        obind (rdmem (nat (- slen (hp ! t)) * 2) (dat (hp ! t))) (\<lambda>m. store hp ns (2 * length rs) m)
      else cvtup hp ns (length rs) t) = Ok hp' \<and> denotes hp' ns (rs @ runes_of (hp ! t))
      \<and> keeps hp hp' {ns}"
proof -
  let ?q = "runes_of (hp ! t)"
  let ?x = "drop (2 * length rs + 2 * length ?q) (dat (hp ! ns))"
  let ?s = "(hp ! ns)\<lparr>dat := enc rs @ enc ?q @ ?x\<rparr>"
  have w: "wf_str ?s" "runes_of ?s = rs @ ?q"
    using d by (auto intro!: wf_new_rune [where x = ?x and rs = "rs @ ?q"])
  have l: "take (2 * length rs) (dat (hp ! ns)) = enc rs"
    "2 * length rs + 2 * length ?q \<le> length (dat (hp ! ns))"
    using d by simp_all
  have s: "store hp ns (2 * length rs) (enc ?q) = Ok (setstr hp ns (\<lambda>s. s\<lparr>dat := enc rs @ enc ?q @ ?x\<rparr>))"
    using l by (simp add: setstr_def)
  have e: "(if slen (hp ! t) < 0 then
        obind (rdmem (nat (- slen (hp ! t)) * 2) (dat (hp ! t))) (\<lambda>m. store hp ns (2 * length rs) m)
      else cvtup hp ns (length rs) t) = store hp ns (2 * length rs) (enc ?q)"
    using t(2)
  proof (cases rule: wf_strE)
    case (rune y)
    then have r: "rdmem (nat (- slen (hp ! t)) * 2) (dat (hp ! t)) = Ok (enc ?q)" by simp
    show ?thesis using rune(1) by (simp only: if_True r obind.simps)
  next
    case (ascii bs y)
    then have r: "rdmem (nat (slen (hp ! t))) (dat (hp ! t)) = Ok bs" by simp
    have "\<not> slen (hp ! t) < 0" using ascii(1) by simp
    then show ?thesis by (simp only: if_False cvtup_def r obind.simps ascii(4))
  qed
  show ?thesis
    unfolding e s using w ns by (auto simp: denotes_def keeps_def)
qed

lemma new_runes_with:
  assumes al: "\<And>n. n \<le> al n" and m: "0 < m" "length rs \<le> m"
  shows "\<exists>hp1 hp2 x. newrunes al hp (int m) = (hp1, length hp)
    \<and> store hp1 (length hp) 0 (enc rs) = Ok hp2 \<and> length hp2 = Suc (length hp)
    \<and> length hp1 = Suc (length hp) \<and> keeps hp hp2 {} \<and> keeps hp hp1 {}
    \<and> dat (hp2 ! length hp) = enc rs @ x
    \<and> m \<le> smax (hp2 ! length hp) \<and> 2 * smax (hp2 ! length hp) + STRUCTALIGN \<le> length (dat (hp2 ! length hp))
    \<and> (\<forall>q < length hp. hp2 ! q = hp ! q \<and> hp1 ! q = hp ! q)"
proof -
  obtain hp1 ns where n: "newrunes al hp (int m) = (hp1, ns)" by (cases "newrunes al hp (int m)")
  note f = newrunes_facts [OF n m(1)]
  have a: "2 * m \<le> al (m * 2)" using al [of "m * 2"] by simp
  then have "store hp1 ns 0 (enc rs) = Ok (setstr hp1 ns (\<lambda>s. s\<lparr>dat := enc rs @ drop (2 * length rs) (dat s)\<rparr>))"
    using f(5) m(2) by simp
  then show ?thesis
    using n f a m(2) by (auto simp: keeps_fresh)
qed

lemma upd_commute: "s\<lparr>slen := b, dat := a\<rparr> = s\<lparr>dat := a, slen := b\<rparr>" for s :: dstr
  by simp

lemma keeps_slen: "keeps hp (setstr hp p f) {p}"
  by (simp add: keeps_def)

text \<open>\<open>reused\<close>: the string that is overwritten.\<close>

definition reused :: "bool \<Rightarrow> sheap \<Rightarrow> nat \<Rightarrow> nat set" where
  "reused app hp p = (if app \<and> sref (hp ! p) \<le> 1 then {p} else {})"

text \<open>The string with the runes of the first operand and room for the others: the first operand
  itself, or a new one.\<close>

lemma rune_room:
  assumes al: "\<And>n. n \<le> al n" and p: "p < length hp" "dat (hp ! p) = enc P @ x" "2 * smax (hp ! p) + STRUCTALIGN \<le> length (dat (hp ! p))"
    and t: "t < length hp" and pt: "a \<Longrightarrow> p \<noteq> t" and l: "0 < l" "length P \<le> l"
  obtains hp1 ns y where "(if a \<and> l \<le> smax (hp ! p) then Ok (hp, p)
      else let (hp, ns) = newrunes al hp (int (if a then l + l div 4 else l)) in
        obind (rdmem (length P * 2) (dat (hp ! p))) (\<lambda>m.
        obind (store hp ns 0 m) (\<lambda>hp. Ok (hp, ns)))) = Ok (hp1, ns)"
    "keeps hp hp1 {}" "t < length hp1" "hp1 ! t = hp ! t" "ns < length hp1" "ns \<noteq> t"
    "dat (hp1 ! ns) = enc P @ y" "l \<le> smax (hp1 ! ns)"
    "2 * smax (hp1 ! ns) + STRUCTALIGN \<le> length (dat (hp1 ! ns))" "ns = p \<and> a \<or> length hp \<le> ns"
proof (cases "a \<and> l \<le> smax (hp ! p)")
  case True
  then show thesis using that [of hp p x] p t pt by auto
next
  case False
  let ?m = "if a then l + l div 4 else l"
  have m: "0 < ?m" "length P \<le> ?m" using l by auto
  obtain hpa hpb y where n: "newrunes al hp (int ?m) = (hpa, length hp)"
    "store hpa (length hp) 0 (enc P) = Ok hpb" "length hpb = Suc (length hp)" "keeps hp hpb {}"
    "dat (hpb ! length hp) = enc P @ y" "?m \<le> smax (hpb ! length hp)"
    "2 * smax (hpb ! length hp) + STRUCTALIGN \<le> length (dat (hpb ! length hp))"
    "\<And>q. q < length hp \<Longrightarrow> hpb ! q = hp ! q \<and> hpa ! q = hp ! q"
    using new_runes_with [OF al m, of hp] by blast
  have "rdmem (length P * 2) (dat (hpa ! p)) = Ok (enc P)" using n(8) [OF p(1)] p(2) by simp
  then show thesis using that [of hpb "length hp" y] False n t by (auto split: if_splits)
qed

lemma byte_room:
  assumes al: "\<And>n. n \<le> al n" and p: "p < length hp" "dat (hp ! p) = bs @ x" "smax (hp ! p) + STRUCTALIGN \<le> length (dat (hp ! p))"
    and t: "t < length hp" and pt: "a \<Longrightarrow> p \<noteq> t" and l: "length bs \<le> l"
  obtains hp1 ns z where "(if a \<and> l \<le> smax (hp ! p) then Ok (hp, p)
      else let (hp, ns) = newstring al hp (if a then l + l div 4 else l) in
        obind (rdmem (length bs) (dat (hp ! p))) (\<lambda>m.
        obind (store hp ns 0 m) (\<lambda>hp. Ok (hp, ns)))) = Ok (hp1, ns)"
    "keeps hp hp1 {}" "hp1 ! t = hp ! t" "ns < length hp1" "ns \<noteq> t"
    "dat (hp1 ! ns) = bs @ z" "l \<le> smax (hp1 ! ns)"
    "smax (hp1 ! ns) + STRUCTALIGN \<le> length (dat (hp1 ! ns))" "ns = p \<and> a \<or> length hp \<le> ns"
proof (cases "a \<and> l \<le> smax (hp ! p)")
  case True
  then show thesis using that [of hp p x] p t pt by auto
next
  case False
  let ?m = "if a then l + l div 4 else l"
  obtain hpa ns where n: "newstring al hp ?m = (hpa, ns)" by (cases "newstring al hp ?m")
  note f = newstring_facts [OF n]
  have "?m \<le> al ?m" by (rule al)
  then have a: "l \<le> al ?m" by (auto split: if_splits)
  let ?hp1 = "setstr hpa ns (\<lambda>s. s\<lparr>dat := bs @ drop (length bs) (dat s)\<rparr>)"
  have "rdmem (length bs) (dat (hpa ! p)) = Ok bs" "store hpa ns 0 bs = Ok ?hp1"
    using f(4) [OF p(1)] p(2) f(5) a l by simp_all
  then show thesis
    using that [of ?hp1 ns "drop (length bs) (dat (hpa ! ns))"] False n f t a l
    by (auto simp: keeps_fresh simp del: drop_replicate)
qed

lemma keeps_reused:
  assumes "keeps hp hp1 {}" "keeps hp1 hp2 {ns}" "ns = p \<and> app \<and> sref (hp ! p) \<le> 1 \<or> length hp \<le> ns"
  shows "keeps hp hp2 (reused app hp p)"
proof -
  have "keeps hp hp2 {ns}" using keeps_trans [OF keeps_mono [OF assms(1) empty_subsetI] assms(2)] by simp
  then show ?thesis using assms(3) by (auto simp: keeps_def reused_def)
qed

text \<open>The three ways to concatenate: to runes, bytes before runes, and bytes.\<close>

lemma addstring_runes:
  assumes al: "\<And>n. n \<le> al n" and p: "p < length hp" and t: "t < length hp" "wf_str (hp ! t)"
    and ne: "app \<Longrightarrow> p = t \<Longrightarrow> 1 < sref (hp ! p)"
    and r: "slen (hp ! p) < 0" "dat (hp ! p) = enc (runes_of (hp ! p)) @ x" "slen (hp ! p) = - int (length (runes_of (hp ! p)))"
      "runes_of (hp ! p) \<noteq> []" "2 * smax (hp ! p) + STRUCTALIGN \<le> length (dat (hp ! p))"
  shows "\<exists>hp' ns. addstring al hp (Some p) (Some t) app = Ok (hp', Some ns)
    \<and> denotes hp' ns (runes_of (hp ! p) @ runes_of (hp ! t)) \<and> keeps hp hp' (reused app hp p)"
proof -
  define a P T l where "a \<longleftrightarrow> app \<and> \<not> 1 < sref (hp ! p)" and "P = runes_of (hp ! p)" and "T = runes_of (hp ! t)"
    and "l = length P + length T"
  have app: "(if 1 < sref (hp ! p) then False else app) = a" by (simp add: a_def)
  have "nat \<bar>slen (hp ! t)\<bar> = length T" using t(2) by (cases rule: wf_strE) (simp_all add: T_def)
  then have l: "nat (- slen (hp ! p)) = length P" "nat \<bar>slen (hp ! t)\<bar> = length T" "0 < l" "length P \<le> l" "a \<Longrightarrow> p \<noteq> t"
    using r(3,4) ne by (auto simp: P_def l_def a_def)
  obtain hp1 ns y where 1: "(if a \<and> l \<le> smax (hp ! p) then Ok (hp, p)
      else let (hp, ns) = newrunes al hp (int (if a then l + l div 4 else l)) in
        obind (rdmem (length P * 2) (dat (hp ! p))) (\<lambda>m.
        obind (store hp ns 0 m) (\<lambda>hp. Ok (hp, ns)))) = Ok (hp1, ns)"
    "keeps hp hp1 {}" "t < length hp1" "hp1 ! t = hp ! t" "ns < length hp1" "ns \<noteq> t"
    "dat (hp1 ! ns) = enc P @ y" "l \<le> smax (hp1 ! ns)"
    "2 * smax (hp1 ! ns) + STRUCTALIGN \<le> length (dat (hp1 ! ns))" "ns = p \<and> a \<or> length hp \<le> ns"
    by (rule rune_room [OF al p r(2) [folded P_def] r(5) t(1) l(5,3,4)])
  let ?hp = "setstr hp1 ns (\<lambda>s. s\<lparr>slen := - int l\<rparr>)"
  have "\<exists>hp'. (if slen (?hp ! t) < 0 then
      obind (rdmem (nat (- slen (?hp ! t)) * 2) (dat (?hp ! t))) (\<lambda>m. store ?hp ns (2 * length P) m)
    else cvtup ?hp ns (length P) t) = Ok hp' \<and> denotes hp' ns (P @ runes_of (?hp ! t)) \<and> keeps ?hp hp' {ns}"
    using 1 t r(4) by (intro append_tail [where x = y]) (simp_all add: P_def T_def l_def)
  then obtain hp' where 2: "(if slen (?hp ! t) < 0 then
      obind (rdmem (nat (- slen (?hp ! t)) * 2) (dat (?hp ! t))) (\<lambda>m. store ?hp ns (2 * length P) m)
    else cvtup ?hp ns (length P) t) = Ok hp'" "denotes hp' ns (P @ T)" "keeps ?hp hp' {ns}"
    using 1(4,6) by (auto simp: T_def)
  have "addstring al hp (Some p) (Some t) app = Ok (hp', Some ns)"
    unfolding addstring_def prod.case option.case Let_def app l(1,2) l_def [symmetric]
    by (simp only: r(1) if_True 1(1) [unfolded Let_def] 2(1) obind.simps prod.case)
  moreover have "keeps hp hp' (reused app hp p)"
    by (rule keeps_reused [OF 1(2) keeps_trans [OF keeps_slen 2(3)]]) (use 1(10) in \<open>auto simp: a_def\<close>)
  ultimately show ?thesis using 2(2) by (auto simp: P_def T_def)
qed

lemma addstring_expand:
  assumes al: "\<And>n. n \<le> al n" and p: "p < length hp" and t: "t < length hp" "wf_str (hp ! t)" "slen (hp ! t) < 0"
    and b: "0 \<le> slen (hp ! p)" "dat (hp ! p) = bs @ x" "slen (hp ! p) = int (length bs)" "runes_of (hp ! p) = map ucast bs"
  shows "\<exists>hp' ns. addstring al hp (Some p) (Some t) app = Ok (hp', Some ns)
    \<and> denotes hp' ns (runes_of (hp ! p) @ runes_of (hp ! t)) \<and> keeps hp hp' (reused app hp p)"
proof -
  define a P T l where "a \<longleftrightarrow> app \<and> \<not> 1 < sref (hp ! p)" and "P = runes_of (hp ! p)" and "T = runes_of (hp ! t)"
    and "l = length bs + length T"
  have app: "(if 1 < sref (hp ! p) then False else app) = a" by (simp add: a_def)
  have lb: "length P = length bs" "nat (slen (hp ! p)) = length bs" using b by (simp_all add: P_def)
  obtain y where T: "dat (hp ! t) = enc T @ y" "slen (hp ! t) = - int (length T)" "T \<noteq> []"
    unfolding T_def using t(2,3) by (rule wf_runeE)
  let ?m = "if a then l + l div 4 else l"
  have m: "0 < ?m" "length P \<le> ?m" using T(3) lb by (auto simp: l_def Suc_le_eq)
  obtain hpa hpb z where n: "newrunes al hp (int ?m) = (hpa, length hp)"
    "store hpa (length hp) 0 (enc P) = Ok hpb" "length hpb = Suc (length hp)" "length hpa = Suc (length hp)" "keeps hp hpb {}"
    "dat (hpb ! length hp) = enc P @ z" "?m \<le> smax (hpb ! length hp)"
    "2 * smax (hpb ! length hp) + STRUCTALIGN \<le> length (dat (hpb ! length hp))"
    "\<And>q. q < length hp \<Longrightarrow> hpb ! q = hp ! q \<and> hpa ! q = hp ! q"
    using new_runes_with [OF al m, of hp] by blast
  define ns where "ns = length hp"
  let ?hpa = "setstr hpa ns (\<lambda>s. s\<lparr>slen := - int l\<rparr>)"
  let ?hpb = "setstr hpb ns (\<lambda>s. s\<lparr>slen := - int l\<rparr>)"
  have ne: "t \<noteq> ns" "p \<noteq> ns" using t(1) p by (auto simp: ns_def)
  have "rdmem (length bs) (dat (hp ! p)) = Ok bs" using b(2) by simp
  then have c: "cvtup ?hpa ns 0 p = Ok ?hpb"
    using n(2,4) n(9) [OF p] p lb b(4) by (auto simp: cvtup_def setstr_def upd_commute ns_def P_def)
  have r: "rdmem (length T * 2) (dat (?hpb ! t)) = Ok (enc T)" "rdmem (nat (- slen (?hpb ! t)) * 2) (dat (?hpb ! t)) = Ok (enc T)"
    "(slen (?hpb ! t) < 0) = True" "runes_of (?hpb ! t) = T" "slen (?hpb ! p) = slen (hp ! p)"
    using T n(9) [OF t(1)] n(9) [OF p] ne t(3) by (simp_all add: T_def)
  have "\<exists>hp'. (if slen (?hpb ! t) < 0 then
      obind (rdmem (nat (- slen (?hpb ! t)) * 2) (dat (?hpb ! t))) (\<lambda>m. store ?hpb ns (2 * length P) m)
    else cvtup ?hpb ns (length P) t) = Ok hp' \<and> denotes hp' ns (P @ runes_of (?hpb ! t)) \<and> keeps ?hpb hp' {ns}"
    using n t T(3) ne lb r(4) by (intro append_tail [where x = z]) (auto simp: ns_def l_def T_def split: if_splits)
  then obtain hp' where 2: "store ?hpb ns (2 * length bs) (enc T) = Ok hp'" "denotes hp' ns (P @ T)" "keeps ?hpb hp' {ns}"
    unfolding r(2-4) lb(1) by auto
  have nt: "nat (- slen (hp ! t)) = length T" "(slen (hp ! p) < 0) = False" using T(2) b(1) by simp_all
  have "addstring al hp (Some p) (Some t) app = Ok (hp', Some ns)"
    unfolding addstring_def prod.case option.case Let_def app nt(1) lb(2) l_def [symmetric]
    by (simp only: nt(2) if_False if_True t(3) n(1) [folded ns_def] c r(1,5) lb(2) 2(1) obind.simps prod.case)
  moreover have "keeps hp hp' (reused app hp p)"
    by (rule keeps_reused [OF n(5) keeps_trans [OF keeps_slen 2(3)]]) (simp add: ns_def)
  ultimately show ?thesis using 2(2) by (auto simp: P_def T_def)
qed

lemma addstring_bytes:
  assumes al: "\<And>n. n \<le> al n" and p: "p < length hp" and t: "t < length hp" "wf_str (hp ! t)" "\<not> slen (hp ! t) < 0"
    and ne: "app \<Longrightarrow> p = t \<Longrightarrow> 1 < sref (hp ! p)"
    and b: "0 \<le> slen (hp ! p)" "dat (hp ! p) = bs @ x" "slen (hp ! p) = int (length bs)" "runes_of (hp ! p) = map ucast bs"
      "smax (hp ! p) + STRUCTALIGN \<le> length (dat (hp ! p))" "list_all (\<lambda>b. b < Runeself) bs"
  shows "\<exists>hp' ns. addstring al hp (Some p) (Some t) app = Ok (hp', Some ns)
    \<and> denotes hp' ns (runes_of (hp ! p) @ runes_of (hp ! t)) \<and> keeps hp hp' (reused app hp p)"
proof -
  obtain ts y where T: "dat (hp ! t) = ts @ y" "slen (hp ! t) = int (length ts)"
    "runes_of (hp ! t) = map ucast ts" "list_all (\<lambda>b. b < Runeself) ts"
    using wf_asciiE [OF t(2)] t(3) by (metis not_less)
  define a l where "a \<longleftrightarrow> app \<and> \<not> 1 < sref (hp ! p)" and "l = length bs + length ts"
  have app: "(if 1 < sref (hp ! p) then False else app) = a" by (simp add: a_def)
  have l: "length bs \<le> l" "a \<Longrightarrow> p \<noteq> t" using ne by (auto simp: l_def a_def)
  obtain hp1 ns z where 1: "(if a \<and> l \<le> smax (hp ! p) then Ok (hp, p)
      else let (hp, ns) = newstring al hp (if a then l + l div 4 else l) in
        obind (rdmem (length bs) (dat (hp ! p))) (\<lambda>m.
        obind (store hp ns 0 m) (\<lambda>hp. Ok (hp, ns)))) = Ok (hp1, ns)"
    "keeps hp hp1 {}" "hp1 ! t = hp ! t" "ns < length hp1" "ns \<noteq> t"
    "dat (hp1 ! ns) = bs @ z" "l \<le> smax (hp1 ! ns)"
    "smax (hp1 ! ns) + STRUCTALIGN \<le> length (dat (hp1 ! ns))" "ns = p \<and> a \<or> length hp \<le> ns"
    by (rule byte_room [OF al p b(2,5) t(1) l(2,1)])
  let ?hp = "setstr hp1 ns (\<lambda>s. s\<lparr>slen := int l\<rparr>)"
  let ?x = "drop l (dat (hp1 ! ns))"
  let ?hp' = "setstr ?hp ns (\<lambda>s. s\<lparr>dat := bs @ ts @ ?x\<rparr>)"
  have st: "store ?hp ns (length bs) ts = Ok ?hp'" using 1(4,6,7,8) by (auto simp: setstr_def l_def)
  have "wf_str (?hp' ! ns)" "runes_of (?hp' ! ns) = runes_of (hp ! p) @ runes_of (hp ! t)"
    using 1(4,6,7,8) b(4,6) T(3,4) wf_new_ascii [where x = ?x and bs = "bs @ ts" and s = "?hp' ! ns"]
    by (auto simp: l_def)
  then have 2: "denotes ?hp' ns (runes_of (hp ! p) @ runes_of (hp ! t))" using 1(4) by (simp add: denotes_def)
  have r: "rdmem (length ts) (dat (?hp ! t)) = Ok ts" "nat (slen (hp ! t)) = length ts" "nat (slen (?hp ! t)) = length ts"
    "(slen (hp ! p) < 0) = False" "nat (slen (hp ! p)) = length bs"
    using T 1(3,5) b(1,3) by simp_all
  have "addstring al hp (Some p) (Some t) app = Ok (?hp', Some ns)"
    unfolding addstring_def prod.case option.case Let_def app r(2,5) l_def [symmetric]
    by (simp only: r(4) if_False t(3) 1(1) [unfolded Let_def] r(3,1) st obind.simps prod.case)
  moreover have "keeps hp ?hp' (reused app hp p)"
    by (rule keeps_reused [OF 1(2) keeps_trans [OF keeps_slen keeps_slen]]) (use 1(9) in \<open>auto simp: a_def\<close>)
  ultimately show ?thesis using 2 by blast
qed

lemma addstring_both:
  assumes al: "\<And>n. n \<le> al n" and p: "p < length hp" "wf_str (hp ! p)" and t: "t < length hp" "wf_str (hp ! t)"
    and ne: "app \<Longrightarrow> p = t \<Longrightarrow> 1 < sref (hp ! p)"
  shows "\<exists>hp' ns. addstring al hp (Some p) (Some t) app = Ok (hp', Some ns)
    \<and> denotes hp' ns (runes_of (hp ! p) @ runes_of (hp ! t)) \<and> keeps hp hp' (reused app hp p)"
  using p(2)
proof (cases rule: wf_strE)
  case (rune x)
  then show ?thesis by (intro addstring_runes [OF al p(1) t ne]) simp_all
next
  case (ascii bs x)
  then show ?thesis
    using addstring_expand [OF al p(1) t _ ascii(1-4)] addstring_bytes [OF al p(1) t _ ne ascii(1-4,6,7)] by blast
qed

text \<open>C4: concatenation.  \<open>addstring\<close> never fails; it returns a well-formed string of the runes
  of the one followed by those of the other, reuses the first string only when asked to append
  and nobody else refers to it, and leaves every other string alone.  The two operands must not
  be the same string when it is reused (see \<open>addstring_self_overrun\<close>).\<close>

theorem addstring_concat:
  assumes al: "\<And>n. n \<le> al n" and wf: "wf_ptr hp s1" "wf_ptr hp s2"
    and ne: "\<And>p. app \<Longrightarrow> s1 = Some p \<Longrightarrow> s2 = Some p \<Longrightarrow> 1 < sref (hp ! p)"
  shows "\<exists>hp' ns. addstring al hp s1 s2 app = Ok (hp', ns) \<and> wf_ptr hp' ns
    \<and> runesp hp' ns = runesp hp s1 @ runesp hp s2
    \<and> keeps hp hp' {p. app \<and> s1 = Some p \<and> sref (hp ! p) \<le> 1}"
proof (cases s1; cases s2)
  assume "s1 = None" "s2 = None"
  then show ?thesis by (simp add: addstring_def wf_ptr_def runesp_def)
next
  fix t assume s: "s1 = None" "s2 = Some t"
  then obtain hp' where "stringdup al hp (Some t) = Ok (hp', Some (length hp))" "keeps hp hp' {}"
    "denotes hp' (length hp) (runes_of (hp ! t))"
    using stringdup_spec [OF al, of t hp] wf by (auto simp: wf_ptr_def)
  then show ?thesis
    using s by (simp add: addstring_def wf_ptr_def runesp_def denotes_def)
next
  fix p assume s: "s1 = Some p" "s2 = None"
  obtain hp' where "stringdup al hp (Some p) = Ok (hp', Some (length hp))" "keeps hp hp' {}"
    "denotes hp' (length hp) (runes_of (hp ! p))"
    using stringdup_spec [OF al, of p hp] wf s by (auto simp: wf_ptr_def)
  then show ?thesis using s wf
    by (cases "app \<and> sref (hp ! p) \<le> 1") (auto simp: addstring_def wf_ptr_def runesp_def denotes_def intro: keeps_mono)
next
  fix p t assume s: "s1 = Some p" "s2 = Some t"
  then obtain hp' ns where "addstring al hp (Some p) (Some t) app = Ok (hp', Some ns)"
    "denotes hp' ns (runes_of (hp ! p) @ runes_of (hp ! t))" "keeps hp hp' (reused app hp p)"
    using addstring_both [OF al, of p hp t app] wf ne by (auto simp: wf_ptr_def)
  moreover have "reused app hp p = {q. app \<and> s1 = Some q \<and> sref (hp ! q) \<le> 1}" using s by (auto simp: reused_def)
  ultimately show ?thesis using s by (auto simp: wf_ptr_def runesp_def denotes_def)
qed

theorem addstring_concat_witness:
  "\<exists>hp' ns. addstring (\<lambda>n. n) sample_heap (Some 0) (Some 1) True = Ok (hp', ns) \<and> wf_ptr hp' ns
    \<and> runesp hp' ns = runesp sample_heap (Some 0) @ runesp sample_heap (Some 1)
    \<and> keeps sample_heap hp' {p. True \<and> Some 0 = Some p \<and> sref (sample_heap ! p) \<le> 1}"
  by (rule addstring_concat) (use sample_heap in simp_all)

text \<open>the last condition of \<open>addstring_concat\<close> is needed.  \<open>s += s\<close> on the only reference
  to a string with room for the result sets the new length before it copies the second operand,
  which is the same string, so it copies twice the length and runs past the end of the block:
  here 3 bytes in a block with room for 6 (and the 4 bytes of \<open>STRUCTALIGN\<close>) become 9 written
  where 6 were meant.\<close>

theorem addstring_self_overrun:
  "obind (c2string (\<lambda>n. n + n mod 2 * 5) [] [97, 98, 99, 100, 101]) (\<lambda>(hp, s).
     addstring (\<lambda>n. n + n mod 2 * 5) hp (Some s) (Some s) True) = Undef
   \<and> ok (obind (c2string (\<lambda>n. n + n mod 2 * 5) [] [97, 98, 99, 100, 101]) (\<lambda>(hp, s).
     addstring (\<lambda>n. n + n mod 2 * 5) hp (Some s) (Some s) False))"
  by code_simp

section \<open>Slices\<close>

text \<open>\<open>s[start:v]\<close> raises a bounds error exactly when \<open>v < start\<close> or \<open>v\<close> is past the
  length (for \<open>H\<close>: unless both are 0), and otherwise returns the runes from \<open>start\<close> up to
  \<open>v\<close> in a fresh string, \<open>H\<close> when there are none.\<close>

theorem slicer_spec:
  assumes al: "\<And>n. n \<le> al n" and wf: "wf_ptr hp ds"
  shows "let rs = runesp hp ds in
    if v < start \<or> length rs < v then slicer al hp start v ds = Fail
    else \<exists>hp' q. slicer al hp start v ds = Ok (hp', q) \<and> wf_ptr hp' q \<and> keeps hp hp' {}
      \<and> runesp hp' q = take (v - start) (drop start rs) \<and> (q = None \<longleftrightarrow> v = start)"
proof (cases ds)
  case None
  then show ?thesis by (auto simp: slicer_def runesp_def wf_ptr_def)
next
  case (Some p)
  let ?P = "runes_of (hp ! p)"
  have p: "p < length hp" "wf_str (hp ! p)" using wf Some by (auto simp: wf_ptr_def)
  have len: "nat \<bar>slen (hp ! p)\<bar> = length ?P"
    using p(2) by (cases rule: wf_strE) simp_all
  show ?thesis
  proof (cases "v \<le> start \<or> length ?P < v")
    case True
    then show ?thesis
      using len Some by (auto simp: slicer_def runesp_def wf_ptr_def Let_def)
  next
    case False
    let ?nc = "v - start" and ?r = "take (v - start) (drop start ?P)"
    have nc: "0 < ?nc" "length ?r = ?nc" "start + ?nc = v" "v \<le> length ?P" using False by auto
    have nl: "length ?r \<le> ?nc" by (rule eq_refl [OF nc(2)])
    have "\<exists>hp'. slicer al hp start v ds = Ok (hp', Some (length hp))
      \<and> denotes hp' (length hp) ?r \<and> keeps hp hp' {}"
      using p(2)
    proof (cases rule: wf_strE)
      case (rune x)
      obtain hpa hpb y where n: "newrunes al hp (int ?nc) = (hpa, length hp)"
        "store hpa (length hp) 0 (enc ?r) = Ok hpb" "length hpb = Suc (length hp)" "keeps hp hpb {}"
        "dat (hpb ! length hp) = enc ?r @ y" "?nc \<le> smax (hpb ! length hp)"
        "2 * smax (hpb ! length hp) + STRUCTALIGN \<le> length (dat (hpb ! length hp))"
        "\<And>q. q < length hp \<Longrightarrow> hpa ! q = hp ! q"
        using new_runes_with [OF al nc(1) nl, of hp] by blast
      have sl: "slen (hpb ! length hp) = - int ?nc"
        using n(1,2) newrunes_facts(2,5) [OF n(1) nc(1)] by auto
      have "wf_str (hpb ! length hp)" "runes_of (hpb ! length hp) = ?r"
        by (rule wf_new_rune [OF n(5)]; use n(6,7) sl nc in simp)+
      then have d: "denotes hpb (length hp) ?r" using n(3) by (simp add: denotes_def)
      have "drop (start * 2) (dat (hp ! p)) = enc (drop start ?P) @ x"
        using rune(2) nc enc_take_drop(2) [of start ?P] by (simp add: mult.commute)
      then have "take (?nc * 2) (drop (start * 2) (dat (hp ! p))) = enc ?r"
        using nc enc_take_drop(1) [of ?nc "drop start ?P"] by (simp add: mult.commute)
      moreover have "?nc * 2 \<le> length (drop (start * 2) (dat (hp ! p)))"
        using rune(2) nc by simp
      ultimately have r: "rdmem (?nc * 2) (drop (start * 2) (dat (hpa ! p))) = Ok (enc ?r)"
        using n(8) [OF p(1)] by simp
      have c: "(slen (hp ! p) < 0) = True" "nat (- slen (hp ! p)) = length ?P"
        "(v < start \<or> length ?P < v) = False" "(?nc = 0) = False"
        using rune(1,3) nc False by auto
      have "slicer al hp start v ds = Ok (hpb, Some (length hp))"
        unfolding slicer_def Some option.case Let_def c if_True if_False n(1) prod.case r obind.simps n(2)
        by simp
      with d n(4) show ?thesis by blast
    next
      case (ascii bs x)
      obtain hpa ns where n: "newstring al hp ?nc = (hpa, ns)" by (cases "newstring al hp ?nc")
      note f = newstring_facts [OF n]
      let ?b = "take ?nc (drop start bs)" and ?x = "drop ?nc (dat (hpa ! ns))"
      let ?hp' = "setstr hpa ns (\<lambda>s. s\<lparr>dat := ?b @ drop ?nc (dat s)\<rparr>)"
      have lb: "length ?b = ?nc" "v \<le> length bs" using nc ascii(4) by simp_all
      have a: "?nc \<le> al ?nc" by (rule al)
      have b: "list_all (\<lambda>b. b < Runeself) ?b"
        using ascii(7) by (auto simp: list_all_iff dest: in_set_takeD in_set_dropD)
      have st: "store hpa ns 0 ?b = Ok ?hp'" using a f(5) lb by simp
      have "wf_str (?hp' ! ns)" "runes_of (?hp' ! ns) = map ucast ?b"
        using f a b lb wf_new_ascii [where x = ?x and bs = ?b and s = "?hp' ! ns"] by auto
      then have d: "denotes ?hp' (length hp) ?r"
        using f(1,2) ascii(4) by (simp add: denotes_def take_map drop_map)
      have r: "rdmem ?nc (drop start (dat (hpa ! p))) = Ok ?b"
        using f(4) [OF p(1)] ascii(2) nc lb by simp
      have c: "(slen (hp ! p) < 0) = False" "nat (slen (hp ! p)) = length ?P"
        "(v < start \<or> length ?P < v) = False" "(?nc = 0) = False"
        using ascii(1,3,4) nc False by auto
      have "slicer al hp start v ds = Ok (?hp', Some ns)"
        unfolding slicer_def Some option.case Let_def c if_True if_False n prod.case r obind.simps st
        by simp
      moreover have "keeps hp ?hp' {}" using f(1,3) by (simp add: keeps_fresh)
      ultimately show ?thesis using d f(1) by blast
    qed
    then show ?thesis
      using False Some nc by (auto simp: runesp_def wf_ptr_def denotes_def)
  qed
qed

theorem slicer_spec_witness:
  "\<exists>hp' q. slicer (\<lambda>n. n) sample_heap 1 2 (Some 1) = Ok (hp', q) \<and> wf_ptr hp' q
    \<and> keeps sample_heap hp' {} \<and> runesp hp' q = [98] \<and> (q = None \<longleftrightarrow> False)"
  using slicer_spec [of "\<lambda>n. n" sample_heap "Some 1" 2 1] sample_heap by simp

section \<open>Comparison\<close>

lemma cmp_loop_take: "n = min (length xs) (length ys) \<Longrightarrow>
    cmp_loop (take n xs) (take n ys) = cmp_loop xs ys"
  by (induction xs ys arbitrary: n rule: cmp_loop.induct) (auto simp: min_def)

lemma cmp_loop_lex:
  fixes xs ys :: "u16 list"
  defines "r \<equiv> cmp_loop (map uint xs) (map uint ys)"
  defines "d \<equiv> if r = 0 then int (length xs) - int (length ys) else r"
  shows "(d < 0 \<longleftrightarrow> xs < ys) \<and> (d = 0 \<longleftrightarrow> xs = ys)"
  unfolding d_def r_def
proof (induction xs arbitrary: ys)
  case Nil
  then show ?case by (cases ys) auto
next
  case (Cons x xs)
  show ?case
  proof (cases ys)
    case Nil
    then show ?thesis by simp
  next
    case (Cons y zs)
    show ?thesis
      using Cons.IH [of zs] unfolding Cons
      by (auto simp: word_less_def word_uint_eq_iff [of x y] split: if_splits)
  qed
qed

lemma sint_ascii: "b < Runeself \<Longrightarrow> sint b = uint (ucast b :: u16)" for b :: u8
proof -
  assume "b < Runeself"
  then have u: "uint b < 128" by (simp add: word_less_def)
  then have "sint b = uint b"
    using order_trans [OF _ uint_ge_0 [of b], of "- 128"]
    by (simp add: sint_uint signed_take_bit_int_eq_self_iff)
  moreover have "uint (ucast b :: u16) = uint b"
    using u by (simp add: unsigned_ucast_eq take_bit_int_eq_self)
  ultimately show ?thesis by simp
qed

lemma uint_up: "uint (ucast b :: u16) = uint (b :: u8)"
proof -
  have "uint b < 2 ^ 8" using uint_lt2p [of b] by simp
  then have "uint b < 2 ^ 16" by simp
  then show ?thesis by (simp add: unsigned_ucast_eq take_bit_int_eq_self)
qed

lemma stringcmp_order:
  assumes wf: "wf_ptr hp p1" "wf_ptr hp p2"
  shows "\<exists>n. stringcmp hp p1 p2 = Ok n \<and> (n < 0 \<longleftrightarrow> runesp hp p1 < runesp hp p2)
    \<and> (n = 0 \<longleftrightarrow> runesp hp p1 = runesp hp p2)"
proof (cases "p1 = p2")
  case True
  then show ?thesis by (simp add: stringcmp_def)
next
  case False
  let ?s = "\<lambda>p :: sptr. case p of None \<Rightarrow> snil | Some p \<Rightarrow> hp ! p"
  have sn: "wf_str snil" "runes_of snil = []" by (simp_all add: wf_str_def snil_def runes_of_def)
  have s: "wf_str (?s p1)" "wf_str (?s p2)" "runesp hp p1 = runes_of (?s p1)"
    "runesp hp p2 = runes_of (?s p2)"
    using wf sn by (auto simp: wf_ptr_def runesp_def split: option.split)
  have len: "nat \<bar>slen s\<bar> = length (runes_of s)" if "wf_str s" for s
    using that by (cases rule: wf_strE) simp_all
  define s1 where "s1 = ?s p1"
  define s2 where "s2 = ?s p2"
  let ?a = "runes_of s1" and ?b = "runes_of s2"
  define n where "n = (if length ?b < length ?a then length ?b else length ?a)"
  define asc :: "dstr \<Rightarrow> int list outcome" where "asc = (\<lambda>s. obind (rdmem n (dat s)) (\<lambda>m. Ok (map sint m)))"
  define run :: "dstr \<Rightarrow> int list outcome" where "run = (\<lambda>s. obind (rdmem (n * 2) (dat s)) (\<lambda>m.
      Ok (map (\<lambda>i. uint (GBIT16 (drop (2 * i) m))) [0..<n])))"
  have n: "n = min (length ?a) (length ?b)" by (simp add: n_def)
  have w: "wf_str s1" "wf_str s2" using s by (simp_all add: s1_def s2_def)
  have get: "(if slen s < 0 then run s else asc s) = Ok (map uint (take n (runes_of s)))"
    if "wf_str s" "n \<le> length (runes_of s)" for s
    using that(1)
  proof (cases rule: wf_strE)
    case (rune x)
    have t: "take (2 * n) (dat s) = enc (take n (runes_of s))"
      using rune(2) that(2) enc_take_drop(1) [of n "runes_of s"] by simp
    have r: "rdmem (n * 2) (dat s) = Ok (enc (take n (runes_of s)))"
      using t rune(2) that(2) by (simp add: mult.commute)
    have "map (\<lambda>i. uint (GBIT16 (drop (2 * i) m))) [0..<n] = map uint (getr m n)" for m
      by (simp add: getr_def)
    moreover have "getr (enc (take n (runes_of s))) n = take n (runes_of s)"
      using getr_enc [of n "take n (runes_of s)" "[]"] that(2) by simp
    ultimately show ?thesis
      using rune(1) by (simp only: run_def r obind.simps if_True)
  next
    case (ascii bs x)
    have r: "rdmem n (dat s) = Ok (take n bs)" using ascii(2,4) that(2) by simp
    have "map sint (take n bs) = map uint (take n (runes_of s))"
      using ascii(4,7) by (auto simp: take_map list_all_iff sint_ascii dest!: in_set_takeD)
    moreover have "(slen s < 0) = False" using ascii(1) by simp
    ultimately show ?thesis by (simp only: asc_def r obind.simps if_False)
  qed
  have mem: "(if 0 \<le> slen s1 \<and> 0 \<le> slen s2 then
      obind (rdmem n (dat s1)) (\<lambda>a1. obind (rdmem n (dat s2)) (\<lambda>a2.
        f (cmp_loop (map uint a1) (map uint a2))))
    else obind (if slen s1 < 0 then run s1 else asc s1) (\<lambda>r1.
      obind (if slen s2 < 0 then run s2 else asc s2) (\<lambda>r2. f (cmp_loop r1 r2))))
    = f (cmp_loop (map uint ?a) (map uint ?b))" for f :: "int \<Rightarrow> int outcome"
  proof -
    have c: "cmp_loop (map uint (take n ?a)) (map uint (take n ?b)) = cmp_loop (map uint ?a) (map uint ?b)"
      using cmp_loop_take [of n "map uint ?a" "map uint ?b"] n by (simp add: take_map)
    show ?thesis
    proof (cases "0 \<le> slen s1 \<and> 0 \<le> slen s2")
      case True
      obtain a x b y where "dat s1 = a @ x" "?a = map ucast a" "dat s2 = b @ y" "?b = map ucast b"
        using w True by (metis wf_asciiE)
      then have r: "rdmem n (dat s1) = Ok (take n a)" "rdmem n (dat s2) = Ok (take n b)"
        "map uint (take n a) = map uint (take n ?a)" "map uint (take n b) = map uint (take n ?b)"
        using n by (auto simp: take_map uint_up comp_def)
      show ?thesis using True by (simp only: if_True simp_thms r obind.simps c)
    next
      case False
      have "n \<le> length ?a" "n \<le> length ?b" using n by simp_all
      note g = get [OF w(1) this(1)] get [OF w(2) this(2)]
      show ?thesis by (simp only: False if_False g obind.simps c)
    qed
  qed
  have "stringcmp hp p1 p2 = (let r = cmp_loop (map uint ?a) (map uint ?b) in
      Ok (if r = 0 then int (length ?a) - int (length ?b) else r))"
    unfolding stringcmp_def Let_def s1_def [symmetric] s2_def [symmetric]
      len [OF w(1)] len [OF w(2)] n_def [symmetric]
    by (simp only: False if_False
      mem [of "\<lambda>r. Ok (if r = 0 then int (length ?a) - int (length ?b) else r)", unfolded asc_def run_def])
  then show ?thesis
    using cmp_loop_lex [of ?a ?b] unfolding s(3,4) [folded s1_def s2_def] Let_def by blast
qed

text \<open>C12: \<open>stringcmp\<close> on well-formed strings of any representation is the lexicographic order
  on their runes: negative, zero or positive as the first is less, equal or greater.\<close>

theorem stringcmp_lex:
  assumes "wf_ptr hp p1" "wf_ptr hp p2"
  shows "\<exists>n. stringcmp hp p1 p2 = Ok n \<and> (n < 0 \<longleftrightarrow> runesp hp p1 < runesp hp p2)
    \<and> (n = 0 \<longleftrightarrow> runesp hp p1 = runesp hp p2)"
  using assms by (rule stringcmp_order)

theorem stringcmp_lex_witness:
  "\<exists>n. stringcmp sample_heap (Some 0) (Some 1) = Ok n
    \<and> (n < 0 \<longleftrightarrow> runesp sample_heap (Some 0) < runesp sample_heap (Some 1))
    \<and> (n = 0 \<longleftrightarrow> runesp sample_heap (Some 0) = runesp sample_heap (Some 1))"
  by (rule stringcmp_lex) (rule sample_heap)+

section \<open>Conversion\<close>

lemma runenlen_utf: "runenlen rs = length (utf_of rs)"
  by (induction rs) (simp_all add: length_runetochar runelen_def)

lemma foldl_utf: "foldl (\<lambda>p r. p @ runetochar r) p rs = p @ utf_of rs"
  by (induction rs arbitrary: p) simp_all

lemma utf_of_ascii: "list_all (\<lambda>b. b < Runeself) bs \<Longrightarrow> utf_of (map ucast bs) = bs"
proof (induction bs)
  case (Cons b bs)
  then have b: "unat b < 128" by (simp add: word_less_nat_alt)
  have "unat (ucast b :: u16) = unat b"
    using b by (simp add: unsigned_ucast_eq take_bit_nat_eq_self)
  with b have "runetochar (ucast b) = [b]" by (simp add: runetochar_arith)
  with Cons show ?case by simp
qed simp

lemma map_GBIT16_getr: "map (\<lambda>i. GBIT16 (drop (2 * i) m)) [0..<n] = getr m n"
  by (simp add: getr_def)

lemma rdmem_runes:
  assumes "wf_str s" "slen s < 0"
  shows "rdmem (nat (- slen s) * 2) (dat s) = Ok (enc (runes_of s))"
    "nat (- slen s) = length (runes_of s)" "getr (enc (runes_of s)) (length (runes_of s)) = runes_of s"
proof -
  obtain x where "dat s = enc (runes_of s) @ x" "slen s = - int (length (runes_of s))"
    using assms by (rule wf_runeE)
  then show "rdmem (nat (- slen s) * 2) (dat s) = Ok (enc (runes_of s))"
    "nat (- slen s) = length (runes_of s)" by simp_all
  show "getr (enc (runes_of s)) (length (runes_of s)) = runes_of s"
    using getr_enc [of _ "runes_of s" "[]"] by simp
qed

lemma cvtca_utf:
  assumes "wf_ptr hp p"
  shows "cvtca hp p = Ok (utf_of (runesp hp p))"
proof (cases p)
  case None
  then show ?thesis by (simp add: cvtca_def runesp_def)
next
  case (Some q)
  then have w: "wf_str (hp ! q)" using assms by (simp add: wf_ptr_def)
  show ?thesis
  proof (cases "slen (hp ! q) < 0")
    case True
    note r = rdmem_runes [OF w True]
    show ?thesis
      unfolding cvtca_def Some option.case Let_def map_GBIT16_getr foldl_utf runenlen_utf
      using True
      by (simp only: if_True r(1) [unfolded r(2)] r(2,3) obind.simps runesp_def option.case) simp
  next
    case False
    then obtain bs x where "dat (hp ! q) = bs @ x" "slen (hp ! q) = int (length bs)"
      "runes_of (hp ! q) = map ucast bs" "list_all (\<lambda>b. b < Runeself) bs"
      using w by (metis not_less wf_asciiE)
    then show ?thesis
      using Some False by (simp add: cvtca_def runesp_def utf_of_ascii)
  qed
qed

lemma chartorune_ascii: "b < Runeself \<Longrightarrow> chartorune (b # p) = Ok (ucast b, 1)"
  by (simp add: chartorune_ctr ctr_def word_less_nat_alt)

lemma chartorune_full:
  assumes "3 \<le> length p \<or> fullrune p (int (length p)) = Ok True" "p \<noteq> []"
  shows "\<exists>r k. chartorune p = Ok (r, k)"
proof -
  have "128 \<le> unat (p ! 0) \<Longrightarrow> 1 < length p \<and> (224 \<le> unat (p ! 0) \<longrightarrow> 2 < length p)"
    using assms by (auto simp: fullrune_def rdat_def Let_def word_less_nat_alt split: if_splits)
  then show ?thesis
    using assms(2) by (auto simp: chartorune_ctr ctr_def rdat_def Let_def)
qed

declare c2s_count.simps [simp del]

lemma obind_assoc: "obind (obind m f) g = obind m (\<lambda>x. obind (f x) g)"
  by (cases m) simp_all

lemma c2s_runes_ascii:
  "list_all (\<lambda>b. b < Runeself) as \<Longrightarrow> c2s_runes (as @ p) (length as + k)
     = obind (c2s_runes p k) (\<lambda>rs. Ok (map ucast as @ rs))"
  by (induction as) (auto simp: chartorune_ascii obind_assoc, cases "c2s_runes p k", auto)

lemma fullrune_total: "p \<noteq> [] \<Longrightarrow> \<exists>b. fullrune p (int (length p)) = Ok b"
  by (cases "fullrune p (int (length p))")
    (auto simp: fullrune_def rdat_def Let_def split: if_splits)

text \<open>Counting never reads outside of the array, and what is counted can be decoded.\<close>

lemma c2s_count_total:
  "\<exists>rs. c2s_count p nc = Ok (nc + length rs) \<and> c2s_runes p (length rs) = Ok rs"
proof (induction p nc rule: c2s_count.induct)
  case (1 p nc)
  show ?case
  proof (cases "p = []")
    case True
    then show ?thesis by (simp add: c2s_count.simps)
  next
    case False
    then obtain b t where p: "p = b # t" by (cases p) auto
    show ?thesis
    proof (cases "b < Runeself")
      case True
      with 1(1) p obtain rs where "c2s_count t (nc + 1) = Ok (nc + 1 + length rs)"
        "c2s_runes t (length rs) = Ok rs" by auto
      then show ?thesis
        using True p by (intro exI [of _ "ucast b # rs"])
          (simp add: c2s_count.simps [of "b # t"] chartorune_ascii)
    next
      case nb: False
      obtain f where f: "(if 3 \<le> length p then Ok True else fullrune p (int (length p))) = Ok f"
        using fullrune_total [OF False] by (cases "3 \<le> length p") auto
      show ?thesis
      proof (cases f)
        case True
        then obtain r k where c: "chartorune p = Ok (r, k)"
          using chartorune_full [OF _ False] f by (auto split: if_splits)
        with 1(2) [OF False _ f _ c refl] p nb True obtain rs where
          "c2s_count (drop k p) (nc + 1) = Ok (nc + 1 + length rs)"
          "c2s_runes (drop k p) (length rs) = Ok rs" by auto
        then show ?thesis
          using f True p nb c by (intro exI [of _ "r # rs"]) (subst c2s_count.simps, simp del: length_Cons)
      next
        case False
        then show ?thesis
          using f p nb by (intro exI [of _ "[]"]) (subst c2s_count.simps, simp del: length_Cons)
      qed
    qed
  qed
qed

lemma first_rune_None: "first_rune p i = None \<longleftrightarrow> list_all (\<lambda>b. b < Runeself) p"
  by (induction p arbitrary: i) (auto simp: not_less)

lemma first_rune_Some:
  "first_rune p i = Some k \<Longrightarrow> \<exists>as q. p = as @ q \<and> k = i + length as \<and> q \<noteq> []
     \<and> list_all (\<lambda>b. b < Runeself) as"
proof (induction p arbitrary: i)
  case (Cons c p)
  show ?case
  proof (cases "Runeself \<le> c")
    case True
    with Cons.prems show ?thesis by (intro exI [of _ "[]"] exI [of _ "c # p"]) simp
  next
    case False
    with Cons.prems Cons.IH [of "i + 1"] obtain as q where "p = as @ q" "k = i + 1 + length as"
      "q \<noteq> []" "list_all (\<lambda>b. b < Runeself) as" by auto
    then show ?thesis using False by (intro exI [of _ "c # as"] exI [of _ q]) auto
  qed
qed simp

text \<open>\<open>c2string\<close> decodes the whole array with \<open>chartorune\<close>, whichever way it goes.\<close>

lemma c2string_decodes:
  assumes al: "\<And>n. n \<le> al n"
  shows "\<exists>hp' q rs. c2string al hp cs = Ok (hp', q) \<and> denotes hp' q rs \<and> keeps hp hp' {}
    \<and> c2s_runes cs (length rs) = Ok rs
    \<and> (\<exists>as p. cs = as @ p \<and> list_all (\<lambda>b. b < Runeself) as \<and> c2s_count p (length as) = Ok (length rs))"
proof (cases "first_rune cs 0")
  case None
  then have a: "list_all (\<lambda>b. b < Runeself) cs" by (simp add: first_rune_None)
  obtain hpa ns where n: "newstring al hp (length cs) = (hpa, ns)" by (cases "newstring al hp (length cs)")
  note f = newstring_facts [OF n]
  let ?x = "drop (length cs) (dat (hpa ! ns))"
  let ?hp' = "setstr hpa ns (\<lambda>s. s\<lparr>dat := cs @ drop (length cs) (dat s)\<rparr>)"
  have al': "length cs \<le> al (length cs)" by (rule al)
  then have st: "store hpa ns 0 cs = Ok ?hp'" using f(5) by simp
  have "wf_str (?hp' ! ns)" "runes_of (?hp' ! ns) = map ucast cs"
    using f al' a wf_new_ascii [where x = ?x and bs = cs and s = "?hp' ! ns"] by auto
  then have "denotes ?hp' ns (map ucast cs)" using f(1,2) by (simp add: denotes_def)
  moreover have "c2s_runes cs (length cs) = Ok (map ucast cs)"
    using c2s_runes_ascii [OF a, of "[]" 0] by simp
  moreover have "c2s_count [] (length cs) = Ok (length cs)" by (subst c2s_count.simps) simp
  with a have "\<exists>as p. cs = as @ p \<and> list_all (\<lambda>b. b < Runeself) as
      \<and> c2s_count p (length as) = Ok (length cs)"
    by (intro exI [of _ cs] exI [of _ "[]"]) simp
  ultimately show ?thesis
    using None n st f(1,3)
    by (intro exI [of _ ?hp'] exI [of _ ns] exI [of _ "map ucast cs"])
      (simp add: c2string_def Let_def keeps_fresh del: store_eq_Ok)
next
  case (Some k)
  then obtain as p where p: "cs = as @ p" "k = length as" "p \<noteq> []" "list_all (\<lambda>b. b < Runeself) as"
    using first_rune_Some [OF Some] unfolding add_0 by blast
  obtain rs where rs: "c2s_count p k = Ok (k + length rs)" "c2s_runes p (length rs) = Ok rs"
    using c2s_count_total by blast
  let ?rs = "map ucast as @ rs"
  have r: "c2s_runes cs (length ?rs) = Ok ?rs"
    using c2s_runes_ascii [OF p(4), of p "length rs"] rs(2) p(1) by simp
  have l: "k + length rs = length ?rs" using p(2) by simp
  have dk: "drop k cs = p" using p(1,2) by simp
  have e: "\<exists>as p. cs = as @ p \<and> list_all (\<lambda>b. b < Runeself) as
      \<and> c2s_count p (length as) = Ok (length ?rs)"
    unfolding l [symmetric] using p(1,2,4) rs(1) by blast
  have goalI: ?thesis if "c2string al hp cs = Ok (hp', q)" "denotes hp' q ?rs" "keeps hp hp' {}"
    for hp' q
    using that r e by blast
  show ?thesis
  proof (cases "?rs = []")
    case True
    obtain hpa ns where n: "newstring al hp 0 = (hpa, ns)" by (cases "newstring al hp 0")
    note f = newstring_facts [OF n]
    have st: "store hpa ns 0 [] = Ok hpa"
      using f(1,2) by (simp add: setstr_def)
    have "denotes hpa ns []" using f by (simp add: denotes_def wf_str_def runes_of_def)
    then have d: "denotes hpa ns ?rs" using True by simp
    have n0: "newrunes al hp (int (length ?rs)) = (hpa, ns)" "enc ?rs = []"
      using True n by (simp_all add: newrunes_def)
    have "c2string al hp cs = Ok (hpa, ns)"
      unfolding c2string_def Some option.case
      by (simp only: dk rs(1) obind.simps Let_def l n0 prod.case r st)
    then show ?thesis using d f(3) by (rule goalI)
  next
    case False
    then have m: "0 < length ?rs" by simp
    obtain hpa hpb y where n: "newrunes al hp (int (length ?rs)) = (hpa, length hp)"
      "store hpa (length hp) 0 (enc ?rs) = Ok hpb" "length hpb = Suc (length hp)" "keeps hp hpb {}"
      "dat (hpb ! length hp) = enc ?rs @ y" "length ?rs \<le> smax (hpb ! length hp)"
      "2 * smax (hpb ! length hp) + STRUCTALIGN \<le> length (dat (hpb ! length hp))"
      using new_runes_with [OF al m order_refl, of hp] by blast
    have sl: "slen (hpb ! length hp) = - int (length ?rs)"
      using n(1,2) newrunes_facts(2,5) [OF n(1) m] by auto
    have "wf_str (hpb ! length hp)" "runes_of (hpb ! length hp) = ?rs"
      by (rule wf_new_rune [OF n(5) sl False n(6,7)])+
    then have d: "denotes hpb (length hp) ?rs" using n(3) by (simp add: denotes_def)
    have "c2string al hp cs = Ok (hpb, length hp)"
      unfolding c2string_def Some option.case
      by (simp only: dk rs(1) obind.simps Let_def l n(1) prod.case r n(2))
    then show ?thesis using d n(4) by (rule goalI)
  qed
qed

lemma c2s_runes_utf: "c2s_runes (utf_of rs @ t) (length rs) = Ok rs"
  by (induction rs) (simp_all add: chartorune_runetochar_len)

lemma c2s_count_utf: "c2s_count (utf_of rs) nc = Ok (nc + length rs)"
proof (induction rs arbitrary: nc)
  case Nil
  then show ?case by (simp add: c2s_count.simps)
next
  case (Cons r rs)
  let ?p = "runetochar r @ utf_of rs"
  have f: "(if 3 \<le> length ?p then Ok True else fullrune ?p (int (length ?p))) = Ok True"
    if "128 \<le> unat r"
    using fullrune_multi [OF that, of "utf_of rs" "int (length ?p)"] by simp
  have h: "?p ! 0 = hd (runetochar r)" by (simp add: nth_append hd_conv_nth)
  show ?case
  proof (cases "128 \<le> unat r")
    case True
    have "c2s_count ?p nc = c2s_count (utf_of rs) (nc + 1)"
      by (subst c2s_count.simps)
        (simp only: h first_multi [OF True] f [OF True] obind.simps chartorune_runetochar_len
          if_False prod.case not_True_eq_False, simp)
    then show ?thesis using Cons by simp
  next
    case False
    then have "unat r < 128" by simp
    note a = runetochar_ascii [OF this]
    have "c2s_count ?p nc = c2s_count (utf_of rs) (nc + 1)"
      by (subst c2s_count.simps) (simp add: a)
    then show ?thesis using Cons by simp
  qed
qed

lemma c2s_count_ascii:
  "list_all (\<lambda>b. b < Runeself) as \<Longrightarrow> c2s_count (as @ p) nc = c2s_count p (nc + length as)"
  by (induction as arbitrary: nc) (auto simp: c2s_count.simps [of "_ # _"])

text \<open>C10: \<open>array of byte\<close> and back.  For any well-formed string \<open>cvtca\<close> makes an array that is
  exactly its UTF-8 encoding, and \<open>cvtac\<close> of that array is a string of the same runes.\<close>

theorem cvtca_cvtac_roundtrip:
  assumes al: "\<And>n. n \<le> al n" and wf: "wf_ptr hp p"
  shows "\<exists>hp' q. obind (cvtca hp p) (c2string al hp) = Ok (hp', q)
    \<and> denotes hp' q (runesp hp p) \<and> keeps hp hp' {}"
proof -
  let ?rs = "runesp hp p"
  obtain hp' q rs as s where 1: "c2string al hp (utf_of ?rs) = Ok (hp', q)" "denotes hp' q rs"
    "keeps hp hp' {}" "c2s_runes (utf_of ?rs) (length rs) = Ok rs" "utf_of ?rs = as @ s"
    "list_all (\<lambda>b. b < Runeself) as" "c2s_count s (length as) = Ok (length rs)"
    using c2string_decodes [OF al, of hp "utf_of ?rs"] by blast
  have "length rs = length ?rs"
    using c2s_count_utf [of ?rs 0] c2s_count_ascii [OF 1(6), of s 0] 1(5,7) by simp
  then have "rs = ?rs"
    using c2s_runes_utf [of ?rs "[]"] 1(4) by simp
  with 1 show ?thesis by (simp add: cvtca_utf [OF wf])
qed

theorem cvtca_cvtac_roundtrip_witness:
  "\<exists>hp' q. obind (cvtca sample_heap (Some 1)) (c2string (\<lambda>n. n) sample_heap) = Ok (hp', q)
    \<and> denotes hp' q (runesp sample_heap (Some 1)) \<and> keeps sample_heap hp' {}"
  by (rule cvtca_cvtac_roundtrip) (simp_all add: sample_heap del: One_nat_def)

text \<open>C11: \<open>c2string\<close> never reads outside of the bytes it is given, truncated and malformed
  sequences included; it always returns a well-formed string, no longer than the bytes, and
  changes no other.\<close>

theorem c2string_safe:
  assumes al: "\<And>n. n \<le> al n"
  shows "\<exists>hp' q rs. c2string al hp cs = Ok (hp', q) \<and> denotes hp' q rs \<and> keeps hp hp' {}
    \<and> length rs \<le> length cs"
proof -
  have "length rs \<le> length cs" if "c2s_runes cs (length rs) = Ok rs" for rs
    using that
  proof (induction rs arbitrary: cs)
    case (Cons r rs)
    then obtain x k qs where "chartorune cs = Ok (x, k)" "c2s_runes (drop k cs) (length rs) = Ok qs"
      "qs = rs" by auto
    then show ?case
      using Cons.IH [of "drop k cs"] chartorune_bounds [of cs x k] by simp
  qed simp
  then show ?thesis using c2string_decodes [OF al, of hp cs] by metis
qed

theorem c2string_safe_witness:
  "\<exists>hp' q rs. c2string (\<lambda>n. n) [] [97, 0xE9, 0xC3] = Ok (hp', q) \<and> denotes hp' q rs
    \<and> keeps [] hp' {} \<and> length rs \<le> length [97 :: u8, 0xE9, 0xC3]"
  by (rule c2string_safe) simp

end
