(* ===== verification/DisOps.thy ===== *)
theory DisOps
  imports DisStringOps "HOL-Library.Signed_Division"
begin

unbundle bit_operations_syntax

text \<open>
  Instructions of the Dis virtual machine, \<open>libinterp/xec.c\<close>: conversions, arithmetic,
  shifts, branches, exponentiation, array indexing and allocation, and the three case
  instructions.  The machine state is the byte memory, the operand registers \<open>R.s\<close>,
  \<open>R.m\<close>, \<open>R.d\<close> (32-bit addresses), the program counter, and the module's code base and
  \<open>compiled\<close> flag; arrays are looked up in \<open>arrays\<close>.  The byte order is little-endian.
  \<open>Fail\<close> is \<open>error(...)\<close>; \<open>Undef\<close> is what C leaves undefined (division by zero or of the
  least integer by -1, shift counts outside the type).  Additions, multiplications and left
  shifts wrap around.  Floating point instructions are not modelled.
\<close>

section \<open>Machine state\<close>

record darray =
  alen :: u32
  tsize :: u32
  adata :: u32

record vm =
  mem :: "u32 \<Rightarrow> u8"
  rs :: u32
  rm :: u32
  rd :: u32
  PC :: u32
  prog :: u32
  compiled :: bool
  arrays :: "u32 \<Rightarrow> darray"

abbreviation "H \<equiv> (0xFFFFFFFF :: u32)"

definition ldb :: "vm \<Rightarrow> u32 \<Rightarrow> u8" where
  "ldb R a = mem R a"

definition ldh :: "vm \<Rightarrow> u32 \<Rightarrow> u16" where
  "ldh R a = GBIT16 (map (\<lambda>i. mem R (a + of_nat i)) [0..<2])"

definition ldw :: "vm \<Rightarrow> u32 \<Rightarrow> u32" where
  "ldw R a = GBIT32 (map (\<lambda>i. mem R (a + of_nat i)) [0..<4])"

definition ldv :: "vm \<Rightarrow> u32 \<Rightarrow> u64" where
  "ldv R a = GBIT64 (map (\<lambda>i. mem R (a + of_nat i)) [0..<8])"

fun stbytes :: "(u32 \<Rightarrow> u8) \<Rightarrow> u32 \<Rightarrow> bytes \<Rightarrow> u32 \<Rightarrow> u8" where
  "stbytes m a [] = m"
| "stbytes m a (b # bs) = stbytes (m(a := b)) (a + 1) bs"

definition stb :: "vm \<Rightarrow> u32 \<Rightarrow> u8 \<Rightarrow> vm" where
  "stb R a v = R\<lparr>mem := stbytes (mem R) a (PBIT8 v)\<rparr>"

definition sth :: "vm \<Rightarrow> u32 \<Rightarrow> u16 \<Rightarrow> vm" where
  "sth R a v = R\<lparr>mem := stbytes (mem R) a (PBIT16 v)\<rparr>"

definition stw :: "vm \<Rightarrow> u32 \<Rightarrow> u32 \<Rightarrow> vm" where
  "stw R a v = R\<lparr>mem := stbytes (mem R) a (PBIT32 v)\<rparr>"

definition stv :: "vm \<Rightarrow> u32 \<Rightarrow> u64 \<Rightarrow> vm" where
  "stv R a v = R\<lparr>mem := stbytes (mem R) a (PBIT64 v)\<rparr>"

text \<open>The operands: \<open>B(r)\<close>, \<open>W(r)\<close>, \<open>V(r)\<close>, and the jump \<open>JMP(d)\<close>.\<close>

abbreviation "Bs R \<equiv> ldb R (rs R)"
abbreviation "Bm R \<equiv> ldb R (rm R)"
abbreviation "Ws R \<equiv> ldw R (rs R)"
abbreviation "Wm R \<equiv> ldw R (rm R)"
abbreviation "Wd R \<equiv> ldw R (rd R)"
abbreviation "Vs R \<equiv> ldv R (rs R)"
abbreviation "Vm R \<equiv> ldv R (rm R)"

definition JMP :: "vm \<Rightarrow> vm" where
  "JMP R = R\<lparr>PC := Wd R\<rparr>"

definition imin :: "'a::len word \<Rightarrow> bool" where
  "imin x \<longleftrightarrow> sint x = - (2 ^ (LENGTH('a) - 1))"

text \<open>C's \<open>/\<close> and \<open>%\<close> on signed operands.\<close>

definition cdiv :: "'a::len word \<Rightarrow> 'a word \<Rightarrow> 'a word outcome" where
  "cdiv x y = (if y = 0 \<or> imin x \<and> sint y = -1 then Undef else Ok (of_int (sint x sdiv sint y)))"

definition cmod :: "'a::len word \<Rightarrow> 'a word \<Rightarrow> 'a word outcome" where
  "cmod x y = (if y = 0 \<or> imin x \<and> sint y = -1 then Undef else Ok (of_int (sint x smod sint y)))"

text \<open>A shift count is a \<open>WORD\<close>; \<open>w\<close> is the width of the promoted left operand.\<close>

definition shcount :: "nat \<Rightarrow> u32 \<Rightarrow> nat outcome" where
  "shcount w n = (if sint n < 0 \<or> int w \<le> sint n then Undef else Ok (unat n))"

section \<open>Moves and conversions\<close>

definition jmp :: "vm \<Rightarrow> vm" where
  "jmp R = (JMP R)"

definition lea :: "vm \<Rightarrow> vm" where
  "lea R = (stw R (rd R) (rs R))"

definition movb :: "vm \<Rightarrow> vm" where
  "movb R = (stb R (rd R) (Bs R))"

definition movw :: "vm \<Rightarrow> vm" where
  "movw R = (stw R (rd R) (Ws R))"

definition movl :: "vm \<Rightarrow> vm" where
  "movl R = (stv R (rd R) (Vs R))"

definition cvtbw :: "vm \<Rightarrow> vm" where
  "cvtbw R = (stw R (rd R) (ucast (Bs R)))"

definition cvtwb :: "vm \<Rightarrow> vm" where
  "cvtwb R = (stb R (rd R) (ucast (Ws R)))"

definition cvtws :: "vm \<Rightarrow> vm" where
  "cvtws R = (sth R (rd R) (ucast (Ws R)))"

definition cvtsw :: "vm \<Rightarrow> vm" where
  "cvtsw R = (stw R (rd R) (scast (ldh R (rs R))))"

definition cvtwl :: "vm \<Rightarrow> vm" where
  "cvtwl R = (stv R (rd R) (scast (Ws R)))"

definition cvtlw :: "vm \<Rightarrow> vm" where
  "cvtlw R = (stw R (rd R) (ucast (Vs R)))"

section \<open>Arithmetic and logic\<close>

definition addb :: "vm \<Rightarrow> vm" where
  "addb R = (stb R (rd R) (Bm R + Bs R))"

definition addw :: "vm \<Rightarrow> vm" where
  "addw R = (stw R (rd R) (Wm R + Ws R))"

definition addl :: "vm \<Rightarrow> vm" where
  "addl R = (stv R (rd R) (Vm R + Vs R))"

definition subb :: "vm \<Rightarrow> vm" where
  "subb R = (stb R (rd R) (Bm R - Bs R))"

definition subw :: "vm \<Rightarrow> vm" where
  "subw R = (stw R (rd R) (Wm R - Ws R))"

definition subl :: "vm \<Rightarrow> vm" where
  "subl R = (stv R (rd R) (Vm R - Vs R))"

definition mulb :: "vm \<Rightarrow> vm" where
  "mulb R = (stb R (rd R) (Bm R * Bs R))"

definition mulw :: "vm \<Rightarrow> vm" where
  "mulw R = (stw R (rd R) (Wm R * Ws R))"

definition mull :: "vm \<Rightarrow> vm" where
  "mull R = (stv R (rd R) (Vm R * Vs R))"

definition andb :: "vm \<Rightarrow> vm" where
  "andb R = (stb R (rd R) (Bm R AND Bs R))"

definition andw :: "vm \<Rightarrow> vm" where
  "andw R = (stw R (rd R) (Wm R AND Ws R))"

definition andl :: "vm \<Rightarrow> vm" where
  "andl R = (stv R (rd R) (Vm R AND Vs R))"

definition xorb :: "vm \<Rightarrow> vm" where
  "xorb R = (stb R (rd R) (Bm R XOR Bs R))"

definition xorw :: "vm \<Rightarrow> vm" where
  "xorw R = (stw R (rd R) (Wm R XOR Ws R))"

definition xorl :: "vm \<Rightarrow> vm" where
  "xorl R = (stv R (rd R) (Vm R XOR Vs R))"

definition orb :: "vm \<Rightarrow> vm" where
  "orb R = (stb R (rd R) (Bm R OR Bs R))"

definition orw :: "vm \<Rightarrow> vm" where
  "orw R = (stw R (rd R) (Wm R OR Ws R))"

definition orl :: "vm \<Rightarrow> vm" where
  "orl R = (stv R (rd R) (Vm R OR Vs R))"

text \<open>Operations with operands C does not define.\<close>

definition divb :: "vm \<Rightarrow> vm outcome" where
  "divb R = (if Bs R = 0 then Undef else Ok (stb R (rd R) (Bm R div Bs R)))"

definition divw :: "vm \<Rightarrow> vm outcome" where
  "divw R = (obind (cdiv (Wm R) (Ws R)) (\<lambda>q. Ok (stw R (rd R) q)))"

definition divl :: "vm \<Rightarrow> vm outcome" where
  "divl R = (obind (cdiv (Vm R) (Vs R)) (\<lambda>q. Ok (stv R (rd R) q)))"

definition modb :: "vm \<Rightarrow> vm outcome" where
  "modb R = (if Bs R = 0 then Undef else Ok (stb R (rd R) (Bm R mod Bs R)))"

definition modw :: "vm \<Rightarrow> vm outcome" where
  "modw R = (obind (cmod (Wm R) (Ws R)) (\<lambda>q. Ok (stw R (rd R) q)))"

definition modl :: "vm \<Rightarrow> vm outcome" where
  "modl R = (obind (cmod (Vm R) (Vs R)) (\<lambda>q. Ok (stv R (rd R) q)))"

definition shlb :: "vm \<Rightarrow> vm outcome" where
  "shlb R = (obind (shcount 32 (Ws R)) (\<lambda>n. Ok (stb R (rd R) (ucast (push_bit n (ucast (Bm R) :: u32))))))"

definition shlw :: "vm \<Rightarrow> vm outcome" where
  "shlw R = (obind (shcount 32 (Ws R)) (\<lambda>n. Ok (stw R (rd R) (push_bit n (Wm R)))))"

definition shll :: "vm \<Rightarrow> vm outcome" where
  "shll R = (obind (shcount 64 (Ws R)) (\<lambda>n. Ok (stv R (rd R) (push_bit n (Vm R)))))"

definition shrb :: "vm \<Rightarrow> vm outcome" where
  "shrb R = (obind (shcount 32 (Ws R)) (\<lambda>n. Ok (stb R (rd R) (ucast (drop_bit n (ucast (Bm R) :: u32))))))"

definition shrw :: "vm \<Rightarrow> vm outcome" where
  "shrw R = (obind (shcount 32 (Ws R)) (\<lambda>n. Ok (stw R (rd R) (signed_drop_bit n (Wm R)))))"

definition shrl :: "vm \<Rightarrow> vm outcome" where
  "shrl R = (obind (shcount 64 (Ws R)) (\<lambda>n. Ok (stv R (rd R) (signed_drop_bit n (Vm R)))))"

definition lsrw :: "vm \<Rightarrow> vm outcome" where
  "lsrw R = (obind (shcount 32 (Ws R)) (\<lambda>n. Ok (stw R (rd R) (drop_bit n (Wm R)))))"

definition lsrl :: "vm \<Rightarrow> vm outcome" where
  "lsrl R = (obind (shcount 64 (Ws R)) (\<lambda>n. Ok (stv R (rd R) (drop_bit n (Vm R)))))"

section \<open>Branches\<close>

definition beqb :: "vm \<Rightarrow> vm" where
  "beqb R = (if Bs R = Bm R then JMP R else R)"

definition beqw :: "vm \<Rightarrow> vm" where
  "beqw R = (if Ws R = Wm R then JMP R else R)"

definition beql :: "vm \<Rightarrow> vm" where
  "beql R = (if Vs R = Vm R then JMP R else R)"

definition bneb :: "vm \<Rightarrow> vm" where
  "bneb R = (if Bs R \<noteq> Bm R then JMP R else R)"

definition bnew :: "vm \<Rightarrow> vm" where
  "bnew R = (if Ws R \<noteq> Wm R then JMP R else R)"

definition bnel :: "vm \<Rightarrow> vm" where
  "bnel R = (if Vs R \<noteq> Vm R then JMP R else R)"

definition bltb :: "vm \<Rightarrow> vm" where
  "bltb R = (if Bs R < Bm R then JMP R else R)"

definition bltw :: "vm \<Rightarrow> vm" where
  "bltw R = (if sint (Ws R) < sint (Wm R) then JMP R else R)"

definition bltl :: "vm \<Rightarrow> vm" where
  "bltl R = (if sint (Vs R) < sint (Vm R) then JMP R else R)"

definition bleb :: "vm \<Rightarrow> vm" where
  "bleb R = (if Bs R \<le> Bm R then JMP R else R)"

definition blew :: "vm \<Rightarrow> vm" where
  "blew R = (if sint (Ws R) \<le> sint (Wm R) then JMP R else R)"

definition blel :: "vm \<Rightarrow> vm" where
  "blel R = (if sint (Vs R) \<le> sint (Vm R) then JMP R else R)"

definition bgtb :: "vm \<Rightarrow> vm" where
  "bgtb R = (if Bs R > Bm R then JMP R else R)"

definition bgtw :: "vm \<Rightarrow> vm" where
  "bgtw R = (if sint (Ws R) > sint (Wm R) then JMP R else R)"

definition bgtl :: "vm \<Rightarrow> vm" where
  "bgtl R = (if sint (Vs R) > sint (Vm R) then JMP R else R)"

definition bgeb :: "vm \<Rightarrow> vm" where
  "bgeb R = (if Bs R \<ge> Bm R then JMP R else R)"

definition bgew :: "vm \<Rightarrow> vm" where
  "bgew R = (if sint (Ws R) \<ge> sint (Wm R) then JMP R else R)"

definition bgel :: "vm \<Rightarrow> vm" where
  "bgel R = (if sint (Vs R) \<ge> sint (Vm R) then JMP R else R)"

text \<open>\<open>beqc\<close> to \<open>bgec\<close> compare strings of the heap \<open>hp\<close>; \<open>sp\<close> maps addresses to them.\<close>

definition brc :: "(int \<Rightarrow> bool) \<Rightarrow> sheap \<Rightarrow> (u32 \<Rightarrow> sptr) \<Rightarrow> vm \<Rightarrow> vm outcome" where
  "brc c hp sp R = obind (stringcmp hp (sp (Ws R)) (sp (Wm R))) (\<lambda>n.
     Ok (if c n then JMP R else R))"

definition beqc :: "sheap \<Rightarrow> (u32 \<Rightarrow> sptr) \<Rightarrow> vm \<Rightarrow> vm outcome" where
  "beqc = brc (\<lambda>n. n = 0)"

definition bnec :: "sheap \<Rightarrow> (u32 \<Rightarrow> sptr) \<Rightarrow> vm \<Rightarrow> vm outcome" where
  "bnec = brc (\<lambda>n. n \<noteq> 0)"

definition bltc :: "sheap \<Rightarrow> (u32 \<Rightarrow> sptr) \<Rightarrow> vm \<Rightarrow> vm outcome" where
  "bltc = brc (\<lambda>n. n < 0)"

definition blec :: "sheap \<Rightarrow> (u32 \<Rightarrow> sptr) \<Rightarrow> vm \<Rightarrow> vm outcome" where
  "blec = brc (\<lambda>n. n \<le> 0)"

definition bgtc :: "sheap \<Rightarrow> (u32 \<Rightarrow> sptr) \<Rightarrow> vm \<Rightarrow> vm outcome" where
  "bgtc = brc (\<lambda>n. n > 0)"

definition bgec :: "sheap \<Rightarrow> (u32 \<Rightarrow> sptr) \<Rightarrow> vm \<Rightarrow> vm outcome" where
  "bgec = brc (\<lambda>n. n \<ge> 0)"

section \<open>Exponentiation\<close>

text \<open>The loop of \<open>iexpw\<close> and \<open>iexpl\<close>: \<open>n >>= 1\<close> is an arithmetic shift, so the loop does not
  end on a negative \<open>n\<close>; \<open>None\<close> is not returning.\<close>

partial_function (option) iexp_loop :: "u32 \<Rightarrow> 'a::len word \<Rightarrow> 'a word \<Rightarrow> 'a word option" where
  "iexp_loop n x r =
     (let r = (if n AND 1 \<noteq> 0 then r * x else r); n = signed_drop_bit 1 n in
      if n = 0 then Some r else iexp_loop n (x * x) r)"

definition iexp :: "u32 \<Rightarrow> 'a::len word \<Rightarrow> 'a word outcome option" where
  "iexp n x = (let inv = sint n < 0; n = (if inv then - n else n) in
     case iexp_loop n x 1 of None \<Rightarrow> None
     | Some r \<Rightarrow> Some (if inv then cdiv 1 r else Ok r))"

definition iexpw :: "vm \<Rightarrow> vm outcome option" where
  "iexpw R = (case iexp (Ws R) (Wm R) of None \<Rightarrow> None
     | Some r \<Rightarrow> Some (obind r (\<lambda>r. Ok (stw R (rd R) r))))"

definition iexpl :: "vm \<Rightarrow> vm outcome option" where
  "iexpl R = (case iexp (Ws R) (Vm R) of None \<Rightarrow> None
     | Some r \<Rightarrow> Some (obind r (\<lambda>r. Ok (stv R (rd R) r))))"

section \<open>Arrays\<close>

definition ind :: "(darray \<Rightarrow> u32) \<Rightarrow> vm \<Rightarrow> vm outcome" where
  "ind sz R = (let a = Ws R; i = Wd R in
     if a = H \<or> alen (arrays R a) \<le> i then Fail
     else Ok (stw R (rm R) (adata (arrays R a) + i * sz (arrays R a))))"

definition indx :: "vm \<Rightarrow> vm outcome" where
  "indx = ind tsize"

definition indw :: "vm \<Rightarrow> vm outcome" where
  "indw = ind (\<lambda>_. 4)"

definition indf :: "vm \<Rightarrow> vm outcome" where
  "indf = ind (\<lambda>_. 8)"

definition indl :: "vm \<Rightarrow> vm outcome" where
  "indl = ind (\<lambda>_. 8)"

definition indb :: "vm \<Rightarrow> vm outcome" where
  "indb = ind (\<lambda>_. 1)"

text \<open>\<open>sizeof(Array)\<close> and \<open>sizeof(Heap)\<close> on a 32-bit target.\<close>

abbreviation "sizeofArray \<equiv> (16 :: u32)"
abbreviation "sizeofHeap \<equiv> (16 :: u32)"

definition acheck :: "u32 \<Rightarrow> u32 \<Rightarrow> unit outcome" where
  "acheck tsz sz =
     (if sint sz < 0 then Fail
      else if sint (sizeofArray + sizeofHeap + tsz * sz) < sint sz \<and> tsz \<noteq> 0 then Fail
      else Ok ())"

text \<open>What \<open>newa\<close> and \<open>newaz\<close> ask the allocator for, and the array they make of it at \<open>addr\<close>.\<close>

definition newa :: "u32 \<Rightarrow> u32 \<Rightarrow> u32 \<Rightarrow> (u32 \<times> darray) outcome" where
  "newa addr tsz sz = obind (acheck tsz sz) (\<lambda>_.
     Ok (sizeofHeap + (sizeofArray + tsz * sz),
       \<lparr>alen = sz, tsize = tsz, adata = addr + sizeofHeap + sizeofArray\<rparr>))"

section \<open>Case instructions\<close>

text \<open>The binary search shared by \<open>icase\<close> and \<open>casel\<close>: entries of \<open>stride\<close> bytes from \<open>t\<close>,
  \<open>lo\<close> and \<open>hi\<close> read the bounds of an entry and \<open>pc\<close> its target.\<close>

function csearch :: "u32 \<Rightarrow> (u32 \<Rightarrow> int) \<Rightarrow> (u32 \<Rightarrow> int) \<Rightarrow> (u32 \<Rightarrow> u32) \<Rightarrow> int \<Rightarrow> u32 \<Rightarrow> int \<Rightarrow> u32 \<Rightarrow> u32" where
  "csearch stride lo hi pc v t n d =
     (if 0 < n then
        let n2 = n div 2; l = t + of_int n2 * stride in
        if v < lo l then csearch stride lo hi pc v t n2 d
        else if hi l \<le> v then csearch stride lo hi pc v (l + stride) (n - (n2 + 1)) d
        else pc l
      else d)"
  by auto
termination
  by (relation "measure (\<lambda>(stride, lo, hi, pc, v, t, n, d). nat n)") auto

definition setpc :: "vm \<Rightarrow> u32 \<Rightarrow> vm" where
  "setpc R d = (if compiled R then R\<lparr>PC := d\<rparr> else R\<lparr>PC := prog R + d * 12\<rparr>)"

definition icase :: "vm \<Rightarrow> vm" where
  "icase R = (let v = sint (Ws R); t = rd R + 4; n = sint (ldw R (t - 4));
      d = ldw R (t + of_int n * 3 * 4) in
    setpc R (csearch 12 (\<lambda>l. sint (ldw R l)) (\<lambda>l. sint (ldw R (l + 4))) (\<lambda>l. ldw R (l + 8)) v t n d))"

definition casel :: "vm \<Rightarrow> vm" where
  "casel R = (let v = sint (Vs R); t = rd R + 2 * 4; n = sint (ldw R (t - 2 * 4));
      d = ldw R (t + of_int n * 6 * 4) in
    setpc R (csearch 24 (\<lambda>l. sint (ldv R l)) (\<lambda>l. sint (ldv R (l + 8))) (\<lambda>l. ldw R (l + 16)) v t n d))"

text \<open>\<open>casec\<close> on the entries of its table, each a low and a high string (\<open>None\<close> for \<open>H\<close>) and
  a target, with the default behind them.\<close>

function casec_bin :: "('a option \<Rightarrow> 'a option \<Rightarrow> int outcome) \<Rightarrow> 'a option \<Rightarrow> ('a option \<times> 'a option \<times> u32) list \<Rightarrow> u32 \<Rightarrow> nat \<Rightarrow> nat \<Rightarrow> u32 outcome" where
  "casec_bin cmp sv tab e t n =
     (if 0 < n then
        let n2 = n div 2 in
        obind (rdat tab (t + n2)) (\<lambda>(sl, sh, pc).
        obind (cmp sv sl) (\<lambda>r.
          if r = 0 then Ok pc
          else if r < 0 then casec_bin cmp sv tab e t n2
          else obind (if sh = None then Ok 1 else cmp sv sh) (\<lambda>r.
            if r > 0 then casec_bin cmp sv tab e (t + n2 + 1) (n - (n2 + 1))
            else Ok pc)))
      else Ok e)"
  by auto
termination
  by (relation "measure (\<lambda>(cmp, sv, tab, e, t, n). n)") auto

fun casec_lin :: "('a option \<Rightarrow> 'a option \<Rightarrow> int outcome) \<Rightarrow> 'a option \<Rightarrow> u32 \<Rightarrow> ('a option \<times> 'a option \<times> u32) list \<Rightarrow> u32 outcome" where
  "casec_lin cmp sv e [] = Ok e"
| "casec_lin cmp sv e ((sl, sh, pc) # tab) =
     (if sh = None then
        obind (cmp sl sv) (\<lambda>r. if r = 0 then Ok pc else casec_lin cmp sv e tab)
      else
        obind (cmp sl sv) (\<lambda>r.
          if r \<le> 0 then obind (cmp sh sv) (\<lambda>r'. if r' \<ge> 0 then Ok pc else casec_lin cmp sv e tab)
          else casec_lin cmp sv e tab))"

definition casec :: "sheap \<Rightarrow> sptr \<Rightarrow> (sptr \<times> sptr \<times> u32) list \<Rightarrow> u32 \<Rightarrow> vm \<Rightarrow> vm outcome" where
  "casec hp sv tab dflt R =
     obind (if 2 < length tab then casec_bin (stringcmp hp) sv tab dflt 0 (length tab)
            else casec_lin (stringcmp hp) sv dflt tab) (\<lambda>d. Ok (setpc R d))"

definition igoto :: "vm \<Rightarrow> vm" where
  "igoto R = setpc R (ldw R (rd R + Ws R * 4))"

section \<open>Exponentiation is a power\<close>

lemma signed_drop_bit_1: "sint (signed_drop_bit 1 n) = sint n div 2" for n :: u32
  by (simp add: sint_signed_drop_bit_eq drop_bit_Suc)

lemma and_1_odd: "n AND 1 \<noteq> 0 \<longleftrightarrow> odd (sint n)" for n :: u32
  using bit_sint_iff [of n 0] by (simp add: and_one_eq mod_2_eq_odd bit_0)

lemma iexp_loop_pow:
  assumes "0 \<le> sint n"
  shows "iexp_loop n x r = Some (r * x ^ nat (sint n))"
  using assms
proof (induction "nat (sint n)" arbitrary: n x r rule: less_induct)
  case less
  let ?n = "signed_drop_bit 1 n"
  have d: "sint ?n = sint n div 2" by (rule signed_drop_bit_1)
  have s: "nat (sint n) = 2 * nat (sint ?n) + (if odd (sint n) then 1 else 0)"
    unfolding d using less.prems by (auto simp: nat_mult_distrib [symmetric] elim!: oddE evenE)
  have p: "r * x ^ nat (sint n) = (if odd (sint n) then r * x else r) * (x * x) ^ nat (sint ?n)"
    by (simp add: s power_add power_mult power2_eq_square [symmetric] ac_simps)
  show ?case
  proof (cases "?n = 0")
    case True
    then have "sint ?n = 0" by simp
    with p show ?thesis
      by (subst iexp_loop.simps) (simp add: True [unfolded One_nat_def] and_1_odd Let_def)
  next
    case False
    moreover have "of_int (sint ?n) = ?n" by simp
    ultimately have "sint ?n \<noteq> 0" by (metis of_int_0)
    then have "nat (sint ?n) < nat (sint n)" "0 \<le> sint ?n"
      using less.prems d by auto
    then have "iexp_loop ?n (x * x) q = Some (q * (x * x) ^ nat (sint ?n))" for q
      by (rule less.hyps)
    then show ?thesis
      by (subst iexp_loop.simps) (simp add: False [unfolded One_nat_def] and_1_odd p Let_def)
  qed
qed

lemma iexp_loop_Some:
  fixes x r y :: "'a::len word"
  shows "iexp_loop n x r = Some y \<Longrightarrow> 0 \<le> sint n"
proof -
  assume a: "iexp_loop n x r = Some y"
  have step: "0 \<le> sint n" if "\<And>n x r y. loop n x r = Some y \<Longrightarrow> 0 \<le> sint n"
    "(let r = if n AND 1 \<noteq> 0 then r * x else r; n = signed_drop_bit 1 n
      in if n = 0 then Some r else loop n (x * x) r) = Some y" for loop :: "u32 \<Rightarrow> 'a word \<Rightarrow> 'a word \<Rightarrow> 'a word option" and n x r y
  proof (cases "signed_drop_bit 1 n = 0")
    case True
    then have "sint n div 2 = 0" using signed_drop_bit_1 [of n] by simp
    then show ?thesis by linarith
  next
    case False
    then have "loop (signed_drop_bit 1 n) (x * x) (if n AND 1 \<noteq> 0 then r * x else r) = Some y"
      using that(2) by (simp only: Let_def if_False)
    then have "0 \<le> sint n div 2"
      unfolding signed_drop_bit_1 [symmetric] by (rule that(1))
    then show ?thesis by linarith
  qed
  show "0 \<le> sint n"
    by (rule iexp_loop.raw_induct [of "\<lambda>n (x :: 'a word) r y. 0 \<le> sint n" "((n, x), r)" y, unfolded prod.case])
      (erule step, assumption, rule a)
qed

definition power_result :: "u32 \<Rightarrow> 'a::len word \<Rightarrow> 'a word outcome" where
  "power_result n x = (if 0 \<le> sint n then Ok (x ^ nat (sint n)) else cdiv 1 (x ^ nat (- sint n)))"

lemma iexp_power: "iexp n x = (if imin n then None else Some (power_result n x))"
proof (cases "0 \<le> sint n")
  case True
  then show ?thesis
    by (simp add: iexp_def Let_def iexp_loop_pow power_result_def imin_def)
next
  case False
  show ?thesis
  proof (cases "imin n")
    case True
    then have "sint n = - 2147483648" by (simp add: imin_def)
    moreover have "of_int (sint n) = n" by simp
    ultimately have "n = - 2147483648" by simp
    then have "sint (- n) < 0" by simp
    then have "iexp_loop (- n) x 1 = None"
      using iexp_loop_Some [of "- n" x 1] by (cases "iexp_loop (- n) x 1") force+
    with True False show ?thesis by (simp add: iexp_def Let_def)
  next
    case notmin: False
    then have s: "sint (- n) = - sint n"
    proof -
      have "- n = of_int (- sint n)" by simp
      moreover have "sint (of_int k :: u32) = k" if "- 2147483648 \<le> k" "k < 2147483648" for k
        using that by (simp add: signed_of_int signed_take_bit_int_eq_self_iff)
      from this [of "- sint n"] have "sint (of_int (- sint n) :: u32) = - sint n"
        using notmin sint_greater_eq [of n] False by (simp add: imin_def)
      ultimately show ?thesis by simp
    qed
    have "iexp_loop (- n) x 1 = Some (x ^ nat (- sint n))"
      using iexp_loop_pow [of "- n" x 1] False s by simp
    with False notmin show ?thesis by (simp add: iexp_def Let_def power_result_def)
  qed
qed

text \<open>C9: exponentiation.  For every exponent but the least integer \<open>iexpw\<close> and \<open>iexpl\<close> end and
  store the power modulo \<open>2^32\<close> or \<open>2^64\<close>, for a negative exponent the truncated quotient of 1 by
  it, with a division by zero when the power is 0 modulo the word size; for the exponent
  \<open>-2^31\<close>, which negation leaves negative, the loop never ends.\<close>

theorem iexp_power_or_loop:
  "iexpw R = (if imin (Ws R) then None
      else Some (obind (power_result (Ws R) (Wm R)) (\<lambda>r. Ok (stw R (rd R) r))))
   \<and> iexpl R = (if imin (Ws R) then None
      else Some (obind (power_result (Ws R) (Vm R)) (\<lambda>r. Ok (stv R (rd R) r))))"
  by (simp add: iexpw_def iexpl_def iexp_power)

section \<open>Case tables\<close>

declare csearch.simps [simp del] casec_bin.simps [simp del]

definition in_range :: "int \<Rightarrow> int \<times> int \<times> u32 \<Rightarrow> bool" where
  "in_range v e \<longleftrightarrow> fst e \<le> v \<and> v < fst (snd e)"

text \<open>Half-open ranges in increasing order, as the compiler writes them.\<close>

definition ranges :: "(int \<times> int \<times> u32) list \<Rightarrow> bool" where
  "ranges es \<longleftrightarrow> list_all (\<lambda>e. fst e \<le> fst (snd e)) es
     \<and> sorted_wrt (\<lambda>e f. fst (snd e) \<le> fst f) es"

definition case_target :: "int \<Rightarrow> (int \<times> int \<times> u32) list \<Rightarrow> u32 \<Rightarrow> u32" where
  "case_target v es d = (case find (in_range v) es of None \<Rightarrow> d | Some e \<Rightarrow> snd (snd e))"

text \<open>\<open>hit P f d a b x\<close>: \<open>x\<close> is the target of an index between \<open>a\<close> and \<open>b\<close> that satisfies \<open>P\<close>,
  or the default when there is none.\<close>

definition hit :: "(nat \<Rightarrow> bool) \<Rightarrow> (nat \<Rightarrow> 'a) \<Rightarrow> 'a \<Rightarrow> nat \<Rightarrow> nat \<Rightarrow> 'a \<Rightarrow> bool" where
  "hit P f d a b x \<longleftrightarrow> (\<exists>i. a \<le> i \<and> i < b \<and> P i \<and> x = f i)
     \<or> (\<forall>i. a \<le> i \<and> i < b \<longrightarrow> \<not> P i) \<and> x = d"

lemma hit_empty: "b \<le> a \<Longrightarrow> hit P f d a b d"
  by (auto simp: hit_def)

lemma hit_at: "P i \<Longrightarrow> a \<le> i \<Longrightarrow> i < b \<Longrightarrow> hit P f d a b (f i)"
  by (auto simp: hit_def)

lemma hit_left:
  assumes "hit P f d a m x" "m \<le> b" "\<And>i. m \<le> i \<Longrightarrow> i < b \<Longrightarrow> \<not> P i"
  shows "hit P f d a b x"
proof -
  have "\<not> P i" if "\<forall>i. a \<le> i \<and> i < m \<longrightarrow> \<not> P i" "a \<le> i" "i < b" for i
    using that assms(3) [of i] by (cases "i < m") auto
  moreover have "i < b" if "i < m" for i using that assms(2) by simp
  ultimately show ?thesis using assms(1) unfolding hit_def by blast
qed

lemma hit_right:
  assumes "hit P f d m b x" "a \<le> m" "\<And>i. a \<le> i \<Longrightarrow> i < m \<Longrightarrow> \<not> P i"
  shows "hit P f d a b x"
proof -
  have "\<not> P i" if "\<forall>i. m \<le> i \<and> i < b \<longrightarrow> \<not> P i" "a \<le> i" "i < b" for i
    using that assms(3) [of i] by (cases "i < m") auto
  moreover have "a \<le> i" if "m \<le> i" for i using that assms(2) by simp
  ultimately show ?thesis using assms(1) unfolding hit_def by blast
qed

lemma hit_find:
  assumes h: "hit (\<lambda>i. P (es ! i)) (\<lambda>i. f (es ! i)) d 0 (length es) x"
    and u: "\<And>i j. i < j \<Longrightarrow> j < length es \<Longrightarrow> \<not> (P (es ! i) \<and> P (es ! j))"
  shows "x = (case find P es of None \<Rightarrow> d | Some e \<Rightarrow> f e)"
proof (cases "find P es")
  case None
  then have "\<forall>i < length es. \<not> P (es ! i)" by (auto simp: find_None_iff)
  with h None show ?thesis by (auto simp: hit_def)
next
  case (Some e)
  then obtain i where i: "i < length es" "P (es ! i)" "e = es ! i"
    by (auto simp: find_Some_iff)
  with h obtain j where j: "j < length es" "P (es ! j)" "x = f (es ! j)"
    by (auto simp: hit_def)
  have "i = j" using u i j by (metis linorder_neqE_nat)
  with Some i j show ?thesis by simp
qed

lemma csearch_spec:
  assumes r: "ranges es"
    and tab: "\<And>i. i < length es \<Longrightarrow> (lo (t + of_nat i * stride), hi (t + of_nat i * stride),
      pc (t + of_nat i * stride)) = es ! i"
  shows "a + n \<le> length es \<Longrightarrow>
     hit (\<lambda>i. in_range v (es ! i)) (\<lambda>i. snd (snd (es ! i))) d a (a + n)
       (csearch stride lo hi pc v (t + of_nat a * stride) (int n) d)"
proof (induction n arbitrary: a rule: less_induct)
  case (less n)
  show ?case
  proof (cases "n = 0")
    case True
    then show ?thesis by (subst csearch.simps) (simp add: hit_empty)
  next
    case False
    let ?n2 = "n div 2" and ?l = "t + of_nat (a + n div 2) * stride"
    let ?e = "es ! (a + ?n2)"
    have m: "a + ?n2 < length es" "?n2 < n" using less.prems False by linarith+
    have l: "t + of_nat a * stride + of_int (int n div 2) * stride = ?l"
    proof -
      have "(of_int (int n div 2) :: u32) = of_nat (n div 2)"
        by (metis of_int_of_nat_eq of_nat_numeral zdiv_int)
      then show ?thesis by (simp add: algebra_simps)
    qed
    have e: "lo ?l = fst ?e" "hi ?l = fst (snd ?e)" "pc ?l = snd (snd ?e)"
      using tab [OF m(1)] by (metis fst_conv snd_conv)+
    have le: "fst ?e \<le> fst (snd ?e)" using r m(1) by (simp add: ranges_def list_all_length)
    have srt: "i < j \<Longrightarrow> j < length es \<Longrightarrow> fst (snd (es ! i)) \<le> fst (es ! j)" for i j
      using r by (simp add: ranges_def sorted_wrt_iff_nth_less)
    have i2: "int n div 2 = int ?n2" by (simp add: zdiv_int)
    consider "v < fst ?e" | "\<not> v < fst ?e" "fst (snd ?e) \<le> v" | "\<not> v < fst ?e" "v < fst (snd ?e)"
      by linarith
    then show ?thesis
    proof cases
      case 1
      have c: "csearch stride lo hi pc v (t + of_nat a * stride) (int n) d
          = csearch stride lo hi pc v (t + of_nat a * stride) (int ?n2) d"
        using False 1 unfolding i2 [symmetric] by (subst csearch.simps) (simp only: Let_def l e, simp)
      have no: "\<not> in_range v (es ! i)" if "a + ?n2 \<le> i" "i < a + n" for i
        using that 1 srt [of "a + ?n2" i] le less.prems
        by (cases "i = a + ?n2") (auto simp: in_range_def)
      have "a + ?n2 \<le> length es" "a + ?n2 \<le> a + n" using m by simp_all
      from hit_left [OF less.IH [OF m(2) this(1)] this(2) no] show ?thesis
        unfolding c .
    next
      case 2
      have h: "?l + stride = t + of_nat (a + ?n2 + 1) * stride" by (simp add: algebra_simps)
      have k0: "int n - (int ?n2 + 1) = int (n - (?n2 + 1))" using m(2) by simp
      have c: "csearch stride lo hi pc v (t + of_nat a * stride) (int n) d
          = csearch stride lo hi pc v (t + of_nat (a + ?n2 + 1) * stride) (int (n - (?n2 + 1))) d"
        using False 2 unfolding h [symmetric] k0 [symmetric]
        by (subst csearch.simps) (simp only: Let_def i2 l [unfolded i2] e, simp)
      have no: "\<not> in_range v (es ! i)" if "a \<le> i" "i < a + ?n2 + 1" for i
        using that 2 srt [of i "a + ?n2"] le m(1)
        by (cases "i = a + ?n2") (auto simp: in_range_def)
      have k: "a + ?n2 + 1 + (n - (?n2 + 1)) = a + n" "n - (?n2 + 1) < n" "a \<le> a + ?n2 + 1"
        using m(2) False by simp_all
      have "a + ?n2 + 1 + (n - (?n2 + 1)) \<le> length es" unfolding k(1) by (rule less.prems)
      from less.IH [OF k(2) this] have "hit (\<lambda>i. in_range v (es ! i)) (\<lambda>i. snd (snd (es ! i))) d
          (a + ?n2 + 1) (a + n) (csearch stride lo hi pc v (t + of_nat (a + ?n2 + 1) * stride)
            (int (n - (?n2 + 1))) d)"
        unfolding k(1) .
      from hit_right [OF this k(3) no] show ?thesis
        unfolding c .
    next
      case 3
      have c: "csearch stride lo hi pc v (t + of_nat a * stride) (int n) d = snd (snd ?e)"
        using False 3 by (subst csearch.simps) (simp only: Let_def l e, simp)
      have "in_range v ?e" using 3 by (simp add: in_range_def)
      then show ?thesis
        unfolding c using m(2) by (intro hit_at [where f = "\<lambda>i. snd (snd (es ! i))"]) simp_all
    qed
  qed
qed

lemma csearch_target:
  assumes r: "ranges es"
    and tab: "\<And>i. i < length es \<Longrightarrow> (lo (t + of_nat i * stride), hi (t + of_nat i * stride),
      pc (t + of_nat i * stride)) = es ! i"
  shows "csearch stride lo hi pc v t (int (length es)) d = case_target v es d"
proof -
  have "\<not> (in_range v (es ! i) \<and> in_range v (es ! j))" if "i < j" "j < length es" for i j
    using r that by (force simp: ranges_def sorted_wrt_iff_nth_less in_range_def)
  moreover have "hit (\<lambda>i. in_range v (es ! i)) (\<lambda>i. snd (snd (es ! i))) d 0 (length es)
      (csearch stride lo hi pc v t (int (length es)) d)"
    using csearch_spec [OF r tab, of 0 "length es" v d] by simp
  ultimately show ?thesis
    unfolding case_target_def by (rule hit_find [rotated]) 
qed

text \<open>The table of \<open>icase\<close> in memory at \<open>R.d\<close>: the number of entries, entries of three words, and the
  default.  That of \<open>casel\<close>: two words for the number, entries of two 64-bit bounds and two
  words, and the default.\<close>

definition itable :: "vm \<Rightarrow> (int \<times> int \<times> u32) list \<Rightarrow> u32 \<Rightarrow> bool" where
  "itable R es d \<longleftrightarrow> sint (ldw R (rd R)) = int (length es)
     \<and> list_all (\<lambda>i. let l = rd R + 4 + of_nat i * 12 in
          (sint (ldw R l), sint (ldw R (l + 4)), ldw R (l + 8)) = es ! i) [0..<length es]
     \<and> ldw R (rd R + 4 + of_nat (length es) * 12) = d"

definition ltable :: "vm \<Rightarrow> (int \<times> int \<times> u32) list \<Rightarrow> u32 \<Rightarrow> bool" where
  "ltable R es d \<longleftrightarrow> sint (ldw R (rd R)) = int (length es)
     \<and> list_all (\<lambda>i. let l = rd R + 8 + of_nat i * 24 in
          (sint (ldv R l), sint (ldv R (l + 8)), ldw R (l + 16)) = es ! i) [0..<length es]
     \<and> ldw R (rd R + 8 + of_nat (length es) * 24) = d"

text \<open>C8: with the table the compiler writes (half-open ranges in increasing order) \<open>icase\<close>
  jumps to the target of the range that holds the value, and to the default when none does.\<close>

theorem icase_target:
  assumes "ranges es" "itable R es d"
  shows "icase R = setpc R (case_target (sint (Ws R)) es d)"
proof -
  have t: "sint (ldw R (rd R)) = int (length es)"
    "ldw R (rd R + 4 + of_nat (length es) * 12) = d"
    "\<And>i. i < length es \<Longrightarrow> (sint (ldw R (rd R + 4 + of_nat i * 12)),
        sint (ldw R (rd R + 4 + of_nat i * 12 + 4)), ldw R (rd R + 4 + of_nat i * 12 + 8)) = es ! i"
    using assms(2) by (simp_all add: itable_def list_all_iff Let_def)
  have d: "rd R + 4 + of_int (int (length es)) * 3 * 4 = rd R + 4 + of_nat (length es) * 12"
    by (simp add: algebra_simps)
  show ?thesis
    unfolding icase_def Let_def add_diff_cancel_right' t(1) d t(2)
    by (subst csearch_target [OF assms(1)]) (use t(3) in simp_all)
qed

text \<open>the same for \<open>casel\<close> and 64-bit values.\<close>

theorem casel_target:
  assumes "ranges es" "ltable R es d"
  shows "casel R = setpc R (case_target (sint (Vs R)) es d)"
proof -
  have t: "sint (ldw R (rd R)) = int (length es)"
    "ldw R (rd R + 8 + of_nat (length es) * 24) = d"
    "\<And>i. i < length es \<Longrightarrow> (sint (ldv R (rd R + 8 + of_nat i * 24)),
        sint (ldv R (rd R + 8 + of_nat i * 24 + 8)), ldw R (rd R + 8 + of_nat i * 24 + 16)) = es ! i"
    using assms(2) by (simp_all add: ltable_def list_all_iff Let_def)
  have e: "(2 * 4 :: u32) = 8" by simp
  have d: "rd R + 8 + of_int (int (length es)) * 6 * 4 = rd R + 8 + of_nat (length es) * 24"
    by (simp add: algebra_simps)
  show ?thesis
    unfolding casel_def Let_def e add_diff_cancel_right' t(1) d t(2)
    by (subst csearch_target [OF assms(1)]) (use t(3) in simp_all)
qed

definition sample_vm :: "u32 list \<Rightarrow> vm" where
  "sample_vm ws = \<lparr>mem = (\<lambda>a. let b = concat (map PBIT32 ws) in
       if unat a < length b then b ! unat a else 0),
     rs = 0, rm = 4, rd = 8, PC = 0, prog = 1000, compiled = False,
     arrays = (\<lambda>_. \<lparr>alen = 0, tsize = 0, adata = 0\<rparr>)\<rparr>"

theorem icase_target_witness:
  "icase (sample_vm [6, 0, 2, -3, 5, 10, 5, 9, 20, 30])
     = setpc (sample_vm [6, 0, 2, -3, 5, 10, 5, 9, 20, 30]) 20"
proof -
  let ?R = "sample_vm [6, 0, 2, -3, 5, 10, 5, 9, 20, 30]"
  have "itable ?R [(-3, 5, 10), (5, 9, 20)] 30" by code_simp
  moreover have "case_target (sint (Ws ?R)) [(-3, 5, 10), (5, 9, 20)] 30 = 20" by code_simp
  ultimately show ?thesis
    using icase_target [of "[(-3, 5, 10), (5, 9, 20)]" ?R 30] by (simp add: ranges_def)
qed

theorem casel_target_witness:
  "casel (sample_vm [6, 0, 1, 0, 5, 0, 7, 0, 10, 0, 30])
     = setpc (sample_vm [6, 0, 1, 0, 5, 0, 7, 0, 10, 0, 30]) 10"
proof -
  let ?R = "sample_vm [6, 0, 1, 0, 5, 0, 7, 0, 10, 0, 30]"
  have "ltable ?R [(5, 7, 10)] 30" by code_simp
  moreover have "case_target (sint (Vs ?R)) [(5, 7, 10)] 30 = 10" by code_simp
  ultimately show ?thesis
    using casel_target [of "[(5, 7, 10)]" ?R 30] by (simp add: ranges_def)
qed

section \<open>Array allocation\<close>

text \<open>When 32 bytes of headers and the data of the array fit in 31 bits, \<open>newa\<close> asks for
  exactly that, and every element \<open>indx\<close> hands out lies inside the block.\<close>

theorem newa_indx_inside:
  assumes "newa addr tsz sz = Ok (req, a)" "unat tsz * unat sz + 32 < 2 ^ 31"
    "unat addr + unat req < 2 ^ 32" "i < sz"
  shows "unat req = 32 + unat tsz * unat sz \<and> alen a = sz
    \<and> unat addr + 32 \<le> unat (adata a + i * tsize a)
    \<and> unat (adata a + i * tsize a) + unat (tsize a) \<le> unat addr + unat req"
proof -
  have r: "req = 32 + tsz * sz" "a = \<lparr>alen = sz, tsize = tsz, adata = addr + 32\<rparr>"
    using assms(1) by (auto simp: newa_def)
  have m: "unat (tsz * sz) = unat tsz * unat sz"
    using assms(2) by (intro unat_mult_lem [THEN iffD1]) simp
  have q: "unat req = 32 + unat tsz * unat sz"
    unfolding r(1) using assms(2) m by (subst unat_add_lem [THEN iffD1]) simp_all
  have i: "unat i < unat sz" using assms(4) by (simp add: word_less_nat_alt)
  have le: "(unat i + 1) * unat tsz \<le> unat sz * unat tsz"
    using i by (intro mult_right_mono) simp_all
  then have le': "unat i * unat tsz + unat tsz \<le> unat tsz * unat sz" by (simp add: algebra_simps)
  have im: "unat (i * tsz) = unat i * unat tsz"
    using le' assms(2) by (intro unat_mult_lem [THEN iffD1]) simp
  have ab: "unat addr + 32 + unat tsz * unat sz < 2 ^ 32" using assms(3) q by simp
  have a1: "unat (addr + 32) = unat addr + 32"
    using ab by (subst unat_add_lem [THEN iffD1]) simp_all
  have a2: "unat (addr + 32 + i * tsz) = unat addr + 32 + unat i * unat tsz"
    using ab le' a1 im by (subst unat_add_lem [THEN iffD1]) simp_all
  show ?thesis
    using q le' a2 by (simp add: r(2))
qed

theorem newa_indx_inside_witness:
  "unat (52 :: u32) = 32 + unat (4 :: u32) * unat (5 :: u32) \<and> alen \<lparr>alen = 5, tsize = 4, adata = 1032\<rparr> = 5
    \<and> unat (1000 :: u32) + 32 \<le> unat (1032 + 4 * 4 :: u32)
    \<and> unat (1032 + 4 * 4 :: u32) + unat (4 :: u32) \<le> unat (1000 :: u32) + unat (52 :: u32)"
proof -
  have "newa 1000 4 5 = Ok (52, \<lparr>alen = 5, tsize = 4, adata = 1032\<rparr>)" by code_simp
  from newa_indx_inside [OF this, of 4] show ?thesis by simp
qed

text \<open>The bound of \<open>newa_indx_inside\<close> is needed.  \<open>acheck\<close> compares the product only after it
  has wrapped around: 4198405 elements of 1024 bytes pass, a block of about 4 megabytes is
  allocated, and \<open>indx\<close> accepts indices whose elements lie 4 gigabytes further on.\<close>

lemma newa_overflow:
  "acheck 1024 4198405 = Ok ()
   \<and> (\<exists>req a. newa addr 1024 4198405 = Ok (req, a) \<and> unat req = 4199456 \<and> unat (alen a) = 4198405
        \<and> unat req < unat (alen a) * unat (tsize a))"
proof -
  have c: "acheck 1024 4198405 = Ok ()" by code_simp
  then show ?thesis by (simp add: newa_def)
qed

section \<open>String case\<close>

text \<open>What \<open>casec\<close> needs of the comparison: a total order on the well-formed strings, through a
  key.\<close>

definition str_match :: "('a option \<Rightarrow> 'k::linorder) \<Rightarrow> 'a option \<Rightarrow> 'a option \<times> 'a option \<times> u32 \<Rightarrow> bool" where
  "str_match key sv e = (case e of (sl, sh, pc) \<Rightarrow>
     if sh = None then key sv = key sl else key sl \<le> key sv \<and> key sv \<le> key sh)"

definition str_top :: "'a option \<times> 'a option \<times> u32 \<Rightarrow> 'a option" where
  "str_top e = (case e of (sl, sh, pc) \<Rightarrow> if sh = None then sl else sh)"

text \<open>A table in order: each entry a string or a closed range, below the next.\<close>

definition str_ranges :: "('a option \<Rightarrow> 'k::linorder) \<Rightarrow> ('a option \<Rightarrow> bool) \<Rightarrow>
    ('a option \<times> 'a option \<times> u32) list \<Rightarrow> bool" where
  "str_ranges key ok_key tab \<longleftrightarrow>
     list_all (\<lambda>e. ok_key (fst e) \<and> ok_key (fst (snd e)) \<and> key (fst e) \<le> key (str_top e)) tab
     \<and> sorted_wrt (\<lambda>e f. key (str_top e) < key (fst f)) tab"

locale string_order =
  fixes cmp :: "'a option \<Rightarrow> 'a option \<Rightarrow> int outcome"
    and key :: "'a option \<Rightarrow> 'k::linorder"
    and ok_key :: "'a option \<Rightarrow> bool"
  assumes cmp_sign: "ok_key p \<Longrightarrow> ok_key q \<Longrightarrow> \<exists>n. cmp p q = Ok n
    \<and> (n < 0 \<longleftrightarrow> key p < key q) \<and> (n = 0 \<longleftrightarrow> key p = key q)"
begin

lemma cmpE:
  assumes "ok_key p" "ok_key q"
  obtains n where "cmp p q = Ok n" "n < 0 \<longleftrightarrow> key p < key q" "n = 0 \<longleftrightarrow> key p = key q"
    "n \<le> 0 \<longleftrightarrow> key p \<le> key q" "0 \<le> n \<longleftrightarrow> key q \<le> key p" "0 < n \<longleftrightarrow> key q < key p"
proof -
  obtain n where n: "cmp p q = Ok n" "n < 0 \<longleftrightarrow> key p < key q" "n = 0 \<longleftrightarrow> key p = key q"
    using cmp_sign [OF assms] by blast
  moreover have "n \<le> 0 \<longleftrightarrow> key p \<le> key q" "0 \<le> n \<longleftrightarrow> key q \<le> key p" "0 < n \<longleftrightarrow> key q < key p"
    using n by (auto simp: le_less not_less)
  ultimately show thesis by (rule that)
qed

lemma match_iff:
  "str_match key sv (sl, sh, pc) \<longleftrightarrow> key sl \<le> key sv \<and> key sv \<le> key (str_top (sl, sh, pc))"
  by (auto simp: str_match_def str_top_def)

lemma match_unique:
  assumes "str_ranges key ok_key tab" "i < j" "j < length tab"
  shows "\<not> (str_match key sv (tab ! i) \<and> str_match key sv (tab ! j))"
proof -
  obtain a b c where i: "tab ! i = (a, b, c)" by (cases "tab ! i")
  obtain x y z where j: "tab ! j = (x, y, z)" by (cases "tab ! j")
  have "key (str_top (tab ! i)) < key (fst (tab ! j))"
    using assms by (simp add: str_ranges_def sorted_wrt_iff_nth_less)
  then show ?thesis unfolding i j match_iff by auto
qed

lemma casec_lin_find:
  assumes "str_ranges key ok_key tab" "ok_key sv"
  shows "casec_lin cmp sv e tab
    = Ok (case find (str_match key sv) tab of None \<Rightarrow> e | Some x \<Rightarrow> snd (snd x))"
  using assms(1)
proof (induction tab)
  case (Cons x tab)
  obtain sl sh pc where x: "x = (sl, sh, pc)" by (cases x)
  have sm: "str_match key sv (sl, sh, pc)
      = (if sh = None then key sv = key sl else key sl \<le> key sv \<and> key sv \<le> key sh)"
    by (simp add: str_match_def)
  have w: "ok_key sl" "ok_key sh" and IH: "casec_lin cmp sv e tab
      = Ok (case find (str_match key sv) tab of None \<Rightarrow> e | Some x \<Rightarrow> snd (snd x))"
    using Cons x by (auto simp: str_ranges_def)
  obtain n where n: "cmp sl sv = Ok n" "n = 0 \<longleftrightarrow> key sl = key sv" "n \<le> 0 \<longleftrightarrow> key sl \<le> key sv"
    using cmpE [OF w(1) assms(2)] by metis
  obtain m where m: "cmp sh sv = Ok m" "0 \<le> m \<longleftrightarrow> key sv \<le> key sh"
    using cmpE [OF w(2) assms(2)] by metis
  show ?case
    unfolding x casec_lin.simps n(1) m(1) IH obind.simps n(2,3) m(2) find.simps sm
    by auto
qed simp

lemma casec_bin_hit:
  assumes r: "str_ranges key ok_key tab" and sv: "ok_key sv"
  shows "t + n \<le> length tab \<Longrightarrow> \<exists>x. casec_bin cmp sv tab e t n = Ok x
    \<and> hit (\<lambda>i. str_match key sv (tab ! i)) (\<lambda>i. snd (snd (tab ! i))) e t (t + n) x"
proof (induction n arbitrary: t rule: less_induct)
  case (less n)
  show ?case
  proof (cases "n = 0")
    case True
    then show ?thesis by (subst casec_bin.simps) (simp add: hit_empty)
  next
    case False
    let ?n2 = "n div 2"
    let ?i = "t + ?n2"
    have m: "?i < length tab" "?n2 < n" using less.prems False by linarith+
    obtain sl sh pc where x: "tab ! ?i = (sl, sh, pc)" by (cases "tab ! ?i")
    have w: "ok_key sl" "ok_key sh" and le: "key sl \<le> key (str_top (sl, sh, pc))"
      using r m(1) x by (auto simp: str_ranges_def list_all_length)
    have srt: "i < j \<Longrightarrow> j < length tab \<Longrightarrow> key (str_top (tab ! i)) < key (fst (tab ! j))" for i j
      using r by (simp add: str_ranges_def sorted_wrt_iff_nth_less)
    have rd: "rdat tab ?i = Ok (sl, sh, pc)" using m(1) x by (simp add: rdat_def)
    obtain k where k: "cmp sv sl = Ok k" "k < 0 \<longleftrightarrow> key sv < key sl" "k = 0 \<longleftrightarrow> key sv = key sl"
      using cmpE [OF sv w(1)] by metis
    obtain h where h: "cmp sv sh = Ok h" "0 < h \<longleftrightarrow> key sh < key sv"
      using cmpE [OF sv w(2)] by metis
    have step: "casec_bin cmp sv tab e t n =
        (if key sv = key sl then Ok pc
         else if key sv < key sl then casec_bin cmp sv tab e t ?n2
         else if sh = None \<or> key sh < key sv
           then casec_bin cmp sv tab e (?i + 1) (n - (?n2 + 1)) else Ok pc)"
      using False h k(2,3) by (subst casec_bin.simps) (simp add: Let_def rd k(1) del: rdat_simps)
    have at: "\<exists>x. Ok pc = Ok x \<and> hit (\<lambda>i. str_match key sv (tab ! i)) (\<lambda>i. snd (snd (tab ! i))) e t (t + n) x"
      if "str_match key sv (tab ! ?i)"
      using hit_at [of "\<lambda>i. str_match key sv (tab ! i)" ?i t "t + n" "\<lambda>i. snd (snd (tab ! i))" e] that m x
      by simp
    have first: "key (fst e) \<le> key sv" if "str_match key sv e" for e
      using that by (cases e) (simp add: match_iff)
    have last: "key sv \<le> key (str_top e)" if "str_match key sv e" for e
      using that by (cases e) (simp add: match_iff)
    consider "key sv = key sl" | "key sv < key sl" | "key sl < key sv" "sh = None \<or> key sh < key sv"
      | "key sl < key sv" "\<not> (sh = None \<or> key sh < key sv)" by fastforce
    then show ?thesis
    proof cases
      case 1
      then have "str_match key sv (tab ! ?i)" using le by (simp add: x match_iff)
      with 1 at show ?thesis by (simp add: step)
    next
      case 2
      have no: "\<not> str_match key sv (tab ! i)" if "?i \<le> i" "i < t + n" for i
      proof
        assume "str_match key sv (tab ! i)"
        then have a: "key (fst (tab ! i)) \<le> key sv" by (rule first)
        have "key sl \<le> key (fst (tab ! i))"
          using that srt [of ?i i] less.prems le x by (cases "i = ?i") (auto intro: less_imp_le order_trans)
        with a 2 show False by simp
      qed
      have "?i \<le> length tab" "?i \<le> t + n" using m by simp_all
      from less.IH [OF m(2) this(1)] obtain y where y: "casec_bin cmp sv tab e t ?n2 = Ok y"
        "hit (\<lambda>i. str_match key sv (tab ! i)) (\<lambda>i. snd (snd (tab ! i))) e t ?i y" by blast
      from hit_left [OF y(2) \<open>?i \<le> t + n\<close> no] y(1) 2 show ?thesis by (auto simp add: step)
    next
      case 3
      have no: "\<not> str_match key sv (tab ! i)" if "t \<le> i" "i < ?i + 1" for i
      proof
        assume "str_match key sv (tab ! i)"
        then have a: "key sv \<le> key (str_top (tab ! i))" by (rule last)
        have "key (str_top (tab ! ?i)) < key sv" using 3 x by (auto simp: str_top_def)
        moreover have "key (str_top (tab ! i)) \<le> key (str_top (tab ! ?i))"
          using that srt [of i ?i] m(1) le x by (cases "i = ?i") (auto intro: less_imp_le order_trans)
        ultimately show False using a by simp
      qed
      have k: "?i + 1 + (n - (?n2 + 1)) = t + n" "n - (?n2 + 1) < n" "t \<le> ?i + 1"
        using m(2) False by simp_all
      have "?i + 1 + (n - (?n2 + 1)) \<le> length tab" unfolding k(1) by (rule less.prems)
      from less.IH [OF k(2) this] obtain y where
        y: "casec_bin cmp sv tab e (?i + 1) (n - (?n2 + 1)) = Ok y"
        "hit (\<lambda>i. str_match key sv (tab ! i)) (\<lambda>i. snd (snd (tab ! i))) e (?i + 1) (t + n) y"
        unfolding k(1) by blast
      from hit_right [OF y(2) k(3) no] y(1) 3 show ?thesis by (auto simp add: step)
    next
      case 4
      then have "str_match key sv (tab ! ?i)" by (auto simp: x str_match_def)
      with 4 at show ?thesis by (auto simp add: step)
    qed
  qed
qed

lemma casec_bin_find:
  assumes "str_ranges key ok_key tab" "ok_key sv"
  shows "casec_bin cmp sv tab e 0 (length tab)
    = Ok (case find (str_match key sv) tab of None \<Rightarrow> e | Some x \<Rightarrow> snd (snd x))"
proof -
  obtain x where "casec_bin cmp sv tab e 0 (length tab) = Ok x"
    "hit (\<lambda>i. str_match key sv (tab ! i)) (\<lambda>i. snd (snd (tab ! i))) e 0 (length tab) x"
    using casec_bin_hit [OF assms, of 0 "length tab" e] by auto
  then show ?thesis
    using hit_find [of "str_match key sv" tab "\<lambda>e. snd (snd e)" e x] match_unique [OF assms(1)] by simp
qed

end

interpretation strs: string_order "stringcmp hp" "runesp hp" "wf_ptr hp" for hp
  by unfold_locales (rule stringcmp_order)

text \<open>C7: with a table in order both searches of \<open>casec\<close>, the scan of short tables and the
  binary search, never fail and jump to the target of the string or closed range of strings
  that holds the value, or to the default.\<close>

theorem casec_target:
  assumes "str_ranges (runesp hp) (wf_ptr hp) tab" "wf_ptr hp sv"
  shows "casec hp sv tab d R = Ok (setpc R
    (case find (str_match (runesp hp) sv) tab of None \<Rightarrow> d | Some e \<Rightarrow> snd (snd e)))"
  by (simp add: casec_def strs.casec_bin_find [OF assms] strs.casec_lin_find [OF assms])

theorem casec_target_witness:
  "casec sample_heap (Some 0) [(None, None, 7), (Some 0, Some 1, 8)] 9 (sample_vm [])
     = Ok (setpc (sample_vm []) 8)"
proof -
  have "str_ranges (runesp sample_heap) (wf_ptr sample_heap) [(None, None, 7), (Some 0, Some 1, 8)]"
    "find (str_match (runesp sample_heap) (Some 0)) [(None, None, 7), (Some 0, Some 1, 8)]
      = Some (Some 0, Some 1, 8)"
    by (simp_all add: str_ranges_def str_top_def str_match_def sample_heap
      sample_heap(2,4) [unfolded One_nat_def]) (simp_all add: runesp_def wf_ptr_def)
  then show ?thesis
    using casec_target [of sample_heap "[(None, None, 7), (Some 0, Some 1, 8)]" "Some 0" 9 "sample_vm []"]
      sample_heap(1) by simp
qed

end
