(* ===== verification/DisSched.thy ===== *)
theory DisSched
  imports Prelude
begin

text \<open>
  Programs of the virtual machine and their run queue: \<open>struct Prog\<close> and \<open>struct Alt\<close> of
  \<open>include/interp.h\<close>, and \<open>addrun\<close>, \<open>delrun\<close>, \<open>delrunq\<close>, \<open>delruntail\<close>, \<open>currun\<close> of
  \<open>emu/port/dis.c\<close>, and the rotation at the end of a turn in its \<open>vmachine\<close>.

  Pointers to programs and channels are natural numbers, \<open>None\<close> is \<open>nil\<close> or \<open>H\<close>; memory is
  word-addressed. The run queue is the chain of \<open>link\<close> fields from \<open>runhd\<close> to \<open>runtl\<close>, kept as the
  code keeps it; \<open>runs\<close> says which list of programs it holds, and the operations are shown to be
  the queue operations on that list. A locale states what a first-in first-out queue promises;
  the channel theory interprets it on the queue of programs and on the buffer of a channel.
\<close>

section \<open>Data\<close>

datatype pstate = Palt | Psend | Precv | Pdebug | Pready | Prelease | Pexiting | Pbroken

text \<open>The channel of an \<open>Altc\<close>: \<open>H\<close>, a channel, or an array of channels.\<close>

datatype altch = AH | AC nat | AA "nat option list"

record alt =
  nsend :: nat
  nrecv :: nat
  ac :: "(altch \<times> nat) list"

text \<open>\<open>pRs\<close> and \<open>pRd\<close> are \<open>R.s\<close> and \<open>R.d\<close> of the saved registers, \<open>paddrun\<close> tells whether \<open>addrun\<close> is set.\<close>

record prog =
  plink :: "nat option"
  pchan :: "nat option"
  pptr :: "nat option"
  pstate :: pstate
  pkill :: "string option"
  paddrun :: bool
  pRs :: "alt option"
  pRd :: nat

text \<open>A queue of programs (\<open>Progq\<close>): the \<open>prog\<close> fields from the first cell on; \<open>[]\<close> is a nil pointer.\<close>

type_synonym progq = "nat option list"

text \<open>A channel of words; \<open>cbuf\<close> is the array of a buffered channel.\<close>

record chan =
  cbuf :: "u32 list option"
  csend :: progq
  crecv :: progq
  cfront :: nat
  csize :: nat

record vmst =
  progs :: "nat \<Rightarrow> prog"
  chans :: "nat \<Rightarrow> chan"
  mem :: "nat \<Rightarrow> u32"
  runhd :: "nat option"
  runtl :: "nat option"
  RIC :: nat
  Rt :: nat
  nomem :: bool

datatype exn = exNilref | exNomem | exAlt | exNegsize

text \<open>An instruction crashes, raises an exception or returns.\<close>

datatype 'a vres = Crash | Raise exn vmst | Ret 'a vmst

fun vbind :: "'a vres \<Rightarrow> ('a \<Rightarrow> vmst \<Rightarrow> 'b vres) \<Rightarrow> 'b vres" where
  "vbind Crash f = Crash"
| "vbind (Raise e s) f = Raise e s"
| "vbind (Ret x s) f = f x s"

abbreviation setprog :: "nat \<Rightarrow> (prog \<Rightarrow> prog) \<Rightarrow> vmst \<Rightarrow> vmst" where
  "setprog p f s \<equiv> s\<lparr>progs := (progs s)(p := f (progs s p))\<rparr>"

section \<open>First-in first-out queues\<close>

text \<open>
  Operations on a queue and what they answer. A put answers whether there was room; an operation
  that leaves its objects makes the whole run \<open>Undef\<close>.
\<close>

datatype 'a qop = Put 'a | Get

datatype 'a qres = Stored | Refused | Got 'a | Nothing

fun qrun :: "('a \<Rightarrow> 's \<Rightarrow> 's option outcome) \<Rightarrow> ('s \<Rightarrow> ('a \<times> 's) option outcome) \<Rightarrow>
    'a qop list \<Rightarrow> 's \<Rightarrow> ('a qres list \<times> 's) outcome" where
  "qrun put get [] s = Ok ([], s)"
| "qrun put get (Put x # os) s = obind (put x s) (\<lambda>r. case r of
     None \<Rightarrow> obind (qrun put get os s) (\<lambda>(rs, t). Ok (Refused # rs, t))
   | Some s \<Rightarrow> obind (qrun put get os s) (\<lambda>(rs, t). Ok (Stored # rs, t)))"
| "qrun put get (Get # os) s = obind (get s) (\<lambda>r. case r of
     None \<Rightarrow> obind (qrun put get os s) (\<lambda>(rs, t). Ok (Nothing # rs, t))
   | Some (x, s) \<Rightarrow> obind (qrun put get os s) (\<lambda>(rs, t). Ok (Got x # rs, t)))"

text \<open>The queue itself: a list, with room for \<open>n\<close> items (\<open>None\<close>: for any number of them).\<close>

fun qfull :: "nat option \<Rightarrow> 'a list \<Rightarrow> bool" where
  "qfull None q = False"
| "qfull (Some n) q = (n \<le> length q)"

fun lqueue :: "nat option \<Rightarrow> 'a qop list \<Rightarrow> 'a list \<Rightarrow> 'a qres list \<times> 'a list" where
  "lqueue n [] q = ([], q)"
| "lqueue n (Put x # os) q =
     (if qfull n q then let (rs, t) = lqueue n os q in (Refused # rs, t)
      else let (rs, t) = lqueue n os (q @ [x]) in (Stored # rs, t))"
| "lqueue n (Get # os) q = (case q of
     [] \<Rightarrow> let (rs, t) = lqueue n os q in (Nothing # rs, t)
   | x # q \<Rightarrow> let (rs, t) = lqueue n os q in (Got x # rs, t))"

locale fifo =
  fixes inv :: "'s \<Rightarrow> bool"
    and items :: "'s \<Rightarrow> 'a list"
    and cap :: "'s \<Rightarrow> nat option"
    and put :: "'a \<Rightarrow> 's \<Rightarrow> 's option outcome"
    and get :: "'s \<Rightarrow> ('a \<times> 's) option outcome"
  assumes put_full: "inv s \<Longrightarrow> qfull (cap s) (items s) \<Longrightarrow> put x s = Ok None"
    and put_room: "inv s \<Longrightarrow> \<not> qfull (cap s) (items s) \<Longrightarrow>
      \<exists>s'. put x s = Ok (Some s') \<and> inv s' \<and> items s' = items s @ [x] \<and> cap s' = cap s"
    and get_empty: "inv s \<Longrightarrow> items s = [] \<Longrightarrow> get s = Ok None"
    and get_first: "inv s \<Longrightarrow> items s = x # xs \<Longrightarrow>
      \<exists>s'. get s = Ok (Some (x, s')) \<and> inv s' \<and> items s' = xs \<and> cap s' = cap s"
begin

text \<open>Every run of operations answers as the list does and leaves what the list leaves.\<close>

lemma run_list: "inv s \<Longrightarrow> \<exists>t. qrun put get os s = Ok (fst (lqueue (cap s) os (items s)), t)
    \<and> inv t \<and> items t = snd (lqueue (cap s) os (items s)) \<and> cap t = cap s"
proof (induction os arbitrary: s)
  case (Cons o' os)
  show ?case
  proof (cases o')
    case (Put x)
    show ?thesis
    proof (cases "qfull (cap s) (items s)")
      case True
      then have "put x s = Ok None" using put_full [OF Cons.prems] by simp
      then show ?thesis using Cons.IH [OF Cons.prems] True Put by (auto simp: split_beta)
    next
      case False
      then obtain s' where s': "put x s = Ok (Some s')" "inv s'" "items s' = items s @ [x]" "cap s' = cap s"
        using put_room [OF Cons.prems, of x] by blast
      then show ?thesis using Cons.IH [OF s'(2)] False Put by (auto simp: split_beta)
    qed
  next
    case Get
    show ?thesis
    proof (cases "items s")
      case Nil
      then show ?thesis using Cons.IH [OF Cons.prems] get_empty [OF Cons.prems] Get by (auto simp: split_beta)
    next
      case (Cons x xs)
      then obtain s' where s': "get s = Ok (Some (x, s'))" "inv s'" "items s' = xs" "cap s' = cap s"
        using get_first [OF Cons.prems] by blast
      then show ?thesis using Cons.IH [OF s'(2)] Cons Get by (auto simp: split_beta)
    qed
  qed
qed simp

end

section \<open>The run queue\<close>

definition addrun :: "nat \<Rightarrow> vmst \<Rightarrow> unit vres" where
  "addrun p s =
     (if paddrun (progs s p) then Ret () (setprog p (\<lambda>q. q\<lparr>paddrun := False\<rparr>) s)
      else
        let s = setprog p (\<lambda>q. q\<lparr>pstate := Pready, plink := None\<rparr>) s in
        case runhd s of
          None \<Rightarrow> Ret () (s\<lparr>runhd := Some p, runtl := Some p\<rparr>)
        | Some _ \<Rightarrow> (case runtl s of
            None \<Rightarrow> Crash
          | Some t \<Rightarrow> Ret () ((setprog t (\<lambda>q. q\<lparr>plink := Some p\<rparr>) s)\<lparr>runtl := Some p\<rparr>)))"

definition delrun :: "pstate \<Rightarrow> vmst \<Rightarrow> nat vres" where
  "delrun state s = (case runhd s of
     None \<Rightarrow> Crash
   | Some p \<Rightarrow>
       let s = setprog p (\<lambda>q. q\<lparr>pstate := state\<rparr>) s;
           s = s\<lparr>runhd := plink (progs s p)\<rparr> in
       Ret p (if plink (progs s p) = None then s\<lparr>runtl := None\<rparr> else s))"

text \<open>The search of \<open>delrunq\<close> along the links: \<open>prev\<close> when \<open>p\<close> is found; a cyclic chain without \<open>p\<close> is searched for ever.\<close>

datatype found = Absent | Found "nat option"

partial_function (option) findprev :: "(nat \<Rightarrow> prog) \<Rightarrow> nat option \<Rightarrow> nat option \<Rightarrow> nat \<Rightarrow> found option" where
  "findprev ps f prev p = (case f of
     None \<Rightarrow> Some Absent
   | Some f \<Rightarrow> if f = p then Some (Found prev) else findprev ps (plink (ps f)) (Some f) p)"

definition delrunq :: "nat \<Rightarrow> vmst \<Rightarrow> vmst option" where
  "delrunq p s = (case findprev (progs s) (runhd s) None p of
     None \<Rightarrow> None
   | Some Absent \<Rightarrow> Some s
   | Some (Found prev) \<Rightarrow>
       let s = (case prev of
           None \<Rightarrow> s\<lparr>runhd := plink (progs s p)\<rparr>
         | Some v \<Rightarrow> setprog v (\<lambda>q. q\<lparr>plink := plink (progs s p)\<rparr>) s) in
       Some (if Some p = runtl s then s\<lparr>runtl := prev\<rparr> else s))"

definition delruntail :: "pstate \<Rightarrow> vmst \<Rightarrow> nat vres" where
  "delruntail state s = (case runtl s of
     None \<Rightarrow> Crash
   | Some p \<Rightarrow> (case delrunq p s of
       None \<Rightarrow> Crash
     | Some s \<Rightarrow> Ret p (setprog p (\<lambda>q. q\<lparr>pstate := state\<rparr>) s)))"

text \<open>The end of a turn of \<open>r\<close> in \<open>vmachine\<close>: when it still is the first and not the only program
  it goes to the end of the queue.\<close>

definition endturn :: "nat \<Rightarrow> vmst \<Rightarrow> unit vres" where
  "endturn r s =
     (if runhd s = Some r \<and> runhd s \<noteq> runtl s then
        let s = s\<lparr>runhd := plink (progs s r)\<rparr>; s = setprog r (\<lambda>q. q\<lparr>plink := None\<rparr>) s in
        case runtl s of
          None \<Rightarrow> Crash
        | Some t \<Rightarrow> Ret () ((setprog t (\<lambda>q. q\<lparr>plink := Some r\<rparr>) s)\<lparr>runtl := Some r\<rparr>)
      else Ret () s)"

definition currun :: "vmst \<Rightarrow> nat option" where
  "currun s = runhd s"

section \<open>The run queue as a list\<close>

fun links :: "(nat \<Rightarrow> prog) \<Rightarrow> nat option \<Rightarrow> nat list \<Rightarrow> bool" where
  "links ps f [] \<longleftrightarrow> f = None"
| "links ps f (x # xs) \<longleftrightarrow> f = Some x \<and> links ps (plink (ps x)) xs"

definition runs :: "vmst \<Rightarrow> nat list \<Rightarrow> bool" where
  "runs s xs \<longleftrightarrow> links (progs s) (runhd s) xs \<and> distinct xs
     \<and> runtl s = (if xs = [] then None else Some (last xs))"

lemma links_cong: "(\<And>x. x \<in> set xs \<Longrightarrow> plink (ps x) = plink (qs x)) \<Longrightarrow> links ps f xs = links qs f xs"
  by (induction xs arbitrary: f) auto

lemma links_relink: "links ps f (xs @ [t]) \<Longrightarrow> distinct (xs @ [t]) \<Longrightarrow> p \<notin> set (xs @ [t]) \<Longrightarrow>
    plink (ps p) = None \<Longrightarrow> links (ps(t := (ps t)\<lparr>plink := Some p\<rparr>)) f ((xs @ [t]) @ [p])"
  by (induction xs arbitrary: f) auto

lemma links_unlink: "links ps f (xs @ v # p # ys) \<Longrightarrow> distinct (xs @ v # p # ys) \<Longrightarrow>
    links (ps(v := (ps v)\<lparr>plink := plink (ps p)\<rparr>)) f (xs @ v # ys)"
proof (induction xs arbitrary: f)
  case Nil
  then show ?case by (auto intro: links_cong [THEN iffD1, rotated])
qed auto

text \<open>What the scheduler leaves alone: everything but the links and the state of one program.\<close>

definition frame :: "nat \<Rightarrow> pstate \<Rightarrow> vmst \<Rightarrow> vmst \<Rightarrow> bool" where
  "frame p st s s' \<longleftrightarrow> chans s' = chans s \<and> mem s' = mem s \<and> RIC s' = RIC s \<and> Rt s' = Rt s \<and> nomem s' = nomem s
     \<and> (\<forall>q. let r = progs s q; r' = progs s' q in
          pchan r' = pchan r \<and> pptr r' = pptr r \<and> pkill r' = pkill r \<and> paddrun r' = paddrun r
          \<and> pRs r' = pRs r \<and> pRd r' = pRd r \<and> pstate r' = (if q = p then st else pstate r))"

lemma addrun_runs:
  assumes "runs s xs" "p \<notin> set xs" "\<not> paddrun (progs s p)"
  shows "\<exists>s'. addrun p s = Ret () s' \<and> runs s' (xs @ [p]) \<and> frame p Pready s s'"
proof (cases xs rule: rev_cases)
  case Nil
  then show ?thesis using assms by (auto simp: addrun_def runs_def frame_def)
next
  case (snoc ys t)
  have "links ((progs s)(p := (progs s p)\<lparr>pstate := Pready, plink := None\<rparr>)) (runhd s) (ys @ [t])"
    using assms snoc by (subst links_cong [of _ _ "progs s"]) (auto simp: runs_def)
  from links_relink [OF this, of p] show ?thesis
    using assms snoc by (cases "runhd s"; cases ys) (auto simp: addrun_def runs_def frame_def Let_def)
qed

lemma delrun_runs:
  assumes "runs s (p # xs)"
  shows "\<exists>s'. delrun st s = Ret p s' \<and> runs s' xs \<and> frame p st s s'"
proof -
  have "links ((progs s)(p := (progs s p)\<lparr>pstate := st\<rparr>)) (plink (progs s p)) xs"
    using assms by (subst links_cong [of _ _ "progs s"]) (auto simp: runs_def)
  then show ?thesis
    using assms by (cases xs) (auto simp: delrun_def runs_def frame_def Let_def)
qed

lemma findprev_links:
  assumes "links ps f xs"
  shows "findprev ps f prev p = Some (if p \<in> set xs
     then Found (case takeWhile (\<lambda>x. x \<noteq> p) xs of [] \<Rightarrow> prev | ys \<Rightarrow> Some (last ys)) else Absent)"
  using assms
proof (induction xs arbitrary: f prev)
  case (Cons x xs)
  then show ?case
    by (subst findprev.simps) (auto split: list.splits simp: Cons.IH [of _ "Some x"])
qed (simp add: findprev.simps)

lemma delrunq_runs:
  assumes "runs s xs"
  shows "\<exists>s'. delrunq p s = Some s' \<and> runs s' (remove1 p xs) \<and> frame p (pstate (progs s p)) s s'"
proof (cases "p \<in> set xs")
  case False
  have "links (progs s) (runhd s) xs" using assms by (simp add: runs_def)
  from findprev_links [OF this, of None p] False show ?thesis using assms
    by (auto simp: delrunq_def frame_def remove1_idem)
next
  case True
  then obtain ys zs where xs: "xs = ys @ p # zs" by (meson split_list)
  have nin: "p \<notin> set ys" and l: "links (progs s) (runhd s) xs" and d: "distinct xs"
    using assms xs by (auto simp: runs_def)
  have tw: "takeWhile (\<lambda>x. x \<noteq> p) xs = ys"
    using nin xs by (auto simp: takeWhile_tail takeWhile_eq_all_conv)
  have f: "findprev (progs s) (runhd s) None p = Some (Found (if ys = [] then None else Some (last ys)))"
    using findprev_links [OF l, of None p] tw xs by (cases ys) simp_all
  show ?thesis
  proof (cases ys rule: rev_cases)
    case Nil
    then have "runtl s = Some p \<longleftrightarrow> zs = []"
      using assms xs d by (cases zs rule: rev_cases) (auto simp: runs_def)
    then show ?thesis using assms xs f d Nil
      by (cases zs) (auto simp: delrunq_def runs_def frame_def Let_def)
  next
    case (snoc us v)
    have "links ((progs s)(v := (progs s v)\<lparr>plink := plink (progs s p)\<rparr>)) (runhd s) (us @ v # zs)"
      using links_unlink [of "progs s" "runhd s" us v p zs] l d xs snoc by simp
    then show ?thesis using assms xs f d snoc nin
      by (cases zs rule: rev_cases)
        (auto simp: delrunq_def runs_def frame_def remove1_append Let_def)
  qed
qed

lemma delruntail_runs:
  assumes "runs s xs" "xs \<noteq> []"
  shows "\<exists>s'. delruntail st s = Ret (last xs) s' \<and> runs s' (butlast xs) \<and> frame (last xs) st s s'"
proof -
  obtain ys t where xs: "xs = ys @ [t]" using assms(2) by (cases xs rule: rev_cases) auto
  have "t \<notin> set ys" "runtl s = Some t" using assms(1) xs by (auto simp: runs_def)
  then have *: "remove1 t xs = ys" "runtl s = Some t" by (auto simp: xs remove1_append)
  obtain s' where s': "delrunq t s = Some s'" "runs s' ys" "frame t (pstate (progs s t)) s s'"
    using delrunq_runs [OF assms(1), of t] * by auto
  let ?s = "setprog t (\<lambda>q. q\<lparr>pstate := st\<rparr>) s'"
  have "runs ?s ys" using s'(2) links_cong [of ys "progs ?s" "progs s'" "runhd s'"]
    by (auto simp: runs_def)
  moreover have "frame t st s ?s" using s'(3) by (simp add: frame_def Let_def)
  ultimately show ?thesis using s'(1) * by (auto simp: delruntail_def xs)
qed

lemma endturn_runs:
  assumes "runs s (p # xs)"
  shows "\<exists>s'. endturn p s = Ret () s' \<and> runs s' (xs @ [p]) \<and> frame p (pstate (progs s p)) s s'"
proof (cases xs rule: rev_cases)
  case Nil
  then show ?thesis using assms by (auto simp: endturn_def runs_def frame_def)
next
  case (snoc ys t)
  let ?ps = "(progs s)(p := (progs s p)\<lparr>plink := None\<rparr>)"
  have d: "distinct (p # ys @ [t])" and l: "links (progs s) (plink (progs s p)) (ys @ [t])"
    using assms snoc by (auto simp: runs_def)
  have "links ?ps (plink (progs s p)) (ys @ [t])"
    using l d by (subst links_cong [of _ _ "progs s"]) auto
  then have "links (?ps(t := (?ps t)\<lparr>plink := Some p\<rparr>)) (plink (progs s p)) ((ys @ [t]) @ [p])"
    using d by (intro links_relink) auto
  then show ?thesis using assms snoc d
    by (auto simp: endturn_def runs_def frame_def Let_def)
qed

section \<open>The scheduler queue operations\<close>

definition sample_sched :: vmst where
  "sample_sched = \<lparr>progs = (\<lambda>p. \<lparr>plink = (if p < 3 then Some (p + 1) else None), pchan = None, pptr = None,
       pstate = Pready, pkill = None, paddrun = False, pRs = None, pRd = 0\<rparr>),
     chans = (\<lambda>c. \<lparr>cbuf = None, csend = [None], crecv = [None], cfront = 0, csize = 0\<rparr>),
     mem = (\<lambda>a. 0), runhd = Some 1, runtl = Some 3, RIC = 0, Rt = 0, nomem = False\<rparr>"

lemma sample_runs: "runs sample_sched [1, 2, 3]"
  by (simp add: runs_def sample_sched_def)

text \<open>C23: On a run queue that holds the programs \<open>xs\<close>, \<open>addrun\<close> appends a program that is not in it,
  \<open>delrun\<close> takes the first (and crashes when there is none), \<open>delruntail\<close> takes the last, and
  \<open>delrunq\<close> takes out one program wherever it is; the search ends, and only links and the state of
  that one program change.\<close>

theorem run_queue_list:
  assumes "runs s xs"
  shows "(p \<notin> set xs \<and> \<not> paddrun (progs s p) \<longrightarrow>
        (\<exists>s'. addrun p s = Ret () s' \<and> runs s' (xs @ [p]) \<and> frame p Pready s s'))
    \<and> (case xs of [] \<Rightarrow> delrun st s = Crash
       | q # ys \<Rightarrow> \<exists>s'. delrun st s = Ret q s' \<and> runs s' ys \<and> frame q st s s')
    \<and> (\<exists>s'. delrunq p s = Some s' \<and> runs s' (remove1 p xs) \<and> frame p (pstate (progs s p)) s s')
    \<and> (if xs = [] then delruntail st s = Crash
       else \<exists>s'. delruntail st s = Ret (last xs) s' \<and> runs s' (butlast xs) \<and> frame (last xs) st s s')"
proof (intro conjI)
  show "case xs of [] \<Rightarrow> delrun st s = Crash
       | q # ys \<Rightarrow> \<exists>s'. delrun st s = Ret q s' \<and> runs s' ys \<and> frame q st s s'"
    using assms delrun_runs [of s] by (cases xs) (auto simp: runs_def delrun_def)
  show "if xs = [] then delruntail st s = Crash
       else \<exists>s'. delruntail st s = Ret (last xs) s' \<and> runs s' (butlast xs) \<and> frame (last xs) st s s'"
    using assms delruntail_runs [OF assms] by (auto simp: runs_def delruntail_def)
qed (use assms addrun_runs delrunq_runs in auto)

theorem run_queue_list_witness:
  "\<exists>s'. delrunq 2 sample_sched = Some s' \<and> runs s' [1, 3] \<and> frame 2 Pready sample_sched s'"
  using run_queue_list [OF sample_runs, of 2 Pready] by (simp add: sample_sched_def)

end
