(* ===== verification/DisChan.thy ===== *)
theory DisChan
  imports DisSched "HOL-Library.Multiset"
begin

text \<open>
  Channels of the virtual machine: the queues of blocked programs, the buffer, \<open>isend\<close> and
  \<open>irecv\<close> of \<open>libinterp/xec.c\<close>, and \<open>altdone\<close> of \<open>libinterp/alt.c\<close>, which they call on a program
  blocked in an alt.

  The registers \<open>R.s\<close>, \<open>R.m\<close>, \<open>R.d\<close> the instructions use to pass operands to the mover are
  arguments here: the interpreter loads them anew for each instruction. The mover is \<open>movw\<close>, here \<open>chmov\<close>.
  A pointer to \<open>H\<close> or \<open>nil\<close> that the code would follow is \<open>Crash\<close>.

  The second half says what a channel is for (\<open>achan\<close>, \<open>astep\<close>: lists instead of pointers) and shows
  that the machine implements it, operation by operation (\<open>implements\<close>), for programs blocked in a plain
  send or receive on one channel; programs blocked in an alt are the matter of \<open>DisAlt\<close>.
\<close>

section \<open>Queues of programs\<close>

definition cqadd :: "bool \<Rightarrow> progq \<Rightarrow> nat \<Rightarrow> progq outcome" where
  "cqadd nm q p = (case q of
     [] \<Rightarrow> Undef
   | None # r \<Rightarrow> Ok (Some p # r)
   | Some _ # _ \<Rightarrow> if nm then Fail else Ok (q @ [Some p]))"

definition cqdel :: "progq \<Rightarrow> progq outcome" where
  "cqdel q = (case q of
     [] \<Rightarrow> Undef
   | [_] \<Rightarrow> Ok [None]
   | _ # r \<Rightarrow> Ok r)"

fun cqdelp_loop :: "progq \<Rightarrow> nat \<Rightarrow> progq" where
  "cqdelp_loop [] p = []"
| "cqdelp_loop (x # q) p = (if x = Some p then cqdelp_loop q p else x # cqdelp_loop q p)"

definition cqdelp :: "progq \<Rightarrow> nat \<Rightarrow> progq outcome" where
  "cqdelp q p = (case q of
     [] \<Rightarrow> Undef
   | [x] \<Rightarrow> Ok (if x = Some p then [None] else [x])
   | _ \<Rightarrow> Ok (cqdelp_loop q p))"

section \<open>The buffer\<close>

text \<open>The value moved out and the channel after it, or \<open>None\<close> for the result 0.\<close>

definition cgetb :: "chan \<Rightarrow> (u32 \<times> chan) option outcome" where
  "cgetb c = (case cbuf c of
     None \<Rightarrow> Ok None
   | Some a \<Rightarrow>
       if 0 < csize c then
         obind (rdat a (cfront c)) (\<lambda>w.
           let f = cfront c + 1; f = (if f = length a then 0 else f) in
           Ok (Some (w, c\<lparr>cfront := f, csize := csize c - 1\<rparr>)))
       else Ok None)"

definition cputb :: "u32 \<Rightarrow> chan \<Rightarrow> chan option outcome" where
  "cputb v c = (case cbuf c of
     None \<Rightarrow> Ok None
   | Some a \<Rightarrow>
       let len = length a in
       if csize c < len then
         let r = cfront c + csize c; r = (if len \<le> r then r - len else r) in
         obind (wrat a r v) (\<lambda>a. Ok (Some (c\<lparr>cbuf := Some a, csize := csize c + 1\<rparr>)))
       else Ok None)"

abbreviation setchan :: "nat \<Rightarrow> (chan \<Rightarrow> chan) \<Rightarrow> vmst \<Rightarrow> vmst" where
  "setchan c f s \<equiv> s\<lparr>chans := (chans s)(c := f (chans s c))\<rparr>"

text \<open>An operation on a queue of a channel: a nil queue crashes, no memory raises.\<close>

definition onq :: "(progq \<Rightarrow> vmst) \<Rightarrow> progq outcome \<Rightarrow> vmst \<Rightarrow> unit vres" where
  "onq put r s = (case r of Undef \<Rightarrow> Crash | Fail \<Rightarrow> Raise exNomem s | Ok q \<Rightarrow> Ret () (put q))"

definition onsend :: "nat \<Rightarrow> (progq \<Rightarrow> progq outcome) \<Rightarrow> vmst \<Rightarrow> unit vres" where
  "onsend c f s = onq (\<lambda>q. setchan c (\<lambda>ch. ch\<lparr>csend := q\<rparr>) s) (f (csend (chans s c))) s"

definition onrecv :: "nat \<Rightarrow> (progq \<Rightarrow> progq outcome) \<Rightarrow> vmst \<Rightarrow> unit vres" where
  "onrecv c f s = onq (\<lambda>q. setchan c (\<lambda>ch. ch\<lparr>crecv := q\<rparr>) s) (f (crecv (chans s c))) s"

definition newchan :: "nat \<Rightarrow> chan" where
  "newchan n = \<lparr>cbuf = (if 0 < n then Some (replicate n 0) else None), csend = [None], crecv = [None],
     cfront = 0, csize = 0\<rparr>"

text \<open>\<open>cnewc\<close> makes a channel at \<open>c\<close> with room for \<open>len\<close> words.\<close>

definition cnewc :: "nat \<Rightarrow> nat \<Rightarrow> vmst \<Rightarrow> unit vres" where
  "cnewc c len s = (if nomem s then Raise exNomem s else Ret () (setchan c (\<lambda>_. newchan len) s))"

definition newc :: "nat \<Rightarrow> u32 option \<Rightarrow> vmst \<Rightarrow> unit vres" where
  "newc c m s = (case m of
     None \<Rightarrow> cnewc c 0 s
   | Some w \<Rightarrow> if sint w < 0 then Raise exNegsize s else cnewc c (nat (sint w)) s)"

section \<open>Leaving an alt\<close>

text \<open>\<open>p->ptr = ptr; W(p->R.d) = n\<close>\<close>

definition altpick :: "nat \<Rightarrow> nat \<Rightarrow> nat \<Rightarrow> vmst \<Rightarrow> vmst" where
  "altpick p ptr n s =
     (setprog p (\<lambda>q. q\<lparr>pptr := Some ptr\<rparr>) s)\<lparr>mem := (mem s)(pRd (progs s p) := of_nat n)\<rparr>"

text \<open>\<open>cqdelp\<close> on a queue that holds a program: \<open>if(c->send->prog) cqdelp(&c->send, p)\<close>.\<close>

definition cqunmark :: "nat \<Rightarrow> progq \<Rightarrow> progq outcome" where
  "cqunmark p q = (case q of [] \<Rightarrow> Undef | None # _ \<Rightarrow> Ok q | Some _ # _ \<Rightarrow> cqdelp q p)"

fun altunmark :: "nat \<Rightarrow> nat \<Rightarrow> nat \<Rightarrow> int \<Rightarrow> nat option list \<Rightarrow> nat \<Rightarrow> nat option \<Rightarrow> vmst \<Rightarrow> nat option vres" where
  "altunmark p ptr dn sr [] n sel s = Ret sel s"
| "altunmark p ptr dn sr (None # ca) n sel s = altunmark p ptr dn sr ca (n + 1) sel s"
| "altunmark p ptr dn sr (Some c # ca) n sel s =
     vbind (onrecv c (cqunmark p) s) (\<lambda>_ s.
       if sr = 1 \<and> sel = Some c then
         let s = altpick p (ptr + 1) dn s; s = s\<lparr>mem := (mem s)(ptr := of_nat n)\<rparr> in
         altunmark p ptr dn sr ca (n + 1) None s
       else altunmark p ptr dn sr ca (n + 1) sel s)"

fun altdone_sends :: "nat \<Rightarrow> int \<Rightarrow> (altch \<times> nat) list \<Rightarrow> nat \<Rightarrow> nat option \<Rightarrow> vmst \<Rightarrow> nat option vres" where
  "altdone_sends p sr [] n sel s = Ret sel s"
| "altdone_sends p sr ((AH, ptr) # es) n sel s = altdone_sends p sr es (n + 1) sel s"
| "altdone_sends p sr ((AA ca, ptr) # es) n sel s = Crash"
| "altdone_sends p sr ((AC c, ptr) # es) n sel s =
     vbind (onsend c (cqunmark p) s) (\<lambda>_ s.
       if sr = 0 \<and> sel = Some c then altdone_sends p sr es (n + 1) None (altpick p ptr n s)
       else altdone_sends p sr es (n + 1) sel s)"

fun altdone_recvs :: "nat \<Rightarrow> int \<Rightarrow> (altch \<times> nat) list \<Rightarrow> nat \<Rightarrow> nat option \<Rightarrow> vmst \<Rightarrow> nat option vres" where
  "altdone_recvs p sr [] n sel s = Ret sel s"
| "altdone_recvs p sr ((AH, ptr) # es) n sel s = altdone_recvs p sr es (n + 1) sel s"
| "altdone_recvs p sr ((AA ca, ptr) # es) n sel s =
     vbind (altunmark p ptr n sr ca 0 sel s) (\<lambda>sel s. altdone_recvs p sr es (n + 1) sel s)"
| "altdone_recvs p sr ((AC c, ptr) # es) n sel s =
     vbind (onrecv c (cqunmark p) s) (\<lambda>_ s.
       if sr = 1 \<and> sel = Some c then altdone_recvs p sr es (n + 1) None (altpick p ptr n s)
       else altdone_recvs p sr es (n + 1) sel s)"

abbreviation sends :: "alt \<Rightarrow> (altch \<times> nat) list" where
  "sends a \<equiv> take (nsend a) (ac a)"

abbreviation recvs :: "alt \<Rightarrow> (altch \<times> nat) list" where
  "recvs a \<equiv> take (nrecv a) (drop (nsend a) (ac a))"

definition altdone :: "alt option \<Rightarrow> nat \<Rightarrow> nat option \<Rightarrow> int \<Rightarrow> vmst \<Rightarrow> unit vres" where
  "altdone ap p sel sr s = (case ap of
     None \<Rightarrow> Crash
   | Some a \<Rightarrow>
       if length (ac a) < nsend a + nrecv a then Crash
       else vbind (altdone_sends p sr (sends a) 0 sel s) (\<lambda>sel s.
         vbind (altdone_recvs p sr (recvs a) (nsend a) sel s) (\<lambda>_ s. Ret () s)))"

section \<open>Send and receive\<close>

definition chmov :: "nat option \<Rightarrow> nat option \<Rightarrow> vmst \<Rightarrow> unit vres" where
  "chmov src dst s = (case (src, dst) of
     (Some a, Some d) \<Rightarrow> Ret () (s\<lparr>mem := (mem s)(d := mem s a)\<rparr>)
   | _ \<Rightarrow> Crash)"

definition isend :: "nat option \<Rightarrow> nat \<Rightarrow> vmst \<Rightarrow> unit vres" where
  "isend ch src s = (case ch of
     None \<Rightarrow> Raise exNilref s
   | Some c \<Rightarrow> (case crecv (chans s c) of
       [] \<Rightarrow> Crash
     | None # _ \<Rightarrow> (case cputb (mem s src) (chans s c) of
           Ok (Some ch) \<Rightarrow> Ret () (setchan c (\<lambda>_. ch) s)
         | Ok None \<Rightarrow>
             vbind (delrun Psend s) (\<lambda>p s.
               let s = setprog p (\<lambda>q. q\<lparr>pptr := Some src, pchan := Some c\<rparr>) s in
               onsend c (\<lambda>q. cqadd (nomem s) q p) (s\<lparr>RIC := 1, Rt := 1\<rparr>))
         | _ \<Rightarrow> Crash)
     | Some p # _ \<Rightarrow>
         vbind (onrecv c cqdel s) (\<lambda>_ s.
         vbind (if pstate (progs s p) = Palt then altdone (pRs (progs s p)) p (Some c) 1 s else Ret () s) (\<lambda>_ s.
         let d = pptr (progs s p); s = setprog p (\<lambda>q. q\<lparr>pptr := None\<rparr>) s in
         vbind (chmov (Some src) d s) (\<lambda>_ s.
         vbind (addrun p s) (\<lambda>_ s. Ret () (s\<lparr>Rt := 0\<rparr>)))))))"

definition irecv :: "nat option \<Rightarrow> nat \<Rightarrow> vmst \<Rightarrow> unit vres" where
  "irecv ch dst s = (case ch of
     None \<Rightarrow> Raise exNilref s
   | Some c \<Rightarrow> (case csend (chans s c) of
       [] \<Rightarrow> Crash
     | None # _ \<Rightarrow> (case cgetb (chans s c) of
           Ok (Some (v, ch)) \<Rightarrow> Ret () ((setchan c (\<lambda>_. ch) s)\<lparr>mem := (mem s)(dst := v)\<rparr>)
         | Ok None \<Rightarrow>
             vbind (delrun Precv s) (\<lambda>p s.
               let s = setprog p (\<lambda>q. q\<lparr>pptr := Some dst, pchan := Some c\<rparr>) s in
               onrecv c (\<lambda>q. cqadd (nomem s) q p) (s\<lparr>RIC := 1, Rt := 1\<rparr>))
         | _ \<Rightarrow> Crash)
     | Some p # _ \<Rightarrow>
         vbind (onsend c cqdel s) (\<lambda>_ s.
         vbind (if pstate (progs s p) = Palt then altdone (pRs (progs s p)) p (Some c) 0 s else Ret () s) (\<lambda>_ s.
         vbind (if cbuf (chans s c) \<noteq> None then
                  (case cgetb (chans s c) of
                     Ok r \<Rightarrow>
                       let s = (case r of
                           None \<Rightarrow> s
                         | Some (v, ch) \<Rightarrow> (setchan c (\<lambda>_. ch) s)\<lparr>mem := (mem s)(dst := v)\<rparr>) in
                       (case cputb (case pptr (progs s p) of None \<Rightarrow> 0 | Some a \<Rightarrow> mem s a) (chans s c) of
                          Ok None \<Rightarrow> Ret () (setprog p (\<lambda>q. q\<lparr>pptr := None\<rparr>) s)
                        | Ok (Some ch) \<Rightarrow>
                            if pptr (progs s p) = None then Crash
                            else Ret () (setchan c (\<lambda>_. ch) (setprog p (\<lambda>q. q\<lparr>pptr := None\<rparr>) s))
                        | _ \<Rightarrow> Crash)
                   | _ \<Rightarrow> Crash)
                else
                  let a = pptr (progs s p); s = setprog p (\<lambda>q. q\<lparr>pptr := None\<rparr>) s in
                  chmov a (Some dst) s) (\<lambda>_ s.
         vbind (addrun p s) (\<lambda>_ s. Ret () (s\<lparr>Rt := 0\<rparr>)))))))"

section \<open>The queue of programs is first-in first-out\<close>

definition pq :: "nat list \<Rightarrow> progq" where
  "pq ps = (if ps = [] then [None] else map Some ps)"

fun waiting :: "progq \<Rightarrow> nat list" where
  "waiting [] = []"
| "waiting (None # q) = waiting q"
| "waiting (Some p # q) = p # waiting q"

lemma waiting_map_Some [simp]: "waiting (map Some ps) = ps"
  by (induction ps) auto

lemma waiting_pq [simp]: "waiting (pq ps) = ps"
  by (simp add: pq_def)

lemma cqadd_pq [simp]: "cqadd False (pq ps) p = Ok (pq (ps @ [p]))"
  by (cases ps) (auto simp: cqadd_def pq_def)

lemma cqdel_pq [simp]: "cqdel (pq (p # ps)) = Ok (pq ps)"
  by (cases ps) (auto simp: cqdel_def pq_def)

lemma cqdelp_loop_filter: "cqdelp_loop q p = filter (\<lambda>x. x \<noteq> Some p) q"
  by (induction q) auto

lemma cqdelp_pq: "distinct ps \<Longrightarrow> cqdelp (pq ps) p = Ok (pq (remove1 p ps))"
proof (cases ps)
  case (Cons x xs)
  assume "distinct ps"
  moreover from this have "filter (\<lambda>x. x \<noteq> Some p) (map Some ps) = map Some (remove1 p ps)"
    by (simp add: filter_map distinct_remove1_removeAll removeAll_filter_not_eq o_def neq_commute)
  ultimately show ?thesis using Cons
    by (cases xs) (auto simp: cqdelp_def pq_def cqdelp_loop_filter)
qed (simp add: cqdelp_def pq_def)

lemma pq_Cons: "pq (p # ps) = Some p # map Some ps" "pq [] = [None]"
  by (simp_all add: pq_def)

lemma cqdel_Some [simp]: "cqdel (Some p # map Some ps) = Ok (pq ps)"
  using cqdel_pq [of p ps] by (simp add: pq_Cons)

lemma cqadd_None [simp]: "cqadd False [None] p = Ok (pq [p])"
  using cqadd_pq [of "[]" p] by (simp add: pq_Cons)

definition pqput :: "nat \<Rightarrow> progq \<Rightarrow> progq option outcome" where
  "pqput p q = obind (cqadd False q p) (\<lambda>q. Ok (Some q))"

definition pqget :: "progq \<Rightarrow> (nat \<times> progq) option outcome" where
  "pqget q = (case q of
     [] \<Rightarrow> Undef
   | None # _ \<Rightarrow> Ok None
   | Some p # _ \<Rightarrow> obind (cqdel q) (\<lambda>q. Ok (Some (p, q))))"

interpretation pqueue: fifo "\<lambda>q. \<exists>ps. q = pq ps" waiting "\<lambda>_. None" pqput pqget
proof unfold_locales
  fix s :: progq and x assume "\<exists>ps. s = pq ps"
  then show "\<exists>s'. pqput x s = Ok (Some s') \<and> (\<exists>ps. s' = pq ps) \<and> waiting s' = waiting s @ [x] \<and> None = None"
    by (auto simp: pqput_def)
next
  fix s assume "\<exists>ps. s = pq ps" "waiting s = []"
  then show "pqget s = Ok None" by (auto simp: pqget_def pq_Cons)
next
  fix s x xs assume "\<exists>ps. s = pq ps" "waiting s = x # xs"
  then have "s = pq (x # xs)" by auto
  then show "\<exists>s'. pqget s = Ok (Some (x, s')) \<and> (\<exists>ps. s' = pq ps) \<and> waiting s' = xs \<and> None = None"
    by (auto simp: pqget_def pq_Cons)
qed simp

section \<open>The buffer is first-in first-out\<close>

definition ring_ok :: "chan \<Rightarrow> bool" where
  "ring_ok c \<longleftrightarrow> (case cbuf c of None \<Rightarrow> csize c = 0
     | Some a \<Rightarrow> cfront c < length a \<and> csize c \<le> length a)"

definition buffered :: "chan \<Rightarrow> u32 list" where
  "buffered c = (case cbuf c of None \<Rightarrow> []
     | Some a \<Rightarrow> map (\<lambda>i. a ! ((cfront c + i) mod length a)) [0..<csize c])"

definition capacity :: "chan \<Rightarrow> nat" where
  "capacity c = (case cbuf c of None \<Rightarrow> 0 | Some a \<Rightarrow> length a)"

definition room :: "chan \<Rightarrow> bool" where
  "room c \<longleftrightarrow> (case cbuf c of None \<Rightarrow> False | Some a \<Rightarrow> csize c < length a)"

lemma buffer_fields [simp]:
  "ring_ok (c\<lparr>csend := q\<rparr>) = ring_ok c" "ring_ok (c\<lparr>crecv := q\<rparr>) = ring_ok c"
  "room (c\<lparr>csend := q\<rparr>) = room c" "room (c\<lparr>crecv := q\<rparr>) = room c"
  "capacity (c\<lparr>csend := q\<rparr>) = capacity c" "capacity (c\<lparr>crecv := q\<rparr>) = capacity c"
  "buffered (c\<lparr>csend := q\<rparr>) = buffered c" "buffered (c\<lparr>crecv := q\<rparr>) = buffered c"
  by (simp_all add: ring_ok_def room_def buffered_def capacity_def split: option.split)

lemma length_buffered: "ring_ok c \<Longrightarrow> length (buffered c) = csize c"
  by (auto simp: buffered_def ring_ok_def split: option.splits)

lemma room_capacity: "room c \<longleftrightarrow> csize c < capacity c"
  by (simp add: room_def capacity_def split: option.split)

lemma full_size: "ring_ok c \<Longrightarrow> \<not> room c \<Longrightarrow> csize c = capacity c"
  by (auto simp: room_def capacity_def ring_ok_def split: option.splits)

lemma wrap_mod: "f < n \<Longrightarrow> k \<le> n \<Longrightarrow> (if n \<le> f + k then f + k - n else f + k) = (f + k) mod (n :: nat)"
  by (auto simp: le_mod_geq)

lemma wrap_next: "f < n \<Longrightarrow> ((if f + 1 = n then 0 else f + 1) + i) mod n = (f + Suc i) mod (n :: nat)"
proof (cases "f + 1 = n")
  case True
  then have "f + Suc i = n + i" by simp
  then have "(f + Suc i) mod n = i mod n" by (simp only: mod_add_self1)
  then show ?thesis using True by simp
qed simp

lemma cputb_spec:
  assumes "ring_ok c"
  shows "if room c then \<exists>c'. cputb v c = Ok (Some c') \<and> ring_ok c' \<and> buffered c' = buffered c @ [v]
      \<and> csend c' = csend c \<and> crecv c' = crecv c \<and> csize c' = Suc (csize c)
      \<and> cbuf c' \<noteq> None \<and> map_option length (cbuf c') = map_option length (cbuf c)
      \<and> capacity c' = capacity c
    else cputb v c = Ok None"
proof (cases "room c")
  case True
  then obtain a where a: "cbuf c = Some a" "csize c < length a"
    by (auto simp: room_def split: option.splits)
  have f: "cfront c < length a" using assms a by (simp add: ring_ok_def)
  let ?i = "(cfront c + csize c) mod length a"
  have "map (\<lambda>i. a[?i := v] ! ((cfront c + i) mod length a)) [0..<csize c]
      = map (\<lambda>i. a ! ((cfront c + i) mod length a)) [0..<csize c]"
  proof (rule map_cong [OF refl])
    fix i assume "i \<in> set [0..<csize c]"
    then have "?i \<noteq> (cfront c + i) mod length a"
      using a(2) wrap_mod [OF f, of "csize c"] wrap_mod [OF f, of i] f by (auto split: if_splits)
    then show "a[?i := v] ! ((cfront c + i) mod length a) = a ! ((cfront c + i) mod length a)" by simp
  qed
  moreover have "?i < length a" using a by (intro mod_less_divisor) linarith
  ultimately show ?thesis
    using True a f wrap_mod [OF f, of "csize c"]
    by (auto simp: cputb_def ring_ok_def buffered_def capacity_def Let_def)
qed (auto simp: cputb_def room_def split: option.splits)

lemma cgetb_spec:
  assumes "ring_ok c"
  shows "case buffered c of [] \<Rightarrow> cgetb c = Ok None
    | v # vs \<Rightarrow> \<exists>c'. cgetb c = Ok (Some (v, c')) \<and> ring_ok c' \<and> buffered c' = vs
        \<and> csend c' = csend c \<and> crecv c' = crecv c \<and> csize c' = csize c - 1 \<and> cbuf c' = cbuf c
        \<and> capacity c' = capacity c"
proof (cases "cbuf c")
  case None
  then show ?thesis by (simp add: buffered_def cgetb_def)
next
  case (Some a)
  have f: "cfront c < length a" "csize c \<le> length a" using assms Some by (simp_all add: ring_ok_def)
  show ?thesis
  proof (cases "csize c")
    case (Suc n)
    let ?c = "c\<lparr>cfront := (if cfront c + 1 = length a then 0 else cfront c + 1), csize := n\<rparr>"
    have "buffered c = a ! cfront c # buffered ?c"
      unfolding buffered_def using Some Suc f wrap_next [OF f(1)]
      by (simp add: upt_conv_Cons map_Suc_upt [symmetric] del: upt_Suc)
    then show ?thesis using Some Suc f by (auto simp: cgetb_def ring_ok_def capacity_def Let_def)
  qed (use Some in \<open>simp add: buffered_def cgetb_def\<close>)
qed

interpretation ring: fifo "\<lambda>c. ring_ok c \<and> csend c = qs \<and> crecv c = qr" buffered "\<lambda>c. Some (capacity c)" cputb cgetb
proof unfold_locales
  fix c x
  assume c: "ring_ok c \<and> csend c = qs \<and> crecv c = qr" and f: "qfull (Some (capacity c)) (buffered c)"
  then have "\<not> room c" by (simp add: room_capacity length_buffered)
  then show "cputb x c = Ok None" using cputb_spec [of c x] c by simp
next
  fix c x
  assume c: "ring_ok c \<and> csend c = qs \<and> crecv c = qr" and f: "\<not> qfull (Some (capacity c)) (buffered c)"
  then have "room c" by (simp add: room_capacity length_buffered)
  then show "\<exists>c'. cputb x c = Ok (Some c') \<and> (ring_ok c' \<and> csend c' = qs \<and> crecv c' = qr)
      \<and> buffered c' = buffered c @ [x] \<and> Some (capacity c') = Some (capacity c)"
    using cputb_spec [of c x] c by auto
next
  fix c assume "ring_ok c \<and> csend c = qs \<and> crecv c = qr" "buffered c = []"
  then show "cgetb c = Ok None" using cgetb_spec [of c] by simp
next
  fix c x xs assume "ring_ok c \<and> csend c = qs \<and> crecv c = qr" "buffered c = x # xs"
  then show "\<exists>c'. cgetb c = Ok (Some (x, c')) \<and> (ring_ok c' \<and> csend c' = qs \<and> crecv c' = qr)
      \<and> buffered c' = xs \<and> Some (capacity c') = Some (capacity c)"
    using cgetb_spec [of c] by auto
qed

section \<open>One channel and its programs\<close>

text \<open>
  \<open>ss\<close> are the programs blocked sending, \<open>rs\<close> those blocked receiving, in order, \<open>xs\<close> the run queue.
  Senders wait only on a full channel, receivers only on an empty one.
\<close>

definition blocked :: "vmst \<Rightarrow> pstate \<Rightarrow> nat list \<Rightarrow> bool" where
  "blocked s st ps \<longleftrightarrow> (\<forall>p\<in>set ps. pstate (progs s p) = st \<and> pptr (progs s p) \<noteq> None)"

definition chan_inv :: "vmst \<Rightarrow> nat \<Rightarrow> nat list \<Rightarrow> nat list \<Rightarrow> nat list \<Rightarrow> bool" where
  "chan_inv s c ss rs xs \<longleftrightarrow> csend (chans s c) = pq ss \<and> crecv (chans s c) = pq rs
     \<and> ring_ok (chans s c) \<and> (ss \<noteq> [] \<longrightarrow> \<not> room (chans s c)) \<and> (rs \<noteq> [] \<longrightarrow> csize (chans s c) = 0)
     \<and> (ss = [] \<or> rs = []) \<and> distinct (ss @ rs @ xs) \<and> runs s xs
     \<and> blocked s Psend ss \<and> blocked s Precv rs \<and> (\<forall>p. \<not> paddrun (progs s p))"

text \<open>The values in the channel, in order: the buffer, then what the blocked senders offer.\<close>

definition ptr_of :: "vmst \<Rightarrow> nat \<Rightarrow> nat" where
  "ptr_of s p = the (pptr (progs s p))"

definition offers :: "vmst \<Rightarrow> nat list \<Rightarrow> u32 list" where
  "offers s ss = map (\<lambda>p. mem s (ptr_of s p)) ss"

definition contents :: "vmst \<Rightarrow> nat \<Rightarrow> u32 list" where
  "contents s c = buffered (chans s c) @ offers s (waiting (csend (chans s c)))"

lemma chan_inv_contents: "chan_inv s c ss rs xs \<Longrightarrow> contents s c = buffered (chans s c) @ offers s ss"
  by (simp add: contents_def chan_inv_def)

lemma buffered_Nil: "ring_ok c \<Longrightarrow> buffered c = [] \<longleftrightarrow> csize c = 0"
  using length_buffered [of c] by auto

lemma runs_frame: "runs s xs \<Longrightarrow> progs s' = progs s \<Longrightarrow> runhd s' = runhd s \<Longrightarrow> runtl s' = runtl s \<Longrightarrow> runs s' xs"
  by (simp add: runs_def)

text \<open>Changing fields other than the link does not touch the run queue.\<close>

lemma runs_setprog [simp]:
  "plink r = plink (progs s p) \<Longrightarrow> runs (s\<lparr>progs := (progs s)(p := r)\<rparr>) xs = runs s xs"
  using links_cong [of xs "(progs s)(p := r)" "progs s" "runhd s"] by (auto simp: runs_def)

lemma runs_upd [simp]:
  "runs (s\<lparr>mem := m\<rparr>) xs = runs s xs" "runs (s\<lparr>chans := cs\<rparr>) xs = runs s xs"
  "runs (s\<lparr>RIC := i\<rparr>) xs = runs s xs" "runs (s\<lparr>Rt := t\<rparr>) xs = runs s xs"
  by (simp_all add: runs_def)

text \<open>Updates of a state in one order.\<close>

lemma upd_order:
  "(s :: vmst)\<lparr>chans := cs, progs := ps\<rparr> = s\<lparr>progs := ps, chans := cs\<rparr>"
  "(s :: vmst)\<lparr>mem := m, progs := ps\<rparr> = s\<lparr>progs := ps, mem := m\<rparr>"
  "(s :: vmst)\<lparr>mem := m, chans := cs\<rparr> = s\<lparr>chans := cs, mem := m\<rparr>"
  by (cases s; simp)+

text \<open>The program that runs blocks on a channel, or a blocked program runs again.\<close>

lemma block_step:
  assumes "runs s (p # xs)"
  shows "\<exists>s'. delrun st s = Ret p s' \<and> runs s' xs \<and> frame p st s s'"
  using delrun_runs [OF assms] .

lemma wake_step:
  assumes "runs s xs" "r \<notin> set xs" "\<not> paddrun (progs s r)"
  shows "\<exists>s'. addrun r s = Ret () s' \<and> runs s' (xs @ [r]) \<and> frame r Pready s s'"
  using addrun_runs [OF assms] .

lemma frame_simps:
  assumes "frame p st s s'"
  shows "chans s' = chans s" "mem s' = mem s" "RIC s' = RIC s" "Rt s' = Rt s" "nomem s' = nomem s"
    "pptr (progs s' q) = pptr (progs s q)" "paddrun (progs s' q) = paddrun (progs s q)"
    "pstate (progs s' q) = (if q = p then st else pstate (progs s q))"
    "pRs (progs s' q) = pRs (progs s q)" "pRd (progs s' q) = pRd (progs s q)"
  using assms by (auto simp: frame_def Let_def)

lemma isend_empty:
  assumes I: "chan_inv s c ss [] (p # xs)" and nm: "\<not> nomem s"
  shows "\<exists>s'. isend (Some c) src s = Ret () s' \<and> nomem s' = nomem s \<and> mem s' = mem s
    \<and> contents s' c = contents s c @ [mem s src] \<and> capacity (chans s' c) = capacity (chans s c)
    \<and> (\<forall>q. pptr (progs s' q) = (if \<not> room (chans s c) \<and> q = p then Some src else pptr (progs s q)))
    \<and> (if room (chans s c) then chan_inv s' c ss [] (p # xs) else chan_inv s' c (ss @ [p]) [] xs)"
proof (cases "room (chans s c)")
  case True
  then obtain c' where c': "cputb (mem s src) (chans s c) = Ok (Some c')" "ring_ok c'"
      "buffered c' = buffered (chans s c) @ [mem s src]" "csend c' = csend (chans s c)"
      "crecv c' = crecv (chans s c)" "capacity c' = capacity (chans s c)"
    using cputb_spec [of "chans s c" "mem s src"] I by (auto simp: chan_inv_def)
  have "ss = []" using I True by (auto simp: chan_inv_def)
  with c' I True show ?thesis
    by (auto simp: isend_def chan_inv_def contents_def offers_def blocked_def pq_Cons(2))
next
  case False
  have r: "runs s (p # xs)" using I by (simp add: chan_inv_def)
  obtain s1 where s1: "delrun Psend s = Ret p s1" "runs s1 xs" "frame p Psend s s1"
    using block_step [OF r] by blast
  note f = frame_simps [OF s1(3)]
  let ?s = "(setprog p (\<lambda>q. q\<lparr>pptr := Some src, pchan := Some c\<rparr>) s1)\<lparr>RIC := 1, Rt := 1\<rparr>"
  have rs: "runs ?s xs" using s1(2) by simp
  have np: "p \<notin> set ss" using I by (auto simp: chan_inv_def)
  have put: "cputb (mem s src) (chans s c) = Ok None"
    using cputb_spec [of "chans s c" "mem s src"] I False by (simp add: chan_inv_def)
  have eq: "isend (Some c) src s = Ret () (setchan c (\<lambda>ch. ch\<lparr>csend := pq (ss @ [p])\<rparr>) ?s)"
    using I put nm by (simp add: isend_def s1(1) onsend_def onq_def f chan_inv_def pq_Cons(2))
  have "offers (setchan c (\<lambda>ch. ch\<lparr>csend := pq (ss @ [p])\<rparr>) ?s) (ss @ [p]) = offers s ss @ [mem s src]"
    using np by (auto simp: offers_def ptr_of_def f)
  then show ?thesis unfolding eq
    using I False rs np
    by (auto simp: chan_inv_def contents_def blocked_def f)
qed

lemma isend_waiting:
  assumes I: "chan_inv s c ss (r # rs) (p # xs)"
  shows "\<exists>s'. isend (Some c) src s = Ret () s' \<and> nomem s' = nomem s \<and> mem s' = (mem s)(ptr_of s r := mem s src)
    \<and> contents s c = [] \<and> contents s' c = [] \<and> capacity (chans s' c) = capacity (chans s c)
    \<and> (\<forall>q. q \<noteq> r \<longrightarrow> pptr (progs s' q) = pptr (progs s q)) \<and> chan_inv s' c [] rs ((p # xs) @ [r])"
proof -
  obtain d where d: "pptr (progs s r) = Some d" "pstate (progs s r) = Precv"
    using I by (auto simp: chan_inv_def blocked_def)
  have ss: "ss = []" and r: "runs s (p # xs)" and nr: "r \<notin> set (p # xs)" "r \<notin> set rs"
    and na: "\<not> paddrun (progs s r)"
    using I by (auto simp: chan_inv_def)
  let ?s = "((setprog r (\<lambda>q. q\<lparr>pptr := None\<rparr>) s)\<lparr>chans := (chans s)(c := (chans s c)\<lparr>crecv := pq rs\<rparr>),
      mem := (mem s)(d := mem s src)\<rparr>)"
  have "runs ?s (p # xs)" "\<not> paddrun (progs ?s r)" using r na by simp_all
  then obtain s1 where s1: "addrun r ?s = Ret () s1" "runs s1 ((p # xs) @ [r])" "frame r Pready ?s s1"
    using wake_step nr(1) by blast
  note f = frame_simps [OF s1(3), simplified]
  have q: "crecv (chans s c) = pq (r # rs)" using I by (simp add: chan_inv_def)
  have "isend (Some c) src s = Ret () (s1\<lparr>Rt := 0\<rparr>)"
    using q [unfolded pq_Cons] d s1(1) by (simp add: isend_def onrecv_def onq_def chmov_def upd_order)
  moreover have "buffered (chans s c) = []"
    using I buffered_Nil [of "chans s c"] by (auto simp: chan_inv_def)
  ultimately show ?thesis
    using I s1(2) d nr ss
    by (auto simp: chan_inv_def contents_def offers_def ptr_of_def f blocked_def pq_Cons(2))
qed

lemma irecv_empty:
  assumes I: "chan_inv s c [] rs (p # xs)" and nm: "\<not> nomem s"
  shows "case contents s c of
     [] \<Rightarrow> \<exists>s'. irecv (Some c) dst s = Ret () s' \<and> nomem s' = nomem s \<and> mem s' = mem s \<and> contents s' c = []
       \<and> capacity (chans s' c) = capacity (chans s c)
       \<and> (\<forall>q. pptr (progs s' q) = (if q = p then Some dst else pptr (progs s q)))
       \<and> chan_inv s' c [] (rs @ [p]) xs
   | v # vs \<Rightarrow> \<exists>s'. irecv (Some c) dst s = Ret () s' \<and> nomem s' = nomem s \<and> mem s' = (mem s)(dst := v)
       \<and> contents s' c = vs \<and> capacity (chans s' c) = capacity (chans s c)
       \<and> (\<forall>q. pptr (progs s' q) = pptr (progs s q)) \<and> chan_inv s' c [] rs (p # xs)"
proof (cases "buffered (chans s c)")
  case (Cons v vs)
  then obtain c' where c': "cgetb (chans s c) = Ok (Some (v, c'))" "ring_ok c'" "buffered c' = vs"
      "csend c' = csend (chans s c)" "crecv c' = crecv (chans s c)" "csize c' = csize (chans s c) - 1"
      "capacity c' = capacity (chans s c)"
    using cgetb_spec [of "chans s c"] I by (auto simp: chan_inv_def)
  show ?thesis using c' I Cons
    by (auto simp: irecv_def chan_inv_def contents_def offers_def blocked_def pq_Cons(2))
next
  case Nil
  have r: "runs s (p # xs)" using I by (simp add: chan_inv_def)
  obtain s1 where s1: "delrun Precv s = Ret p s1" "runs s1 xs" "frame p Precv s s1"
    using block_step [OF r] by blast
  note f = frame_simps [OF s1(3)]
  let ?s = "(setprog p (\<lambda>q. q\<lparr>pptr := Some dst, pchan := Some c\<rparr>) s1)\<lparr>RIC := 1, Rt := 1\<rparr>"
  have rs: "runs ?s xs" using s1(2) by simp
  have np: "p \<notin> set rs" "csize (chans s c) = 0"
    using I Nil buffered_Nil [of "chans s c"] by (auto simp: chan_inv_def)
  have get: "cgetb (chans s c) = Ok None"
    using cgetb_spec [of "chans s c"] I Nil by (simp add: chan_inv_def)
  have eq: "irecv (Some c) dst s = Ret () (setchan c (\<lambda>ch. ch\<lparr>crecv := pq (rs @ [p])\<rparr>) ?s)"
    using I get nm by (simp add: irecv_def s1(1) onrecv_def onq_def f chan_inv_def pq_Cons(2))
  show ?thesis unfolding eq
    using I rs np Nil
    by (auto simp: chan_inv_def contents_def blocked_def f offers_def)
qed

lemma offers_frame:
  assumes "\<forall>q\<in>set ss. mem s' (ptr_of s q) = mem s (ptr_of s q) \<and> pptr (progs s' q) = pptr (progs s q)"
  shows "offers s' ss = offers s ss"
  using assms by (auto simp: offers_def ptr_of_def)

lemma irecv_waiting:
  assumes I: "chan_inv s c (r # ss) [] (p # xs)" and dst: "\<forall>q\<in>set (r # ss). ptr_of s q \<noteq> dst"
  shows "\<exists>s'. irecv (Some c) dst s = Ret () s' \<and> nomem s' = nomem s \<and> contents s c = mem s' dst # contents s' c
    \<and> mem s' = (mem s)(dst := hd (contents s c)) \<and> capacity (chans s' c) = capacity (chans s c)
    \<and> (\<forall>q. q \<noteq> r \<longrightarrow> pptr (progs s' q) = pptr (progs s q)) \<and> chan_inv s' c ss [] ((p # xs) @ [r])"
proof -
  obtain a where d: "pptr (progs s r) = Some a" "pstate (progs s r) = Psend" and da: "a \<noteq> dst"
    using I dst by (auto simp: chan_inv_def blocked_def ptr_of_def)
  have r: "runs s (p # xs)" and nr: "r \<notin> set (p # xs)" "r \<notin> set ss" and na: "\<not> paddrun (progs s r)"
    and q: "csend (chans s c) = pq (r # ss)" and ok: "ring_ok (chans s c)" and full: "\<not> room (chans s c)"
    using I by (auto simp: chan_inv_def)
  have con: "contents s c = buffered (chans s c) @ mem s a # offers s ss"
    using chan_inv_contents [OF I] d by (simp add: offers_def ptr_of_def)
  define ch where "ch = (chans s c)\<lparr>csend := pq ss\<rparr>"
  \<comment> \<open>the channel and the value received, buffered or not\<close>
  obtain ch' v where ch': "ring_ok ch'" "\<not> room ch'" "csend ch' = pq ss" "crecv ch' = pq []"
      "v # buffered ch' = buffered (chans s c) @ [mem s a]" "capacity ch' = capacity (chans s c)"
    and eq: "irecv (Some c) dst s = vbind (addrun r ((setprog r (\<lambda>q. q\<lparr>pptr := None\<rparr>) s)
        \<lparr>chans := (chans s)(c := ch'), mem := (mem s)(dst := v)\<rparr>)) (\<lambda>_ s. Ret () (s\<lparr>Rt := 0\<rparr>))"
  proof (cases "cbuf (chans s c)")
    case None
    show ?thesis
    proof (rule that [of ch "mem s a"])
      show "irecv (Some c) dst s = vbind (addrun r ((setprog r (\<lambda>q. q\<lparr>pptr := None\<rparr>) s)
        \<lparr>chans := (chans s)(c := ch), mem := (mem s)(dst := mem s a)\<rparr>)) (\<lambda>_ s. Ret () (s\<lparr>Rt := 0\<rparr>))"
        using q [unfolded pq_Cons] d None by (simp add: irecv_def onsend_def onq_def chmov_def ch_def upd_order)
    qed (use ok full None I in \<open>auto simp: ch_def chan_inv_def buffered_def\<close>)
  next
    case (Some b)
    then have "csize (chans s c) = length b" "b \<noteq> []"
      using ok full by (auto simp: ring_ok_def room_def)
    then obtain v vs where bv: "buffered ch = v # vs"
      using length_buffered [OF ok] by (cases "buffered ch") (auto simp: ch_def)
    have okc: "ring_ok ch" using ok by (simp add: ch_def)
    obtain c1 where c1: "cgetb ch = Ok (Some (v, c1))" "ring_ok c1" "buffered c1 = vs" "csend c1 = csend ch"
        "crecv c1 = crecv ch" "csize c1 = csize ch - 1" "cbuf c1 = cbuf ch" "capacity c1 = capacity ch"
      using cgetb_spec [OF okc] bv by auto
    have "room c1" using c1 Some \<open>csize (chans s c) = length b\<close> \<open>b \<noteq> []\<close>
      by (simp add: room_def ch_def)
    then obtain c2 where c2: "cputb (mem s a) c1 = Ok (Some c2)" "ring_ok c2" "buffered c2 = buffered c1 @ [mem s a]"
        "csend c2 = csend c1" "crecv c2 = crecv c1" "csize c2 = Suc (csize c1)"
        "map_option length (cbuf c2) = map_option length (cbuf c1)" "capacity c2 = capacity c1"
      using cputb_spec [OF c1(2), of "mem s a"] \<open>room c1\<close> by (simp only: if_True) (elim exE conjE, rule that)
    have "\<not> room c2" using c1(6,7) c2(6,7) Some \<open>csize (chans s c) = length b\<close> \<open>b \<noteq> []\<close>
      by (auto simp: room_def ch_def split: option.splits)
    show ?thesis
    proof (rule that [of c2 v])
      show "irecv (Some c) dst s = vbind (addrun r ((setprog r (\<lambda>q. q\<lparr>pptr := None\<rparr>) s)
        \<lparr>chans := (chans s)(c := c2), mem := (mem s)(dst := v)\<rparr>)) (\<lambda>_ s. Ret () (s\<lparr>Rt := 0\<rparr>))"
        using q [unfolded pq_Cons] d da Some c1(1) c2(1)
        by (simp add: irecv_def onsend_def onq_def ch_def upd_order)
    qed (use c1 c2 bv I \<open>\<not> room c2\<close> in \<open>auto simp: ch_def chan_inv_def\<close>)
  qed
  let ?s = "(setprog r (\<lambda>q. q\<lparr>pptr := None\<rparr>) s)\<lparr>chans := (chans s)(c := ch'), mem := (mem s)(dst := v)\<rparr>"
  have "runs ?s (p # xs)" "\<not> paddrun (progs ?s r)" using r na by simp_all
  then obtain s1 where s1: "addrun r ?s = Ret () s1" "runs s1 ((p # xs) @ [r])" "frame r Pready ?s s1"
    using wake_step nr(1) by blast
  note f = frame_simps [OF s1(3), simplified]
  have "offers (s1\<lparr>Rt := 0\<rparr>) ss = offers s ss"
    using dst nr by (intro offers_frame) (auto simp: f)
  moreover have "irecv (Some c) dst s = Ret () (s1\<lparr>Rt := 0\<rparr>)" unfolding eq s1(1) by simp
  moreover have "contents s c = v # buffered ch' @ offers s ss"
    using con arg_cong [OF ch'(5), of "\<lambda>x. x @ offers s ss"] by simp
  ultimately show ?thesis
    using I s1(2) ch'(1-4,6) nr
    by (auto simp: chan_inv_def contents_def f blocked_def)
qed

section \<open>What a channel is for\<close>

text \<open>
  A channel and its programs without pointers: the values in the channel, in order (those in the
  buffer, then those blocked senders offer), the blocked senders and receivers with the word each one
  gave, the programs that can run, the first of which is running, and the memory. \<open>asent\<close> and \<open>agot\<close>
  record the values sent and the values delivered.
\<close>

record achan =
  acap :: nat
  avals :: "u32 list"
  asenders :: "(nat \<times> nat) list"
  areceivers :: "(nat \<times> nat) list"
  arunq :: "nat list"
  amem :: "nat \<Rightarrow> u32"
  asent :: "u32 list"
  agot :: "u32 list"

text \<open>The running program sends from a word, receives into a word, writes a word or ends its turn.\<close>

datatype cop = CSend nat | CRecv nat | CWrite nat u32 | CTurn

definition astep :: "cop \<Rightarrow> achan \<Rightarrow> achan" where
  "astep x a = (case arunq a of [] \<Rightarrow> a | p # xs \<Rightarrow> (case x of
     CSend src \<Rightarrow>
       let v = amem a src; a = a\<lparr>asent := asent a @ [v]\<rparr> in
       (case areceivers a of
          (r, d) # rs \<Rightarrow> a\<lparr>areceivers := rs, arunq := p # xs @ [r], amem := (amem a)(d := v), agot := agot a @ [v]\<rparr>
        | [] \<Rightarrow>
            if length (avals a) < acap a then a\<lparr>avals := avals a @ [v]\<rparr>
            else a\<lparr>avals := avals a @ [v], asenders := asenders a @ [(p, src)], arunq := xs\<rparr>)
   | CRecv dst \<Rightarrow> (case avals a of
          [] \<Rightarrow> a\<lparr>areceivers := areceivers a @ [(p, dst)], arunq := xs\<rparr>
        | v # vs \<Rightarrow>
            let a = a\<lparr>avals := vs, amem := (amem a)(dst := v), agot := agot a @ [v]\<rparr> in
            (case asenders a of [] \<Rightarrow> a | (r, _) # ss \<Rightarrow> a\<lparr>asenders := ss, arunq := p # xs @ [r]\<rparr>))
   | CWrite b v \<Rightarrow> a\<lparr>amem := (amem a)(b := v)\<rparr>
   | CTurn \<Rightarrow> a\<lparr>arunq := xs @ [p]\<rparr>))"

abbreviation aruns :: "cop list \<Rightarrow> achan \<Rightarrow> achan" where
  "aruns os a \<equiv> fold astep os a"

text \<open>Nobody writes a word that a blocked sender offers.\<close>

definition spares :: "cop \<Rightarrow> achan \<Rightarrow> bool" where
  "spares x a = (case x of
     CRecv dst \<Rightarrow> dst \<notin> snd ` set (asenders a)
   | CWrite b v \<Rightarrow> b \<notin> snd ` set (asenders a)
   | _ \<Rightarrow> True)"

fun calm :: "cop list \<Rightarrow> achan \<Rightarrow> bool" where
  "calm [] a = True"
| "calm (x # os) a = (spares x a \<and> calm os (astep x a))"

text \<open>The same operations of the virtual machine on the channel \<open>c\<close>; when the run queue is empty
  the machine is idle.\<close>

definition cdo :: "nat \<Rightarrow> cop \<Rightarrow> vmst \<Rightarrow> unit vres" where
  "cdo c x s = (case currun s of None \<Rightarrow> Ret () s | Some r \<Rightarrow> (case x of
     CSend src \<Rightarrow> isend (Some c) src s
   | CRecv dst \<Rightarrow> irecv (Some c) dst s
   | CWrite b v \<Rightarrow> Ret () (s\<lparr>mem := (mem s)(b := v)\<rparr>)
   | CTurn \<Rightarrow> endturn r s))"

fun cruns :: "nat \<Rightarrow> cop list \<Rightarrow> vmst \<Rightarrow> unit vres" where
  "cruns c [] s = Ret () s"
| "cruns c (x # os) s = vbind (cdo c x s) (\<lambda>_ s. cruns c os s)"

definition implements :: "nat \<Rightarrow> vmst \<Rightarrow> achan \<Rightarrow> bool" where
  "implements c s a \<longleftrightarrow> \<not> nomem s
     \<and> chan_inv s c (map fst (asenders a)) (map fst (areceivers a)) (arunq a)
     \<and> (\<forall>(p, d)\<in>set (asenders a) \<union> set (areceivers a). pptr (progs s p) = Some d)
     \<and> avals a = contents s c \<and> acap a = capacity (chans s c) \<and> amem a = mem s"

lemma currun_runs: "runs s xs \<Longrightarrow> currun s = (case xs of [] \<Rightarrow> None | p # _ \<Rightarrow> Some p)"
  by (cases xs) (auto simp: runs_def currun_def)

lemma offers_map:
  assumes "\<forall>(p, d)\<in>set ds. pptr (progs s p) = Some d"
  shows "offers s (map fst ds) = map (mem s) (map snd ds)" "map (ptr_of s) (map fst ds) = map snd ds"
  using assms by (auto simp: offers_def ptr_of_def)

lemma fst_notin: "p \<notin> fst ` set ds \<Longrightarrow> (q, d) \<in> set ds \<Longrightarrow> q \<noteq> p"
  by force

lemma implementsD:
  assumes "implements c s a"
  shows "\<not> nomem s" "chan_inv s c (map fst (asenders a)) (map fst (areceivers a)) (arunq a)"
    "contents s c = avals a" "capacity (chans s c) = acap a" "mem s = amem a"
    "currun s = (case arunq a of [] \<Rightarrow> None | p # _ \<Rightarrow> Some p)"
    "\<And>p d. (p, d) \<in> set (asenders a) \<Longrightarrow> pptr (progs s p) = Some d"
    "\<And>p d. (p, d) \<in> set (areceivers a) \<Longrightarrow> pptr (progs s p) = Some d"
  using assms currun_runs [of s "arunq a"] by (auto simp: implements_def chan_inv_def)

lemma send_implements:
  assumes I: "implements c s a" and q: "arunq a = p # xs"
  shows "\<exists>s'. isend (Some c) src s = Ret () s' \<and> implements c s' (astep (CSend src) a)"
proof (cases "areceivers a")
  case Nil
  note D = implementsD [OF I]
  have inv: "chan_inv s c (map fst (asenders a)) [] (p # xs)" using D(2) Nil q by simp
  have room: "room (chans s c) \<longleftrightarrow> length (avals a) < acap a"
    using inv full_size [of "chans s c"] length_buffered [of "chans s c"]
    by (auto simp: chan_inv_def room_capacity contents_def offers_def simp flip: D(3,4))
  obtain s' where s': "isend (Some c) src s = Ret () s'" "nomem s' = nomem s" "mem s' = mem s"
    "contents s' c = contents s c @ [mem s src]" "capacity (chans s' c) = capacity (chans s c)"
    "\<forall>q. pptr (progs s' q) = (if \<not> room (chans s c) \<and> q = p then Some src else pptr (progs s q))"
    "if room (chans s c) then chan_inv s' c (map fst (asenders a)) [] (p # xs)
     else chan_inv s' c (map fst (asenders a) @ [p]) [] xs"
    using isend_empty [OF inv D(1), of src] by blast
  have "p \<notin> fst ` set (asenders a)" using inv by (auto simp: chan_inv_def)
  then show ?thesis using s' D room Nil q
    by (auto simp: implements_def astep_def Let_def dest: fst_notin)
next
  case (Cons y rs)
  obtain r d where y: "y = (r, d)" by (cases y)
  note D = implementsD [OF I]
  have inv: "chan_inv s c (map fst (asenders a)) (r # map fst rs) (p # xs)" using D(2) Cons q y by simp
  obtain s' where s': "isend (Some c) src s = Ret () s'" "nomem s' = nomem s"
    "mem s' = (mem s)(ptr_of s r := mem s src)" "contents s c = []" "contents s' c = []"
    "capacity (chans s' c) = capacity (chans s c)" "\<forall>q. q \<noteq> r \<longrightarrow> pptr (progs s' q) = pptr (progs s q)"
    "chan_inv s' c [] (map fst rs) ((p # xs) @ [r])"
    using isend_waiting [OF inv, of src] by blast
  have "r \<notin> fst ` set rs" "asenders a = []" using inv by (auto simp: chan_inv_def)
  moreover have "ptr_of s r = d" using D(8) [of r d] Cons y by (simp add: ptr_of_def)
  ultimately show ?thesis using s' D Cons q y
    by (auto simp: implements_def astep_def Let_def dest: fst_notin)
qed

lemma recv_implements:
  assumes I: "implements c s a" and q: "arunq a = p # xs" and dst: "dst \<notin> snd ` set (asenders a)"
  shows "\<exists>s'. irecv (Some c) dst s = Ret () s' \<and> implements c s' (astep (CRecv dst) a)"
proof (cases "asenders a")
  case (Cons y ss)
  obtain r d where y: "y = (r, d)" by (cases y)
  note D = implementsD [OF I]
  have rs: "areceivers a = []" using D(2) Cons by (auto simp: chan_inv_def)
  have inv: "chan_inv s c (r # map fst ss) [] (p # xs)" using D(2) Cons q y rs by simp
  have "\<forall>q\<in>set (r # map fst ss). ptr_of s q \<noteq> dst"
    using dst D(7) Cons y by (force simp: ptr_of_def)
  then obtain s' where s': "irecv (Some c) dst s = Ret () s'" "nomem s' = nomem s"
    "contents s c = mem s' dst # contents s' c" "mem s' = (mem s)(dst := hd (contents s c))"
    "capacity (chans s' c) = capacity (chans s c)" "\<forall>q. q \<noteq> r \<longrightarrow> pptr (progs s' q) = pptr (progs s q)"
    "chan_inv s' c (map fst ss) [] ((p # xs) @ [r])"
    using irecv_waiting [OF inv] by blast
  have nr: "r \<notin> fst ` set ss" using inv by (auto simp: chan_inv_def)
  define v vs where "v = mem s' dst" and "vs = contents s' c"
  have v: "avals a = v # vs" using s'(3) unfolding D(3) v_def vs_def .
  have m: "mem s' = (amem a)(dst := v)" using s'(4) unfolding D(3,5) v by simp
  have "astep (CRecv dst) a = a\<lparr>avals := vs, amem := (amem a)(dst := v), agot := agot a @ [v],
      asenders := ss, arunq := p # xs @ [r]\<rparr>"
    using v by (simp add: astep_def Cons y q Let_def)
  then show ?thesis using s'(1,2,5-7) m D(1,4,7) Cons y rs nr
    by (auto simp: implements_def vs_def dest: fst_notin)
next
  case Nil
  note D = implementsD [OF I]
  have inv: "chan_inv s c [] (map fst (areceivers a)) (p # xs)" using D(2) Nil q by simp
  have p: "p \<notin> fst ` set (areceivers a)" using inv by (auto simp: chan_inv_def)
  show ?thesis
  proof (cases "avals a")
    case Nil': Nil
    obtain s' where s': "irecv (Some c) dst s = Ret () s'" "nomem s' = nomem s" "mem s' = mem s"
      "contents s' c = []" "capacity (chans s' c) = capacity (chans s c)"
      "\<forall>q. pptr (progs s' q) = (if q = p then Some dst else pptr (progs s q))"
      "chan_inv s' c [] (map fst (areceivers a) @ [p]) xs"
      using irecv_empty [OF inv D(1), of dst] Nil' D(3) by auto
    then show ?thesis using D Nil Nil' q p
      by (auto simp: implements_def astep_def Let_def dest: fst_notin)
  next
    case (Cons v vs)
    obtain s' where s': "irecv (Some c) dst s = Ret () s'" "nomem s' = nomem s" "mem s' = (mem s)(dst := v)"
      "contents s' c = vs" "capacity (chans s' c) = capacity (chans s c)"
      "\<forall>q. pptr (progs s' q) = pptr (progs s q)" "chan_inv s' c [] (map fst (areceivers a)) (p # xs)"
      using irecv_empty [OF inv D(1), of dst] Cons D(3) by auto
    then show ?thesis using D Nil Cons q by (auto simp: implements_def astep_def Let_def)
  qed
qed

lemma write_implements:
  assumes I: "implements c s a" and b: "b \<notin> snd ` set (asenders a)"
  shows "implements c (s\<lparr>mem := (mem s)(b := v)\<rparr>) (a\<lparr>amem := (amem a)(b := v)\<rparr>)"
proof -
  note D = implementsD [OF I]
  have "\<forall>q\<in>set (map fst (asenders a)). ptr_of s q \<noteq> b" using b D(7) by (force simp: ptr_of_def)
  then have "offers (s\<lparr>mem := (mem s)(b := v)\<rparr>) (map fst (asenders a)) = offers s (map fst (asenders a))"
    by (intro offers_frame) (auto simp: ptr_of_def)
  then show ?thesis using I
    by (auto simp: implements_def chan_inv_def blocked_def contents_def)
qed

lemma turn_implements:
  assumes I: "implements c s a" and q: "arunq a = p # xs"
  shows "\<exists>s'. endturn p s = Ret () s' \<and> implements c s' (a\<lparr>arunq := xs @ [p]\<rparr>)"
proof -
  note D = implementsD [OF I]
  have "runs s (p # xs)" using D(2) q by (simp add: chan_inv_def)
  then obtain s' where s': "endturn p s = Ret () s'" "runs s' (xs @ [p])" "frame p (pstate (progs s p)) s s'"
    using endturn_runs by blast
  note f = frame_simps [OF s'(3)]
  have "pstate (progs s' q) = pstate (progs s q)" for q by (simp add: f)
  moreover have "offers s' (map fst (asenders a)) = offers s (map fst (asenders a))"
    by (rule offers_frame) (simp add: f)
  ultimately show ?thesis using I s'(1,2) q
    by (auto simp: implements_def chan_inv_def blocked_def contents_def f)
qed

lemma cdo_implements:
  assumes "implements c s a" "spares x a"
  shows "\<exists>s'. cdo c x s = Ret () s' \<and> implements c s' (astep x a)"
proof (cases "arunq a")
  case Nil
  then show ?thesis using assms(1) implementsD(6) [OF assms(1)] by (simp add: cdo_def astep_def)
next
  case (Cons p xs)
  then have cur: "currun s = Some p" using implementsD(6) [OF assms(1)] by simp
  show ?thesis
  proof (cases x)
    case (CSend src)
    then show ?thesis using send_implements [OF assms(1) Cons] cur by (simp add: cdo_def)
  next
    case (CRecv dst)
    then show ?thesis using recv_implements [OF assms(1) Cons] cur assms(2) by (simp add: cdo_def spares_def)
  next
    case (CWrite b v)
    then show ?thesis using write_implements [OF assms(1)] cur assms(2) Cons
      by (simp add: cdo_def spares_def astep_def)
  next
    case CTurn
    then show ?thesis using turn_implements [OF assms(1) Cons] cur Cons by (simp add: cdo_def astep_def)
  qed
qed

lemma cruns_implements:
  "implements c s a \<Longrightarrow> calm os a \<Longrightarrow> \<exists>s'. cruns c os s = Ret () s' \<and> implements c s' (aruns os a)"
proof (induction os arbitrary: s a)
  case (Cons x os)
  then obtain s' where "cdo c x s = Ret () s'" "implements c s' (astep x a)"
    using cdo_implements [of c s a x] by auto
  with Cons show ?case by auto
qed simp

section \<open>First-in first-out, nobody lost\<close>

abbreviation aprogs :: "achan \<Rightarrow> nat list" where
  "aprogs a \<equiv> map fst (asenders a) @ map fst (areceivers a) @ arunq a"

text \<open>Senders wait only behind a full buffer, receivers only at an empty channel.\<close>

definition achan_ok :: "achan \<Rightarrow> bool" where
  "achan_ok a \<longleftrightarrow> (if asenders a = [] then length (avals a) \<le> acap a
       else areceivers a = [] \<and> length (avals a) = acap a + length (asenders a))
     \<and> (areceivers a = [] \<or> avals a = [])"

lemma implements_ok:
  assumes "implements c s a"
  shows "achan_ok a"
proof -
  note D = implementsD [OF assms]
  have r: "ring_ok (chans s c)" using D(2) by (simp add: chan_inv_def)
  have "length (avals a) = csize (chans s c) + length (asenders a)"
    using D(2) chan_inv_contents [OF D(2)] length_buffered [OF r] by (simp add: offers_def flip: D(3))
  moreover have "csize (chans s c) \<le> capacity (chans s c)"
    using r by (auto simp: ring_ok_def capacity_def split: option.splits)
  ultimately show ?thesis
    using D(2) D(4) full_size [OF r] by (auto simp: achan_ok_def chan_inv_def)
qed

lemma astep_ok: "achan_ok a \<Longrightarrow> achan_ok (astep x a)"
  by (auto simp: astep_def achan_ok_def Let_def split: list.splits cop.splits if_splits)

lemma astep_order: "achan_ok a \<Longrightarrow> \<exists>ins outs. asent (astep x a) = asent a @ ins \<and> agot (astep x a) = agot a @ outs
    \<and> avals a @ ins = outs @ avals (astep x a)"
  by (auto simp: astep_def achan_ok_def Let_def split: list.splits cop.splits)

lemma astep_progs: "mset (aprogs (astep x a)) = mset (aprogs a)"
  by (auto simp: astep_def Let_def split: list.splits cop.splits)

lemma aruns_keep:
  assumes "achan_ok a"
  shows "achan_ok (aruns os a) \<and> mset (aprogs (aruns os a)) = mset (aprogs a)
    \<and> (\<exists>ins outs. asent (aruns os a) = asent a @ ins \<and> agot (aruns os a) = agot a @ outs
      \<and> avals a @ ins = outs @ avals (aruns os a))"
  using assms
proof (induction os arbitrary: a)
  case (Cons x os)
  obtain ins outs where 1: "asent (astep x a) = asent a @ ins" "agot (astep x a) = agot a @ outs"
    "avals a @ ins = outs @ avals (astep x a)"
    using astep_order [OF Cons.prems] by blast
  note IH = Cons.IH [OF astep_ok [OF Cons.prems, of x]]
  then obtain ins' outs' where 2: "asent (aruns os (astep x a)) = asent (astep x a) @ ins'"
    "agot (aruns os (astep x a)) = agot (astep x a) @ outs'"
    "avals (astep x a) @ ins' = outs' @ avals (aruns os (astep x a))"
    by blast
  have "avals a @ ins @ ins' = (outs @ outs') @ avals (aruns os (astep x a))"
    using arg_cong [OF 1(3), of "\<lambda>l. l @ ins'"] 2(3) by simp
  then have "\<exists>ins outs. asent (aruns (x # os) a) = asent a @ ins \<and> agot (aruns (x # os) a) = agot a @ outs
      \<and> avals a @ ins = outs @ avals (aruns (x # os) a)"
    using 1 2 by auto
  then show ?case using IH astep_progs [of x a] by simp
qed simp

section \<open>Who waits gets on\<close>

lemma astep_idle: "arunq a = [] \<Longrightarrow> astep x a = a"
  by (simp add: astep_def)

lemma sender_resumes:
  "achan_ok a \<Longrightarrow> i < length (asenders a) \<Longrightarrow> length (agot a) + i < length (agot (aruns os a)) \<Longrightarrow>
    \<exists>k\<le>length os. fst (asenders a ! i) \<in> set (arunq (aruns (take k os) a))"
proof (induction os arbitrary: a i)
  case (Cons x os)
  let ?b = "astep x a"
  have later: ?case if t: "j < length (asenders ?b)" "length (agot ?b) + j = length (agot a) + i"
    "asenders ?b ! j = asenders a ! i" for j
  proof -
    obtain k where "k \<le> length os" "fst (asenders ?b ! j) \<in> set (arunq (aruns (take k os) ?b))"
      using Cons.IH [OF astep_ok [OF Cons.prems(1)] t(1)] Cons.prems(3) t(2) by auto
    then show ?thesis using t(3) by (intro exI [of _ "Suc k"]) simp
  qed
  have s: "asenders a \<noteq> []" using Cons.prems(2) by auto
  then have r: "areceivers a = []" and v: "avals a \<noteq> []" and full: "\<not> length (avals a) < acap a"
    using Cons.prems(1) by (auto simp: achan_ok_def)
  show ?case
  proof (cases "arunq a")
    case Nil
    then show ?thesis using Cons.prems(2) by (intro later [of i]) (simp_all add: astep_idle)
  next
    case q: (Cons p xs)
    show ?thesis
    proof (cases x)
      case (CRecv dst)
      obtain w d ss where ss: "asenders a = (w, d) # ss" using s by (cases "asenders a") auto
      have b: "asenders ?b = ss" "agot ?b = agot a @ [hd (avals a)]" "arunq ?b = p # xs @ [w]"
        using CRecv q ss v by (auto simp: astep_def Let_def split: list.splits)
      show ?thesis
      proof (cases i)
        case 0
        then show ?thesis using b(3) ss by (intro exI [of _ 1]) simp
      next
        case (Suc j)
        then show ?thesis using Cons.prems(2) b ss by (intro later [of j]) simp_all
      qed
    qed (rule later [of i]; use Cons.prems(2) q r full in \<open>simp add: astep_def Let_def nth_append\<close>)+
  qed
qed simp

lemma receiver_resumes:
  "achan_ok a \<Longrightarrow> i < length (areceivers a) \<Longrightarrow> length (asent a) + i < length (asent (aruns os a)) \<Longrightarrow>
    \<exists>k\<le>length os. fst (areceivers a ! i) \<in> set (arunq (aruns (take k os) a))"
proof (induction os arbitrary: a i)
  case (Cons x os)
  let ?b = "astep x a"
  have later: ?case if t: "j < length (areceivers ?b)" "length (asent ?b) + j = length (asent a) + i"
    "areceivers ?b ! j = areceivers a ! i" for j
  proof -
    obtain k where "k \<le> length os" "fst (areceivers ?b ! j) \<in> set (arunq (aruns (take k os) ?b))"
      using Cons.IH [OF astep_ok [OF Cons.prems(1)] t(1)] Cons.prems(3) t(2) by auto
    then show ?thesis using t(3) by (intro exI [of _ "Suc k"]) simp
  qed
  have r: "areceivers a \<noteq> []" using Cons.prems(2) by auto
  then have v: "avals a = []" using Cons.prems(1) by (auto simp: achan_ok_def)
  show ?case
  proof (cases "arunq a")
    case Nil
    then show ?thesis using Cons.prems(2) by (intro later [of i]) (simp_all add: astep_idle)
  next
    case q: (Cons p xs)
    show ?thesis
    proof (cases x)
      case (CSend src)
      obtain w d rs where rs: "areceivers a = (w, d) # rs" using r by (cases "areceivers a") auto
      have b: "areceivers ?b = rs" "asent ?b = asent a @ [amem a src]" "arunq ?b = p # xs @ [w]"
        using CSend q rs by (auto simp: astep_def Let_def)
      show ?thesis
      proof (cases i)
        case 0
        then show ?thesis using b(3) rs by (intro exI [of _ 1]) simp
      next
        case (Suc j)
        then show ?thesis using Cons.prems(2) b rs by (intro later [of j]) simp_all
      qed
    qed (rule later [of i]; use Cons.prems(2) q v in \<open>simp add: astep_def Let_def nth_append\<close>)+
  qed
qed simp

lemma calm_take: "calm os a \<Longrightarrow> calm (take k os) a"
  by (induction os arbitrary: a k) (auto simp: take_Cons split: nat.split)

lemma arunq_turns: "arunq (aruns (replicate j CTurn) a) = rotate j (arunq a)"
  by (induction j arbitrary: a) (auto simp: astep_def rotate1_rotate_swap split: list.split)

lemma calm_turns: "calm (replicate j CTurn) a"
  by (induction j arbitrary: a) (auto simp: spares_def)

section \<open>Properties\<close>

definition sample_achan :: achan where
  "sample_achan = \<lparr>acap = 0, avals = [], asenders = [], areceivers = [], arunq = [1, 2, 3], amem = (\<lambda>_. 0),
     asent = [], agot = []\<rparr>"

lemma sample_implements: "implements c sample_sched sample_achan"
  using sample_runs
  by (simp add: implements_def sample_achan_def chan_inv_def contents_def blocked_def pq_Cons(2) offers_def capacity_def)
    (simp add: sample_sched_def ring_ok_def buffered_def)

text \<open>C19: Take a channel whose queues, buffer and run queue hold what the abstract channel \<open>a\<close> says, and
  let its programs send, receive, write memory (not the words blocked senders offer) and end their turns
  in any order, while memory lasts. No operation crashes or raises; after each the machine holds what the abstract channel
  holds, whose senders wait only behind a full buffer and receivers only at an empty channel. Every program
  is still in one of its queues, once; and the values delivered, then those still in the channel, are
  those that were there, then those sent, in the same order.\<close>

theorem channel_fifo:
  assumes "implements c s a" "calm os a"
  shows "\<exists>s'. cruns c os s = Ret () s' \<and> implements c s' (aruns os a)
    \<and> achan_ok (aruns os a) \<and> mset (aprogs (aruns os a)) = mset (aprogs a)
    \<and> (\<exists>ins outs. asent (aruns os a) = asent a @ ins \<and> agot (aruns os a) = agot a @ outs
        \<and> avals a @ ins = outs @ avals (aruns os a))"
  using cruns_implements [OF assms] aruns_keep [OF implements_ok [OF assms(1)], of os] by blast

theorem channel_fifo_witness:
  "\<exists>s'. cruns 7 [CWrite 10 5, CSend 10, CRecv 20] sample_sched = Ret () s' \<and> mem s' 20 = 5 \<and> runs s' [2, 3, 1]"
proof -
  let ?os = "[CWrite 10 5, CSend 10, CRecv 20]"
  have c: "calm ?os sample_achan" by (simp add: sample_achan_def spares_def astep_def Let_def)
  have e: "arunq (aruns ?os sample_achan) = [2, 3, 1]" "amem (aruns ?os sample_achan) 20 = 5"
    by (simp_all add: sample_achan_def astep_def Let_def)
  obtain s' where "cruns 7 ?os sample_sched = Ret () s'" "implements 7 s' (aruns ?os sample_achan)"
    using channel_fifo [OF sample_implements c] by blast
  then show ?thesis using implementsD(2,5) e by (fastforce simp: chan_inv_def)
qed

text \<open>C40: Nobody waits in vain: when more values have been delivered than senders were waiting before a
  blocked sender, or more values sent than receivers were waiting before a blocked receiver, the blocked
  program has been put back into the run queue; and the program at place \<open>j\<close> of the run queue runs after
  \<open>j\<close> ends of turns.\<close>

theorem blocked_resume:
  assumes "implements c s a" "calm os a"
  shows "(\<forall>i<length (asenders a). length (agot a) + i < length (agot (aruns os a)) \<longrightarrow>
      (\<exists>k\<le>length os. \<exists>s' xs. cruns c (take k os) s = Ret () s' \<and> runs s' xs \<and> fst (asenders a ! i) \<in> set xs))
    \<and> (\<forall>i<length (areceivers a). length (asent a) + i < length (asent (aruns os a)) \<longrightarrow>
      (\<exists>k\<le>length os. \<exists>s' xs. cruns c (take k os) s = Ret () s' \<and> runs s' xs \<and> fst (areceivers a ! i) \<in> set xs))
    \<and> (\<forall>j<length (arunq a). \<exists>s'. cruns c (replicate j CTurn) s = Ret () s' \<and> currun s' = Some (arunq a ! j))"
proof (intro conjI allI impI)
  have at: "\<exists>s'. cruns c (take k os) s = Ret () s' \<and> runs s' (arunq (aruns (take k os) a))" for k
    using cruns_implements [OF assms(1) calm_take [OF assms(2)], of k] implementsD(2) by (fastforce simp: chan_inv_def)
  note ok = implements_ok [OF assms(1)]
  fix i
  show "\<exists>k\<le>length os. \<exists>s' xs. cruns c (take k os) s = Ret () s' \<and> runs s' xs \<and> fst (asenders a ! i) \<in> set xs"
    if "i < length (asenders a)" "length (agot a) + i < length (agot (aruns os a))"
    using sender_resumes [OF ok that] at by blast
  show "\<exists>k\<le>length os. \<exists>s' xs. cruns c (take k os) s = Ret () s' \<and> runs s' xs \<and> fst (areceivers a ! i) \<in> set xs"
    if "i < length (areceivers a)" "length (asent a) + i < length (asent (aruns os a))"
    using receiver_resumes [OF ok that] at by blast
next
  fix j assume j: "j < length (arunq a)"
  obtain s' where s': "cruns c (replicate j CTurn) s = Ret () s'" "implements c s' (aruns (replicate j CTurn) a)"
    using cruns_implements [OF assms(1) calm_turns] by blast
  have ne: "arunq a \<noteq> []" using j by auto
  have "rotate j (arunq a) \<noteq> []" "hd (rotate j (arunq a)) = arunq a ! j"
    using j ne by (simp_all add: hd_rotate_conv_nth)
  then have "currun s' = Some (arunq a ! j)"
    using implementsD(6) [OF s'(2), unfolded arunq_turns] by (cases "rotate j (arunq a)") simp_all
  then show "\<exists>s'. cruns c (replicate j CTurn) s = Ret () s' \<and> currun s' = Some (arunq a ! j)"
    using s'(1) by blast
qed

theorem blocked_resume_witness:
  "\<exists>s1 k s2 xs. cruns 7 [CSend 10] sample_sched = Ret () s1 \<and> k \<le> 1
    \<and> cruns 7 (take k [CRecv 20]) s1 = Ret () s2 \<and> runs s2 xs \<and> 1 \<in> set xs"
proof -
  let ?a = "aruns [CSend 10] sample_achan"
  have a: "asenders ?a = [(1, 10)]" "agot ?a = []" "length (agot (aruns [CRecv 20] ?a)) = 1"
    by (simp_all add: sample_achan_def astep_def Let_def)
  have "calm [CSend 10] sample_achan" "calm [CRecv 20] ?a"
    using a(1) by (simp_all add: spares_def)
  then obtain s1 where "cruns 7 [CSend 10] sample_sched = Ret () s1" "implements 7 s1 ?a"
    using cruns_implements [OF sample_implements] by blast
  moreover from this blocked_resume [OF this(2) \<open>calm [CRecv 20] ?a\<close>] a
  obtain k s2 xs where "k \<le> 1" "cruns 7 (take k [CRecv 20]) s1 = Ret () s2" "runs s2 xs" "1 \<in> set xs"
    by (auto simp del: fold_simps)
  ultimately show ?thesis by blast
qed

text \<open>C22: The buffer of a channel is the list with its capacity, for every sequence of \<open>cputb\<close> and \<open>cgetb\<close>: it
  takes a value exactly when fewer values than its capacity are in it, gives the oldest one, says that it
  is empty when it is, and never reads or writes outside its array. The queues of programs stay.\<close>

theorem buffer_fifo:
  assumes "ring_ok c"
  shows "\<exists>c'. qrun cputb cgetb os c = Ok (fst (lqueue (Some (capacity c)) os (buffered c)), c')
    \<and> ring_ok c' \<and> buffered c' = snd (lqueue (Some (capacity c)) os (buffered c))
    \<and> capacity c' = capacity c \<and> csend c' = csend c \<and> crecv c' = crecv c"
  using ring.run_list [of c "csend c" "crecv c" os] assms by auto

theorem buffer_fifo_witness:
  "\<exists>c'. qrun cputb cgetb [Put 1, Put 2, Put 3, Get, Put 4, Get, Get, Get] (newchan 2)
    = Ok ([Stored, Stored, Refused, Got 1, Stored, Got 2, Got 4, Nothing], c')"
  using buffer_fifo [of "newchan 2" "[Put 1, Put 2, Put 3, Get, Put 4, Get, Get, Get]"]
  by (auto simp: newchan_def ring_ok_def capacity_def buffered_def)

text \<open>A queue of blocked programs, too, is the list of them: \<open>cqadd\<close> and \<open>cqdel\<close> answer as it does.\<close>

lemma progq_list: "\<exists>q. qrun pqput pqget os (pq ps) = Ok (fst (lqueue None os ps), q)
    \<and> waiting q = snd (lqueue None os ps)"
  using pqueue.run_list [of "pq ps" os] by auto

end
