(* ===== verification/DisAlt.thy ===== *)
theory DisAlt
  imports DisChan
begin

text \<open>
  The alt instructions of \<open>libinterp/alt.c\<close>: \<open>altmark\<close>, \<open>altrdy\<close>, \<open>altcomm\<close>, \<open>altgone\<close> and \<open>xecalt\<close>
  (\<open>altdone\<close> and \<open>altunmark\<close> are in \<open>DisChan\<close>). The seed \<open>xrand\<close> of the choice is an argument and
  a result.

  The lemmas show that an alt over different channels with nothing ready leaves all queues as they
  were (\<open>nbalt\<close>) or blocks in all of them (\<open>alt\<close>), and that otherwise the entry chosen is one that was
  ready. The last section shows what happens to an alt that names a channel twice.
\<close>

section \<open>Pass 1\<close>

text \<open>\<open>c->send->prog || CANGET(c)\<close> and \<open>c->recv->prog || CANPUT(c)\<close>; \<open>None\<close> follows a nil queue.\<close>

definition canrecv :: "chan \<Rightarrow> bool option" where
  "canrecv c = (case csend c of [] \<Rightarrow> None | x # _ \<Rightarrow> Some (x \<noteq> None \<or> 0 < csize c))"

definition cansend :: "chan \<Rightarrow> bool option" where
  "cansend c = (case crecv c of [] \<Rightarrow> None | x # _ \<Rightarrow> Some (x \<noteq> None \<or> room c))"

fun altmark :: "nat \<Rightarrow> nat option list \<Rightarrow> nat \<Rightarrow> vmst \<Rightarrow> nat vres" where
  "altmark p [] n s = Ret n s"
| "altmark p (None # ca) n s = altmark p ca n s"
| "altmark p (Some c # ca) n s = (case canrecv (chans s c) of
     None \<Rightarrow> Crash
   | Some b \<Rightarrow> vbind (onrecv c (\<lambda>q. cqadd (nomem s) q p) s) (\<lambda>_ s.
       altmark p ca (if b then n + 1 else n) s))"

fun altrdy_recvs :: "nat \<Rightarrow> (altch \<times> nat) list \<Rightarrow> nat \<Rightarrow> exn option \<Rightarrow> vmst \<Rightarrow> (nat \<times> exn option) vres" where
  "altrdy_recvs p [] n e s = Ret (n, e) s"
| "altrdy_recvs p ((AH, ptr) # es) n e s = altrdy_recvs p es n (Some exNilref) s"
| "altrdy_recvs p ((AA ca, ptr) # es) n e s =
     vbind (altmark p ca n s) (\<lambda>n s. altrdy_recvs p es n e s)"
| "altrdy_recvs p ((AC c, ptr) # es) n e s = (case canrecv (chans s c) of
     None \<Rightarrow> Crash
   | Some b \<Rightarrow> vbind (onrecv c (\<lambda>q. cqadd (nomem s) q p) s) (\<lambda>_ s.
       altrdy_recvs p es (if b then n + 1 else n) e s))"

fun altrdy_sends :: "nat \<Rightarrow> (altch \<times> nat) list \<Rightarrow> nat \<Rightarrow> exn option \<Rightarrow> vmst \<Rightarrow> (nat \<times> exn option) vres" where
  "altrdy_sends p [] n e s = Ret (n, e) s"
| "altrdy_sends p ((AH, ptr) # es) n e s = altrdy_sends p es n (Some exNilref) s"
| "altrdy_sends p ((AA ca, ptr) # es) n e s = Crash"
| "altrdy_sends p ((AC c, ptr) # es) n e s = (case cansend (chans s c) of
     None \<Rightarrow> Crash
   | Some b \<Rightarrow>
       if b \<and> hd (crecv (chans s c)) = Some p then altrdy_sends p es n (Some exAlt) s
       else vbind (onsend c (\<lambda>q. cqadd (nomem s) q p) s) (\<lambda>_ s.
         altrdy_sends p es (if b then n + 1 else n) e s))"

definition altrdy :: "alt \<Rightarrow> nat \<Rightarrow> vmst \<Rightarrow> nat vres" where
  "altrdy a p s =
     (if length (ac a) < nsend a + nrecv a then Crash
      else vbind (altrdy_recvs p (recvs a) 0 None s) (\<lambda>(n, e) s.
        vbind (altrdy_sends p (sends a) n e s) (\<lambda>(n, e) s. case e of
          Some e \<Rightarrow> vbind (altdone (Some a) p None (-1) s) (\<lambda>_ s. Raise e s)
        | None \<Rightarrow> Ret n s)))"

section \<open>Pass 2\<close>

text \<open>The loops return the value of \<open>which\<close> when no communication has happened yet.\<close>

fun altcomm_sends :: "nat \<Rightarrow> (altch \<times> nat) list \<Rightarrow> nat \<Rightarrow> nat \<Rightarrow> vmst \<Rightarrow> nat option vres" where
  "altcomm_sends Rd [] n which s = Ret (Some which) s"
| "altcomm_sends Rd ((AC c, ptr) # es) n which s = (case cansend (chans s c) of
     None \<Rightarrow> Crash
   | Some True \<Rightarrow>
       (case which of
          0 \<Rightarrow> vbind (isend (Some c) ptr (s\<lparr>mem := (mem s)(Rd := of_nat n)\<rparr>)) (\<lambda>_ s. Ret None s)
        | Suc w \<Rightarrow> altcomm_sends Rd es (n + 1) w s)
   | Some False \<Rightarrow> altcomm_sends Rd es (n + 1) which s)"
| "altcomm_sends Rd (_ # es) n which s = Crash"

fun altcomm_arr :: "nat \<Rightarrow> nat \<Rightarrow> nat \<Rightarrow> nat option list \<Rightarrow> nat \<Rightarrow> nat \<Rightarrow> vmst \<Rightarrow> nat option vres" where
  "altcomm_arr Rd ptr n [] an which s = Ret (Some which) s"
| "altcomm_arr Rd ptr n (None # ca) an which s = altcomm_arr Rd ptr n ca (an + 1) which s"
| "altcomm_arr Rd ptr n (Some c # ca) an which s = (case canrecv (chans s c) of
     None \<Rightarrow> Crash
   | Some True \<Rightarrow>
       (case which of
          0 \<Rightarrow> vbind (irecv (Some c) (ptr + 1)
              (s\<lparr>mem := (mem s)(Rd := of_nat n, ptr := of_nat an)\<rparr>)) (\<lambda>_ s. Ret None s)
        | Suc w \<Rightarrow> altcomm_arr Rd ptr n ca (an + 1) w s)
   | Some False \<Rightarrow> altcomm_arr Rd ptr n ca (an + 1) which s)"

fun altcomm_recvs :: "nat \<Rightarrow> (altch \<times> nat) list \<Rightarrow> nat \<Rightarrow> nat \<Rightarrow> vmst \<Rightarrow> nat option vres" where
  "altcomm_recvs Rd [] n which s = Ret (Some which) s"
| "altcomm_recvs Rd ((AH, ptr) # es) n which s = Crash"
| "altcomm_recvs Rd ((AA ca, ptr) # es) n which s =
     vbind (altcomm_arr Rd ptr n ca 0 which s) (\<lambda>w s. case w of
       None \<Rightarrow> Ret None s
     | Some which \<Rightarrow> altcomm_recvs Rd es (n + 1) which s)"
| "altcomm_recvs Rd ((AC c, ptr) # es) n which s = (case canrecv (chans s c) of
     None \<Rightarrow> Crash
   | Some True \<Rightarrow>
       (case which of
          0 \<Rightarrow> vbind (irecv (Some c) ptr (s\<lparr>mem := (mem s)(Rd := of_nat n)\<rparr>)) (\<lambda>_ s. Ret None s)
        | Suc w \<Rightarrow> altcomm_recvs Rd es (n + 1) w s)
   | Some False \<Rightarrow> altcomm_recvs Rd es (n + 1) which s)"

definition altcomm :: "alt \<Rightarrow> nat \<Rightarrow> nat \<Rightarrow> vmst \<Rightarrow> unit vres" where
  "altcomm a Rd which s =
     vbind (altcomm_sends Rd (sends a) 0 which s) (\<lambda>w s. case w of
       None \<Rightarrow> Ret () s
     | Some which \<Rightarrow> vbind (altcomm_recvs Rd (recvs a) (nsend a) which s) (\<lambda>_ s. Ret () s))"

section \<open>The instruction\<close>

definition altgone :: "nat \<Rightarrow> vmst \<Rightarrow> unit vres" where
  "altgone p s =
     (if pstate (progs s p) = Palt then
        vbind (altdone (pRs (progs s p)) p None (-1) s) (\<lambda>_ s.
          addrun p (setprog p (\<lambda>q. q\<lparr>pkill := Some ''alt channel hungup''\<rparr>) s))
      else Ret () s)"

definition xecalt :: "bool \<Rightarrow> alt \<Rightarrow> nat \<Rightarrow> u32 \<Rightarrow> vmst \<Rightarrow> u32 vres" where
  "xecalt block a Rd xrand s = (case currun s of
     None \<Rightarrow> Crash
   | Some p \<Rightarrow> vbind (altrdy a p s) (\<lambda>nrdy s.
       if nrdy = 0 then
         (if block then
            vbind (delrun Palt s) (\<lambda>_ s.
              Ret xrand ((setprog p (\<lambda>q. q\<lparr>pRs := Some a, pRd := Rd\<rparr>) s)\<lparr>RIC := 1, Rt := 1\<rparr>))
          else
            vbind (altdone (Some a) p None (-1) (s\<lparr>mem := (mem s)(Rd := of_nat (nsend a + nrecv a))\<rparr>))
              (\<lambda>_ s. Ret xrand s))
       else
         let xrand = xrand * 1103515245 + 12345 in
         vbind (altcomm a Rd (unat (drop_bit 8 xrand) mod nrdy) s) (\<lambda>_ s.
         vbind (altdone (Some a) p None (-1) s) (\<lambda>_ s. Ret xrand s))))"

section \<open>Queues of an alt\<close>

text \<open>Queues are in order when they hold a list of programs, and no program twice.\<close>

definition okq :: "progq \<Rightarrow> bool" where
  "okq q \<longleftrightarrow> q = pq (waiting q) \<and> distinct (waiting q)"

definition inorder :: "vmst \<Rightarrow> bool" where
  "inorder s \<longleftrightarrow> (\<forall>c. okq (csend (chans s c)) \<and> okq (crecv (chans s c)))"

definition unq :: "nat \<Rightarrow> progq \<Rightarrow> progq" where
  "unq p q = pq (filter (\<lambda>x. x \<noteq> p) (waiting q))"

definition enq :: "nat \<Rightarrow> progq \<Rightarrow> progq" where
  "enq p q = pq (waiting q @ [p])"

definition unmark :: "nat \<Rightarrow> nat set \<Rightarrow> nat set \<Rightarrow> vmst \<Rightarrow> vmst" where
  "unmark p S R s = s\<lparr>chans := (\<lambda>c. (chans s c)
     \<lparr>csend := (if c \<in> S then unq p else id) (csend (chans s c)),
      crecv := (if c \<in> R then unq p else id) (crecv (chans s c))\<rparr>)\<rparr>"

definition mark :: "nat \<Rightarrow> nat set \<Rightarrow> nat set \<Rightarrow> vmst \<Rightarrow> vmst" where
  "mark p S R s = s\<lparr>chans := (\<lambda>c. (chans s c)
     \<lparr>csend := (if c \<in> S then enq p else id) (csend (chans s c)),
      crecv := (if c \<in> R then enq p else id) (crecv (chans s c))\<rparr>)\<rparr>"

lemma okq_pq [simp]: "okq (pq ps) = distinct ps"
  by (simp add: okq_def)

lemma okq_unq [simp]: "okq q \<Longrightarrow> okq (unq p q)"
  by (simp add: unq_def okq_def)

lemma unq_unq [simp]: "unq p (unq p q) = unq p q"
  by (simp add: unq_def)

lemma unq_enq:
  assumes "okq q" "p \<notin> set (waiting q)"
  shows "unq p (enq p q) = q"
proof -
  have "filter (\<lambda>x. x \<noteq> p) (waiting q) = waiting q" using assms(2) by (intro filter_True) auto
  then show ?thesis using assms(1) by (simp add: unq_def enq_def okq_def)
qed

lemma cqunmark_okq:
  assumes "okq q"
  shows "cqunmark p q = Ok (unq p q)"
proof -
  obtain ps where q: "q = pq ps" "distinct ps" using assms by (auto simp: okq_def)
  have f: "filter (\<lambda>x. x \<noteq> p) ps = remove1 p ps"
    using q(2) by (simp add: distinct_remove1_removeAll removeAll_filter_not_eq neq_commute)
  have "cqunmark p (pq ps) = (if ps = [] then Ok (pq ps) else cqdelp (pq ps) p)"
    by (cases ps) (auto simp: cqunmark_def pq_Cons)
  then show ?thesis using q cqdelp_pq [of ps p] by (simp add: unq_def f)
qed

lemma okq_cqadd: "okq q \<Longrightarrow> cqadd False q p = Ok (enq p q)"
  by (metis cqadd_pq okq_def enq_def)

lemma chan_same [simp]: "(c :: chan)\<lparr>csend := csend c, crecv := crecv c\<rparr> = c" "c\<lparr>csend := csend c\<rparr> = c"
    "c\<lparr>crecv := crecv c\<rparr> = c"
  by (cases c; simp)+

lemma onq_upd:
  assumes "inorder s"
  shows "onsend c (cqunmark p) s = Ret () (unmark p {c} {} s)"
    "onrecv c (cqunmark p) s = Ret () (unmark p {} {c} s)"
  using assms by (auto simp: onsend_def onrecv_def onq_def inorder_def cqunmark_okq unmark_def fun_upd_def
      intro!: ext arg_cong [where f = "\<lambda>x. chans_update x s"])

lemma onq_add: "okq (csend (chans s c)) \<Longrightarrow> onsend c (\<lambda>q. cqadd False q p) s = Ret () (mark p {c} {} s)"
    "okq (crecv (chans s c)) \<Longrightarrow> onrecv c (\<lambda>q. cqadd False q p) s = Ret () (mark p {} {c} s)"
  by (auto simp: onsend_def onrecv_def onq_def okq_cqadd mark_def fun_upd_def
      intro!: ext arg_cong [where f = "\<lambda>x. chans_update x s"])

lemma inorder_unmark [simp]: "inorder s \<Longrightarrow> inorder (unmark p S R s)"
  by (simp add: inorder_def unmark_def)

lemma inorder_pick [simp]: "inorder (altpick p ptr n s) = inorder s"
  by (simp add: inorder_def altpick_def)

lemma unmark_unmark: "unmark p S R (unmark p S' R' s) = unmark p (S \<union> S') (R \<union> R') s"
  by (auto simp: unmark_def fun_eq_iff intro!: ext arg_cong [where f = "\<lambda>x. chans_update x s"])

lemma unmark_pick: "altpick p ptr n (unmark p S R s) = unmark p S R (altpick p ptr n s)"
  by (simp add: unmark_def altpick_def upd_order)

lemma unmark_none [simp]: "unmark p {} {} s = s"
  by (simp add: unmark_def)

lemma mark_none [simp]: "mark p {} {} s = s"
  by (simp add: mark_def)

lemma mark_mark: "S \<inter> S' = {} \<Longrightarrow> R \<inter> R' = {} \<Longrightarrow>
    mark p S R (mark p S' R' s) = mark p (S \<union> S') (R \<union> R') s"
  by (auto simp: mark_def fun_eq_iff intro!: ext arg_cong [where f = "\<lambda>x. chans_update x s"])

text \<open>Leaving an alt undoes entering it.\<close>

lemma unmark_mark:
  assumes "inorder s" "\<And>c. c \<in> S \<Longrightarrow> p \<notin> set (waiting (csend (chans s c)))"
    "\<And>c. c \<in> R \<Longrightarrow> p \<notin> set (waiting (crecv (chans s c)))"
  shows "unmark p S R (mark p S R s) = s"
  using assms by (auto simp: unmark_def mark_def inorder_def unq_enq fun_eq_iff
      intro!: vmst.equality)

section \<open>What altdone does\<close>

text \<open>Entries of single channels (or \<open>H\<close>), the channels they name, and the entry of a channel.\<close>

definition plain :: "(altch \<times> nat) list \<Rightarrow> bool" where
  "plain es \<longleftrightarrow> (\<forall>(ch, ptr)\<in>set es. case ch of AA _ \<Rightarrow> False | _ \<Rightarrow> True)"

fun chset :: "(altch \<times> nat) list \<Rightarrow> nat set" where
  "chset [] = {}"
| "chset ((AC c, _) # es) = insert c (chset es)"
| "chset (_ # es) = chset es"

fun entry :: "nat option \<Rightarrow> (altch \<times> nat) list \<Rightarrow> nat \<Rightarrow> (nat \<times> nat) option" where
  "entry sel [] n = None"
| "entry sel ((ch, ptr) # es) n =
     (if (\<exists>c. sel = Some c \<and> ch = AC c) then Some (ptr, n) else entry sel es (n + 1))"

definition pickst :: "nat \<Rightarrow> nat option \<Rightarrow> (nat \<times> nat) option \<Rightarrow> vmst \<Rightarrow> nat option \<times> vmst" where
  "pickst p sel e s = (case e of None \<Rightarrow> (sel, s) | Some (ptr, n) \<Rightarrow> (None, altpick p ptr n s))"

lemma entry_None [simp]: "entry None es n = None"
  by (induction es arbitrary: n) auto

lemma altdone_sends_spec:
  assumes "plain es" "inorder s"
  shows "altdone_sends p sr es n sel s
    = (case pickst p sel (if sr = 0 then entry sel es n else None) s of
        (sel', s') \<Rightarrow> Ret sel' (unmark p (chset es) {} s'))"
  using assms
proof (induction p sr es n sel s rule: altdone_sends.induct)
  case (4 p sr c ptr es n sel s)
  then show ?case
    by (auto simp: onq_upd plain_def pickst_def unmark_unmark unmark_pick [symmetric] split: option.splits)
qed (auto simp: plain_def pickst_def split: option.splits)

lemma altdone_recvs_spec:
  assumes "plain es" "inorder s"
  shows "altdone_recvs p sr es n sel s
    = (case pickst p sel (if sr = 1 then entry sel es n else None) s of
        (sel', s') \<Rightarrow> Ret sel' (unmark p {} (chset es) s'))"
  using assms
proof (induction p sr es n sel s rule: altdone_recvs.induct)
  case (4 p sr c ptr es n sel s)
  then show ?case
    by (auto simp: onq_upd plain_def pickst_def unmark_unmark unmark_pick [symmetric] split: option.splits)
qed (auto simp: plain_def pickst_def split: option.splits)

text \<open>The entry \<open>altdone\<close> records before the queues are cleared.\<close>

definition altpicks :: "nat \<Rightarrow> alt \<Rightarrow> nat option \<Rightarrow> int \<Rightarrow> vmst \<Rightarrow> vmst" where
  "altpicks p a sel sr s = (case pickst p sel (if sr = 0 then entry sel (sends a) 0 else None) s of
     (sel, s) \<Rightarrow> snd (pickst p sel (if sr = 1 then entry sel (recvs a) (nsend a) else None) s))"

lemma altpicks_None [simp]: "altpicks p a None sr s = s"
  by (simp add: altpicks_def pickst_def)

lemma inorder_pickst [simp]: "pickst p sel e s = (sel', s') \<Longrightarrow> inorder s' = inorder s"
  by (auto simp: pickst_def split: option.splits)

lemma unmark_pickst: "pickst p sel e (unmark p S R s) = (fst (pickst p sel e s), unmark p S R (snd (pickst p sel e s)))"
  by (auto simp: pickst_def unmark_pick split: option.splits)

lemma altdone_spec:
  assumes "nsend a + nrecv a \<le> length (ac a)" "plain (ac a)" "inorder s"
  shows "altdone (Some a) p sel sr s
    = Ret () (unmark p (chset (sends a)) (chset (recvs a)) (altpicks p a sel sr s))"
proof -
  have pl: "plain (sends a)" "plain (recvs a)"
    using assms(2) by (auto simp: plain_def dest: in_set_takeD in_set_dropD)
  obtain sel' s' where p: "pickst p sel (if sr = 0 then entry sel (sends a) 0 else None) s = (sel', s')"
    by (cases "pickst p sel (if sr = 0 then entry sel (sends a) 0 else None) s")
  then have i: "inorder (unmark p (chset (sends a)) {} s')" using assms(3) by simp
  have n: "\<not> length (ac a) < nsend a + nrecv a" using assms(1) by simp
  show ?thesis
    unfolding altdone_def option.case if_not_P [OF n] altdone_sends_spec [OF pl(1) assms(3)] p
      prod.case vbind.simps altdone_recvs_spec [OF pl(2) i] unmark_pickst altpicks_def
    by (simp add: unmark_unmark)
qed

section \<open>What altrdy does\<close>

definition readyR :: "vmst \<Rightarrow> (altch \<times> nat) \<Rightarrow> bool" where
  "readyR s e = (case fst e of AC c \<Rightarrow> canrecv (chans s c) = Some True | _ \<Rightarrow> False)"

definition readyS :: "vmst \<Rightarrow> (altch \<times> nat) \<Rightarrow> bool" where
  "readyS s e = (case fst e of AC c \<Rightarrow> cansend (chans s c) = Some True | _ \<Rightarrow> False)"

definition single :: "(altch \<times> nat) list \<Rightarrow> bool" where
  "single es \<longleftrightarrow> (\<forall>e\<in>set es. \<exists>c. fst e = AC c)"

text \<open>The queues are in order and \<open>p\<close> waits nowhere.\<close>

definition fresh :: "nat \<Rightarrow> vmst \<Rightarrow> bool" where
  "fresh p s \<longleftrightarrow> inorder s
     \<and> (\<forall>c. p \<notin> set (waiting (csend (chans s c))) \<and> p \<notin> set (waiting (crecv (chans s c))))"

lemma mark_fields [simp]:
  "csend (chans (mark p S R s) c) = (if c \<in> S then enq p else id) (csend (chans s c))"
  "crecv (chans (mark p S R s) c) = (if c \<in> R then enq p else id) (crecv (chans s c))"
  "csize (chans (mark p S R s) c) = csize (chans s c)" "cbuf (chans (mark p S R s) c) = cbuf (chans s c)"
  "cfront (chans (mark p S R s) c) = cfront (chans s c)"
  "progs (mark p S R s) = progs s" "mem (mark p S R s) = mem s" "nomem (mark p S R s) = nomem s"
  "runhd (mark p S R s) = runhd s" "runtl (mark p S R s) = runtl s"
  by (simp_all add: mark_def)

lemma room_mark [simp]: "room (chans (mark p S R s) c) = room (chans s c)"
  by (simp add: room_def split: option.split)

lemma canrecv_mark [simp]: "c \<notin> S \<Longrightarrow> canrecv (chans (mark p S R s) c) = canrecv (chans s c)"
  by (simp add: canrecv_def split: list.split)

lemma cansend_mark [simp]: "c \<notin> R \<Longrightarrow> cansend (chans (mark p S R s) c) = cansend (chans s c)"
  by (simp add: cansend_def split: list.split)

lemma pq_not_Nil [simp]: "pq ps \<noteq> []" "[] \<noteq> pq ps"
  by (auto simp: pq_def)

lemma can_okq:
  "okq (csend ch) \<Longrightarrow> canrecv ch = Some (waiting (csend ch) \<noteq> [] \<or> 0 < csize ch)"
  "okq (crecv ch) \<Longrightarrow> cansend ch = Some (waiting (crecv ch) \<noteq> [] \<or> room ch)"
  by (cases "waiting (csend ch)"; cases "waiting (crecv ch)"; auto simp: canrecv_def cansend_def okq_def pq_def)+

lemma hd_okq: "okq q \<Longrightarrow> p \<notin> set (waiting q) \<Longrightarrow> hd q \<noteq> Some p"
  by (cases "waiting q") (auto simp: okq_def pq_def)

lemma chset_iff: "c \<in> chset es \<longleftrightarrow> AC c \<in> fst ` set es"
  by (induction es rule: chset.induct) auto

lemma chsetI: "e \<in> set es \<Longrightarrow> fst e = AC c \<Longrightarrow> c \<in> chset es"
  by (force simp: chset_iff)

lemma altrdy_recvs_spec:
  assumes "single es" "distinct (map fst es)" "\<not> nomem s"
    "\<forall>c\<in>chset es. okq (csend (chans s c)) \<and> okq (crecv (chans s c))"
  shows "altrdy_recvs p es n e s = Ret (n + length (filter (readyR s) es), e) (mark p {} (chset es) s)"
  using assms
proof (induction p es n e s rule: altrdy_recvs.induct)
  case (4 p c ptr es n e s)
  then have nin: "c \<notin> chset es" by (auto simp: chset_iff)
  have "readyR (mark p {} {c} s) = readyR s"
    by (simp add: readyR_def fun_eq_iff split: altch.splits)
  moreover have "\<forall>c'\<in>chset es. c' \<noteq> c" using nin by auto
  ultimately show ?case using 4 nin
    by (auto simp: can_okq onq_add mark_mark single_def readyR_def [of s "(AC c, ptr)"] insert_commute)
qed (auto simp: single_def)

lemma altrdy_sends_spec:
  assumes "single es" "distinct (map fst es)" "\<not> nomem s"
    "\<forall>c\<in>chset es. okq (csend (chans s c)) \<and> okq (crecv (chans s c)) \<and> p \<notin> set (waiting (crecv (chans s c)))"
  shows "altrdy_sends p es n e s = Ret (n + length (filter (readyS s) es), e) (mark p (chset es) {} s)"
  using assms
proof (induction p es n e s rule: altrdy_sends.induct)
  case (4 p c ptr es n e s)
  then have nin: "c \<notin> chset es" by (auto simp: chset_iff)
  have "readyS (mark p {c} {} s) = readyS s"
    by (simp add: readyS_def fun_eq_iff split: altch.splits)
  moreover have "\<forall>c'\<in>chset es. c' \<noteq> c" using nin by auto
  moreover have "hd (crecv (chans s c)) \<noteq> Some p" using 4 by (intro hd_okq) auto
  ultimately show ?case using 4 nin
    by (auto simp: can_okq onq_add mark_mark single_def readyS_def [of s "(AC c, ptr)"])
qed (auto simp: single_def)

text \<open>An alt over different channels, by a program that waits nowhere.\<close>

definition alt_ok :: "alt \<Rightarrow> nat \<Rightarrow> vmst \<Rightarrow> bool" where
  "alt_ok a p s \<longleftrightarrow> nsend a + nrecv a = length (ac a) \<and> single (ac a) \<and> distinct (map fst (ac a))
     \<and> \<not> nomem s \<and> fresh p s"

abbreviation SS :: "alt \<Rightarrow> nat set" where "SS a \<equiv> chset (sends a)"
abbreviation RR :: "alt \<Rightarrow> nat set" where "RR a \<equiv> chset (recvs a)"

lemma alt_okD:
  assumes "alt_ok a p s"
  shows "single (sends a)" "single (recvs a)" "distinct (map fst (sends a))" "distinct (map fst (recvs a))"
    "SS a \<inter> RR a = {}" "plain (ac a)"
proof -
  have "length (ac a) = nsend a + nrecv a" using assms by (simp add: alt_ok_def)
  then have "recvs a = drop (nsend a) (ac a)" by (intro take_all) simp
  then have e: "ac a = sends a @ recvs a" by simp
  have s: "single (sends a @ recvs a)" and d: "distinct (map fst (sends a @ recvs a))"
    using assms e by (auto simp only: alt_ok_def)
  then show "single (sends a)" "single (recvs a)" "distinct (map fst (sends a))" "distinct (map fst (recvs a))"
    by (auto simp: single_def)
  show "SS a \<inter> RR a = {}" using d by (auto simp: chset_iff)
  show "plain (ac a)" using assms by (auto simp: alt_ok_def single_def plain_def)
qed

lemma altrdy_spec:
  assumes "alt_ok a p s"
  shows "altrdy a p s = Ret (length (filter (readyS s) (sends a)) + length (filter (readyR s) (recvs a)))
    (mark p (SS a) (RR a) s)"
proof -
  note d = alt_okD [OF assms]
  have f: "fresh p s" "\<not> nomem s" "inorder s" using assms by (auto simp: alt_ok_def fresh_def)
  have 1: "altrdy_recvs p (recvs a) 0 None s
      = Ret (length (filter (readyR s) (recvs a)), None) (mark p {} (RR a) s)"
    using altrdy_recvs_spec [OF d(2,4) f(2), of p 0 None] f by (simp add: inorder_def)
  have r: "readyS (mark p {} (RR a) s) e = readyS s e" if e: "e \<in> set (sends a)" for e
  proof -
    obtain c where c: "fst e = AC c" using bspec [OF d(1) [unfolded single_def] e] by blast
    then have "c \<in> SS a" using chsetI [OF e] by simp
    then have "c \<notin> RR a" using d(5) by auto
    then show ?thesis using c by (simp add: readyS_def)
  qed
  have "\<forall>c\<in>SS a. c \<notin> RR a" using d(5) by auto
  then have 2: "altrdy_sends p (sends a) n None (mark p {} (RR a) s)
      = Ret (n + length (filter (readyS s) (sends a)), None) (mark p (SS a) (RR a) s)" for n
    using altrdy_sends_spec [OF d(1,3), of "mark p {} (RR a) s" p n None] f r
    by (simp add: inorder_def fresh_def mark_mark cong: filter_cong)
  have "\<not> length (ac a) < nsend a + nrecv a" using assms by (simp add: alt_ok_def)
  then show ?thesis by (simp only: altrdy_def 1 2 if_False vbind.simps prod.case option.case add_0_left add.commute)
qed

lemma okq_enq [simp]: "okq q \<Longrightarrow> okq (enq p q) \<longleftrightarrow> p \<notin> set (waiting q)"
  by (auto simp: okq_def enq_def)

lemma fresh_mark:
  assumes "fresh p s"
  shows "inorder (mark p S R s)" "unmark p S R (mark p S R s) = s"
  using assms by (auto simp: fresh_def inorder_def intro: unmark_mark)

section \<open>Nothing ready\<close>

lemma xecalt_idle:
  assumes ok: "alt_ok a p s" and run: "runs s (p # xs)"
    and none: "\<forall>e\<in>set (sends a). \<not> readyS s e" "\<forall>e\<in>set (recvs a). \<not> readyR s e"
  shows "xecalt False a Rd x s = Ret x (s\<lparr>mem := (mem s)(Rd := of_nat (nsend a + nrecv a))\<rparr>)"
    and "\<exists>s'. xecalt True a Rd x s = Ret x s' \<and> runs s' xs \<and> mem s' = mem s
      \<and> chans s' = chans (mark p (SS a) (RR a) s)
      \<and> pstate (progs s' p) = Palt \<and> pRs (progs s' p) = Some a \<and> pRd (progs s' p) = Rd"
proof -
  have f: "fresh p s" and len: "nsend a + nrecv a \<le> length (ac a)" using ok by (auto simp: alt_ok_def)
  have cur: "currun s = Some p" using run by (simp add: runs_def currun_def)
  have rdy: "altrdy a p s = Ret 0 (mark p (SS a) (RR a) s)"
    using altrdy_spec [OF ok] none by (simp add: filter_False)
  let ?m = "(mem s)(Rd := of_nat (nsend a + nrecv a))"
  have f': "fresh p (s\<lparr>mem := ?m\<rparr>)" using f by (simp add: fresh_def inorder_def)
  have "(mark p (SS a) (RR a) s)\<lparr>mem := ?m\<rparr> = mark p (SS a) (RR a) (s\<lparr>mem := ?m\<rparr>)"
    by (simp add: mark_def upd_order)
  then show "xecalt False a Rd x s = Ret x (s\<lparr>mem := ?m\<rparr>)"
    using altdone_spec [OF len alt_okD(6) [OF ok] fresh_mark(1) [OF f'], of p None "-1" "SS a" "RR a"]
    by (simp add: xecalt_def cur rdy fresh_mark(2) [OF f'] del: of_nat_add)
  have "runs (mark p (SS a) (RR a) s) (p # xs)" using run by (simp add: mark_def)
  then obtain s1 where s1: "delrun Palt (mark p (SS a) (RR a) s) = Ret p s1" "runs s1 xs"
      "frame p Palt (mark p (SS a) (RR a) s) s1"
    using block_step by blast
  note fr = frame_simps [OF s1(3)]
  show "\<exists>s'. xecalt True a Rd x s = Ret x s' \<and> runs s' xs \<and> mem s' = mem s
      \<and> chans s' = chans (mark p (SS a) (RR a) s)
      \<and> pstate (progs s' p) = Palt \<and> pRs (progs s' p) = Some a \<and> pRd (progs s' p) = Rd"
    using s1(1,2) by (simp add: xecalt_def cur rdy fr)
qed

section \<open>Something ready\<close>

text \<open>An operation that does the same whether or not \<open>p\<close> is marked, and marks \<open>p\<close> nowhere.\<close>

fun vmap :: "(vmst \<Rightarrow> vmst) \<Rightarrow> 'a vres \<Rightarrow> 'a vres" where
  "vmap f Crash = Crash"
| "vmap f (Raise e s) = Raise e (f s)"
| "vmap f (Ret x s) = Ret x (f s)"

definition transp :: "nat \<Rightarrow> nat set \<Rightarrow> nat set \<Rightarrow> vmst \<Rightarrow> (vmst \<Rightarrow> 'a vres) \<Rightarrow> bool" where
  "transp p S R s m \<longleftrightarrow> m (mark p S R s) = vmap (mark p S R) (m s) \<and> (\<forall>x t. m s = Ret x t \<longrightarrow> fresh p t)"

lemma transp_bind:
  assumes "transp p S R s m" "\<And>x t. m s = Ret x t \<Longrightarrow> fresh p t \<Longrightarrow> transp p S R t (f x)"
  shows "transp p S R s (\<lambda>s. vbind (m s) f)"
  using assms by (cases "m s") (auto simp: transp_def)

lemma transp_Ret: "fresh p s \<Longrightarrow> transp p S R s (Ret x)"
  by (simp add: transp_def)

lemma mark_upd:
  "(mark p S R s)\<lparr>progs := ps\<rparr> = mark p S R (s\<lparr>progs := ps\<rparr>)"
  "(mark p S R s)\<lparr>mem := m\<rparr> = mark p S R (s\<lparr>mem := m\<rparr>)"
  "(mark p S R s)\<lparr>runhd := h\<rparr> = mark p S R (s\<lparr>runhd := h\<rparr>)"
  "(mark p S R s)\<lparr>runtl := h\<rparr> = mark p S R (s\<lparr>runtl := h\<rparr>)"
  "(mark p S R s)\<lparr>Rt := i\<rparr> = mark p S R (s\<lparr>Rt := i\<rparr>)"
  by (cases s; simp add: mark_def)+

lemma fresh_upd [simp]:
  "fresh p (s\<lparr>progs := ps\<rparr>) = fresh p s" "fresh p (s\<lparr>mem := m\<rparr>) = fresh p s"
  "fresh p (s\<lparr>runhd := h\<rparr>) = fresh p s" "fresh p (s\<lparr>runtl := h\<rparr>) = fresh p s"
  "fresh p (s\<lparr>Rt := i\<rparr>) = fresh p s"
  by (simp_all add: fresh_def inorder_def)

lemma transp_addrun: "fresh p s \<Longrightarrow> transp p S R s (addrun q)"
  by (auto simp: transp_def addrun_def mark_upd Let_def split: option.splits)

lemma transp_chmov: "fresh p s \<Longrightarrow> transp p S R s (chmov a d)"
  by (auto simp: transp_def chmov_def mark_upd split: option.splits)

lemma mark_recv:
  "c \<notin> R \<Longrightarrow> setchan c (\<lambda>ch. ch\<lparr>crecv := q\<rparr>) (mark p S R s) = mark p S R (setchan c (\<lambda>ch. ch\<lparr>crecv := q\<rparr>) s)"
  by (auto simp: mark_def fun_eq_iff intro!: ext arg_cong [where f = "\<lambda>x. chans_update x s"])

lemma mark_send:
  "c \<notin> S \<Longrightarrow> setchan c (\<lambda>ch. ch\<lparr>csend := q\<rparr>) (mark p S R s) = mark p S R (setchan c (\<lambda>ch. ch\<lparr>csend := q\<rparr>) s)"
  by (auto simp: mark_def fun_eq_iff intro!: ext arg_cong [where f = "\<lambda>x. chans_update x s"])

lemma cqdel_okq: "okq q \<Longrightarrow> cqdel q = Ok q' \<Longrightarrow> okq q' \<and> set (waiting q') \<subseteq> set (waiting q)"
proof -
  assume "okq q" "cqdel q = Ok q'"
  moreover then obtain ps where "q = pq ps" "distinct ps" by (auto simp: okq_def)
  moreover have "cqdel (pq []) = Ok (pq [])" by (simp add: cqdel_def pq_def)
  ultimately show ?thesis by (cases ps) auto
qed

lemma transp_recv_cqdel:
  assumes "fresh p s" "c \<notin> R"
  shows "transp p S R s (onrecv c cqdel)"
proof -
  have "fresh p (setchan c (\<lambda>ch. ch\<lparr>crecv := q\<rparr>) s)" if "cqdel (crecv (chans s c)) = Ok q" for q
    using assms(1) cqdel_okq [OF _ that] by (auto simp: fresh_def inorder_def)
  then show ?thesis using assms(2)
    by (auto simp: transp_def onrecv_def onq_def mark_recv split: outcome.splits)
qed

lemma transp_send_cqdel:
  assumes "fresh p s" "c \<notin> S"
  shows "transp p S R s (onsend c cqdel)"
proof -
  have "fresh p (setchan c (\<lambda>ch. ch\<lparr>csend := q\<rparr>) s)" if "cqdel (csend (chans s c)) = Ok q" for q
    using assms(1) cqdel_okq [OF _ that] by (auto simp: fresh_def inorder_def)
  then show ?thesis using assms(2)
    by (auto simp: transp_def onsend_def onq_def mark_send split: outcome.splits)
qed

lemma altpick_mark: "altpick q ptr n (mark p S R s) = mark p S R (altpick q ptr n s)"
  by (simp add: altpick_def mark_upd)

lemma altpicks_mark: "altpicks q a sel sr (mark p S R s) = mark p S R (altpicks q a sel sr s)"
  by (simp add: altpicks_def pickst_def altpick_mark split: option.split prod.split)

lemma unq_enq_comm: "q \<noteq> p \<Longrightarrow> unq q (enq p x) = enq p (unq q x)"
  by (simp add: unq_def enq_def)

lemma unmark_mark_comm:
  "q \<noteq> p \<Longrightarrow> unmark q S' R' (mark p S R s) = mark p S R (unmark q S' R' s)"
  by (auto simp: unmark_def mark_def unq_enq_comm fun_eq_iff intro!: ext arg_cong [where f = "\<lambda>x. chans_update x s"])

lemma fresh_unmark: "fresh p s \<Longrightarrow> fresh p (unmark q S R s)"
  by (auto simp: fresh_def) (auto simp: unmark_def unq_def split: if_splits)

lemma fresh_altpicks [simp]: "fresh p (altpicks q a sel sr s) = fresh p s"
  by (simp add: altpicks_def pickst_def altpick_def split: option.split prod.split)

text \<open>The alts of blocked programs name single channels.\<close>

definition partners :: "vmst \<Rightarrow> bool" where
  "partners s \<longleftrightarrow> (\<forall>q a. pRs (progs s q) = Some a \<longrightarrow> plain (ac a) \<and> nsend a + nrecv a \<le> length (ac a))"

lemma transp_altdone:
  assumes "fresh p s" "q \<noteq> p" "\<And>a. ap = Some a \<Longrightarrow> plain (ac a) \<and> nsend a + nrecv a \<le> length (ac a)"
  shows "transp p S R s (altdone ap q sel sr)"
proof (cases ap)
  case None
  then show ?thesis by (simp add: transp_def altdone_def)
next
  case (Some a)
  have i: "inorder s" "inorder (mark p S R s)" using assms(1) fresh_mark by (auto simp: fresh_def)
  show ?thesis using assms i Some
    by (auto simp: transp_def altdone_spec altpicks_mark unmark_mark_comm fresh_unmark)
qed

lemma mark_buffer:
  assumes "c' = (chans s c)\<lparr>cbuf := b, cfront := f, csize := n\<rparr>"
  shows "setchan c (\<lambda>_. (chans (mark p S R s) c)\<lparr>cbuf := b, cfront := f, csize := n\<rparr>) (mark p S R s)
    = mark p S R (setchan c (\<lambda>_. c') s)"
  using assms by (auto simp: mark_def fun_eq_iff intro!: ext arg_cong [where f = "\<lambda>x. chans_update x s"])

lemma cputb_chan: "cputb v c = Ok (Some c') \<Longrightarrow> c' = c\<lparr>cbuf := cbuf c', cfront := cfront c', csize := csize c'\<rparr>"
  by (cases c) (auto simp: cputb_def Let_def split: option.splits if_splits)

lemma cgetb_chan: "cgetb c = Ok (Some (v, c')) \<Longrightarrow> c' = c\<lparr>cbuf := cbuf c', cfront := cfront c', csize := csize c'\<rparr>"
  by (cases c) (auto simp: cgetb_def Let_def split: option.splits if_splits)

text \<open>The buffer operations look at the buffer only.\<close>

lemma cputb_mark:
  "cputb v (chans (mark p S R s) c) = (case cputb v (chans s c) of
     Ok (Some c') \<Rightarrow> Ok (Some ((chans (mark p S R s) c)\<lparr>cbuf := cbuf c', cfront := cfront c', csize := csize c'\<rparr>))
   | r \<Rightarrow> r)"
  by (cases "cbuf (chans s c)"; cases "chans (mark p S R s) c")
    (use mark_fields(3-5) [of p S R s c] in \<open>auto simp: cputb_def Let_def wrat_def\<close>)

lemma cgetb_mark:
  "cgetb (chans (mark p S R s) c) = (case cgetb (chans s c) of
     Ok (Some (v, c')) \<Rightarrow> Ok (Some (v, (chans (mark p S R s) c)\<lparr>cbuf := cbuf c', cfront := cfront c', csize := csize c'\<rparr>))
   | r \<Rightarrow> r)"
  by (cases "cbuf (chans s c)"; cases "chans (mark p S R s) c")
    (use mark_fields(3-5) [of p S R s c] in \<open>auto simp: cgetb_def Let_def rdat_def\<close>)

lemma fresh_buffer:
  assumes "fresh p s" "csend c' = csend (chans s c)" "crecv c' = crecv (chans s c)"
  shows "fresh p (setchan c (\<lambda>_. c') s)"
  using assms by (auto simp: fresh_def inorder_def)

text \<open>The last steps of a communication with the blocked program \<open>r\<close>, and those before it.\<close>

lemma transp_wake: "fresh p s \<Longrightarrow> transp p S R s (\<lambda>s. vbind (addrun r s) (\<lambda>_ s. Ret () (s\<lparr>Rt := 0\<rparr>)))"
  by (rule transp_bind [OF transp_addrun]) (auto simp: transp_def mark_upd)

lemma transp_setprog:
  assumes "fresh p s" "\<And>s. fresh p s \<Longrightarrow> transp p S R s m"
  shows "transp p S R s (\<lambda>s. m (setprog r f s))"
  using assms(2) [of "setprog r f s"] assms(1) by (simp add: transp_def mark_upd)

lemma transp_move:
  assumes "fresh p s"
  shows "transp p S R s (\<lambda>s. let d = pptr (progs s r); s = setprog r (\<lambda>q. q\<lparr>pptr := None\<rparr>) s in
      vbind (chmov (Some src) d s) (\<lambda>_ s. vbind (addrun r s) (\<lambda>_ s. Ret () (s\<lparr>Rt := 0\<rparr>))))"
proof -
  have "transp p S R s (\<lambda>s. vbind (chmov (Some src) d (setprog r (\<lambda>q. q\<lparr>pptr := None\<rparr>) s))
      (\<lambda>_ s. vbind (addrun r s) (\<lambda>_ s. Ret () (s\<lparr>Rt := 0\<rparr>))))" for d
    by (rule transp_bind [OF transp_setprog [OF assms transp_chmov] transp_wake])
  from this [of "pptr (progs s r)"] show ?thesis by (simp add: transp_def)
qed

lemma transp_leave:
  assumes "fresh p s" "r \<noteq> p" "partners s"
  shows "transp p S R s (\<lambda>s. if pstate (progs s r) = Palt then altdone (pRs (progs s r)) r sel sr s else Ret () s)"
proof -
  have "transp p S R s (altdone (pRs (progs s r)) r sel sr)"
    using assms by (intro transp_altdone) (auto simp: partners_def)
  then show ?thesis using assms(1) by (simp add: transp_def)
qed

lemma onq_progs:
  "onrecv c f s = Ret x t \<Longrightarrow> progs t = progs s" "onsend c f s = Ret x t \<Longrightarrow> progs t = progs s"
  by (auto simp: onrecv_def onsend_def onq_def split: outcome.splits)

lemma okq_cases:
  assumes "okq q" "p \<notin> set (waiting q)"
  obtains "q = [None]" "waiting q = []" | r rs where "q = Some r # rs" "r \<noteq> p" "waiting q \<noteq> []"
proof (cases "waiting q")
  case Nil
  then show thesis using that(1) assms(1) by (simp add: okq_def pq_def)
next
  case (Cons r rs)
  then show thesis using that(2) [of r "map Some rs"] assms by (auto simp: okq_def pq_def)
qed

lemma transp_isend:
  assumes f: "fresh p s" and c: "c \<notin> R" and pa: "partners s" and can: "cansend (chans s c) = Some True"
  shows "transp p S R s (isend (Some c) src)"
proof -
  have "okq (crecv (chans s c))" "p \<notin> set (waiting (crecv (chans s c)))"
    using f by (auto simp: fresh_def inorder_def)
  then show ?thesis
  proof (cases rule: okq_cases)
    case 1
    have "room (chans s c)" using can 1 by (simp add: cansend_def)
    then have nn: "cputb (mem s src) (chans s c) \<noteq> Ok None"
      by (auto simp: cputb_def room_def Let_def split: option.splits)
    show ?thesis
    proof (cases "\<exists>c'. cputb (mem s src) (chans s c) = Ok (Some c')")
      case True
      then obtain c' where c': "cputb (mem s src) (chans s c) = Ok (Some c')" by blast
      note e = cputb_chan [OF c']
      have "csend c' = csend (chans s c)" "crecv c' = crecv (chans s c)" by (subst e, simp)+
      then show ?thesis using 1 c c' f mark_buffer [OF e]
        by (auto simp: transp_def isend_def cputb_mark fresh_buffer)
    next
      case False
      then show ?thesis using 1 c nn
        by (auto simp: transp_def isend_def cputb_mark split: outcome.splits option.splits)
    qed
  next
    case (2 r rs)
    let ?m = "\<lambda>s. vbind (onrecv c cqdel s) (\<lambda>_ s.
         vbind (if pstate (progs s r) = Palt then altdone (pRs (progs s r)) r (Some c) 1 s else Ret () s) (\<lambda>_ s.
         let d = pptr (progs s r); s = setprog r (\<lambda>q. q\<lparr>pptr := None\<rparr>) s in
         vbind (chmov (Some src) d s) (\<lambda>_ s.
         vbind (addrun r s) (\<lambda>_ s. Ret () (s\<lparr>Rt := 0\<rparr>)))))"
    have "transp p S R s ?m"
    proof (rule transp_bind [OF transp_recv_cqdel [OF f c]])
      fix x t assume t: "onrecv c cqdel s = Ret x t" "fresh p t"
      then have "partners t" using pa onq_progs(1) by (simp add: partners_def)
      then show "transp p S R t (\<lambda>s. vbind (if pstate (progs s r) = Palt then altdone (pRs (progs s r)) r (Some c) 1 s else Ret () s) (\<lambda>_ s.
         let d = pptr (progs s r); s = setprog r (\<lambda>q. q\<lparr>pptr := None\<rparr>) s in
         vbind (chmov (Some src) d s) (\<lambda>_ s.
         vbind (addrun r s) (\<lambda>_ s. Ret () (s\<lparr>Rt := 0\<rparr>)))))"
        by (rule transp_bind [OF transp_leave [OF t(2) 2(2)] transp_move])
    qed
    then show ?thesis using 2(1) c by (simp add: transp_def isend_def)
  qed
qed

lemma mark_chans: "chans (mark p S R (s\<lparr>progs := ps\<rparr>)) = chans (mark p S R s)"
  by (simp add: mark_def)

text \<open>The buffer hands over its first value and takes the value of the blocked sender \<open>r\<close>.\<close>

lemma transp_get:
  assumes "fresh p s"
  shows "transp p S R s (\<lambda>s. case cgetb (chans s c) of
       Ok None \<Rightarrow> Ret () s
     | Ok (Some (v, ch)) \<Rightarrow> Ret () ((setchan c (\<lambda>_. ch) s)\<lparr>mem := (mem s)(dst := v)\<rparr>)
     | _ \<Rightarrow> Crash)"
proof (cases "\<exists>v c'. cgetb (chans s c) = Ok (Some (v, c'))")
  case True
  then obtain v c' where c': "cgetb (chans s c) = Ok (Some (v, c'))" by blast
  note e = cgetb_chan [OF c']
  have "csend c' = csend (chans s c)" "crecv c' = crecv (chans s c)" by (subst e, simp)+
  then show ?thesis using c' assms mark_buffer [OF e]
    by (simp add: transp_def cgetb_mark fresh_buffer mark_upd)
next
  case False
  then show ?thesis using assms
    by (auto simp: transp_def cgetb_mark split: outcome.splits option.splits)
qed

lemma transp_put:
  assumes "fresh p s"
  shows "transp p S R s (\<lambda>s. case cputb (case pptr (progs s r) of None \<Rightarrow> 0 | Some a \<Rightarrow> mem s a) (chans s c) of
       Ok None \<Rightarrow> Ret () (setprog r (\<lambda>q. q\<lparr>pptr := None\<rparr>) s)
     | Ok (Some ch) \<Rightarrow>
         if pptr (progs s r) = None then Crash
         else Ret () (setchan c (\<lambda>_. ch) (setprog r (\<lambda>q. q\<lparr>pptr := None\<rparr>) s))
     | _ \<Rightarrow> Crash)"
proof -
  let ?v = "case pptr (progs s r) of None \<Rightarrow> 0 | Some a \<Rightarrow> mem s a"
  let ?s = "setprog r (\<lambda>q. q\<lparr>pptr := None\<rparr>) s"
  show ?thesis
  proof (cases "\<exists>c'. cputb ?v (chans s c) = Ok (Some c')")
    case True
    then obtain c' where c': "cputb ?v (chans s c) = Ok (Some c')" by blast
    note e = cputb_chan [OF c']
    have "csend c' = csend (chans s c)" "crecv c' = crecv (chans s c)" by (subst e, simp)+
    have "c' = (chans ?s c)\<lparr>cbuf := cbuf c', cfront := cfront c', csize := csize c'\<rparr>" using e by simp
    from mark_buffer [OF this, of p S R] show ?thesis
      using c' assms \<open>csend c' = csend (chans s c)\<close> \<open>crecv c' = crecv (chans s c)\<close>
        fresh_buffer [of p ?s c' c]
      by (cases "pptr (progs s r)") (simp_all add: transp_def cputb_mark fresh_buffer mark_upd mark_chans)
  next
    case False
    then show ?thesis using assms
      by (auto simp: transp_def cputb_mark mark_upd split: outcome.splits option.splits)
  qed
qed

lemma irecv_split:
  assumes "csend (chans s c) = Some r # q"
  shows "irecv (Some c) dst s = vbind (onsend c cqdel s) (\<lambda>_ s.
      vbind (if pstate (progs s r) = Palt then altdone (pRs (progs s r)) r (Some c) 0 s else Ret () s) (\<lambda>_ s.
      vbind (if cbuf (chans s c) \<noteq> None then
          vbind (case cgetb (chans s c) of
              Ok None \<Rightarrow> Ret () s
            | Ok (Some (v, ch)) \<Rightarrow> Ret () ((setchan c (\<lambda>_. ch) s)\<lparr>mem := (mem s)(dst := v)\<rparr>)
            | _ \<Rightarrow> Crash)
            (\<lambda>_ s. case cputb (case pptr (progs s r) of None \<Rightarrow> 0 | Some a \<Rightarrow> mem s a) (chans s c) of
              Ok None \<Rightarrow> Ret () (setprog r (\<lambda>q. q\<lparr>pptr := None\<rparr>) s)
            | Ok (Some ch) \<Rightarrow>
                if pptr (progs s r) = None then Crash
                else Ret () (setchan c (\<lambda>_. ch) (setprog r (\<lambda>q. q\<lparr>pptr := None\<rparr>) s))
            | _ \<Rightarrow> Crash)
        else let a = pptr (progs s r); s = setprog r (\<lambda>q. q\<lparr>pptr := None\<rparr>) s in chmov a (Some dst) s)
      (\<lambda>_ s. vbind (addrun r s) (\<lambda>_ s. Ret () (s\<lparr>Rt := 0\<rparr>)))))"
  unfolding irecv_def using assms
  by (simp add: Let_def cong: if_cong)
    (rule arg_cong [where f = "vbind _"], intro ext, rule arg_cong [where f = "vbind _"], intro ext,
      rule arg_cong2 [where f = vbind], auto split: outcome.splits option.splits)

lemma transp_cong: "m s = m' s \<Longrightarrow> m (mark p S R s) = m' (mark p S R s) \<Longrightarrow> transp p S R s m' \<Longrightarrow> transp p S R s m"
  by (simp add: transp_def)

lemma transp_if: "(b (mark p S R s) \<longleftrightarrow> b s) \<Longrightarrow> (b s \<Longrightarrow> transp p S R s f) \<Longrightarrow> (\<not> b s \<Longrightarrow> transp p S R s g) \<Longrightarrow>
    transp p S R s (\<lambda>s. if b s then f s else g s)"
  by (simp add: transp_def)

lemma transp_irecv:
  assumes f: "fresh p s" and c: "c \<notin> S" and pa: "partners s" and can: "canrecv (chans s c) = Some True"
    and ok: "ring_ok (chans s c)"
  shows "transp p S R s (irecv (Some c) dst)"
proof -
  have "okq (csend (chans s c))" "p \<notin> set (waiting (csend (chans s c)))"
    using f by (auto simp: fresh_def inorder_def)
  then show ?thesis
  proof (cases rule: okq_cases)
    case 1
    have "0 < csize (chans s c)" using can 1 by (simp add: canrecv_def)
    then have nn: "cgetb (chans s c) \<noteq> Ok None"
      using ok by (auto simp: cgetb_def ring_ok_def Let_def split: option.splits)
    have "irecv (Some c) dst s' = (case cgetb (chans s' c) of
       Ok None \<Rightarrow> Ret () s'
     | Ok (Some (v, ch)) \<Rightarrow> Ret () ((setchan c (\<lambda>_. ch) s')\<lparr>mem := (mem s')(dst := v)\<rparr>)
     | _ \<Rightarrow> Crash)" if "s' = s \<or> s' = mark p S R s" for s'
      using that 1 c nn by (auto simp: irecv_def cgetb_mark split: outcome.splits option.splits)
    then show ?thesis using transp_get [OF f, where c = c and dst = dst] by (simp add: transp_def)
  next
    case (2 r q)
    let ?G = "\<lambda>s. if cbuf (chans s c) \<noteq> None then
          vbind (case cgetb (chans s c) of
              Ok None \<Rightarrow> Ret () s
            | Ok (Some (v, ch)) \<Rightarrow> Ret () ((setchan c (\<lambda>_. ch) s)\<lparr>mem := (mem s)(dst := v)\<rparr>)
            | _ \<Rightarrow> Crash)
            (\<lambda>_ s. case cputb (case pptr (progs s r) of None \<Rightarrow> 0 | Some a \<Rightarrow> mem s a) (chans s c) of
              Ok None \<Rightarrow> Ret () (setprog r (\<lambda>q. q\<lparr>pptr := None\<rparr>) s)
            | Ok (Some ch) \<Rightarrow>
                if pptr (progs s r) = None then Crash
                else Ret () (setchan c (\<lambda>_. ch) (setprog r (\<lambda>q. q\<lparr>pptr := None\<rparr>) s))
            | _ \<Rightarrow> Crash)
        else let a = pptr (progs s r); s = setprog r (\<lambda>q. q\<lparr>pptr := None\<rparr>) s in chmov a (Some dst) s"
    let ?W = "\<lambda>_ s. vbind (addrun r s) (\<lambda>_ s. Ret () (s\<lparr>Rt := 0\<rparr>))"
    let ?L = "\<lambda>s. if pstate (progs s r) = Palt then altdone (pRs (progs s r)) r (Some c) 0 s else Ret () s"
    have G: "transp p S R t ?G" if "fresh p t" for t
    proof (rule transp_if)
      have "transp p S R t (\<lambda>s. chmov a (Some dst) (setprog r (\<lambda>q. q\<lparr>pptr := None\<rparr>) s))" for a
        by (rule transp_setprog [OF that transp_chmov])
      from this [of "pptr (progs t r)"]
      show "transp p S R t (\<lambda>s. let a = pptr (progs s r); s = setprog r (\<lambda>q. q\<lparr>pptr := None\<rparr>) s in
          chmov a (Some dst) s)" by (simp add: transp_def)
    qed (simp, rule transp_bind [OF transp_get [OF that] transp_put])
    let ?M = "\<lambda>s. vbind (onsend c cqdel s) (\<lambda>_ s. vbind (?L s) (\<lambda>_ s. vbind (?G s) ?W))"
    have T: "transp p S R s ?M"
    proof (rule transp_bind [OF transp_send_cqdel [OF f c]])
      fix x t assume t: "onsend c cqdel s = Ret x t" "fresh p t"
      then have "partners t" using pa onq_progs(2) by (simp add: partners_def)
      from transp_leave [OF t(2) 2(2) this]
      show "transp p S R t (\<lambda>s. vbind (?L s) (\<lambda>_ s. vbind (?G s) ?W))"
        by (rule transp_bind) (rule transp_bind [OF G transp_wake])
    qed
    have "csend (chans (mark p S R s) c) = Some r # q" using 2(1) c by simp
    then have e: "irecv (Some c) dst (mark p S R s) = ?M (mark p S R s)" by (rule irecv_split)
    show ?thesis by (rule transp_cong [of "irecv (Some c) dst" s ?M, OF irecv_split [OF 2(1)] e T])
  qed
qed

section \<open>The choice\<close>

text \<open>The ready entries of a list of entries, with their index, channel and pointer.\<close>

fun choices :: "((altch \<times> nat) \<Rightarrow> bool) \<Rightarrow> nat \<Rightarrow> (altch \<times> nat) list \<Rightarrow> (nat \<times> nat \<times> nat) list" where
  "choices rdy n [] = []"
| "choices rdy n ((AC c, ptr) # es) =
     (if rdy (AC c, ptr) then (n, c, ptr) # choices rdy (n + 1) es else choices rdy (n + 1) es)"
| "choices rdy n (_ # es) = choices rdy (n + 1) es"

definition alt_choices :: "alt \<Rightarrow> vmst \<Rightarrow> (bool \<times> nat \<times> nat \<times> nat) list" where
  "alt_choices a s = map (Pair True) (choices (readyS s) 0 (sends a))
     @ map (Pair False) (choices (readyR s) (nsend a) (recvs a))"

fun communicate :: "nat \<Rightarrow> bool \<times> nat \<times> nat \<times> nat \<Rightarrow> vmst \<Rightarrow> unit vres" where
  "communicate Rd (sending, i, c, ptr) s =
     (if sending then isend (Some c) ptr else irecv (Some c) ptr) (s\<lparr>mem := (mem s)(Rd := of_nat i)\<rparr>)"

lemma choices_cong: "(\<And>e. e \<in> set es \<Longrightarrow> r e = r' e) \<Longrightarrow> choices r n es = choices r' n es"
  by (induction r n es rule: choices.induct) auto

lemma length_choices: "single es \<Longrightarrow> length (choices r n es) = length (filter r es)"
  by (induction r n es rule: choices.induct) (auto simp: single_def)

lemma choices_sound: "(i, c, ptr) \<in> set (choices r n es) \<Longrightarrow> (AC c, ptr) \<in> set es \<and> r (AC c, ptr)"
  by (induction r n es rule: choices.induct) (auto split: if_splits)

lemma altcomm_sends_spec:
  assumes "single es" "\<forall>c. crecv (chans s c) \<noteq> []"
  shows "altcomm_sends Rd es n w s = (let cs = choices (readyS s) n es in
     if w < length cs then vbind (communicate Rd (True, cs ! w) s) (\<lambda>_ s. Ret None s)
     else Ret (Some (w - length cs)) s)"
  using assms
proof (induction Rd es n w s rule: altcomm_sends.induct)
  case (2 Rd c ptr es n w s)
  then have "cansend (chans s c) \<noteq> None" by (auto simp: cansend_def split: list.splits)
  with 2 show ?case
    by (cases w) (auto simp: single_def readyS_def [of s "(AC c, ptr)"] Let_def split: bool.split)
qed (auto simp: single_def)

lemma altcomm_recvs_spec:
  assumes "single es" "\<forall>c. csend (chans s c) \<noteq> []"
  shows "altcomm_recvs Rd es n w s = (let cs = choices (readyR s) n es in
     if w < length cs then vbind (communicate Rd (False, cs ! w) s) (\<lambda>_ s. Ret None s)
     else Ret (Some (w - length cs)) s)"
  using assms
proof (induction Rd es n w s rule: altcomm_recvs.induct)
  case (4 Rd c ptr es n w s)
  then have "canrecv (chans s c) \<noteq> None" by (auto simp: canrecv_def split: list.splits)
  with 4 show ?case
    by (cases w) (auto simp: single_def readyR_def [of s "(AC c, ptr)"] Let_def split: bool.split)
qed (auto simp: single_def)

lemma vbind_Ret [simp]: "vbind m (\<lambda>x s. Ret x s) = m" "vbind (vbind m f) g = vbind m (\<lambda>x s. vbind (f x s) g)"
  by (cases m; simp)+

lemma altcomm_spec:
  assumes "single (sends a)" "single (recvs a)" "inorder s" "w < length (alt_choices a s)"
  shows "altcomm a Rd w s = vbind (communicate Rd (alt_choices a s ! w) s) (\<lambda>_ s. Ret () s)"
proof -
  have q: "\<forall>c. crecv (chans s c) \<noteq> []" "\<forall>c. csend (chans s c) \<noteq> []"
    using assms(3) by (metis inorder_def okq_def pq_not_Nil(1))+
  show ?thesis
    using assms(4) unfolding altcomm_def altcomm_sends_spec [OF assms(1) q(1)]
    by (auto simp: altcomm_recvs_spec [OF assms(2) q(2)] alt_choices_def nth_append Let_def)
qed

lemma alt_choices_mark:
  assumes "alt_ok a p s"
  shows "alt_choices a (mark p (SS a) (RR a) s) = alt_choices a s"
    "length (alt_choices a s) = length (filter (readyS s) (sends a)) + length (filter (readyR s) (recvs a))"
proof -
  note d = alt_okD [OF assms]
  have S: "readyS (mark p (SS a) (RR a) s) e = readyS s e" if e: "e \<in> set (sends a)" for e
  proof -
    obtain c where c: "fst e = AC c" using bspec [OF d(1) [unfolded single_def] e] by blast
    then have "c \<notin> RR a" using chsetI [OF e c] d(5) by auto
    then show ?thesis using c by (simp add: readyS_def)
  qed
  have R: "readyR (mark p (SS a) (RR a) s) e = readyR s e" if e: "e \<in> set (recvs a)" for e
  proof -
    obtain c where c: "fst e = AC c" using bspec [OF d(2) [unfolded single_def] e] by blast
    then have "c \<notin> SS a" using chsetI [OF e c] d(5) by auto
    then show ?thesis using c by (simp add: readyR_def)
  qed
  show "alt_choices a (mark p (SS a) (RR a) s) = alt_choices a s"
    unfolding alt_choices_def
    by (intro arg_cong2 [where f = append] arg_cong [where f = "map _"] choices_cong S R)
  show "length (alt_choices a s) = length (filter (readyS s) (sends a)) + length (filter (readyR s) (recvs a))"
    by (simp add: alt_choices_def length_choices d)
qed

lemma transp_choice:
  assumes ok: "alt_ok a p s" and pa: "partners s" and rings: "\<forall>c. ring_ok (chans s c)"
    and ch: "ch \<in> set (alt_choices a s)"
  shows "transp p (SS a) (RR a) s (communicate Rd ch)"
proof -
  obtain d i c ptr where e: "ch = (d, i, c, ptr)" by (metis prod_cases4)
  let ?s = "s\<lparr>mem := (mem s)(Rd := of_nat i)\<rparr>"
  have f: "fresh p ?s" and pa': "partners ?s" using ok pa by (simp_all add: alt_ok_def partners_def)
  have "transp p (SS a) (RR a) ?s (if d then isend (Some c) ptr else irecv (Some c) ptr)"
  proof (cases d)
    case True
    then have "(AC c, ptr) \<in> set (sends a)" and r: "readyS s (AC c, ptr)"
      using ch choices_sound unfolding e alt_choices_def by fastforce+
    then have "c \<notin> RR a" using chsetI [of "(AC c, ptr)" "sends a" c] alt_okD(5) [OF ok] by auto
    from transp_isend [OF f this pa'] r True show ?thesis by (simp add: readyS_def)
  next
    case False
    then have "(AC c, ptr) \<in> set (recvs a)" and r: "readyR s (AC c, ptr)"
      using ch choices_sound unfolding e alt_choices_def by fastforce+
    then have "c \<notin> SS a" using chsetI [of "(AC c, ptr)" "recvs a" c] alt_okD(5) [OF ok] by auto
    from transp_irecv [OF f this pa'] r False rings show ?thesis by (simp add: readyR_def)
  qed
  then show ?thesis by (simp add: transp_def e mark_upd)
qed

text \<open>An alt with ready entries does what a plain send or receive on one of them does.\<close>

lemma xecalt_ready:
  assumes ok: "alt_ok a p s" and pa: "partners s" and rings: "\<forall>c. ring_ok (chans s c)"
    and cur: "currun s = Some p" and cs: "alt_choices a s \<noteq> []"
    and x': "x' = x * 1103515245 + 12345"
    and t: "communicate Rd (alt_choices a s ! (unat (drop_bit 8 x') mod length (alt_choices a s))) s = Ret () t"
  shows "xecalt block a Rd x s = Ret x' t"
proof -
  let ?cs = "alt_choices a s" and ?m = "mark p (SS a) (RR a)"
  let ?w = "unat (drop_bit 8 x') mod length ?cs"
  note m = alt_choices_mark [OF ok] and d = alt_okD [OF ok]
  have f: "fresh p s" and len: "nsend a + nrecv a \<le> length (ac a)" using ok by (simp_all add: alt_ok_def)
  have w: "?w < length ?cs" using cs by simp
  have rdy: "altrdy a p s = Ret (length ?cs) (?m s)" using altrdy_spec [OF ok] m(2) by simp
  have T: "transp p (SS a) (RR a) s (communicate Rd (?cs ! ?w))"
    by (rule transp_choice [OF ok pa rings nth_mem [OF w]])
  then have c: "communicate Rd (?cs ! ?w) (?m s) = Ret () (?m t)" and ft: "fresh p t"
    using t by (simp_all add: transp_def)
  have "altcomm a Rd ?w (?m s) = Ret () (?m t)"
    using altcomm_spec [OF d(1,2) fresh_mark(1) [OF f], of ?w] w m(1) c by simp
  moreover have "altdone (Some a) p None (-1) (?m t) = Ret () t"
    using altdone_spec [OF len d(6) fresh_mark(1) [OF ft]] fresh_mark(2) [OF ft] by simp
  ultimately show ?thesis using cs
    by (simp add: xecalt_def cur rdy x' Let_def)
qed

section \<open>Alts that name a channel twice\<close>

text \<open>
  \<open>cqdelp\<close> takes every cell of the program out of a queue, and when all cells are its own the queue is
  a nil pointer afterwards, which the next entry of the same alt follows.
\<close>

text \<open>An alt (blocking or not) that receives twice from one channel on which nobody waits follows a nil queue
  pointer: leaving the alt removes all cells of the program from the queue at the first entry,
  and the second entry looks into the queue that is gone.\<close>

theorem alt_twice_crashes:
  assumes "csend (chans s c) = [None]" "crecv (chans s c) = [None]" "csize (chans s c) = 0"
    "currun s = Some p" "\<not> nomem s"
  shows "xecalt False \<lparr>nsend = 0, nrecv = 2, ac = [(AC c, x), (AC c, y)]\<rparr> Rd seed s = Crash"
  using assms
  by (simp add: xecalt_def altrdy_def canrecv_def onrecv_def onq_def cqadd_def altdone_def cqunmark_def
      cqdelp_def eval_nat_numeral)

theorem alt_twice_crashes_witness:
  "xecalt False \<lparr>nsend = 0, nrecv = 2, ac = [(AC 8, 20), (AC 8, 21)]\<rparr> 30 0 sample_sched = Crash"
  using alt_twice_crashes [of sample_sched 8 1 20 21 30 0] by (simp add: sample_sched_def currun_def)

text \<open>An alt that sends to and receives from one channel is refused only when its program is the first
  in the queue of receivers; when another program waits there, pass 2 may find the program of the alt
  itself in the queue of senders and receive from it, through a pointer that was never set.\<close>

theorem alt_self_crashes:
  assumes "c \<noteq> d" "p \<noteq> q" "currun s = Some p" "\<not> nomem s"
    "csend (chans s c) = [None]" "crecv (chans s c) = [Some q]" "cbuf (chans s c) = None" "csize (chans s c) = 0"
    "csend (chans s d) = [None]" "crecv (chans s d) = [None]" "0 < csize (chans s d)"
    "pstate (progs s p) = Pready" "pptr (progs s p) = None"
    "odd (unat (drop_bit 8 (seed * 1103515245 + 12345)))"
  shows "xecalt block \<lparr>nsend = 1, nrecv = 2, ac = [(AC c, v), (AC c, x), (AC d, y)]\<rparr> Rd seed s = Crash"
proof -
  have "unat (drop_bit 8 (seed * 1103515245 + 12345)) mod 2 = 1" using assms(14) by presburger
  then show ?thesis using assms(1-13)
    by (simp add: xecalt_def altrdy_def canrecv_def cansend_def onrecv_def onsend_def onq_def cqadd_def
        cqunmark_def cqdel_def altcomm_def irecv_def chmov_def eval_nat_numeral Let_def)
qed

definition sample_self :: vmst where
  "sample_self = sample_sched\<lparr>chans := (\<lambda>c. if c = 4 then (newchan 0)\<lparr>crecv := [Some 9]\<rparr>
     else if c = 5 then (newchan 1)\<lparr>csize := 1\<rparr> else newchan 0)\<rparr>"

theorem alt_self_crashes_witness:
  "xecalt True \<lparr>nsend = 1, nrecv = 2, ac = [(AC 4, 20), (AC 4, 21), (AC 5, 22)]\<rparr> 30 0x20342 sample_self = Crash"
proof (rule alt_self_crashes [where p = 1 and q = 9])
  show "odd (unat (drop_bit 8 (0x20342 * 1103515245 + 12345 :: u32)))" by simp
qed (simp_all add: sample_self_def sample_sched_def newchan_def currun_def)

section \<open>Alts over different channels\<close>

text \<open>C21: An alt over different channels none of which is ready: the non-blocking form stores the number of
  entries as its result and leaves every queue as it was, although it has entered all of them; the
  blocking form leaves the run queue and waits last in the queue of every channel it names, with
  nothing else changed.\<close>

theorem alt_idle:
  assumes "alt_ok a p s" "runs s (p # xs)" "alt_choices a s = []"
  shows "xecalt False a Rd x s = Ret x (s\<lparr>mem := (mem s)(Rd := of_nat (nsend a + nrecv a))\<rparr>)
    \<and> (\<exists>s'. xecalt True a Rd x s = Ret x s' \<and> runs s' xs \<and> mem s' = mem s
        \<and> chans s' = chans (mark p (SS a) (RR a) s)
        \<and> pstate (progs s' p) = Palt \<and> pRs (progs s' p) = Some a \<and> pRd (progs s' p) = Rd)"
proof -
  have "length (alt_choices a s) = 0" using assms(3) by simp
  then have "filter (readyS s) (sends a) = []" "filter (readyR s) (recvs a) = []"
    using alt_choices_mark(2) [OF assms(1)] by simp_all
  then have "\<forall>e\<in>set (sends a). \<not> readyS s e" "\<forall>e\<in>set (recvs a). \<not> readyR s e"
    by (auto simp only: filter_empty_conv)
  from xecalt_idle [OF assms(1,2) this] show ?thesis by blast
qed

text \<open>C20: An alt over different channels some of which are ready does exactly what a plain send or receive
  on one of the ready ones does, after storing the index of that entry; which one follows from the
  seed, and the program waits in no queue afterwards. It holds for partners blocked in sends,
  receives or alts of their own.\<close>

theorem alt_ready:
  assumes "alt_ok a p s" "partners s" "\<forall>c. ring_ok (chans s c)" "currun s = Some p"
    and "alt_choices a s \<noteq> []" "x' = x * 1103515245 + 12345"
    and "communicate Rd (alt_choices a s ! (unat (drop_bit 8 x') mod length (alt_choices a s))) s = Ret () t"
  shows "xecalt block a Rd x s = Ret x' t"
  by (rule xecalt_ready [OF assms])

definition sample_alt :: alt where
  "sample_alt = \<lparr>nsend = 1, nrecv = 1, ac = [(AC 5, 20), (AC 6, 21)]\<rparr>"

lemma sample_alt_ok: "alt_ok sample_alt 1 sample_sched" "partners sample_sched" "runs sample_sched [1, 2, 3]"
  by (simp_all add: alt_ok_def sample_alt_def single_def fresh_def inorder_def okq_def pq_Cons partners_def)
    (simp_all add: sample_sched_def runs_def pq_def)

theorem alt_idle_witness:
  "xecalt False sample_alt 30 7 sample_sched = Ret 7 (sample_sched\<lparr>mem := (mem sample_sched)(30 := 2)\<rparr>)"
  using alt_idle [OF sample_alt_ok(1,3), of 30 7]
  by (simp add: alt_choices_def sample_alt_def readyS_def readyR_def cansend_def canrecv_def room_def sample_sched_def)

definition sample_ready :: vmst where
  "sample_ready = sample_sched\<lparr>chans := (\<lambda>c. newchan (if c = 5 then 2 else 0))\<rparr>"

theorem alt_ready_witness:
  "\<exists>x t. xecalt True sample_alt 30 0 sample_ready = Ret x t \<and> buffered (chans t 5) = [0]"
proof -
  have ok: "alt_ok sample_alt 1 sample_ready" "partners sample_ready" "\<forall>c. ring_ok (chans sample_ready c)"
      "currun sample_ready = Some 1"
    by (simp_all add: alt_ok_def sample_alt_def single_def fresh_def inorder_def okq_def partners_def
        sample_ready_def newchan_def pq_Cons ring_ok_def currun_def)
      (simp_all add: sample_sched_def pq_def)
  have cs: "alt_choices sample_alt sample_ready = [(True, 0, 5, 20)]"
    by (simp add: alt_choices_def sample_alt_def readyS_def readyR_def cansend_def canrecv_def
        room_def sample_ready_def newchan_def)
  have n: "newchan 2 = \<lparr>cbuf = Some [0, 0], csend = [None], crecv = [None], cfront = 0, csize = 0\<rparr>"
    by (simp add: newchan_def numeral_2_eq_2)
  have m: "mem sample_sched 20 = 0" by (simp add: sample_sched_def)
  obtain t where t: "communicate 30 (True, 0, 5, 20) sample_ready = Ret () t" "buffered (chans t 5) = [0]"
    using n m by (simp add: isend_def sample_ready_def cputb_def wrat_def buffered_def)
  show ?thesis using alt_ready [OF ok _ refl, of 30 0 t True] t by (auto simp: cs)
qed

end
