(* ===== verification/LogExtent.thy ===== *)
theory LogExtent
  imports Prelude
begin

text \<open>
  The extents of a file in the flash file system, \<open>liblogfs/extentlist.c\<close>: a sorted list of disjoint
  ranges of the file, each with the flash address of its first byte. The linked list is a HOL list;
  nodes are allocated by two calls whose success is an argument (\<open>sm\<close> for \<open>saved\<close>, \<open>fm\<close> for \<open>frag\<close>).

  The abstract value of a list is the partial map from file offsets to flash addresses
  (\<open>place\<close>): inserting an extent overrides the map on its range, and walking a range visits the map
  in order, holes included.
\<close>

record extent =
  emin :: u32
  emax :: u32
  flashaddr :: u32

section \<open>Insertion\<close>

text \<open>
  The loop of \<open>logfsextentlistinsert\<close>: \<open>done\<close> are the nodes up to \<open>prev\<close>, \<open>saved\<close> tells whether a node has been
  put aside. \<open>Inr\<close>: where the new extent goes; \<open>Inl\<close>: no memory, with the list as it is then.
\<close>

fun insert_loop :: "bool \<Rightarrow> bool \<Rightarrow> extent \<Rightarrow> bool \<Rightarrow> extent list \<Rightarrow> extent list \<Rightarrow>
    extent list + extent list \<times> bool \<times> extent list" where
  "insert_loop sm fm add saved don [] = Inr (don, saved, [])"
| "insert_loop sm fm add saved don (old # next) =
     (if emax add \<le> emin old then Inr (don, saved, old # next)
      else if emin old < emax add \<and> emin add < emax old then
        if emin add \<le> emin old then
          if emax add < emax old then
            if \<not> saved \<and> \<not> sm then Inl (don @ old # next)
            else let trimmed = emax add - emin old in
              Inr (don, True, old\<lparr>emin := emin old + trimmed, flashaddr := flashaddr old + trimmed\<rparr> # next)
          else insert_loop sm fm add True don next
        else if emax add < emax old then
          if \<not> saved \<and> \<not> sm \<or> \<not> fm then Inl (don @ old # next)
          else
            let frag = \<lparr>emin = emax add, emax = emax old,
                  flashaddr = flashaddr old + (emax add - emin old)\<rparr> in
            Inr (don @ [old\<lparr>emax := emin add\<rparr>], True, frag # next)
        else
          if \<not> saved \<and> \<not> sm then Inl (don @ old # next)
          else insert_loop sm fm add True (don @ [old\<lparr>emax := emin add\<rparr>]) next
      else insert_loop sm fm add saved (don @ [old]) next)"

text \<open>The list afterwards, and whether the call succeeded.\<close>

definition logfsextentlistinsert :: "bool \<Rightarrow> bool \<Rightarrow> extent list \<Rightarrow> extent \<Rightarrow> extent list \<times> bool" where
  "logfsextentlistinsert sm fm l add = (case insert_loop sm fm add False [] l of
     Inl l \<Rightarrow> (l, False)
   | Inr (don, saved, rest) \<Rightarrow>
       if \<not> saved \<and> \<not> sm then (don @ rest, False) else (don @ add # rest, True))"

section \<open>Queries\<close>

text \<open>\<open>e\<close> and \<open>m\<close> intersect in the file and in the store.\<close>

definition intersects :: "extent \<Rightarrow> extent \<Rightarrow> bool" where
  "intersects e m \<longleftrightarrow> (let flashmax = flashaddr e + (emax e - emin e); l = emax m - emin m in
     emin e < emax m \<and> emin m < emax e \<and> flashaddr m < flashmax \<and> flashaddr e < flashaddr m + l)"

fun logfsextentlistmatch :: "extent list \<Rightarrow> extent \<Rightarrow> extent option" where
  "logfsextentlistmatch [] e = None"
| "logfsextentlistmatch (m # l) e = (if intersects e m then Some m else logfsextentlistmatch l e)"

text \<open>The callbacks get and return the state \<open>'s\<close> behind \<open>magic\<close>; a result at most 0 stops the walk.\<close>

fun logfsextentlistmatchall :: "extent list \<Rightarrow> (extent \<Rightarrow> 's \<Rightarrow> int \<times> 's) \<Rightarrow> 's \<Rightarrow> extent \<Rightarrow> int \<times> 's" where
  "logfsextentlistmatchall [] func s e = (1, s)"
| "logfsextentlistmatchall (m # l) func s e =
     (if emax e \<le> emin m then (1, s)
      else if intersects e m then
        (case func m s of (rv, s) \<Rightarrow> if rv \<le> 0 then (rv, s) else logfsextentlistmatchall l func s e)
      else logfsextentlistmatchall l func s e)"

fun walk_loop :: "(extent \<Rightarrow> bool \<Rightarrow> 's \<Rightarrow> int \<times> 's) \<Rightarrow> u32 \<Rightarrow> extent list \<Rightarrow> 's \<Rightarrow> int \<times> 's" where
  "walk_loop func las [] s = (1, s)"
| "walk_loop func las (n # l) s =
     (let (rv, s) = (if las < emin n
          then func \<lparr>emin = las, emax = emin n, flashaddr = NOT 0\<rparr> True s else (1, s)) in
      if rv \<le> 0 then (rv, s)
      else case func n False s of (rv, s) \<Rightarrow>
        if rv \<le> 0 then (rv, s) else walk_loop func (emax n) l s)"

definition logfsextentlistwalk :: "extent list \<Rightarrow> (extent \<Rightarrow> bool \<Rightarrow> 's \<Rightarrow> int \<times> 's) \<Rightarrow> 's \<Rightarrow> int \<times> 's" where
  "logfsextentlistwalk l func s = walk_loop func 0 l s"

text \<open>
  One round of \<open>logfsextentlistwalkrange\<close> for the range \<open>e\<close>, a hole or an extent: \<open>None\<close> means the walk
  goes on.
\<close>

definition range_step :: "(u32 \<Rightarrow> u32 \<Rightarrow> extent option \<Rightarrow> u32 \<Rightarrow> 's \<Rightarrow> int \<times> 's) \<Rightarrow> u32 \<Rightarrow> u32 \<Rightarrow>
    extent \<Rightarrow> bool \<Rightarrow> 's \<Rightarrow> int option \<times> 's" where
  "range_step func base limit e hole s =
     (if limit \<le> emin e then (Some 1, s)
      else if base < emax e then
        let extentoffset = (if emin e < base then base - emin e else 0);
            rangebase = emin e + extentoffset;
            rangelimit = (if limit < emax e then limit else emax e) in
        (case func (rangebase - base) (rangelimit - base) (if hole then None else Some e) extentoffset s of
           (rv, s) \<Rightarrow> if rv \<le> 0 then (Some rv, s) else (None, s))
      else (None, s))"

fun range_loop :: "(u32 \<Rightarrow> u32 \<Rightarrow> extent option \<Rightarrow> u32 \<Rightarrow> 's \<Rightarrow> int \<times> 's) \<Rightarrow> u32 \<Rightarrow> u32 \<Rightarrow> u32 \<Rightarrow>
    extent list \<Rightarrow> 's \<Rightarrow> int \<times> 's" where
  "range_loop func base limit las [] s = (1, s)"
| "range_loop func base limit las (n # l) s =
     (case (if las < emin n
            then range_step func base limit \<lparr>emin = las, emax = emin n, flashaddr = 0\<rparr> True s
            else (None, s)) of
        (Some rv, s) \<Rightarrow> (rv, s)
      | (None, s) \<Rightarrow> (case range_step func base limit n False s of
          (Some rv, s) \<Rightarrow> (rv, s)
        | (None, s) \<Rightarrow> range_loop func base limit (emax n) l s))"

definition logfsextentlistwalkrange :: "extent list \<Rightarrow>
    (u32 \<Rightarrow> u32 \<Rightarrow> extent option \<Rightarrow> u32 \<Rightarrow> 's \<Rightarrow> int \<times> 's) \<Rightarrow> 's \<Rightarrow> u32 \<Rightarrow> u32 \<Rightarrow> int \<times> 's" where
  "logfsextentlistwalkrange l func s base limit = range_loop func base limit 0 l s"

section \<open>The map of a list\<close>

text \<open>Sorted, disjoint and not empty, as the code says of its lists.\<close>

fun extents_ok :: "extent list \<Rightarrow> bool" where
  "extents_ok [] \<longleftrightarrow> True"
| "extents_ok (e # l) \<longleftrightarrow> emin e < emax e \<and> (\<forall>f\<in>set l. emax e \<le> emin f) \<and> extents_ok l"

abbreviation within :: "extent \<Rightarrow> u32 \<Rightarrow> bool" where
  "within e x \<equiv> emin e \<le> x \<and> x < emax e"

text \<open>The flash address of a byte of an extent, and of a byte of the file.\<close>

definition place1 :: "extent \<Rightarrow> u32 \<Rightarrow> u32" where
  "place1 e x = flashaddr e + (x - emin e)"

fun place :: "extent list \<Rightarrow> u32 \<Rightarrow> u32 option" where
  "place [] x = None"
| "place (e # l) x = (if within e x then Some (place1 e x) else place l x)"

lemma extents_ok_append: "extents_ok (l @ m) \<longleftrightarrow>
    extents_ok l \<and> extents_ok m \<and> (\<forall>e\<in>set l. \<forall>f\<in>set m. emax e \<le> emin f)"
  by (induction l) auto

lemma place_append: "place (l @ m) x = (case place l x of None \<Rightarrow> place m x | Some a \<Rightarrow> Some a)"
  by (induction l) auto

lemma place_None: "place l x = None \<longleftrightarrow> (\<forall>e\<in>set l. \<not> within e x)"
  by (induction l) auto

lemma place_trim: "place1 (e\<lparr>emin := emin e + t, flashaddr := flashaddr e + t\<rparr>) x = place1 e x"
  by (simp add: place1_def algebra_simps)

lemma place_shrink: "place1 (e\<lparr>emax := m\<rparr>) x = place1 e x"
  by (simp add: place1_def)

lemma place_frag: "place1 \<lparr>emin = m, emax = k, flashaddr = flashaddr e + (m - emin e)\<rparr> x = place1 e x"
  by (simp add: place1_def)

lemma above: "m \<le> emin e \<Longrightarrow> emin e < emax e \<Longrightarrow> (\<forall>f\<in>set l. emax e \<le> emin f) \<Longrightarrow> (\<forall>f\<in>set l. m \<le> emin f)"
  for m :: u32
  by (meson less_imp_le order_trans)

lemma above': "m < emax e \<Longrightarrow> (\<forall>f\<in>set l. emax e \<le> emin f) \<Longrightarrow> (\<forall>f\<in>set l. m \<le> emin f)"
  for m :: u32
  by (meson less_imp_le order_trans)

text \<open>The lists the loop leaves are in order, with the new extent between them.\<close>

lemma insert_loop_ok:
  assumes "insert_loop sm fm add saved don l = Inr (don', saved', rest)"
    and "emin add < emax add" "extents_ok (don @ l)" "\<forall>e\<in>set don. emax e \<le> emin add"
  shows "extents_ok (don' @ add # rest)"
  using assms
proof (induction sm fm add saved don l rule: insert_loop.induct)
  case (1 sm fm add saved don)
  then show ?case by (auto simp: extents_ok_append)
next
  case (2 sm fm add saved don old nxt)
  note IH = "2.IH" and prems = "2.prems"
  have ok: "extents_ok don" "emin old < emax old" "\<forall>f\<in>set nxt. emax old \<le> emin f" "extents_ok nxt"
    "\<forall>e\<in>set don. emax e \<le> emin old \<and> (\<forall>f\<in>set nxt. emax e \<le> emin f)"
    using prems(3) by (auto simp: extents_ok_append)
  note ab = above [OF _ ok(2,3)] above' [OF _ ok(3)]
  have d: "\<forall>e\<in>set don. emax e \<le> emax add" using prems(2,4) by (meson less_imp_le order_trans)
  consider (before) "emax add \<le> emin old"
    | (after) "\<not> emax add \<le> emin old" "\<not> emin add < emax old"
    | (front) "\<not> emax add \<le> emin old" "emin old < emax add" "emin add < emax old" "emin add \<le> emin old" "emax add < emax old"
    | (cover) "\<not> emax add \<le> emin old" "emin old < emax add" "emin add < emax old" "emin add \<le> emin old" "\<not> emax add < emax old"
    | (split) "\<not> emax add \<le> emin old" "emin old < emax add" "emin add < emax old" "\<not> emin add \<le> emin old" "emax add < emax old"
    | (tail) "\<not> emax add \<le> emin old" "emin old < emax add" "emin add < emax old" "\<not> emin add \<le> emin old" "\<not> emax add < emax old"
    by (meson not_le)
  then show ?case
  proof cases
    case before
    then have "don' = don" "rest = old # nxt" using prems(1) by auto
    then show ?thesis using prems(2,4) ok before ab(1) [of "emax add"] by (simp add: extents_ok_append)
  next
    case after
    then have "insert_loop sm fm add saved (don @ [old]) nxt = Inr (don', saved', rest)"
      using prems(1) by simp
    from IH(3) [OF _ _ this] show ?thesis using after prems(2-4) by simp
  next
    case front
    then have "don' = don" "rest = old\<lparr>emin := emax add, flashaddr := flashaddr old + (emax add - emin old)\<rparr> # nxt"
      using prems(1) by (simp_all add: Let_def split: if_splits)
    then show ?thesis using prems(2,4) ok front ab(2) [of "emax add"] d
      by (simp add: extents_ok_append)
  next
    case cover
    then have "insert_loop sm fm add True don nxt = Inr (don', saved', rest)"
      using prems(1) by simp
    from IH(1) [OF _ _ _ _ this] show ?thesis using cover prems(2,4) ok
      by (simp add: extents_ok_append)
  next
    case split
    then have "don' = don @ [old\<lparr>emax := emin add\<rparr>]"
      "rest = \<lparr>emin = emax add, emax = emax old, flashaddr = flashaddr old + (emax add - emin old)\<rparr> # nxt"
      using prems(1) by (simp_all add: Let_def split: if_splits)
    moreover have "emin old < emin add" "emin add \<le> emax add" using split prems(2) by simp_all
    ultimately show ?thesis using prems(2,4) ok split ab(2) [of "emax add"] ab(2) [of "emin add"] d
      by (simp add: extents_ok_append)
  next
    case tail
    then have "insert_loop sm fm add True (don @ [old\<lparr>emax := emin add\<rparr>]) nxt = Inr (don', saved', rest)"
      using prems(1) by (simp split: if_splits)
    moreover have "emin old < emin add" "saved \<or> sm" using tail prems(1) by (simp_all split: if_splits)
    ultimately show ?thesis using IH(2) tail prems(2,4) ok ab(2) [of "emin add"]
      by (simp add: extents_ok_append split: if_splits)
  qed
qed

text \<open>Outside the new extent they place every byte as before.\<close>

lemma insert_loop_place:
  assumes "insert_loop sm fm add saved don l = Inr (don', saved', rest)"
    and "emin add < emax add" "\<not> within add x"
  shows "place (don' @ rest) x = place (don @ l) x"
  using assms
proof (induction sm fm add saved don l rule: insert_loop.induct)
  case (2 sm fm add saved don old nxt)
  note IH = "2.IH" and prems = "2.prems"
  consider (before) "emax add \<le> emin old"
    | (after) "\<not> emax add \<le> emin old" "\<not> emin add < emax old"
    | (front) "\<not> emax add \<le> emin old" "emin old < emax add" "emin add < emax old" "emin add \<le> emin old" "emax add < emax old"
    | (cover) "\<not> emax add \<le> emin old" "emin old < emax add" "emin add < emax old" "emin add \<le> emin old" "\<not> emax add < emax old"
    | (split) "\<not> emax add \<le> emin old" "emin old < emax add" "emin add < emax old" "\<not> emin add \<le> emin old" "emax add < emax old"
    | (tail) "\<not> emax add \<le> emin old" "emin old < emax add" "emin add < emax old" "\<not> emin add \<le> emin old" "\<not> emax add < emax old"
    by (meson not_le)
  then show ?case
  proof cases
    case before
    then show ?thesis using prems(1) by simp
  next
    case after
    then show ?thesis using IH(3) prems by simp
  next
    case front
    let ?old = "old\<lparr>emin := emin old + (emax add - emin old), flashaddr := flashaddr old + (emax add - emin old)\<rparr>"
    have "don' = don" "rest = ?old # nxt"
      using prems(1) front by (simp_all add: Let_def split: if_splits)
    moreover have "within ?old x \<longleftrightarrow> within old x"
      using prems(3) front by (auto intro: order_trans less_imp_le)
    ultimately show ?thesis using place_trim [of old "emax add - emin old" x]
      by (simp add: place_append split: option.split)
  next
    case cover
    then have "\<not> within old x" using prems(3) by (meson le_less_trans not_le order_trans)
    moreover have "insert_loop sm fm add True don nxt = Inr (don', saved', rest)"
      using prems(1) cover by simp
    moreover have "place (old # nxt) x = place nxt x" using \<open>\<not> within old x\<close> by auto
    ultimately show ?thesis using IH(1) prems(2,3) cover by (simp only: place_append) simp
  next
    case split
    let ?frag = "\<lparr>emin = emax add, emax = emax old, flashaddr = flashaddr old + (emax add - emin old)\<rparr>"
    have e: "don' = don @ [old\<lparr>emax := emin add\<rparr>]" "rest = ?frag # nxt"
      using prems(1) split by (simp_all add: Let_def split: if_splits)
    have "within (old\<lparr>emax := emin add\<rparr>) x \<or> within ?frag x \<longleftrightarrow> within old x"
      using prems(2,3) split by (auto intro: order_trans less_imp_le)
    then show ?thesis
      by (auto simp: e place_append place_shrink place_frag split: option.splits)
  next
    case tail
    have "insert_loop sm fm add True (don @ [old\<lparr>emax := emin add\<rparr>]) nxt = Inr (don', saved', rest)"
      using prems(1) tail by (simp split: if_splits)
    moreover have "within (old\<lparr>emax := emin add\<rparr>) x \<longleftrightarrow> within old x"
      using prems(2,3) tail by (auto intro: order_trans less_imp_le)
    ultimately show ?thesis using IH(2) tail prems
      by (simp add: place_append place_shrink split: if_splits option.splits)
  qed
qed simp

text \<open>Running out of memory is found before anything has changed.\<close>

lemma insert_saved:
  "extents_ok l \<Longrightarrow> \<forall>f\<in>set l. emin add \<le> emin f \<Longrightarrow>
    \<exists>don' rest. insert_loop sm fm add True don l = Inr (don', True, rest)"
proof (induction l arbitrary: don)
  case (Cons old l)
  then show ?case by (auto simp: Let_def)
qed simp

lemma insert_unsaved:
  assumes "extents_ok l"
  shows "case insert_loop sm fm add False don l of
     Inl l' \<Rightarrow> l' = don @ l
   | Inr (don', saved, rest) \<Rightarrow> \<not> saved \<longrightarrow> don' @ rest = don @ l"
  using assms
proof (induction l arbitrary: don)
  case (Cons old l)
  have IH: "case insert_loop sm fm add False (don @ [old]) l of
     Inl l' \<Rightarrow> l' = don @ old # l
   | Inr (don', saved, rest) \<Rightarrow> \<not> saved \<longrightarrow> don' @ rest = don @ old # l"
    using Cons.IH [of "don @ [old]"] Cons.prems
    by (simp only: append_assoc append.simps extents_ok.simps)
  have mem: "\<exists>don' rest. insert_loop sm fm add True d l = Inr (don', True, rest)"
    if "emin add < emax old" for d
  proof -
    have "\<forall>f\<in>set l. emin add \<le> emin f" using above' [OF that, of l] Cons.prems by simp
    then show ?thesis using insert_saved Cons.prems by simp
  qed
  show ?case
    using IH mem [of don] mem [of "don @ [old\<lparr>emax := emin add\<rparr>]"] Cons.prems
    by (auto simp: Let_def)
qed simp

section \<open>Insertion overrides the map\<close>

lemma place_extent: "within e x \<Longrightarrow> place (l @ e # m) x = (case place l x of None \<Rightarrow> Some (place1 e x) | a \<Rightarrow> a)"
  by (simp add: place_append split: option.split)

lemma place_before: "extents_ok (l @ e # m) \<Longrightarrow> within e x \<Longrightarrow> place l x = None"
  by (auto simp: extents_ok_append place_None)

text \<open>C24: Inserting a non-empty extent into a list that is sorted, disjoint and without empty extents leaves
  such a list, whose map from file offsets to flash addresses is the old one overridden on the
  range of the new extent; overlapped extents are trimmed, split or dropped so that every other
  byte keeps its address. When there is no memory the list is unchanged.\<close>

theorem insert_overrides:
  assumes "extents_ok l" "emin add < emax add"
  shows "case logfsextentlistinsert sm fm l add of
     (l', True) \<Rightarrow> extents_ok l' \<and> (\<forall>x. place l' x = (if within add x then Some (place1 add x) else place l x))
   | (l', False) \<Rightarrow> l' = l"
proof (cases "insert_loop sm fm add False [] l")
  case (Inl l')
  then show ?thesis using insert_unsaved [OF assms(1), where don = "[]" and sm = sm and fm = fm and add = add]
    by (simp add: logfsextentlistinsert_def)
next
  case (Inr r)
  obtain don saved rest where r: "r = (don, saved, rest)" by (cases r)
  note I = Inr [unfolded r]
  have ok: "extents_ok (don @ add # rest)"
    using insert_loop_ok [OF I assms(2)] assms(1) by simp
  have pl: "place (don @ add # rest) x = (if within add x then Some (place1 add x) else place l x)" for x
  proof (cases "within add x")
    case True
    then show ?thesis using place_before [OF ok True] place_extent [OF True, of don rest] by simp
  next
    case False
    then have "place (add # rest) x = place rest x" by auto
    then show ?thesis using insert_loop_place [OF I assms(2) False] False by (simp only: place_append) simp
  qed
  show ?thesis using insert_unsaved [OF assms(1), where don = "[]" and sm = sm and fm = fm and add = add] I ok pl
    by (simp add: logfsextentlistinsert_def)
qed

section \<open>Walking a range\<close>

text \<open>The calls a walk makes: offsets from \<open>base\<close> of a range, its extent or \<open>None\<close>, and the offset in the extent.\<close>

type_synonym rcall = "u32 \<times> u32 \<times> extent option \<times> u32"

definition clip :: "u32 \<Rightarrow> u32 \<Rightarrow> u32 \<Rightarrow> u32 \<Rightarrow> extent option \<Rightarrow> rcall list" where
  "clip base limit lo hi e =
     (if base < hi then
        let off = (if lo < base then base - lo else 0) in
        [(lo + off - base, (if limit < hi then limit else hi) - base, e, off)]
      else [])"

fun ranges :: "u32 \<Rightarrow> u32 \<Rightarrow> u32 \<Rightarrow> extent list \<Rightarrow> rcall list" where
  "ranges base limit las [] = []"
| "ranges base limit las (n # l) =
     (if las < emin n \<and> limit \<le> las then []
      else (if las < emin n then clip base limit las (emin n) None else [])
        @ (if limit \<le> emin n then []
           else clip base limit (emin n) (emax n) (Some n) @ ranges base limit (emax n) l))"

text \<open>Making calls until one returns at most 0.\<close>

fun run_calls :: "(u32 \<Rightarrow> u32 \<Rightarrow> extent option \<Rightarrow> u32 \<Rightarrow> 's \<Rightarrow> int \<times> 's) \<Rightarrow> rcall list \<Rightarrow> 's \<Rightarrow> int \<times> 's" where
  "run_calls func [] s = (1, s)"
| "run_calls func ((b, m, e, off) # cs) s =
     (case func b m e off s of (rv, s) \<Rightarrow> if rv \<le> 0 then (rv, s) else run_calls func cs s)"

fun chain :: "u32 \<Rightarrow> rcall list \<Rightarrow> bool" where
  "chain b [] \<longleftrightarrow> True"
| "chain b ((b', m, e, off) # cs) \<longleftrightarrow> b' = b \<and> b < m \<and> chain m cs"

text \<open>A call tells the truth about the bytes of its range.\<close>

fun reads :: "extent list \<Rightarrow> u32 \<Rightarrow> rcall \<Rightarrow> bool" where
  "reads l base (b, m, e, off) \<longleftrightarrow> (\<forall>y. b \<le> y \<and> y < m \<longrightarrow>
     place l (base + y) = (case e of None \<Rightarrow> None | Some n \<Rightarrow> Some (flashaddr n + (off + (y - b)))))"

lemma run_calls_append: "run_calls func (cs @ ds) s = (case run_calls func cs s of
    (rv, s) \<Rightarrow> if rv \<le> 0 then (rv, s) else run_calls func ds s)"
  by (induction func cs s rule: run_calls.induct) (auto split: prod.splits)

lemma range_step_clip:
  "range_step func base limit e hole s = (if limit \<le> emin e then (Some 1, s)
     else case run_calls func (clip base limit (emin e) (emax e) (if hole then None else Some e)) s of
       (rv, s) \<Rightarrow> (if rv \<le> 0 then Some rv else None, s))"
  by (auto simp: range_step_def clip_def Let_def split: prod.splits)

lemma range_loop_calls: "range_loop func base limit las l s = run_calls func (ranges base limit las l) s"
  by (induction func base limit las l s rule: range_loop.induct)
    (auto simp: range_step_clip run_calls_append split: prod.splits)

lemma clip_chain:
  assumes "base < limit" "lo < limit" "lo < hi" "hi \<le> limit \<Longrightarrow> chain (max hi base - base) cs" "limit < hi \<Longrightarrow> cs = []"
  shows "chain (max lo base - base) (clip base limit lo hi e @ cs)"
proof (cases "base < hi")
  case True
  have "max lo base - base = lo + (if lo < base then base - lo else 0) - base"
    by (auto simp: max_def)
  moreover have "max lo base - base < (if limit < hi then limit else hi) - base"
    using True assms(1-3) unfolding max_def by (auto; uint_arith)
  moreover have "hi \<le> limit \<Longrightarrow> chain (hi - base) cs"
    using assms(4) True by (simp add: max_absorb1)
  ultimately show ?thesis using True assms(5) by (cases "limit < hi") (auto simp: clip_def Let_def)
next
  case False
  then have "hi \<le> limit" using assms(1) by simp
  moreover have "lo \<le> base" using False assms(3) by simp
  ultimately show ?thesis using False assms(4) by (simp add: clip_def max_absorb2)
qed

lemma ranges_stop: "limit \<le> las \<Longrightarrow> \<forall>f\<in>set l. las \<le> emin f \<Longrightarrow> ranges base limit las l = []"
  by (cases l) auto

lemma ranges_chain:
  assumes "base < limit" "extents_ok l" "\<forall>f\<in>set l. las \<le> emin f"
  shows "chain (max las base - base) (ranges base limit las l)"
  using assms(2,3)
proof (induction l arbitrary: las)
  case (Cons n l)
  have IH: "chain (max (emax n) base - base) (ranges base limit (emax n) l)" using Cons by simp
  show ?case
  proof (cases "limit \<le> las")
    case True
    then show ?thesis using ranges_stop [OF True Cons.prems(2)] by simp
  next
    case False
    have ext: "chain (max (emin n) base - base) (if limit \<le> emin n then []
        else clip base limit (emin n) (emax n) (Some n) @ ranges base limit (emax n) l)"
      using clip_chain [OF assms(1), of "emin n" "emax n" "ranges base limit (emax n) l" "Some n"] IH Cons.prems
        ranges_stop [of limit "emax n" l base] by simp
    show ?thesis
    proof (cases "las < emin n")
      case True
      let ?cs = "if limit \<le> emin n then []
        else clip base limit (emin n) (emax n) (Some n) @ ranges base limit (emax n) l"
      have "ranges base limit las (n # l) = clip base limit las (emin n) None @ ?cs"
        using True False by simp
      moreover have "chain (max las base - base) (clip base limit las (emin n) None @ ?cs)"
        by (rule clip_chain [OF assms(1) _ True]) (use False ext in auto)
      ultimately show ?thesis by simp
    next
      case False
      then have "las = emin n" using Cons.prems by simp
      then show ?thesis using ext \<open>\<not> limit \<le> las\<close> by simp
    qed
  qed
qed simp

lemma off_less: "y < m - base \<Longrightarrow> base \<le> m \<Longrightarrow> base + y < m \<and> base \<le> base + y" for y :: u32
  by uint_arith

lemma off_ge: "lo - base \<le> y \<Longrightarrow> base \<le> lo \<Longrightarrow> y < m - base \<Longrightarrow> base \<le> m \<Longrightarrow> lo \<le> base + y" for y :: u32
  by uint_arith

lemma clip_within:
  assumes "(b, m, e, off) \<in> set (clip base limit lo hi e')" "base < limit" "b \<le> y" "y < m"
  shows "e = e' \<and> lo \<le> base + y \<and> base + y < hi \<and> off + (y - b) = base + y - lo"
proof -
  have h: "base < hi" and e: "e = e'" and b: "b = lo + (if lo < base then base - lo else 0) - base"
    and m: "m = (if limit < hi then limit else hi) - base" and off: "off = (if lo < base then base - lo else 0)"
    using assms(1) by (auto simp: clip_def Let_def split: if_splits)
  have y: "y < (if limit < hi then limit else hi) - base" using assms(4) m by simp
  have le: "base \<le> (if limit < hi then limit else hi)" using h assms(2) by auto
  have "base + y < (if limit < hi then limit else hi)" "base \<le> base + y"
    using off_less [OF y le] by auto
  then have 1: "base + y < hi" by (auto split: if_splits)
  have 2: "lo \<le> base + y"
  proof (cases "lo < base")
    case True
    then show ?thesis using \<open>base \<le> base + y\<close> by auto
  next
    case False
    then show ?thesis using assms(3) b off_ge [OF _ _ y le, of lo] by auto
  qed
  have "off + (y - b) = base + y - lo" using b off by auto
  with e 1 2 show ?thesis by simp
qed

lemma place_hole:
  assumes "extents_ok (n # l)" "x < emin n"
  shows "place (n # l) x = None"
  using assms by (auto simp: place_None)

lemma ranges_reads:
  assumes "base < limit" "extents_ok l" "\<forall>f\<in>set l. las \<le> emin f"
    and "(b, m, e, off) \<in> set (ranges base limit las l)" "b \<le> y" "y < m"
  shows "las \<le> base + y \<and> place l (base + y)
    = (case e of None \<Rightarrow> None | Some n \<Rightarrow> Some (flashaddr n + (off + (y - b))))"
  using assms(2-4)
proof (induction l arbitrary: las)
  case (Cons n l)
  consider (hole) "(b, m, e, off) \<in> set (clip base limit las (emin n) None)"
    | (ext) "(b, m, e, off) \<in> set (clip base limit (emin n) (emax n) (Some n))"
    | (rest) "(b, m, e, off) \<in> set (ranges base limit (emax n) l)"
    using Cons.prems(3) by (auto split: if_splits)
  then show ?case
  proof cases
    case hole
    note w = clip_within [OF hole assms(1,5,6)]
    then show ?thesis using place_hole [OF Cons.prems(1), of "base + y"] by simp
  next
    case ext
    note w = clip_within [OF ext assms(1,5,6)]
    moreover have "las \<le> emin n" using Cons.prems(2) by simp
    ultimately show ?thesis by (auto simp: place1_def intro: order_trans)
  next
    case rest
    have w: "emax n \<le> base + y \<and> place l (base + y)
        = (case e of None \<Rightarrow> None | Some n \<Rightarrow> Some (flashaddr n + (off + (y - b))))"
      using Cons.IH [OF _ _ rest] Cons.prems by simp
    moreover have "las \<le> base + y"
      using w Cons.prems by (auto intro: order_trans less_imp_le)
    ultimately show ?thesis by auto
  qed
qed simp

lemma clip_covers:
  assumes "base < limit" "base \<le> x" "x < limit" "lo \<le> x" "x < hi"
  shows "\<exists>b m off. (b, m, e, off) \<in> set (clip base limit lo hi e) \<and> b \<le> x - base \<and> x - base < m"
proof -
  have "base < hi" using assms(2,5) by simp
  moreover have "lo + (if lo < base then base - lo else 0) - base \<le> x - base"
    using assms(2,4) by (auto; uint_arith)
  moreover have "x - base < (if limit < hi then limit else hi) - base"
    using assms by (auto; uint_arith)
  ultimately show ?thesis by (auto simp: clip_def Let_def)
qed

lemma ranges_cover:
  assumes "base < limit" "base \<le> x" "x < limit" "extents_ok l" "\<forall>f\<in>set l. las \<le> emin f" "place l x \<noteq> None"
  shows "\<exists>b m e off. (b, m, e, off) \<in> set (ranges base limit las l) \<and> b \<le> x - base \<and> x - base < m"
  using assms(4-6)
proof (induction l arbitrary: las)
  case (Cons n l)
  have n: "emin n < emax n" "las \<le> emin n" using Cons.prems by auto
  have x: "emin n \<le> x"
    using Cons.prems place_hole [OF Cons.prems(1), of x] by (meson not_le)
  then have go: "\<not> (las < emin n \<and> limit \<le> las)" "\<not> limit \<le> emin n" using n assms(3) by auto
  show ?case
  proof (cases "x < emax n")
    case True
    from clip_covers [OF assms(1-3) x True, of "Some n"] go show ?thesis by auto
  next
    case False
    then have "place l x \<noteq> None" using Cons.prems(3) by auto
    from Cons.IH [OF _ _ this, of "emax n"] Cons.prems(1) go show ?thesis by auto
  qed
qed simp

text \<open>C25: Walking a range of a file visits it in order and tells the truth: whatever the callback and its
  state, the walk makes a fixed sequence of calls (until one returns at most 0), whose ranges
  follow each other without gap from the start of the range; a call for a hole covers bytes that
  have no place, a call for an extent covers bytes at the flash addresses it implies, and every
  byte that has a place is visited.\<close>

theorem walkrange_reads:
  assumes "extents_ok l" "base < limit"
  shows "logfsextentlistwalkrange l func s base limit = run_calls func (ranges base limit 0 l) s
    \<and> chain 0 (ranges base limit 0 l)
    \<and> (\<forall>c\<in>set (ranges base limit 0 l). reads l base c)
    \<and> (\<forall>x. base \<le> x \<and> x < limit \<and> place l x \<noteq> None \<longrightarrow>
        (\<exists>b m e off. (b, m, e, off) \<in> set (ranges base limit 0 l) \<and> b \<le> x - base \<and> x - base < m))"
proof (intro conjI)
  show "logfsextentlistwalkrange l func s base limit = run_calls func (ranges base limit 0 l) s"
    by (simp add: logfsextentlistwalkrange_def range_loop_calls)
  show "chain 0 (ranges base limit 0 l)"
    using ranges_chain [OF assms(2,1), of 0] by (simp add: max_absorb2)
  show "\<forall>c\<in>set (ranges base limit 0 l). reads l base c"
    using ranges_reads [OF assms(2,1), of 0] by auto
  show "\<forall>x. base \<le> x \<and> x < limit \<and> place l x \<noteq> None \<longrightarrow>
        (\<exists>b m e off. (b, m, e, off) \<in> set (ranges base limit 0 l) \<and> b \<le> x - base \<and> x - base < m)"
    using ranges_cover [OF assms(2) _ _ assms(1), where las = 0] by simp
qed

definition sample_extents :: "extent list" where
  "sample_extents = [\<lparr>emin = 10, emax = 20, flashaddr = 1000\<rparr>, \<lparr>emin = 30, emax = 40, flashaddr = 2000\<rparr>]"

lemma sample_extents_ok: "extents_ok sample_extents"
  by (simp add: sample_extents_def)

theorem insert_overrides_witness:
  "case logfsextentlistinsert True True sample_extents \<lparr>emin = 12, emax = 35, flashaddr = 3000\<rparr> of
     (l', True) \<Rightarrow> extents_ok l' \<and> place l' 11 = Some 1001 \<and> place l' 15 = Some 3003 \<and> place l' 35 = Some 2005
   | (l', False) \<Rightarrow> l' = sample_extents"
proof -
  have "case logfsextentlistinsert True True sample_extents \<lparr>emin = 12, emax = 35, flashaddr = 3000\<rparr> of
     (l', True) \<Rightarrow> extents_ok l' \<and> (\<forall>x. place l' x = (if within \<lparr>emin = 12, emax = 35, flashaddr = 3000\<rparr> x
        then Some (place1 \<lparr>emin = 12, emax = 35, flashaddr = 3000\<rparr> x) else place sample_extents x))
   | (l', False) \<Rightarrow> l' = sample_extents"
    by (rule insert_overrides [OF sample_extents_ok]) simp
  then show ?thesis
    by (auto simp: sample_extents_def place1_def split: prod.splits bool.splits)
qed

theorem walkrange_reads_witness:
  "chain 0 (ranges 15 38 0 sample_extents)
   \<and> ranges 15 38 0 sample_extents = [(0, 5, Some \<lparr>emin = 10, emax = 20, flashaddr = 1000\<rparr>, 5),
       (5, 15, None, 0), (15, 23, Some \<lparr>emin = 30, emax = 40, flashaddr = 2000\<rparr>, 0)]"
  using walkrange_reads [OF sample_extents_ok, of 15 38 "\<lambda>_ _ _ _ s. (1, s)" "()"]
  by (simp add: sample_extents_def clip_def)

end
