(* ===== verification/LogMsg.thy ===== *)
theory LogMsg
  imports Wire
begin

text \<open>
  The messages of the file system's log, \<open>liblogfs/conv.c\<close> and \<open>liblogfs/gn.c\<close>: \<open>logfssizeS2M\<close>,
  \<open>logfsconvS2M\<close>, \<open>logfsconvM2S\<close>.

  \<open>struct LogMessage\<close> is a datatype with one constructor per type of message, the fields in the
  order of the union's member; \<open>LOther\<close> is a message of a type the switch statements do not know. A
  string pointer is \<open>None\<close> when it is nil. The end \<open>mep\<close> of a message is kept as the number \<open>beh\<close> of bytes
  of the buffer behind it.
\<close>

section \<open>Messages\<close>

datatype logmsg =
    LStart (path: u32) (nerase: u32)
  | LCreate (path: u32) (perm: u32) (newpath: u32) (mtime: u32) (cvers: u32)
      (name: "cstr option") (uid: "cstr option") (gid: "cstr option")
  | LTrunc (path: u32) (mtime: u32) (cvers: u32) (muid: "cstr option")
  | LRemove (path: u32) (mtime: u32) (muid: "cstr option")
  | LWrite (path: u32) (woffset: u32) (wcount: u32) (mtime: u32) (cvers: u32) (muid: "cstr option")
      (flashaddr: u32) (wdata: "bytes option")
  | LWstat (path: u32) (name: "cstr option") (perm: u32) (uid: "cstr option") (gid: "cstr option")
      (mtime: u32) (muid: "cstr option")
  | LEnd
  | LOther u8

abbreviation "LogfsLogTstart \<equiv> (115 :: u8)"
abbreviation "LogfsLogTcreate \<equiv> (99 :: u8)"
abbreviation "LogfsLogTtrunc \<equiv> (116 :: u8)"
abbreviation "LogfsLogTremove \<equiv> (114 :: u8)"
abbreviation "LogfsLogTwrite \<equiv> (119 :: u8)"
abbreviation "LogfsLogTwstat \<equiv> (87 :: u8)"
abbreviation "LogfsLogTend \<equiv> (101 :: u8)"

abbreviation "LogAddr \<equiv> (0x80000000 :: u32)"

fun ltype :: "logmsg \<Rightarrow> u8" where
  "ltype (LStart _ _) = LogfsLogTstart"
| "ltype (LCreate _ _ _ _ _ _ _ _) = LogfsLogTcreate"
| "ltype (LTrunc _ _ _ _) = LogfsLogTtrunc"
| "ltype (LRemove _ _ _) = LogfsLogTremove"
| "ltype (LWrite _ _ _ _ _ _ _ _) = LogfsLogTwrite"
| "ltype (LWstat _ _ _ _ _ _ _) = LogfsLogTwstat"
| "ltype LEnd = LogfsLogTend"
| "ltype (LOther t) = t"

section \<open>Encoding\<close>

abbreviation str :: "cstr option \<Rightarrow> cstr" where
  "str v \<equiv> (case v of None \<Rightarrow> [] | Some s \<Rightarrow> s)"

definition pn :: "cstr option \<Rightarrow> bytes" where
  "pn v = PBIT16 (of_nat (length (str v))) @ str v"

definition sn :: "cstr option \<Rightarrow> u32" where
  "sn p = (case p of None \<Rightarrow> 2 | Some s \<Rightarrow> of_nat (length s) + 2)"

fun logfssizeS2M :: "logmsg \<Rightarrow> u32" where
  "logfssizeS2M LEnd = 1"
| "logfssizeS2M (LStart _ _) = 11"
| "logfssizeS2M (LCreate _ _ _ _ _ nm u g) = 1 + 2 + 5 * 4 + sn nm + sn u + sn g"
| "logfssizeS2M (LRemove _ _ m) = 1 + 2 + 2 * 4 + sn m"
| "logfssizeS2M (LTrunc _ _ _ m) = 1 + 2 + 3 * 4 + sn m"
| "logfssizeS2M (LWrite _ _ n _ _ m _ d) = 1 + 2 + 2 * 4 + 2 + 2 * 4 + sn m + 4 + (if d \<noteq> None then n else 0)"
| "logfssizeS2M (LWstat _ nm _ u g _ m) = 1 + 2 + 4 + sn nm + 4 + sn u + sn g + 4 + sn m"
| "logfssizeS2M (LOther _) = 0"

text \<open>What is written behind the type, the size and the path.\<close>

fun s2m_body :: "logmsg \<Rightarrow> bytes outcome" where
  "s2m_body (LStart _ n) = Ok (PBIT32 n)"
| "s2m_body (LCreate _ pe np mt cv nm u g) =
     Ok (PBIT32 pe @ PBIT32 np @ PBIT32 mt @ PBIT32 cv @ pn nm @ pn u @ pn g)"
| "s2m_body (LRemove _ mt m) = Ok (PBIT32 mt @ pn m)"
| "s2m_body (LTrunc _ mt cv m) = Ok (PBIT32 mt @ PBIT32 cv @ pn m)"
| "s2m_body (LWrite _ off n mt cv m fa d) =
     obind (case d of None \<Rightarrow> Ok [] | Some x \<Rightarrow> rdmem (unat n) x) (\<lambda>x.
       Ok (PBIT32 off @ PBIT16 (ucast n) @ PBIT32 mt @ PBIT32 cv @ pn m @ PBIT32 fa @ x))"
| "s2m_body (LWstat _ nm pe u g mt m) = Ok (pn nm @ PBIT32 pe @ pn u @ pn g @ PBIT32 mt @ pn m)"
| "s2m_body LEnd = Ok []"
| "s2m_body (LOther _) = Fail"

text \<open>The bytes written to \<open>ap\<close>; output longer than \<open>nap\<close> is a write outside the buffer.\<close>

definition logfsconvS2M :: "logmsg \<Rightarrow> nat \<Rightarrow> bytes outcome" where
  "logfsconvS2M s nap = (let size = logfssizeS2M s in
     if size = 0 \<or> nap < unat size then Fail
     else if ltype s = LogfsLogTend then Ok (PBIT8 (ltype s))
     else obind (s2m_body s) (\<lambda>body.
       let out = PBIT8 (ltype s) @ PBIT16 (ucast (size - (1 + 2))) @ PBIT32 (path s) @ body in
       if nap < length out then Undef else Ok out))"

section \<open>Decoding\<close>

text \<open>\<open>p + k > mep\<close>\<close>

definition needm :: "nat \<Rightarrow> nat \<Rightarrow> cursor \<Rightarrow> unit option" where
  "needm beh k c = (if length (snd c) < k + beh then None else Some ())"

text \<open>An empty string becomes nil; another is moved down by one byte to make room for its NUL.\<close>

definition logfsgn :: "nat \<Rightarrow> cursor \<Rightarrow> (cstr option \<times> cursor) option" where
  "logfsgn beh c =
     (if length (snd c) < 2 + beh then None
      else let l = unat (GBIT16 (snd c)); p = adv 2 c in
        if length (snd p) < l + beh then None
        else if l = 0 then Some (None, p)
        else let s = take l (snd p) in
          Some (Some (cstr_of s), (fst c @ take 1 (snd c) @ s @ [0], drop l (snd p))))"

definition m2s_body :: "u8 \<Rightarrow> u32 \<Rightarrow> nat \<Rightarrow> cursor \<Rightarrow> (logmsg \<times> cursor) option" where
  "m2s_body t pa beh c0 =
     (if t = LogfsLogTstart then do {
        need 4 c0;
        Some (LStart pa (GBIT32 (snd c0)), adv 4 c0) }
      else if t = LogfsLogTcreate then do {
        needm beh (4 * 4) c0;
        let c1 = adv 4 c0;
        let c2 = adv 4 c1;
        let c3 = adv 4 c2;
        (nm, c) \<leftarrow> logfsgn beh (adv 4 c3);
        (u, c) \<leftarrow> logfsgn beh c;
        (g, c) \<leftarrow> logfsgn beh c;
        Some (LCreate pa (GBIT32 (snd c0)) (GBIT32 (snd c1)) (GBIT32 (snd c2)) (GBIT32 (snd c3)) nm u g, c) }
      else if t = LogfsLogTremove then do {
        needm beh 4 c0;
        (m, c) \<leftarrow> logfsgn beh (adv 4 c0);
        Some (LRemove pa (GBIT32 (snd c0)) m, c) }
      else if t = LogfsLogTtrunc then do {
        needm beh (2 * 4) c0;
        let c1 = adv 4 c0;
        (m, c) \<leftarrow> logfsgn beh (adv 4 c1);
        Some (LTrunc pa (GBIT32 (snd c0)) (GBIT32 (snd c1)) m, c) }
      else if t = LogfsLogTwrite then do {
        needm beh (4 + 2 + 2 * 4) c0;
        let c1 = adv 4 c0;
        let n = ucast (GBIT16 (snd c1));
        let c2 = adv 2 c1;
        let c3 = adv 4 c2;
        (m, c) \<leftarrow> logfsgn beh (adv 4 c3);
        needm beh 4 c;
        let fa = GBIT32 (snd c);
        let c4 = adv 4 c;
        if fa AND LogAddr \<noteq> 0 then do {
          needm beh (unat n) c4;
          Some (LWrite pa (GBIT32 (snd c0)) n (GBIT32 (snd c2)) (GBIT32 (snd c3)) m fa
            (Some (take (unat n) (snd c4))), adv (unat n) c4) }
        else Some (LWrite pa (GBIT32 (snd c0)) n (GBIT32 (snd c2)) (GBIT32 (snd c3)) m fa None, c4) }
      else if t = LogfsLogTwstat then do {
        (nm, c) \<leftarrow> logfsgn beh c0;
        needm beh 4 c;
        let pe = GBIT32 (snd c);
        (u, c) \<leftarrow> logfsgn beh (adv 4 c);
        (g, c) \<leftarrow> logfsgn beh c;
        needm beh 4 c;
        let mt = GBIT32 (snd c);
        (m, c) \<leftarrow> logfsgn beh (adv 4 c);
        Some (LWstat pa nm pe u g mt m, c) }
      else None)"

text \<open>The count returned (0 is \<open>None\<close>), the message, and the buffer afterwards.\<close>

definition logfsconvM2S :: "bytes \<Rightarrow> (nat \<times> logmsg \<times> bytes) option" where
  "logfsconvM2S ap = (let c = ([], ap) in do {
     need 1 c;
     let t = GBIT8 (snd c);
     let c = adv 1 c;
     if t = LogfsLogTend then Some (1, LEnd, ap)
     else if t \<notin> {LogfsLogTstart, LogfsLogTcreate, LogfsLogTtrunc, LogfsLogTremove, LogfsLogTwrite, LogfsLogTwstat}
       then None
     else do {
       need 2 c;
       let size = unat (GBIT16 (snd c));
       let c = adv 2 c;
       need size c;
       let beh = length (snd c) - size;
       needm beh 4 c;
       (m, c') \<leftarrow> m2s_body t (GBIT32 (snd c)) beh (adv 4 c);
       if length (snd c') = beh then Some (length (fst c'), m, fst c' @ snd c') else None } })"

section \<open>Round trip\<close>

text \<open>
  A message that fits the wire format: strings hold no NUL and have a 16-bit length, data are
  carried exactly for addresses marked \<open>LogAddr\<close>, and the whole fits a 16-bit size.
\<close>

definition str_ok :: "cstr option \<Rightarrow> bool" where
  "str_ok v \<longleftrightarrow> no_nul (str v) \<and> length (str v) < 65536"

fun strs :: "logmsg \<Rightarrow> cstr option list" where
  "strs (LCreate _ _ _ _ _ nm u g) = [nm, u, g]"
| "strs (LTrunc _ _ _ m) = [m]"
| "strs (LRemove _ _ m) = [m]"
| "strs (LWrite _ _ _ _ _ m _ _) = [m]"
| "strs (LWstat _ nm _ u g _ m) = [nm, u, g, m]"
| "strs _ = []"

fun data_ok :: "logmsg \<Rightarrow> bool" where
  "data_ok (LWrite _ _ n _ _ _ fa d) \<longleftrightarrow> unat n < 65536 \<and> (d \<noteq> None \<longleftrightarrow> fa AND LogAddr \<noteq> 0)
     \<and> (\<forall>x. d = Some x \<longrightarrow> length x = unat n)"
| "data_ok (LOther _) \<longleftrightarrow> False"
| "data_ok _ \<longleftrightarrow> True"

definition logmsg_ok :: "logmsg \<Rightarrow> bool" where
  "logmsg_ok m \<longleftrightarrow> (\<forall>s\<in>set (strs m). str_ok s) \<and> data_ok m"

text \<open>Decoding cannot tell an empty string from none.\<close>

definition norm :: "cstr option \<Rightarrow> cstr option" where
  "norm v = (if str v = [] then None else v)"

fun lnorm :: "logmsg \<Rightarrow> logmsg" where
  "lnorm (LCreate pa pe np mt cv nm u g) = LCreate pa pe np mt cv (norm nm) (norm u) (norm g)"
| "lnorm (LTrunc pa mt cv m) = LTrunc pa mt cv (norm m)"
| "lnorm (LRemove pa mt m) = LRemove pa mt (norm m)"
| "lnorm (LWrite pa off n mt cv m fa d) = LWrite pa off n mt cv (norm m) fa d"
| "lnorm (LWstat pa nm pe u g mt m) = LWstat pa (norm nm) pe (norm u) (norm g) mt (norm m)"
| "lnorm m = m"

lemma needm_simp [codec_simps]: "needm beh k (d, r) = (if length r < k + beh then None else Some ())"
  by (simp add: needm_def)

lemma length_pn [simp]: "length (pn v) = 2 + length (str v)"
  by (simp add: pn_def)

text \<open>What \<open>logfsgn\<close> leaves of a string in the buffer.\<close>

definition gnbuf :: "cstr option \<Rightarrow> bytes" where
  "gnbuf v = (if str v = [] then pn v else take 1 (pn v) @ str v @ [0])"

lemma length_gnbuf [simp]: "length (gnbuf v) = 2 + length (str v)"
  by (simp add: gnbuf_def pn_def)

lemma take1_pn: "take 1 (pn v @ r) = take 1 (pn v)"
  by (simp add: pn_def PBIT16_def)

lemma logfsgn_pn [codec_simps]:
  assumes "str_ok v" "beh \<le> length r"
  shows "logfsgn beh (d, pn v @ r) = Some (norm v, (d @ gnbuf v, r))"
proof -
  have l: "unat (of_nat (length (str v)) :: u16) = length (str v)"
    using assms(1) by (simp add: str_ok_def word_nat)
  have g: "GBIT16 (pn v @ r) = of_nat (length (str v))"
    by (simp add: pn_def GBIT16_PBIT16)
  have a: "adv 2 (d, pn v @ r) = (d @ PBIT16 (of_nat (length (str v))), str v @ r)"
    by (simp add: adv_def pn_def take_drop_PBIT)
  have nn: "no_nul (str v)" using assms(1) by (simp add: str_ok_def)
  show ?thesis
  proof (cases "str v = []")
    case True
    then show ?thesis using assms(2) a g
      by (simp add: logfsgn_def norm_def gnbuf_def pn_def)
  next
    case False
    then obtain s where v: "v = Some s" "s \<noteq> []" by (cases v) auto
    have "logfsgn beh (d, pn v @ r) = Some (Some (cstr_of s), (d @ take 1 (pn v @ r) @ s @ [0], r))"
      using assms(2) a g l v by (simp add: logfsgn_def)
    then show ?thesis using v nn by (simp add: norm_def gnbuf_def take1_pn)
  qed
qed

lemma body_roundtrip:
  assumes "logmsg_ok m" "s2m_body m = Ok b" "m \<noteq> LEnd"
  shows "\<exists>d'. m2s_body (ltype m) (path m) (length r) (d, b @ r) = Some (lnorm m, (d', r))
    \<and> length d' = length d + length b"
proof (cases m)
  case (LWrite pa off n mt cv mu fa x)
  have n: "unat (ucast (ucast n :: u16) :: u32) = unat n"
    using assms(1) LWrite by (simp add: logmsg_ok_def unsigned_ucast_eq unsigned_take_bit_eq take_bit_nat_eq_self)
  then have un: "(ucast (ucast n :: u16) :: u32) = n" by (rule word_unat_eq_iff [THEN iffD2])
  show ?thesis
  proof (cases x)
    case None
    then show ?thesis using assms(1,2) LWrite un n
      by (auto simp: m2s_body_def logmsg_ok_def codec_simps)
  next
    case (Some y)
    then have y: "length y = unat n" using assms(1) LWrite by (simp add: logmsg_ok_def)
    then have "rdmem (unat n) y = Ok y" by (simp add: rdmem_def)
    then show ?thesis using assms(1,2) LWrite un y Some
      by (auto simp: m2s_body_def logmsg_ok_def codec_simps)
  qed
qed (use assms in \<open>auto simp: m2s_body_def logmsg_ok_def codec_simps\<close>)

lemma size_pn: "sn v = of_nat (length (pn v))"
  by (cases v) (simp_all add: sn_def)

lemma log_body_size:
  assumes "logmsg_ok m" "m \<noteq> LEnd"
  shows "\<exists>b. s2m_body m = Ok b \<and> logfssizeS2M m = of_nat (7 + length b) \<and> 7 + length b < 2 ^ 20"
proof (cases m)
  case (LWrite pa off n mt cv mu fa x)
  show ?thesis
    using assms(1) LWrite
    by (cases x) (auto simp: logmsg_ok_def str_ok_def size_pn rdmem_def word_of_nat_eq_iff)
qed (use assms in \<open>auto simp: logmsg_ok_def str_ok_def size_pn\<close>)

lemma ltype_known:
  "m \<noteq> LEnd \<Longrightarrow> data_ok m \<Longrightarrow> ltype m \<noteq> LogfsLogTend
    \<and> ltype m \<in> {LogfsLogTstart, LogfsLogTcreate, LogfsLogTtrunc, LogfsLogTremove, LogfsLogTwrite, LogfsLogTwstat}"
  by (cases m) simp_all

lemma s2m_frame:
  assumes "logmsg_ok m" "m \<noteq> LEnd"
  obtains b where "s2m_body m = Ok b" "unat (logfssizeS2M m) = 7 + length b" "7 + length b < 2 ^ 20"
    "logfsconvS2M m nap = (if nap < 7 + length b then Fail
       else Ok (PBIT8 (ltype m) @ PBIT16 (of_nat (4 + length b)) @ PBIT32 (path m) @ b))"
proof -
  obtain b where b: "s2m_body m = Ok b" "logfssizeS2M m = of_nat (7 + length b)" "7 + length b < 2 ^ 20"
    using log_body_size [OF assms] by blast
  have u: "unat (logfssizeS2M m) = 7 + length b" using b(2,3) by (simp add: word_nat del: of_nat_add)
  have "logfssizeS2M m - (1 + 2) = of_nat (4 + length b)" by (simp add: b(2))
  then have c: "(ucast (logfssizeS2M m - (1 + 2)) :: u16) = of_nat (4 + length b)"
    using b(3) by (simp add: unsigned_of_nat take_bit_nat_eq_self del: of_nat_add)
  have t: "ltype m \<noteq> LogfsLogTend"
    using ltype_known assms by (simp add: logmsg_ok_def)
  have z: "logfssizeS2M m \<noteq> 0" using u by (metis add_is_0 unat_0 zero_neq_numeral)
  have "logfsconvS2M m nap = (if nap < 7 + length b then Fail
       else Ok (PBIT8 (ltype m) @ PBIT16 (of_nat (4 + length b)) @ PBIT32 (path m) @ b))"
    unfolding logfsconvS2M_def Let_def c b(1) obind.simps using u t z by simp
  from that [OF b(1) u b(3) this] show thesis .
qed

text \<open>C26: Encoding a log message stays inside the buffer and fails exactly when the message is longer than
  the buffer, and a message whose size fits the 16-bit size field is read back, from a buffer with
  anything behind it, as the same message with empty strings turned into nil; the count of bytes
  consumed is the count written and the buffer keeps its length.\<close>

theorem logmsg_roundtrip:
  assumes "logmsg_ok m" "unat (logfssizeS2M m) < 65536 + 3"
  shows "case logfsconvS2M m nap of
     Undef \<Rightarrow> False
   | Fail \<Rightarrow> nap < unat (logfssizeS2M m)
   | Ok out \<Rightarrow> length out = unat (logfssizeS2M m) \<and> length out \<le> nap
       \<and> (\<exists>buf. logfsconvM2S (out @ rest) = Some (length out, lnorm m, buf)
            \<and> length buf = length (out @ rest))"
proof (cases "m = LEnd")
  case True
  then show ?thesis
    by (auto simp: logfsconvS2M_def logfsconvM2S_def codec_simps PBIT8_def GBIT8_def Let_def)
next
  case False
  obtain b where b: "s2m_body m = Ok b" "unat (logfssizeS2M m) = 7 + length b"
    "logfsconvS2M m nap = (if nap < 7 + length b then Fail
       else Ok (PBIT8 (ltype m) @ PBIT16 (of_nat (4 + length b)) @ PBIT32 (path m) @ b))"
    using s2m_frame [OF assms(1) False] by metis
  let ?out = "PBIT8 (ltype m) @ PBIT16 (of_nat (4 + length b)) @ PBIT32 (path m) @ b"
  have u: "unat (of_nat (4 + length b) :: u16) = 4 + length b"
    using assms(2) b(2) by (simp add: word_nat del: of_nat_add)
  have t: "ltype m \<noteq> LogfsLogTend"
      "ltype m \<in> {LogfsLogTstart, LogfsLogTcreate, LogfsLogTtrunc, LogfsLogTremove, LogfsLogTwrite, LogfsLogTwstat}"
    using ltype_known [OF False] assms(1) by (auto simp: logmsg_ok_def)
  obtain d' where d': "m2s_body (ltype m) (path m) (length rest)
        (PBIT8 (ltype m) @ PBIT16 (of_nat (4 + length b)) @ PBIT32 (path m), b @ rest) = Some (lnorm m, (d', rest))"
      "length d' = length (PBIT8 (ltype m) @ PBIT16 (of_nat (4 + length b)) @ PBIT32 (path m)) + length b"
    using body_roundtrip [OF assms(1) b(1) False] by blast
  have "logfsconvM2S (?out @ rest) = Some (length d', lnorm m, d' @ rest)"
    unfolding logfsconvM2S_def Let_def append_assoc
    using t d'(1) u by (simp add: codec_simps del: of_nat_add)
  then show ?thesis using b d'(2) by (auto simp: codec_simps)
qed

theorem logmsg_roundtrip_witness:
  "case logfsconvS2M (LTrunc 7 8 9 (Some [102, 111])) 100 of
     Undef \<Rightarrow> False
   | Fail \<Rightarrow> False
   | Ok out \<Rightarrow> length out = 19
       \<and> (\<exists>buf. logfsconvM2S (out @ [1, 2, 3]) = Some (length out, LTrunc 7 8 9 (Some [102, 111]), buf))"
proof -
  have "logmsg_ok (LTrunc 7 8 9 (Some [102, 111]))"
    by (simp add: logmsg_ok_def str_ok_def no_nul_def)
  moreover have z: "unat (logfssizeS2M (LTrunc 7 8 9 (Some [102, 111]))) = 19" by (simp add: sn_def)
  ultimately show ?thesis
    using logmsg_roundtrip [of "LTrunc 7 8 9 (Some [102, 111])" 100 "[1, 2, 3]"]
    by (auto simp only: z norm_def lnorm.simps split: outcome.splits) (auto simp: norm_def)
qed

section \<open>What the 16-bit fields lose\<close>

text \<open>
  The count of a write is written with 16 bits but the data with all of it; the size is written with
  16 bits whatever it is. Both lose nothing for the messages the file system makes, whose data have
  at most \<open>LogDataLimit\<close> bytes and whose strings come from messages of the protocol.
\<close>

lemma log_data_fits:
  assumes "m = LWrite pa off n mt cv mu fa d" "unat n \<le> 128" "length (str mu) < 65536 - 200"
  shows "unat (logfssizeS2M m) < 65536 + 3"
proof -
  have "logfssizeS2M m = of_nat (27 + length (str mu) + (if d \<noteq> None then unat n else 0))"
    using assms(1) by (cases mu; cases d) (simp_all add: sn_def)
  moreover have "27 + length (str mu) + (if d \<noteq> None then unat n else 0) < 65539"
    using assms(2,3) by auto
  ultimately show ?thesis by (simp add: word_nat del: of_nat_add)
qed

end
