(* ===== verification/Enc.thy ===== *)
theory Enc
  imports Prelude
begin

unbundle bit_operations_syntax

text \<open>
  The text encodings of bytes of \<open>lib9\<close>: base 64 (\<open>u64.c\<close>), base 32 (\<open>u32.c\<close>) and base 16 (\<open>u16.c\<close>).

  An encoder writes to a buffer of \<open>lim\<close> bytes and returns what it wrote before the NUL; a decoder
  returns the bytes it wrote. \<open>Undef\<close> is a write outside the buffer, \<open>Fail\<close> the result -1.
\<close>

abbreviation ch :: "char \<Rightarrow> u8" where
  "ch c \<equiv> of_char c"

section \<open>Base 64\<close>

abbreviation "INVAL \<equiv> (255 :: u8)"

definition t64e :: "u8 list" where
  "t64e = map of_char ''ABCDEFGHIJKLMNOPQRSTUVWXYZabcdefghijklmnopqrstuvwxyz0123456789+/''"

definition t64d :: "u8 list" where
  "t64d = replicate 43 INVAL @ [62, INVAL, INVAL, INVAL, 63] @ map of_nat [52..<62] @ replicate 7 INVAL
     @ map of_nat [0..<26] @ replicate 6 INVAL @ map of_nat [26..<52] @ replicate 133 INVAL"

text \<open>\<open>t64e[(b24 >> k) & 0x3f]\<close>\<close>

definition e64 :: "u32 \<Rightarrow> nat \<Rightarrow> u8" where
  "e64 b24 k = t64e ! unat (drop_bit k b24 AND 0x3f)"

fun enc64_loop :: "nat \<Rightarrow> bytes \<Rightarrow> bytes \<Rightarrow> bytes" where
  "enc64_loop lim out (x # y # z # inp) =
     (let b24 = push_bit 16 (ucast x); b24 = b24 OR push_bit 8 (ucast y); b24 = b24 OR ucast z in
      if lim \<le> length out + 4 then out
      else enc64_loop lim (out @ [t64e ! unat (drop_bit 18 b24), e64 b24 12, e64 b24 6, e64 b24 0]) inp)"
| "enc64_loop lim out [x, y] =
     (let b24 = push_bit 16 (ucast x); b24 = b24 OR push_bit 8 (ucast y) in
      if lim \<le> length out + 4 then out
      else out @ [t64e ! unat (drop_bit 18 b24), e64 b24 12, e64 b24 6, 61])"
| "enc64_loop lim out [x] =
     (let b24 = push_bit 16 (ucast x) in
      if lim \<le> length out + 4 then out
      else out @ [t64e ! unat (drop_bit 18 b24), e64 b24 12, 61, 61])"
| "enc64_loop lim out [] = out"

definition enc64 :: "nat \<Rightarrow> bytes \<Rightarrow> bytes outcome" where
  "enc64 lim inp = (let out = enc64_loop lim [] inp in
     if lim \<le> length out then Undef else Ok out)"

text \<open>The bytes \<open>b24>>16\<close>, \<open>b24>>8\<close>, \<open>b24\<close>.\<close>

abbreviation b2 :: "u32 \<Rightarrow> u8" where "b2 b \<equiv> ucast (drop_bit 16 b)"
abbreviation b1 :: "u32 \<Rightarrow> u8" where "b1 b \<equiv> ucast (drop_bit 8 b)"
abbreviation b0 :: "u32 \<Rightarrow> u8" where "b0 b \<equiv> ucast b"

fun dec64_loop :: "nat \<Rightarrow> bytes \<Rightarrow> nat \<Rightarrow> u32 \<Rightarrow> bytes \<Rightarrow> bytes" where
  "dec64_loop lim out i b24 [] =
     (if i = 2 then (if lim < length out + 1 then out else out @ [b2 b24])
      else if i = 3 then (if lim < length out + 2 then out else out @ [b2 b24, b1 b24])
      else out)"
| "dec64_loop lim out i b24 (x # inp) =
     (let c = t64d ! unat x in
      if c = INVAL then dec64_loop lim out i b24 inp
      else let c = ucast c in
        if i = 0 then dec64_loop lim out 1 (push_bit 18 c) inp
        else if i = 1 then dec64_loop lim out 2 (b24 OR push_bit 12 c) inp
        else if i = 2 then dec64_loop lim out 3 (b24 OR push_bit 6 c) inp
        else if i = 3 then
          (if lim < length out + 3 then out
           else let b24 = b24 OR c in dec64_loop lim (out @ [b2 b24, b1 b24, b0 b24]) 0 b24 inp)
        else dec64_loop lim out (i + 1) b24 inp)"

definition dec64 :: "nat \<Rightarrow> bytes \<Rightarrow> bytes" where
  "dec64 lim inp = dec64_loop lim [] 0 0 inp"

section \<open>Base 16\<close>

definition t16e :: "u8 list" where
  "t16e = map of_char ''0123456789ABCDEF''"

fun enc16_loop :: "nat \<Rightarrow> bytes \<Rightarrow> bytes \<Rightarrow> bytes" where
  "enc16_loop lim out [] = out"
| "enc16_loop lim out (c # inp) =
     (if lim \<le> length out + 2 then out
      else enc16_loop lim (out @ [t16e ! unat (drop_bit 4 c), t16e ! unat (c AND 0xf)]) inp)"

definition enc16 :: "nat \<Rightarrow> bytes \<Rightarrow> bytes outcome" where
  "enc16 lim inp = (let out = enc16_loop lim [] inp in if lim \<le> length out then Undef else Ok out)"

text \<open>The digit a character stands for: letters up to \<open>z\<close>, as the code has it.\<close>

definition digit16 :: "u8 \<Rightarrow> u32 option" where
  "digit16 c =
     (if ch CHR ''0'' \<le> c \<and> c \<le> ch CHR ''9'' then Some (ucast (c - ch CHR ''0''))
      else if ch CHR ''a'' \<le> c \<and> c \<le> ch CHR ''z'' then Some (ucast (c - ch CHR ''a'') + 10)
      else if ch CHR ''A'' \<le> c \<and> c \<le> ch CHR ''Z'' then Some (ucast (c - ch CHR ''A'') + 10)
      else None)"

fun dec16_loop :: "nat \<Rightarrow> bytes \<Rightarrow> u32 \<Rightarrow> nat \<Rightarrow> bytes \<Rightarrow> bytes" where
  "dec16_loop lim out w i [] = out"
| "dec16_loop lim out w i (c # inp) = (case digit16 c of
     None \<Rightarrow> dec16_loop lim out w i inp
   | Some d \<Rightarrow>
       let w = push_bit 4 w + d; i = i + 1 in
       if i = 2 then
         (if lim < length out + 1 then out else dec16_loop lim (out @ [ucast w]) 0 0 inp)
       else dec16_loop lim out w i inp)"

definition dec16 :: "nat \<Rightarrow> bytes \<Rightarrow> bytes" where
  "dec16 lim inp = dec16_loop lim [] 0 0 inp"

section \<open>Base 32\<close>

definition tab32 :: "u8 list" where
  "tab32 = map of_char ''23456789abcdefghijkmnpqrstuvwxyz''"

definition t32 :: "u32 \<Rightarrow> u8" where
  "t32 j = tab32 ! unat j"

text \<open>The characters for the bytes; the tail leaves the loop at the label \<open>out\<close> of the code.\<close>

fun enc32_text :: "bytes \<Rightarrow> bytes" where
  "enc32_text (s0 # s1 # s2 # s3 # s4 # src) =
     (let s0 = ucast s0; s1 = ucast s1; s2 = ucast s2; s3 = ucast s3; s4 = ucast s4 in
      [t32 (0x1f AND drop_bit 3 s0),
       t32 ((0x1c AND push_bit 2 s0) OR (0x03 AND drop_bit 6 s1)),
       t32 (0x1f AND drop_bit 1 s1),
       t32 ((0x10 AND push_bit 4 s1) OR (0x0f AND drop_bit 4 s2)),
       t32 ((0x1e AND push_bit 1 s2) OR (0x01 AND drop_bit 7 s3)),
       t32 (0x1f AND drop_bit 2 s3),
       t32 ((0x18 AND push_bit 3 s3) OR (0x07 AND drop_bit 5 s4)),
       t32 (0x1f AND s4)] @ enc32_text src)"
| "enc32_text [s0, s1, s2, s3] =
     (let s0 = ucast s0; s1 = ucast s1; s2 = ucast s2 in
      [t32 (0x1f AND drop_bit 3 s0),
       t32 ((0x1c AND push_bit 2 s0) OR (0x03 AND drop_bit 6 s1)),
       t32 (0x1f AND drop_bit 1 s1),
       t32 ((0x10 AND push_bit 4 s1) OR (0x0f AND drop_bit 4 s2)),
       t32 (0x1e AND push_bit 1 s2)])"
| "enc32_text [s0, s1, s2] =
     (let s0 = ucast s0; s1 = ucast s1 in
      [t32 (0x1f AND drop_bit 3 s0),
       t32 ((0x1c AND push_bit 2 s0) OR (0x03 AND drop_bit 6 s1)),
       t32 (0x1f AND drop_bit 1 s1),
       t32 (0x10 AND push_bit 4 s1)])"
| "enc32_text [s0, s1] =
     (let s0 = ucast s0; s1 = ucast s1 in
      [t32 (0x1f AND drop_bit 3 s0),
       t32 ((0x1c AND push_bit 2 s0) OR (0x03 AND drop_bit 6 s1)),
       t32 (0x1f AND drop_bit 1 s1)])"
| "enc32_text [s0] =
     (let s0 = ucast s0 in
      [t32 (0x1f AND drop_bit 3 s0),
       t32 (0x1c AND push_bit 2 s0)])"
| "enc32_text [] = []"

definition enc32 :: "nat \<Rightarrow> bytes \<Rightarrow> bytes outcome" where
  "enc32 ndest src =
     (if ndest \<le> (8 * length src + 4) div 5 then Fail
      else let out = enc32_text src in if ndest \<le> length out then Undef else Ok out)"

text \<open>\<open>s ? s-tab : 0\<close> after \<open>strchr\<close>, which finds the NUL of \<open>tab\<close> for a zero byte.\<close>

fun strchr32 :: "u8 list \<Rightarrow> u8 \<Rightarrow> u32 \<Rightarrow> u32" where
  "strchr32 [] c i = (if c = 0 then i else 0)"
| "strchr32 (t # tab) c i = (if t = c then i else strchr32 tab c (i + 1))"

definition u32d :: "u8 \<Rightarrow> u32" where
  "u32d c = strchr32 tab32 c 0"

definition o0 :: "u32 \<Rightarrow> u32 \<Rightarrow> u8" where
  "o0 u0 u1 = ucast (push_bit 3 u0 OR (0x7 AND drop_bit 2 u1))"
definition o1 :: "u32 \<Rightarrow> u32 \<Rightarrow> u32 \<Rightarrow> u8" where
  "o1 u1 u2 u3 = ucast ((push_bit 6 (0x3 AND u1) OR push_bit 1 u2) OR (0x1 AND drop_bit 4 u3))"
definition o2 :: "u32 \<Rightarrow> u32 \<Rightarrow> u8" where
  "o2 u3 u4 = ucast (push_bit 4 (0xf AND u3) OR (0xf AND drop_bit 1 u4))"
definition o3 :: "u32 \<Rightarrow> u32 \<Rightarrow> u32 \<Rightarrow> u8" where
  "o3 u4 u5 u6 = ucast ((push_bit 7 (0x1 AND u4) OR push_bit 2 u5) OR (0x3 AND drop_bit 3 u6))"
definition o4 :: "u32 \<Rightarrow> u32 \<Rightarrow> u8" where
  "o4 u6 u7 = ucast (push_bit 5 (0x7 AND u6) OR u7)"

text \<open>The bytes for the characters; \<open>None\<close> is the result -1 for a tail of 1, 3 or 6 characters.\<close>

fun dec32_bytes :: "bytes \<Rightarrow> bytes option" where
  "dec32_bytes (c0 # c1 # c2 # c3 # c4 # c5 # c6 # c7 # src) =
     (let u0 = u32d c0; u1 = u32d c1; u2 = u32d c2; u3 = u32d c3; u4 = u32d c4; u5 = u32d c5;
          u6 = u32d c6; u7 = u32d c7 in
      map_option (\<lambda>r. [o0 u0 u1, o1 u1 u2 u3, o2 u3 u4, o3 u4 u5 u6, o4 u6 u7] @ r) (dec32_bytes src))"
| "dec32_bytes [] = Some []"
| "dec32_bytes [c0, c1] = Some [o0 (u32d c0) (u32d c1)]"
| "dec32_bytes [c0, c1, c2, c3] = Some [o0 (u32d c0) (u32d c1), o1 (u32d c1) (u32d c2) (u32d c3)]"
| "dec32_bytes [c0, c1, c2, c3, c4] =
     Some [o0 (u32d c0) (u32d c1), o1 (u32d c1) (u32d c2) (u32d c3), o2 (u32d c3) (u32d c4)]"
| "dec32_bytes [c0, c1, c2, c3, c4, c5, c6] =
     Some [o0 (u32d c0) (u32d c1), o1 (u32d c1) (u32d c2) (u32d c3), o2 (u32d c3) (u32d c4),
       o3 (u32d c4) (u32d c5) (u32d c6)]"
| "dec32_bytes src = None"

definition dec32 :: "nat \<Rightarrow> bytes \<Rightarrow> bytes outcome" where
  "dec32 ndest src =
     (if ndest + 1 < (5 * length src + 7) div 8 then Fail
      else case dec32_bytes src of
        None \<Rightarrow> Fail
      | Some out \<Rightarrow> if ndest < length out then Undef else Ok out)"

section \<open>Base 64 round trip\<close>

lemma t64_inv: "\<forall>k\<in>set [0..<64]. t64d ! unat (t64e ! k) = of_nat k \<and> (of_nat k :: u8) \<noteq> INVAL"
  by code_simp

lemma t64_pad: "t64d ! 61 = INVAL"
  by code_simp

definition word24 :: "u8 \<Rightarrow> u8 \<Rightarrow> u8 \<Rightarrow> u32" where
  "word24 x y z = (push_bit 16 (ucast x) OR push_bit 8 (ucast y)) OR ucast z"

text \<open>The text of a byte sequence, without a limit.\<close>

fun text64 :: "bytes \<Rightarrow> bytes" where
  "text64 (x # y # z # inp) =
     (let b = word24 x y z in [e64 b 18, e64 b 12, e64 b 6, e64 b 0] @ text64 inp)"
| "text64 [x, y] =
     (let b = word24 x y 0 in [e64 b 18, e64 b 12, e64 b 6, 61])"
| "text64 [x] = (let b = word24 x 0 0 in [e64 b 18, e64 b 12, 61, 61])"
| "text64 [] = []"

lemma mask6: "(0x3f :: u32) = mask 6" "(0x3f :: nat) = mask 6"
  by (simp_all add: mask_eq_exp_minus_1)

lemma bit_u8: "bit (x :: u8) n \<Longrightarrow> n < 8"
  using bit_imp_le_length by fastforce

lemma bit_word24: "bit (word24 x y z) n \<Longrightarrow> n < 24"
  by (auto simp: word24_def bit_simps dest!: bit_u8)

lemma e64_top: "t64e ! unat (drop_bit 18 (word24 x y z)) = e64 (word24 x y z) 18"
proof -
  have "drop_bit 18 (word24 x y z) AND mask 6 = drop_bit 18 (word24 x y z)"
    by (rule bit_word_eqI) (auto simp: bit_drop_bit_eq bit_and_iff bit_mask_iff dest: bit_word24)
  then show ?thesis by (simp only: e64_def mask6)
qed

lemma word24_2: "push_bit 16 (ucast x) OR push_bit 8 (ucast y) = word24 x y 0" "push_bit 16 (ucast x) = word24 x 0 0"
  by (simp_all add: word24_def)

lemma enc64_loop_word:
  "enc64_loop lim out (x # y # z # inp) = (let b = word24 x y z in if lim \<le> length out + 4 then out
     else enc64_loop lim (out @ [e64 b 18, e64 b 12, e64 b 6, e64 b 0]) inp)"
  "enc64_loop lim out [x, y] = (let b = word24 x y 0 in if lim \<le> length out + 4 then out
     else out @ [e64 b 18, e64 b 12, e64 b 6, 61])"
  "enc64_loop lim out [x] = (let b = word24 x 0 0 in if lim \<le> length out + 4 then out
     else out @ [e64 b 18, e64 b 12, 61, 61])"
  unfolding enc64_loop.simps Let_def unfolding word24_def [symmetric]
  unfolding word24_2(1) unfolding word24_2(2) e64_top by (rule refl)+

lemma loop_text64: "length out + length (text64 inp) < lim \<Longrightarrow> enc64_loop lim out inp = out @ text64 inp"
  by (induction inp arbitrary: out rule: text64.induct) (simp_all add: Let_def enc64_loop_word del: enc64_loop.simps(1-3))

lemma t64d_e64: "t64d ! unat (e64 b k) = ucast (drop_bit k b AND 0x3f)" "t64d ! unat (e64 b k) \<noteq> INVAL"
proof -
  have "drop_bit k b AND 0x3f \<le> 0x3f" by (simp add: word_and_le1)
  then have u: "unat (drop_bit k b AND 0x3f) < 64" by (simp add: word_le_nat_alt)
  then have "unat (drop_bit k b AND 0x3f) \<in> set [0..<64]" by simp
  note t = bspec [OF t64_inv this, folded e64_def]
  show "t64d ! unat (e64 b k) = ucast (drop_bit k b AND 0x3f)" "t64d ! unat (e64 b k) \<noteq> INVAL"
    using t by (simp_all add: unsigned_of_nat)
qed

text \<open>The digit at \<open>k\<close>, read as the decoder reads it.\<close>

definition d64 :: "u32 \<Rightarrow> nat \<Rightarrow> u32" where
  "d64 b k = ucast (ucast (drop_bit k b AND 0x3f) :: u8)"

lemma bit_d64: "bit (d64 b k) n \<longleftrightarrow> n < 6 \<and> bit b (n + k)"
  by (auto simp: d64_def mask6 bit_simps ac_simps)

lemma split24: "n < 24 \<Longrightarrow> n < 6 \<or> 6 \<le> n \<and> n < 12 \<or> 12 \<le> n \<and> n < 18 \<or> 18 \<le> n \<and> n < (24 :: nat)"
  by auto

lemma join24:
  "((push_bit 18 (d64 (word24 x y z) 18) OR push_bit 12 (d64 (word24 x y z) 12))
     OR push_bit 6 (d64 (word24 x y z) 6)) OR d64 (word24 x y z) 0 = word24 x y z"
proof (rule bit_word_eqI)
  fix n assume "n < LENGTH(32)"
  show "bit (((push_bit 18 (d64 (word24 x y z) 18) OR push_bit 12 (d64 (word24 x y z) 12))
     OR push_bit 6 (d64 (word24 x y z) 6)) OR d64 (word24 x y z) 0) n = bit (word24 x y z) n"
  proof (cases "n < 24")
    case True
    from split24 [OF this] show ?thesis
      by (elim disjE) (auto simp: bit_d64 bit_push_bit_iff bit_or_iff)
  next
    case False
    then show ?thesis by (auto simp: bit_d64 bit_push_bit_iff bit_or_iff dest: bit_word24)
  qed
qed

text \<open>Decoding one digit.\<close>

lemma dec64_digit:
  "dec64_loop lim out 0 b (e64 w k # inp) = dec64_loop lim out 1 (push_bit 18 (d64 w k)) inp"
  "dec64_loop lim out 1 b (e64 w k # inp) = dec64_loop lim out 2 (b OR push_bit 12 (d64 w k)) inp"
  "dec64_loop lim out 2 b (e64 w k # inp) = dec64_loop lim out 3 (b OR push_bit 6 (d64 w k)) inp"
  "dec64_loop lim out 3 b (e64 w k # inp) = (if lim < length out + 3 then out
     else let b = b OR d64 w k in dec64_loop lim (out @ [b2 b, b1 b, b0 b]) 0 b inp)"
  "dec64_loop lim out i b (61 # inp) = dec64_loop lim out i b inp"
  using t64d_e64(2) [of w k] by (simp_all add: t64d_e64(1) t64_pad d64_def)

lemma bytes24: "b2 (word24 x y z) = x" "b1 (word24 x y z) = y" "b0 (word24 x y z) = z"
  by (rule bit_word_eqI; force simp: word24_def bit_simps dest: bit_u8)+

lemma dec64_text:
  "length out + length inp \<le> lim \<Longrightarrow> dec64_loop lim out 0 b (text64 inp) = out @ inp"
proof (induction inp arbitrary: out b rule: text64.induct)
  case (1 x y z inp)
  then show ?case
    by (simp add: Let_def dec64_digit join24 bytes24 del: dec64_loop.simps One_nat_def)
next
  case (2 x y)
  have j: "(push_bit 18 (d64 (word24 x y 0) 18) OR push_bit 12 (d64 (word24 x y 0) 12))
     OR push_bit 6 (d64 (word24 x y 0) 6) = word24 x y 0"
  proof -
    have "d64 (word24 x y 0) 0 = 0" by (rule bit_word_eqI) (auto simp: bit_d64 word24_def bit_simps)
    then show ?thesis using join24 [of x y 0] by simp
  qed
  show ?case using 2
    by (simp add: Let_def dec64_digit j bytes24 del: dec64_loop.simps(2) One_nat_def)
next
  case (3 x)
  have j: "push_bit 18 (d64 (word24 x 0 0) 18) OR push_bit 12 (d64 (word24 x 0 0) 12) = word24 x 0 0"
  proof -
    have "d64 (word24 x 0 0) 0 = 0" "d64 (word24 x 0 0) 6 = 0"
      by (rule bit_word_eqI; auto simp: bit_d64 word24_def bit_simps)+
    then show ?thesis using join24 [of x 0 0] by simp
  qed
  show ?case using 3
    by (simp add: Let_def dec64_digit j bytes24 del: dec64_loop.simps(2) One_nat_def)
qed simp

lemma length_text64: "length (text64 inp) = 4 * ((length inp + 2) div 3)"
proof (induction inp rule: text64.induct)
  case (1 x y z inp)
  have "(length (x # y # z # inp) + 2) div 3 = (length inp + 2) div 3 + 1" by simp
  then show ?case using 1 by (simp add: Let_def)
qed (simp_all add: Let_def)

text \<open>C27: Base 64 loses nothing: when the text and its NUL fit the buffer, the encoder writes four characters
  for every three bytes or part of them, and the decoder gives the bytes back when they fit its buffer.\<close>

theorem base64_roundtrip:
  assumes "4 * ((length inp + 2) div 3) < lim" "length inp \<le> lim'"
  shows "\<exists>s. enc64 lim inp = Ok s \<and> length s = 4 * ((length inp + 2) div 3) \<and> dec64 lim' s = inp"
  using loop_text64 [of "[]" inp lim] dec64_text [of "[]" inp lim' 0] assms
  by (simp add: enc64_def dec64_def length_text64)

theorem base64_roundtrip_witness:
  "\<exists>s. enc64 9 [1, 2, 3, 250] = Ok s \<and> length s = 8 \<and> dec64 4 s = [1, 2, 3, 250]"
  using base64_roundtrip [of "[1, 2, 3, 250]" 9 4] by simp

section \<open>What base 32 keeps\<close>

lemma tab32_inv: "\<forall>k\<in>set [0..<32]. u32d (tab32 ! k) = of_nat k"
  by code_simp

lemma u32d_t32: "j < 32 \<Longrightarrow> u32d (t32 j) = j"
proof -
  assume "j < 32"
  then have "unat j \<in> set [0..<32]" by (simp add: word_less_nat_alt)
  from bspec [OF tab32_inv this] show ?thesis by (simp add: t32_def)
qed

lemma less32: "(j :: u32) AND 0x1f = j \<Longrightarrow> j < 32"
proof -
  assume "j AND 0x1f = j"
  moreover have "j AND 0x1f \<le> 0x1f" by (simp add: word_and_le1)
  ultimately have "j \<le> 0x1f" by simp
  then show ?thesis by (simp add: word_le_nat_alt word_less_nat_alt)
qed

text \<open>The five-bit groups of five bytes.\<close>

definition j0 :: "u32 \<Rightarrow> u32" where "j0 a = 0x1f AND drop_bit 3 a"
definition j1 :: "u32 \<Rightarrow> u32 \<Rightarrow> u32" where "j1 a b = (0x1c AND push_bit 2 a) OR (0x03 AND drop_bit 6 b)"
definition j2 :: "u32 \<Rightarrow> u32" where "j2 b = 0x1f AND drop_bit 1 b"
definition j3 :: "u32 \<Rightarrow> u32 \<Rightarrow> u32" where "j3 b c = (0x10 AND push_bit 4 b) OR (0x0f AND drop_bit 4 c)"
definition j4 :: "u32 \<Rightarrow> u32 \<Rightarrow> u32" where "j4 c d = (0x1e AND push_bit 1 c) OR (0x01 AND drop_bit 7 d)"
definition j5 :: "u32 \<Rightarrow> u32" where "j5 d = 0x1f AND drop_bit 2 d"
definition j6 :: "u32 \<Rightarrow> u32 \<Rightarrow> u32" where "j6 d e = (0x18 AND push_bit 3 d) OR (0x07 AND drop_bit 5 e)"
definition j7 :: "u32 \<Rightarrow> u32" where "j7 e = 0x1f AND e"

lemmas groups = j0_def j1_def j2_def j3_def j4_def j5_def j6_def j7_def

lemma keep_or: "x AND m = x \<Longrightarrow> y AND m = y \<Longrightarrow> (x OR y) AND m = x OR y" for x :: u32
  by (simp add: word_ao_dist)

lemma keep_and: "c AND m = c \<Longrightarrow> (c AND x) AND m = c AND x" for x :: u32
  by (metis and.assoc and.commute)

lemma group_digit [simp]:
  "u32d (t32 (j0 a)) = j0 a" "u32d (t32 (j1 a b)) = j1 a b" "u32d (t32 (j2 a)) = j2 a"
  "u32d (t32 (j3 a b)) = j3 a b" "u32d (t32 (j4 a b)) = j4 a b" "u32d (t32 (j5 a)) = j5 a"
  "u32d (t32 (j6 a b)) = j6 a b" "u32d (t32 (j7 a)) = j7 a"
  unfolding groups by (rule u32d_t32, rule less32, (rule keep_or)?; rule keep_and, simp)+

lemma bits8: "(x :: u8) = y \<longleftrightarrow> (\<forall>n\<in>{0, 1, 2, 3, 4, 5, 6, 7}. bit x n = bit y n)"
proof
  assume R: "\<forall>n\<in>{0, 1, 2, 3, 4, 5, 6, 7}. bit x n = bit y n"
  show "x = y"
  proof (rule bit_word_eqI)
    fix n :: nat
    assume "n < LENGTH(8)"
    then have "n = 0 \<or> n = 1 \<or> n = 2 \<or> n = 3 \<or> n = 4 \<or> n = 5 \<or> n = 6 \<or> n = 7" by (simp, arith)
    then show "bit x n = bit y n" using R by blast
  qed
qed simp

lemma bit_times2: "bit (w * 2) n \<longleftrightarrow> 0 < n \<and> n < 32 \<and> bit w (n - 1)" for w :: u32
  using bit_double_iff [of w n] by (auto simp: mult.commute)

text \<open>The bytes are put together again; the last group of a byte need not carry the next one.\<close>

lemma group_bytes [simp]:
  "o0 (j0 (ucast a)) (j1 (ucast a) w) = a"
  "o1 (j1 a' (ucast b)) (j2 (ucast b)) (j3 (ucast b) w) = b"
  "o2 (j3 b' (ucast c)) (j4 (ucast c) w) = c"
  "o3 (j4 c' (ucast d)) (j5 (ucast d)) (j6 (ucast d) w) = d"
  "o4 (j6 d' (ucast e)) (j7 (ucast e)) = e"
  by (simp_all only: bits8)
    (simp_all add: o0_def o1_def o2_def o3_def o4_def groups bit_simps bit_times2 del: bit_0,
      simp_all add: numeral_2_eq_2 numeral_3_eq_3)

lemma enc32_groups:
  "enc32_text (s0 # s1 # s2 # s3 # s4 # src) =
     [t32 (j0 (ucast s0)), t32 (j1 (ucast s0) (ucast s1)), t32 (j2 (ucast s1)), t32 (j3 (ucast s1) (ucast s2)),
      t32 (j4 (ucast s2) (ucast s3)), t32 (j5 (ucast s3)), t32 (j6 (ucast s3) (ucast s4)), t32 (j7 (ucast s4))]
     @ enc32_text src"
  "enc32_text [s0, s1, s2, s3] = [t32 (j0 (ucast s0)), t32 (j1 (ucast s0) (ucast s1)), t32 (j2 (ucast s1)),
      t32 (j3 (ucast s1) (ucast s2)), t32 (j4 (ucast s2) 0)]"
  "enc32_text [s0, s1, s2] = [t32 (j0 (ucast s0)), t32 (j1 (ucast s0) (ucast s1)), t32 (j2 (ucast s1)),
      t32 (j3 (ucast s1) 0)]"
  "enc32_text [s0, s1] = [t32 (j0 (ucast s0)), t32 (j1 (ucast s0) (ucast s1)), t32 (j2 (ucast s1))]"
  "enc32_text [s0] = [t32 (j0 (ucast s0)), t32 (j1 (ucast s0) 0)]"
  by (simp_all add: groups Let_def)

lemma dec32_enc32:
  "dec32_bytes (enc32_text inp) =
     (if length inp mod 5 \<in> {0, 1} then Some inp
      else if length inp mod 5 = 2 then None else Some (butlast inp))"
proof (induction inp rule: enc32_text.induct)
  case (1 s0 s1 s2 s3 s4 src)
  then show ?case
    by (auto simp add: enc32_groups Let_def butlast_append simp del: enc32_text.simps(1-5))
qed (simp_all add: enc32_groups del: enc32_text.simps(1-5))

lemma length_enc32: "length (enc32_text inp) = 8 * (length inp div 5)
    + (if length inp mod 5 = 0 then 0 else length inp mod 5 + 1)"
proof (induction inp rule: enc32_text.induct)
  case (1 s0 s1 s2 s3 s4 src)
  have "length (s0 # s1 # s2 # s3 # s4 # src) div 5 = length src div 5 + 1" by simp
  then show ?case using 1 by (simp add: enc32_groups del: enc32_text.simps(1-5))
qed (simp_all add: enc32_groups del: enc32_text.simps(1-5))

lemma enc32_fits: "length (enc32_text inp) \<le> (8 * length inp + 4) div 5"
proof -
  define q r where "q = length inp div 5" and "r = length inp mod 5"
  have n: "length inp = 5 * q + r" and r: "r < 5" by (simp_all add: q_def r_def)
  have l: "length (enc32_text inp) = 8 * q + (if r = 0 then 0 else r + 1)"
    by (simp add: length_enc32 q_def r_def)
  have d: "(8 * (5 * q + r) + 4) div 5 = 8 * q + (8 * r + 4) div 5" by (simp add: algebra_simps)
  have "r = 0 \<or> r = 1 \<or> r = 2 \<or> r = 3 \<or> r = 4" using r by arith
  then have "(if r = 0 then 0 else r + 1) \<le> (8 * r + 4) div 5" by (elim disjE) simp_all
  then show ?thesis unfolding l n d by simp
qed

text \<open>Base 32 keeps a byte sequence only when its length is a multiple of five or one more: for a tail of two
  bytes the encoder writes three characters, a length the decoder refuses, and for a tail of three or
  four bytes it leaves its code one step early and the last byte is lost.\<close>

theorem base32_keeps:
  assumes "(8 * length inp + 4) div 5 < nd" "length inp \<le> nd'"
  shows "\<exists>s. enc32 nd inp = Ok s \<and> dec32 nd' s =
    (if length inp mod 5 \<in> {0, 1} then Ok inp
     else if length inp mod 5 = 2 then Fail else Ok (butlast inp))"
proof -
  have "length (enc32_text inp) < nd" using enc32_fits [of inp] assms(1) by linarith
  then have e: "enc32 nd inp = Ok (enc32_text inp)" using assms(1) by (simp add: enc32_def Let_def)
  have "(5 * length (enc32_text inp) + 7) div 8 \<le> nd' + 1"
    using enc32_fits [of inp] assms(2) by linarith
  then have "dec32 nd' (enc32_text inp) = (case dec32_bytes (enc32_text inp) of None \<Rightarrow> Fail
      | Some out \<Rightarrow> if nd' < length out then Undef else Ok out)"
    by (simp add: dec32_def)
  with e show ?thesis using assms(2) by (auto simp: dec32_enc32)
qed

theorem base32_keeps_witness: "\<exists>s. enc32 20 [1, 2, 3] = Ok s \<and> dec32 20 s = Ok [1, 2]"
  using base32_keeps [of "[1, 2, 3]" 20 20] by simp

text \<open>The decoder's test of its buffer is off by one: eight characters are decoded into four bytes of room.\<close>

lemma dec32_eight:
  "dec32 4 [c0, c1, c2, c3, c4, c5, c6, c7] = Undef"
  unfolding dec32_def dec32_bytes.simps Let_def by simp

end
