(* ===== verification/NandEcc.thy ===== *)
theory NandEcc
  imports Prelude
begin

unbundle bit_operations_syntax

text \<open>
  The error-correcting codes of the flash file system, \<open>libnandfs\<close>: the code over half a page
  (\<open>ecc.c\<close>), which corrects one bit and detects two, and the Hamming code of the tags
  (\<open>hamming31_26.c\<close>). \<open>int\<close>, \<open>ulong\<close> and the promoted \<open>uchar\<close> are 32-bit words.
\<close>

section \<open>The code of half a page\<close>

definition ecctab :: "u8 list" where
  "ecctab = [
    0x00, 0x55, 0x59, 0x0c, 0x65, 0x30, 0x3c, 0x69, 0x69, 0x3c, 0x30, 0x65, 0x0c, 0x59, 0x55, 0x00,
    0x95, 0xc0, 0xcc, 0x99, 0xf0, 0xa5, 0xa9, 0xfc, 0xfc, 0xa9, 0xa5, 0xf0, 0x99, 0xcc, 0xc0, 0x95,
    0x99, 0xcc, 0xc0, 0x95, 0xfc, 0xa9, 0xa5, 0xf0, 0xf0, 0xa5, 0xa9, 0xfc, 0x95, 0xc0, 0xcc, 0x99,
    0x0c, 0x59, 0x55, 0x00, 0x69, 0x3c, 0x30, 0x65, 0x65, 0x30, 0x3c, 0x69, 0x00, 0x55, 0x59, 0x0c,
    0xa5, 0xf0, 0xfc, 0xa9, 0xc0, 0x95, 0x99, 0xcc, 0xcc, 0x99, 0x95, 0xc0, 0xa9, 0xfc, 0xf0, 0xa5,
    0x30, 0x65, 0x69, 0x3c, 0x55, 0x00, 0x0c, 0x59, 0x59, 0x0c, 0x00, 0x55, 0x3c, 0x69, 0x65, 0x30,
    0x3c, 0x69, 0x65, 0x30, 0x59, 0x0c, 0x00, 0x55, 0x55, 0x00, 0x0c, 0x59, 0x30, 0x65, 0x69, 0x3c,
    0xa9, 0xfc, 0xf0, 0xa5, 0xcc, 0x99, 0x95, 0xc0, 0xc0, 0x95, 0x99, 0xcc, 0xa5, 0xf0, 0xfc, 0xa9,
    0xa9, 0xfc, 0xf0, 0xa5, 0xcc, 0x99, 0x95, 0xc0, 0xc0, 0x95, 0x99, 0xcc, 0xa5, 0xf0, 0xfc, 0xa9,
    0x3c, 0x69, 0x65, 0x30, 0x59, 0x0c, 0x00, 0x55, 0x55, 0x00, 0x0c, 0x59, 0x30, 0x65, 0x69, 0x3c,
    0x30, 0x65, 0x69, 0x3c, 0x55, 0x00, 0x0c, 0x59, 0x59, 0x0c, 0x00, 0x55, 0x3c, 0x69, 0x65, 0x30,
    0xa5, 0xf0, 0xfc, 0xa9, 0xc0, 0x95, 0x99, 0xcc, 0xcc, 0x99, 0x95, 0xc0, 0xa9, 0xfc, 0xf0, 0xa5,
    0x0c, 0x59, 0x55, 0x00, 0x69, 0x3c, 0x30, 0x65, 0x65, 0x30, 0x3c, 0x69, 0x00, 0x55, 0x59, 0x0c,
    0x99, 0xcc, 0xc0, 0x95, 0xfc, 0xa9, 0xa5, 0xf0, 0xf0, 0xa5, 0xa9, 0xfc, 0x95, 0xc0, 0xcc, 0x99,
    0x95, 0xc0, 0xcc, 0x99, 0xf0, 0xa5, 0xa9, 0xfc, 0xfc, 0xa9, 0xa5, 0xf0, 0x99, 0xcc, 0xc0, 0x95,
    0x00, 0x55, 0x59, 0x0c, 0x65, 0x30, 0x3c, 0x69, 0x69, 0x3c, 0x30, 0x65, 0x0c, 0x59, 0x55, 0x00]"

text \<open>The first loop of \<open>nandecc\<close>, at byte \<open>i\<close>.\<close>

fun ecc_loop :: "u32 \<Rightarrow> u32 \<times> u32 \<times> u32 \<Rightarrow> bytes \<Rightarrow> u32 \<times> u32 \<times> u32" where
  "ecc_loop i (cp, zeros, ones) [] = (cp, zeros, ones)"
| "ecc_loop i (cp, zeros, ones) (x # buf) =
     (let tabent = ucast (ecctab ! unat x); cp = cp XOR tabent in
      if tabent AND 1 \<noteq> 0 then ecc_loop (i + 1) (cp, zeros XOR NOT i, ones XOR i) buf
      else ecc_loop (i + 1) (cp, zeros, ones) buf)"

text \<open>The second loop, from the masks \<open>im\<close> and \<open>om\<close>.\<close>

function lp_loop :: "u32 \<Rightarrow> u32 \<Rightarrow> u32 \<Rightarrow> u32 \<Rightarrow> u32 \<Rightarrow> u32" where
  "lp_loop ones zeros im om lp =
     (if im = 0 then lp
      else let
        lp = (if ones AND im \<noteq> 0 then lp OR om else lp);
        om = drop_bit 1 om;
        lp = (if zeros AND im \<noteq> 0 then lp OR om else lp)
      in lp_loop ones zeros (drop_bit 1 im) (drop_bit 1 om) lp)"
  by pat_completeness auto

lemma drop_bit_less: "w \<noteq> 0 \<Longrightarrow> 0 < k \<Longrightarrow> unat (drop_bit k w) < unat w" for w :: "'a::len word"
proof -
  assume w: "w \<noteq> 0" "0 < k"
  have "unat (drop_bit k w) = unat w div 2 ^ k"
    by (subst unat_drop_bit_eq) (rule drop_bit_eq_div)
  moreover have "unat w div 2 ^ k < unat w" using w by (intro div_less_dividend one_less_power) (simp_all add: unat_gt_0)
  ultimately show ?thesis by simp
qed

termination lp_loop
  by (relation "measure (\<lambda>(ones, zeros, im, om, lp). unat im)") (simp_all add: drop_bit_less)

definition nandecc :: "bytes \<Rightarrow> u32 outcome" where
  "nandecc buf = obind (rdmem 256 buf) (\<lambda>buf.
     case ecc_loop 0 (0xff, 0xff, 0xff) buf of (cp, zeros, ones) \<Rightarrow>
       let lp = lp_loop ones zeros 0x80 0x8000 0 in
       Ok (push_bit 16 ((cp AND 0xff) OR 3) OR lp))"

section \<open>Correction\<close>

datatype NandEccError = NandEccErrorBad | NandEccErrorGood | NandEccErrorOneBit | NandEccErrorOneBitInEcc

abbreviation "CORRECTABLEMASK \<equiv> (0x545555 :: u32)"

function out_loop :: "u32 \<Rightarrow> u32 \<Rightarrow> u16 \<Rightarrow> u16 \<Rightarrow> u16" where
  "out_loop xorecc imask omask out =
     (if imask = 0 then out
      else out_loop xorecc (drop_bit 2 imask) (drop_bit 1 omask)
        (if xorecc AND imask \<noteq> 0 then out OR omask else out))"
  by pat_completeness auto

termination out_loop
  by (relation "measure (\<lambda>(x, im, om, out). unat im)") (simp_all add: drop_bit_less)

function count_loop :: "u32 \<Rightarrow> u32 \<Rightarrow> nat \<Rightarrow> nat" where
  "count_loop xorecc m k =
     (if m = 0 then k
      else count_loop xorecc (drop_bit 1 m) (if m AND xorecc \<noteq> 0 then k + 1 else k))"
  by pat_completeness auto

termination count_loop
  by (relation "measure (\<lambda>(x, m, k). unat m)") (simp_all add: drop_bit_less)

declare lp_loop.simps [simp del] out_loop.simps [simp del] count_loop.simps [simp del]

text \<open>The result, \<open>buf\<close> and \<open>*storedecc\<close> afterwards; what is printed is left out.\<close>

definition nandecccorrect :: "bytes \<Rightarrow> u32 \<Rightarrow> u32 \<Rightarrow> (NandEccError \<times> bytes \<times> u32) outcome" where
  "nandecccorrect buf calcecc storedecc =
     (if calcecc = storedecc then Ok (NandEccErrorGood, buf, storedecc)
      else let xorecc = calcecc XOR storedecc in
        if (xorecc XOR drop_bit 1 xorecc) AND CORRECTABLEMASK = CORRECTABLEMASK then
          let out = out_loop xorecc 0x800000 0x800 0;
            line = unat (out AND 0xff); col = unat (drop_bit 9 out) in
          obind (rdat buf line) (\<lambda>x. obind (wrat buf line (x XOR push_bit col 1)) (\<lambda>buf.
            Ok (NandEccErrorOneBit, buf, calcecc)))
        else if count_loop xorecc 0x800000 0 = 1 then Ok (NandEccErrorOneBitInEcc, buf, calcecc)
        else Ok (NandEccErrorBad, buf, storedecc))"

section \<open>The Hamming code of the tags\<close>

definition row4 :: u32 where "row4 = 0x001fffc0"
definition row3 :: u32 where "row3 = 0x0fe03fc0"
definition row2 :: u32 where "row2 = 0x71e3c3c0"
definition row1 :: u32 where "row1 = 0xb66cccc0"
definition row0 :: u32 where "row0 = 0xdab55540"

definition hmap :: "int list" where
  "hmap = [-5, -4, 0, -3, 1, 2, 3, -2,
    4, 5, 6, 7, 8, 9, 10, -1, 11,
    12, 13, 14, 15, 16, 17, 18,
    19, 20, 21, 22, 23, 24, 25]"

definition mashbits :: "u32 \<Rightarrow> u32 \<Rightarrow> u32" where
  "mashbits in' rown = (let c = in' AND rown; c = c XOR drop_bit 16 c; c = c XOR drop_bit 8 c;
     c = c XOR drop_bit 4 c; c = c XOR drop_bit 2 c in (c XOR drop_bit 1 c) AND 1)"

definition nandfshamming31_26calcparity :: "u32 \<Rightarrow> u8" where
  "nandfshamming31_26calcparity in' =
     (let out = ucast (mashbits in' row4);
        out = push_bit 1 out OR ucast (mashbits in' row3);
        out = push_bit 1 out OR ucast (mashbits in' row2);
        out = push_bit 1 out OR ucast (mashbits in' row1)
      in push_bit 1 out OR ucast (mashbits in' row0))"

definition nandfshamming31_26calc :: "u32 \<Rightarrow> u32" where
  "nandfshamming31_26calc in' = (let in' = in' AND 0xffffffc0 in in' OR ucast (nandfshamming31_26calcparity in'))"

text \<open>Whether an error was found, and the word afterwards.\<close>

definition nandfshamming31_26correct :: "u32 \<Rightarrow> (bool \<times> u32) outcome" where
  "nandfshamming31_26correct in' =
     (let eparity = nandfshamming31_26calcparity in';
        parity = ucast (in' AND 0x1f) :: u8;
        e = ucast (eparity XOR parity) :: u32 in
      if e = 0 then Ok (False, in')
      else obind (rdat hmap (unat (e - 1))) (\<lambda>m.
        if m < 0 then Ok (True, in')
        else Ok (True, in' XOR push_bit (nat (31 - m)) 1)))"

section \<open>Masks\<close>

definition bitw :: "nat \<Rightarrow> 'a::len word" where
  "bitw k = push_bit k 1"

lemma bit_bitw [simp]: "bit (bitw k :: 'a::len word) n \<longleftrightarrow> n = k \<and> k < LENGTH('a)"
  by (auto simp: bitw_def bit_simps)

lemma and_bitw [simp]:
  assumes "k < LENGTH('a)"
  shows "w AND bitw k = 0 \<longleftrightarrow> \<not> bit w k" "bitw k AND w = 0 \<longleftrightarrow> \<not> bit (w :: 'a::len word) k"
proof -
  have "bit (w AND bitw k) n \<longleftrightarrow> n = k \<and> bit w k" for n using assms by (auto simp: bit_and_iff)
  then show "w AND bitw k = 0 \<longleftrightarrow> \<not> bit w k" by (metis bit_0_eq bit_eqI bot_apply bot_bool_def)
  then show "bitw k AND w = 0 \<longleftrightarrow> \<not> bit w k" by (simp add: ac_simps)
qed

lemma drop_bitw: "k < LENGTH('a) \<Longrightarrow> drop_bit i (bitw k :: 'a::len word) = (if i \<le> k then bitw (k - i) else 0)"
  by (rule bit_word_eqI) (auto simp: bit_drop_bit_eq)

lemma bitw_nonzero [simp]: "k < LENGTH('a) \<Longrightarrow> (bitw k :: 'a::len word) \<noteq> 0"
  by (metis bit_0_eq bit_bitw bot_apply bot_bool_def)

lemma bitw_numerals: "(0x80 :: u32) = bitw 7" "(0x8000 :: u32) = bitw 15" "(0x800000 :: u32) = bitw 23" "(0x800 :: u16) = bitw 11"
  by (simp_all add: bitw_def)

section \<open>What the loops compute\<close>

lemma lp_loop_0: "lp_loop ones zeros 0 om lp = lp"
  by (subst lp_loop.simps) simp

lemma lp_loop_bit:
  "k < 8 \<Longrightarrow> bit (lp_loop ones zeros (bitw k) (bitw (Suc (2 * k))) lp) n \<longleftrightarrow>
     bit lp n \<or> n < Suc (Suc (2 * k)) \<and> bit (if odd n then ones else zeros) (n div 2)"
proof (induction k arbitrary: lp)
  case 0
  have "n < 2 \<longleftrightarrow> n = 0 \<or> n = 1" by auto
  then show ?case
    by (subst lp_loop.simps) (auto simp: lp_loop_0 drop_bitw bit_or_iff simp del: bit_0)
next
  case (Suc k)
  have n: "n < Suc (Suc (2 * Suc k)) \<longleftrightarrow> n = Suc (Suc (2 * k)) \<or> n = Suc (Suc (Suc (2 * k))) \<or> n < Suc (Suc (2 * k))" by auto
  have d: "drop_bit 1 (bitw (Suc k)) = (bitw k :: u32)" "drop_bit 1 (bitw (Suc (2 * Suc k))) = (bitw (Suc (Suc (2 * k))) :: u32)"
    "drop_bit 1 (bitw (Suc (Suc (2 * k)))) = (bitw (Suc (2 * k)) :: u32)"
    using Suc.prems by (simp_all add: drop_bitw)
  show ?case
    unfolding lp_loop.simps [of ones zeros "bitw (Suc k)"] Let_def d n
    using Suc.prems by (auto simp: Suc.IH bit_or_iff simp del: bit_0)
qed

lemma out_loop_0: "out_loop x 0 om out = out"
  by (subst out_loop.simps) simp

lemma out_loop_bit:
  "k < 12 \<Longrightarrow> bit (out_loop x (bitw (Suc (2 * k))) (bitw k) out) n \<longleftrightarrow> bit out n \<or> n \<le> k \<and> bit x (2 * n + 1)"
proof (induction k arbitrary: out)
  case 0
  show ?case
    by (subst out_loop.simps) (auto simp: out_loop_0 drop_bitw bit_or_iff simp del: bit_0)
next
  case (Suc k)
  have d: "drop_bit 2 (bitw (Suc (2 * Suc k))) = (bitw (Suc (2 * k)) :: u32)" "drop_bit 1 (bitw (Suc k)) = (bitw k :: u16)"
    using Suc.prems by (simp_all add: drop_bitw)
  show ?case
    unfolding out_loop.simps [of x "bitw (Suc (2 * Suc k))"] d le_Suc_eq
    using Suc.prems by (auto simp: Suc.IH bit_or_iff simp del: bit_0)
qed

lemma count_loop_0: "count_loop x 0 m = m"
  by (subst count_loop.simps) simp

lemma count_loop_card:
  "k < 32 \<Longrightarrow> count_loop x (bitw k) m = m + card {n. n \<le> k \<and> bit x n}"
proof (induction k arbitrary: m)
  case 0
  have "{n. n \<le> 0 \<and> bit x n} = (if bit x 0 then {0} else {})" by auto
  then show ?case
    by (subst count_loop.simps) (simp add: count_loop_0 drop_bitw del: bit_0)
next
  case (Suc k)
  have s: "{n. n \<le> Suc k \<and> bit x n} = (if bit x (Suc k) then insert (Suc k) {n. n \<le> k \<and> bit x n} else {n. n \<le> k \<and> bit x n})"
    by (auto simp: le_Suc_eq)
  have d: "drop_bit 1 (bitw (Suc k)) = (bitw k :: u32)"
    using Suc.prems by (simp add: drop_bitw)
  show ?case
    unfolding count_loop.simps [of x "bitw (Suc k)"] d s using Suc.prems by (simp add: Suc.IH)
qed

section \<open>The table is linear\<close>

definition sel :: "bool \<Rightarrow> u8 \<Rightarrow> u8" where
  "sel c e = (if c then e else 0)"

text \<open>The entry of each single bit, and the sum of those of a byte.\<close>

definition biten :: "nat \<Rightarrow> u8" where
  "biten b = [0x55, 0x59, 0x65, 0x69, 0x95, 0x99, 0xa5, 0xa9] ! b"

definition lin :: "u8 \<Rightarrow> u8" where
  "lin x = sel (bit x 0) (biten 0) XOR sel (bit x 1) (biten 1) XOR sel (bit x 2) (biten 2) XOR sel (bit x 3) (biten 3)
     XOR sel (bit x 4) (biten 4) XOR sel (bit x 5) (biten 5) XOR sel (bit x 6) (biten 6) XOR sel (bit x 7) (biten 7)"

lemma ecctab_sums: "map (\<lambda>x. lin (of_nat x)) [0..<256] = ecctab"
  by code_simp

lemma ecctab_lin: "ecctab ! unat x = lin x"
proof -
  have "map (\<lambda>x. lin (of_nat x)) [0..<256] ! unat x = lin x" by (subst nth_map) simp_all
  then show ?thesis by (simp only: ecctab_sums)
qed

lemma sel_not: "sel (\<not> c) e = sel c e XOR e"
  by (simp add: sel_def)

lemma upto8: "b < 8 \<Longrightarrow> b = 0 \<or> b = 1 \<or> b = 2 \<or> b = 3 \<or> b = 4 \<or> b = 5 \<or> b = 6 \<or> b = (7::nat)"
  by arith

lemma lin_flip: "b < 8 \<Longrightarrow> lin (x XOR bitw b) = lin x XOR biten b"
  by (drule upto8, elim disjE) (simp_all add: lin_def bit_xor_iff sel_not xor.assoc xor.commute xor.left_commute del: bit_0)

text \<open>The entry for a single bit: odd, and its pairs of bits above the first tell which bit it is.\<close>

lemma biten_bit:
  "b < 8 \<Longrightarrow> bit (biten b) 0"
  "b < 8 \<Longrightarrow> m < 3 \<Longrightarrow> bit (biten b) (2 * m + 3) = bit b m"
  "b < 8 \<Longrightarrow> m < 3 \<Longrightarrow> bit (biten b) (2 * m + 2) = (\<not> bit b m)"
proof -
  have c: "\<forall>b\<in>set [0..<8]. bit (biten b) 0 \<and>
    (\<forall>m\<in>set [0..<3]. bit (biten b) (2 * m + 3) = bit b m \<and> bit (biten b) (2 * m + 2) = (\<not> bit b m))"
    by code_simp
  assume "b < 8"
  then have "b \<in> set [0..<8]" by simp
  note d = bspec [OF c this]
  then show "bit (biten b) 0" by blast
  assume "m < 3"
  then have "m \<in> set [0..<3]" by simp
  with d show "bit (biten b) (2 * m + 3) = bit b m" "bit (biten b) (2 * m + 2) = (\<not> bit b m)" by blast+
qed

lemma and1: "w AND 1 \<noteq> 0 \<longleftrightarrow> bit w 0" for w :: u32
  using and_bitw(1) [of 0 w] by (simp add: bitw_def)

lemma ecc_loop_shift:
  "ecc_loop i (cp XOR a, zeros XOR c, ones XOR d) buf =
     (case ecc_loop i (cp, zeros, ones) buf of (cp', zeros', ones') \<Rightarrow> (cp' XOR a, zeros' XOR c, ones' XOR d))"
proof (induction buf arbitrary: i cp zeros ones)
  case (Cons x buf)
  have "(u XOR v) XOR w = (u XOR w) XOR v" for u v w :: u32 by (simp add: ac_simps)
  then show ?case
    by (simp only: ecc_loop.simps Let_def Cons.IH [symmetric] split: if_split) simp
qed simp

lemma ecc_loop_flip:
  "j < length buf \<Longrightarrow> b < 8 \<Longrightarrow> ecc_loop i (cp, zeros, ones) (buf[j := buf ! j XOR bitw b]) =
     (case ecc_loop i (cp, zeros, ones) buf of (cp', zeros', ones') \<Rightarrow>
        (cp' XOR ucast (biten b), zeros' XOR NOT (i + of_nat j), ones' XOR (i + of_nat j)))"
proof (induction buf arbitrary: i j cp zeros ones)
  case (Cons x buf)
  show ?case
  proof (cases j)
    case 0
    have t: "(ucast (lin x XOR biten b) :: u32) = ucast (lin x) XOR ucast (biten b)"
      by (rule bit_word_eqI) (auto simp: bit_simps)
    have o: "bit ((ucast (lin x) :: u32) XOR ucast (biten b)) 0 \<longleftrightarrow> \<not> bit (ucast (lin x) :: u32) 0"
      using biten_bit(1) [OF Cons.prems(2)] by (simp add: bit_xor_iff bit_ucast_iff del: bit_0)
    have u: "(x # buf)[j := (x # buf) ! j XOR bitw b] = (x XOR bitw b) # buf" "i + of_nat j = i" by (simp_all add: 0)
    show ?thesis
      unfolding u ecc_loop.simps ecctab_lin lin_flip [OF Cons.prems(2)] t Let_def and1 o
      by (cases "bit (ucast (lin x) :: u32) 0")
        (simp_all only: if_True if_False not_True_eq_False not_False_eq_True
          ecc_loop_shift [of _ _ "ucast (biten b)" _ "NOT i" _ i, symmetric] xor.assoc xor_self_eq xor.right_neutral simp_thms)
  next
    case (Suc k)
    with Cons.prems have k: "k < length buf" "b < 8" by simp_all
    have u: "(x # buf)[j := (x # buf) ! j XOR bitw b] = x # buf[k := buf ! k XOR bitw b]"
      "i + of_nat j = i + 1 + of_nat k" by (simp_all add: Suc)
    show ?thesis
      unfolding u ecc_loop.simps Let_def Cons.IH [OF k] by (simp split: if_split)
  qed
qed simp

section \<open>Errors of a codeword\<close>

text \<open>The code of half a page in memory, and the word \<open>nandecc\<close> makes of the three sums.\<close>

definition eccword :: "u32 \<times> u32 \<times> u32 \<Rightarrow> u32" where
  "eccword = (\<lambda>(cp, zeros, ones). push_bit 16 ((cp AND 0xff) OR 3) OR lp_loop ones zeros 0x80 0x8000 0)"

definition ecc :: "bytes \<Rightarrow> u32" where
  "ecc buf = eccword (ecc_loop 0 (0xff, 0xff, 0xff) buf)"

lemma rdmem_all: "length buf = n \<Longrightarrow> rdmem n buf = Ok buf"
  by (simp add: rdmem_def)

lemma nandecc_ecc: "length buf = 256 \<Longrightarrow> nandecc buf = Ok (ecc buf)"
proof -
  assume "length buf = 256"
  then have r: "rdmem 256 buf = Ok buf" by (rule rdmem_all)
  show ?thesis
    unfolding nandecc_def r obind.simps ecc_def eccword_def Let_def
    by (cases "ecc_loop 0 (255, 255, 255) buf") (simp only: prod.case)
qed

lemma bit_lp: "bit (lp_loop ones zeros 0x80 0x8000 0) n \<longleftrightarrow> n < 16 \<and> bit (if odd n then ones else zeros) (n div 2)"
proof -
  have "(0x80 :: u32) = bitw 7" "(0x8000 :: u32) = bitw (Suc (2 * 7))" by (simp_all add: bitw_def)
  then show ?thesis using lp_loop_bit [of 7 ones zeros 0 n] by (simp only: bit_0_eq bot_apply bot_bool_def simp_thms) simp
qed

lemma bit_eccword:
  "bit (eccword (cp, zeros, ones)) n \<longleftrightarrow>
     n < 16 \<and> bit (if odd n then ones else zeros) (n div 2) \<or> n = 16 \<or> n = 17 \<or> 18 \<le> n \<and> n < 24 \<and> bit cp (n - 16)"
proof -
  have m: "(0xff :: u32) = mask 8" "(3 :: u32) = mask 2" by (simp_all add: mask_eq_exp_minus_1)
  have "bit (push_bit 16 ((cp AND mask 8) OR mask 2) :: u32) n \<longleftrightarrow> 16 \<le> n \<and> n < 24 \<and> (n - 16 < 2 \<or> bit cp (n - 16))"
    by (auto simp: bit_push_bit_iff bit_or_iff bit_and_iff bit_mask_iff)
  moreover have "16 \<le> n \<and> n < 24 \<and> (n - 16 < 2 \<or> q) \<longleftrightarrow> n = 16 \<or> n = 17 \<or> 18 \<le> n \<and> n < 24 \<and> q" for q by auto
  ultimately show ?thesis
    unfolding eccword_def prod.case m bit_or_iff bit_lp by blast
qed

text \<open>A wrong bit: bit \<open>b\<close> of byte \<open>j\<close>, or bit \<open>k\<close> of the stored code.\<close>

datatype flip = Data nat nat | Stored nat

fun valid :: "flip \<Rightarrow> bool" where
  "valid (Data j b) \<longleftrightarrow> j < 256 \<and> b < 8"
| "valid (Stored k) \<longleftrightarrow> k < 24"

fun hit :: "flip \<Rightarrow> bytes \<times> u32 \<Rightarrow> bytes \<times> u32" where
  "hit (Data j b) (buf, e) = (buf[j := buf ! j XOR bitw b], e)"
| "hit (Stored k) (buf, e) = (buf, e XOR bitw k)"

text \<open>The bits in which the computed and the stored code then differ.\<close>

definition syndrome :: "bytes \<times> u32 \<Rightarrow> u32" where
  "syndrome = (\<lambda>(buf, e). ecc buf XOR e)"

fun sig :: "flip \<Rightarrow> nat \<Rightarrow> bool" where
  "sig (Data j b) n \<longleftrightarrow> n < 16 \<and> bit j (n div 2) = odd n \<or> 18 \<le> n \<and> n < 24 \<and> bit b (n div 2 - 9) = odd n"
| "sig (Stored k) n \<longleftrightarrow> n = k"

lemma bit_of_nat8: "j < 256 \<Longrightarrow> n < 8 \<Longrightarrow> bit (of_nat j :: u32) n = bit j n"
  by (simp add: bit_of_nat_iff)

lemma biten_pair:
  assumes "b < 8" "18 \<le> n" "n < (24 :: nat)"
  shows "bit (biten b) (n - 16) = (bit b (n div 2 - 9) = odd n)"
proof -
  define m where "m = n div 2 - 9"
  have m: "m < 3" "n - 16 = (if odd n then 2 * m + 3 else 2 * m + 2)"
    using assms by (auto simp: m_def elim!: oddE evenE)
  then show ?thesis unfolding m_def [symmetric] using biten_bit(2, 3) [OF assms(1) m(1)] by (simp split: if_splits)
qed

lemma syndrome_hit:
  assumes "length buf = 256" "valid f"
  shows "bit (syndrome (hit f (buf, e))) n = (bit (syndrome (buf, e)) n \<noteq> sig f n)"
proof (cases f)
  case (Data j b)
  obtain cp zeros ones where l: "ecc_loop 0 (0xff, 0xff, 0xff) buf = (cp, zeros, ones)" by (metis prod_cases3)
  have jb: "j < 256" "j < length buf" "b < 8" using assms by (simp_all add: Data)
  have "bit (ecc (buf[j := buf ! j XOR bitw b])) n = (bit (ecc buf) n \<noteq> sig f n)"
    unfolding ecc_def ecc_loop_flip [OF jb(2, 3)] l Data
    using jb(1,3) by (auto simp: bit_eccword bit_xor_iff bit_ucast_iff bit_not_iff bit_of_nat8 biten_pair)
  then show ?thesis by (auto simp: Data syndrome_def bit_xor_iff)
next
  case (Stored k)
  then show ?thesis using assms by (auto simp: syndrome_def bit_xor_iff)
qed

section \<open>Correction in terms of the syndrome\<close>

definition pairs :: "nat set" where
  "pairs = {0, 1, 2, 3, 4, 5, 6, 7, 9, 10, 11}"

lemma eq_bits: "w = m \<longleftrightarrow> (\<forall>n. bit w n = bit m n)" for w :: "'a::len word"
  by (auto intro: bit_word_eqI)

lemma and_eq_mask: "w AND m = m \<longleftrightarrow> (\<forall>n. bit m n \<longrightarrow> bit w n)" for w :: u32
  unfolding eq_bits bit_and_iff by blast

lemma bit_correctable: "bit CORRECTABLEMASK n \<longleftrightarrow> even n \<and> n div 2 \<in> pairs"
proof -
  have l: "bit CORRECTABLEMASK n \<Longrightarrow> n < 32" using bit_imp_le_length by fastforce
  have "\<forall>n\<in>set [0..<32]. bit CORRECTABLEMASK n \<longleftrightarrow> even n \<and> n div 2 \<in> pairs"
    unfolding pairs_def by code_simp
  moreover have "n div 2 \<in> pairs \<Longrightarrow> n < 32" by (auto simp: pairs_def)
  ultimately show ?thesis using l by (metis atLeastLessThan_iff atLeastLessThan_upt zero_le)
qed

lemma correctable:
  "(x XOR drop_bit 1 x) AND CORRECTABLEMASK = CORRECTABLEMASK \<longleftrightarrow> (\<forall>m\<in>pairs. bit x (2 * m) \<noteq> bit x (2 * m + 1))"
proof -
  have "(\<forall>n. even n \<and> n div 2 \<in> pairs \<longrightarrow> P n) \<longleftrightarrow> (\<forall>m\<in>pairs. P (2 * m))" for P
    by (metis dvd_triv_left even_two_times_div_two nonzero_mult_div_cancel_left numeral_eq_Suc zero_neq_numeral)
  then show ?thesis unfolding and_eq_mask bit_correctable by (auto simp: bit_xor_iff bit_drop_bit_eq)
qed

lemma correct_syndrome:
  "nandecccorrect buf c e = (let x = c XOR e in
     if \<forall>n. \<not> bit x n then Ok (NandEccErrorGood, buf, e)
     else if \<forall>m\<in>pairs. bit x (2 * m) \<noteq> bit x (2 * m + 1) then
       let out = out_loop x 0x800000 0x800 0; line = unat (out AND 0xff); col = unat (drop_bit 9 out) in
       obind (rdat buf line) (\<lambda>v. obind (wrat buf line (v XOR bitw col)) (\<lambda>buf. Ok (NandEccErrorOneBit, buf, c)))
     else if card {n. n < 24 \<and> bit x n} = 1 then Ok (NandEccErrorOneBitInEcc, buf, c)
     else Ok (NandEccErrorBad, buf, e))"
proof -
  have e: "c = e \<longleftrightarrow> (\<forall>n. \<not> bit (c XOR e) n)" by (simp add: eq_bits bit_xor_iff)
  have k: "count_loop x 0x800000 0 = card {n. n < 24 \<and> bit x n}" for x
    using count_loop_card [of 23 x 0] by (simp add: bitw_numerals less_Suc_eq_le [of _ 23, simplified])
  show ?thesis unfolding nandecccorrect_def Let_def correctable bitw_def [symmetric] e k by (rule refl)
qed

section \<open>One wrong bit is corrected, two are detected\<close>

lemma pairs_less: "m \<in> pairs \<Longrightarrow> m < 12"
  by (auto simp: pairs_def)

lemma pairsI: "m < 8 \<Longrightarrow> m \<in> pairs" "m < 3 \<Longrightarrow> m + 9 \<in> pairs"
  by (auto simp: pairs_def)

text \<open>The wrong bit of the data is the one the syndrome points at.\<close>

lemma sig_pair: "valid (Data j b) \<Longrightarrow> m \<in> pairs \<Longrightarrow> sig (Data j b) (2 * m) \<noteq> sig (Data j b) (2 * m + 1)"
  by (auto simp: pairs_def)

lemma bit_less_nat: "bit j n \<Longrightarrow> j < 2 ^ k \<Longrightarrow> n < k" for j :: nat
proof -
  assume "bit j n" "j < 2 ^ k"
  then have "2 ^ n \<le> j" by (simp add: bit_iff_odd) (metis div_less linorder_not_le odd_pos zero_less_iff_neq_zero dvd_0_right)
  then have "(2 :: nat) ^ n < 2 ^ k" using \<open>j < 2 ^ k\<close> by (rule le_less_trans)
  then show "n < k" by (rule power_less_imp_less_exp [rotated]) simp
qed

lemma sig_points:
  assumes "\<And>n. bit x n = sig (Data j b) n" "valid (Data j b)"
  shows "unat (out_loop x 0x800000 0x800 0 AND 0xff) = j" "unat (drop_bit 9 (out_loop x 0x800000 0x800 0)) = b"
proof -
  have o: "bit (out_loop x 0x800000 0x800 0) n \<longleftrightarrow> n < 8 \<and> bit j n \<or> 9 \<le> n \<and> n < 12 \<and> bit b (n - 9)" for n
  proof -
    have "n \<le> 11 \<and> sig (Data j b) (2 * n + 1) \<longleftrightarrow> n < 8 \<and> bit j n \<or> 9 \<le> n \<and> n < 12 \<and> bit b (n - 9)" by auto
    then show ?thesis
      unfolding bitw_numerals using out_loop_bit [of 11 x 0 n] by (simp add: assms(1) del: sig.simps)
  qed
  have less: "bit j n \<Longrightarrow> n < 8" "bit b n \<Longrightarrow> n < 3" for n
    using bit_less_nat [of j n 8] bit_less_nat [of b n 3] assms(2) by simp_all
  have "out_loop x 0x800000 0x800 0 AND mask 8 = of_nat j"
    unfolding eq_bits bit_and_iff o bit_mask_iff bit_of_nat_iff using less by auto
  moreover have "drop_bit 9 (out_loop x 0x800000 0x800 0) = of_nat b"
    unfolding eq_bits bit_drop_bit_eq comp_def o bit_of_nat_iff using less by fastforce
  moreover have "(0xff :: u16) = mask 8" by (simp add: mask_eq_exp_minus_1)
  ultimately show "unat (out_loop x 0x800000 0x800 0 AND 0xff) = j" "unat (drop_bit 9 (out_loop x 0x800000 0x800 0)) = b"
    using assms(2) by (simp_all add: word_nat)
qed

lemma two_bits: "n1 \<noteq> n2 \<Longrightarrow> P n1 \<Longrightarrow> P n2 \<Longrightarrow> card {n :: nat. P n} \<noteq> 1"
  by (metis card_1_singletonE mem_Collect_eq singletonD)

lemma correct_data:
  assumes "\<And>n. bit (c XOR e) n = sig (Data j b) n" "valid (Data j b)" "length buf = 256"
  shows "nandecccorrect buf c e = Ok (NandEccErrorOneBit, buf[j := buf ! j XOR bitw b], c)"
proof -
  have "sig (Data j b) 0 \<or> sig (Data j b) 1" by auto
  then have nz: "\<not> (\<forall>n. \<not> bit (c XOR e) n)" using assms(1) by blast
  have p: "\<forall>m\<in>pairs. bit (c XOR e) (2 * m) \<noteq> bit (c XOR e) (2 * m + 1)"
    unfolding assms(1) using sig_pair [OF assms(2)] by blast
  have j: "rdat buf j = Ok (buf ! j)" "wrat buf j x = Ok (buf[j := x])" for x using assms(2,3) by simp_all
  show ?thesis
    unfolding correct_syndrome Let_def sig_points [OF assms(1,2)] if_not_P [OF nz] if_P [OF p] j obind.simps
    by (rule refl)
qed

lemma correct_stored:
  assumes "\<And>n. bit (c XOR e) n = (n = k)" "k < 24"
  shows "nandecccorrect buf c e = Ok (NandEccErrorOneBitInEcc, buf, c)"
proof -
  have nz: "\<not> (\<forall>n. \<not> bit (c XOR e) n)" using assms(1) by blast
  have "\<exists>m\<in>pairs. k \<noteq> 2 * m \<and> k \<noteq> 2 * m + 1"
    by (cases "k < 2") (use pairsI(1) [of 0] pairsI(1) [of 1] in force)+
  then have p: "\<not> (\<forall>m\<in>pairs. bit (c XOR e) (2 * m) \<noteq> bit (c XOR e) (2 * m + 1))"
    unfolding assms(1) by auto
  have "{n. n < 24 \<and> bit (c XOR e) n} = {k}" using assms by auto
  then have o: "card {n. n < 24 \<and> bit (c XOR e) n} = 1" by simp
  show ?thesis unfolding correct_syndrome Let_def if_not_P [OF nz] if_not_P [OF p] if_P [OF o] by (rule refl)
qed

lemma correct_bad:
  assumes "m \<in> pairs" "bit (c XOR e) (2 * m) = bit (c XOR e) (2 * m + 1)"
    "n1 \<noteq> n2" "bit (c XOR e) n1" "bit (c XOR e) n2" "n1 < 24" "n2 < 24"
  shows "nandecccorrect buf c e = Ok (NandEccErrorBad, buf, e)"
proof -
  have nz: "\<not> (\<forall>n. \<not> bit (c XOR e) n)" using assms(4) by blast
  have p: "\<not> (\<forall>m\<in>pairs. bit (c XOR e) (2 * m) \<noteq> bit (c XOR e) (2 * m + 1))" using assms(1,2) by auto
  have o: "card {n. n < 24 \<and> bit (c XOR e) n} \<noteq> 1" using two_bits [of n1 n2 "\<lambda>n. n < 24 \<and> bit (c XOR e) n"] assms by blast
  show ?thesis unfolding correct_syndrome Let_def if_not_P [OF nz] if_not_P [OF p] if_not_P [OF o] by (rule refl)
qed

text \<open>Two wrong bits: some pair of the syndrome does not differ, and at least two bits are set.\<close>

definition proper :: "flip \<Rightarrow> bool" where
  "proper f \<longleftrightarrow> valid f \<and> f \<noteq> Stored 16 \<and> f \<noteq> Stored 17"

lemma sig_data_in: "valid (Data j b) \<Longrightarrow> m \<in> pairs \<Longrightarrow> \<exists>n\<in>{2 * m, 2 * m + 1}. n < 24 \<and> sig (Data j b) n"
  using sig_pair [of j b m] pairs_less [of m] by auto

lemma nat_bits_differ: "j \<noteq> j' \<Longrightarrow> j < 2 ^ k \<Longrightarrow> j' < 2 ^ k \<Longrightarrow> \<exists>n<k. bit j n \<noteq> bit (j' :: nat) n"
  by (metis bit_eq_iff bit_take_bit_iff take_bit_nat_eq_self)

lemma two_data:
  assumes "valid (Data j b)" "valid (Data j' b')" "Data j b \<noteq> Data j' b'"
  shows "\<exists>m\<in>pairs. sig (Data j b) (2 * m) \<noteq> sig (Data j' b') (2 * m)"
proof (cases "j = j'")
  case True
  then obtain n where "n < 3" "bit b n \<noteq> bit b' n" using assms nat_bits_differ [of b b' 3] by auto
  then show ?thesis using True by (intro bexI [OF _ pairsI(2) [of n]]) auto
next
  case False
  then obtain n where "n < 8" "bit j n \<noteq> bit j' n" using assms nat_bits_differ [of j j' 8] by auto
  then show ?thesis by (intro bexI [OF _ pairsI(1) [of n]]) auto
qed

declare sig.simps(1) [simp del]

definition alternates :: "flip \<Rightarrow> nat \<Rightarrow> bool" where
  "alternates f m \<longleftrightarrow> sig f (2 * m) \<noteq> sig f (2 * m + 1)"

lemma alternates_Data: "valid (Data j b) \<Longrightarrow> m \<in> pairs \<Longrightarrow> alternates (Data j b) m"
  unfolding alternates_def by (rule sig_pair)

lemma alternates_Stored: "alternates (Stored k) m \<longleftrightarrow> m = k div 2"
  unfolding alternates_def by auto

lemma pairs_stored: "proper (Stored k) \<Longrightarrow> k div 2 \<in> pairs"
proof -
  have p: "m < 12 \<Longrightarrow> m \<noteq> 8 \<Longrightarrow> m \<in> pairs" for m unfolding pairs_def insert_iff empty_iff by arith
  assume "proper (Stored k)"
  then have "k < 24" "k \<noteq> 16" "k \<noteq> 17" by (simp_all add: proper_def)
  then show ?thesis by (intro p) arith+
qed

lemma other_pairs: "\<exists>m\<in>pairs. m \<noteq> a \<and> m \<noteq> b"
proof -
  consider "a \<noteq> 0 \<and> b \<noteq> 0" | "a \<noteq> 1 \<and> b \<noteq> 1" | "a \<noteq> 2 \<and> b \<noteq> 2" by arith
  then show ?thesis using pairsI(1) [of 0] pairsI(1) [of 1] pairsI(1) [of 2] by cases auto
qed

lemma same_pair:
  assumes "proper f" "proper g"
  shows "\<exists>m\<in>pairs. alternates f m = alternates g m"
proof -
  have v: "valid f" "valid g" using assms by (simp_all add: proper_def)
  show ?thesis
  proof (cases f; cases g)
    fix j b j' b' assume fg: "f = Data j b" "g = Data j' b'"
    have z: "0 \<in> pairs" by (simp add: pairs_def)
    show ?thesis using alternates_Data z v unfolding fg by blast
  next
    fix j b k assume fg: "f = Data j b" "g = Stored k"
    then show ?thesis using alternates_Data pairs_stored [of k] v assms by (auto simp: alternates_Stored)
  next
    fix j b k assume fg: "f = Stored k" "g = Data j b"
    then show ?thesis using alternates_Data pairs_stored [of k] v assms by (auto simp: alternates_Stored)
  next
    fix k k' assume "f = Stored k" "g = Stored k'"
    then show ?thesis using other_pairs [of "k div 2" "k' div 2"] by (auto simp: alternates_Stored)
  qed
qed

definition two_set :: "(nat \<Rightarrow> bool) \<Rightarrow> bool" where
  "two_set P \<longleftrightarrow> (\<exists>n1 n2. n1 \<noteq> n2 \<and> n1 < 24 \<and> n2 < 24 \<and> P n1 \<and> P n2)"

lemma sig_data_pair: "valid (Data j b) \<Longrightarrow> m \<in> pairs \<Longrightarrow> \<exists>n. n div 2 = m \<and> n < 24 \<and> sig (Data j b) n"
proof -
  assume "valid (Data j b)" "m \<in> pairs"
  from sig_data_in [OF this] obtain n where "n = 2 * m \<or> n = 2 * m + 1" "n < 24" "sig (Data j b) n" by blast
  then show ?thesis by (intro exI [of _ n]) auto
qed

lemma data_stored_bits:
  assumes "valid (Data j b)"
  shows "two_set (\<lambda>n. sig (Data j b) n \<and> n \<noteq> k)"
proof -
  obtain m1 where m1: "m1 \<in> pairs" "m1 \<noteq> k div 2" using other_pairs [of "k div 2"] by blast
  obtain m2 where m2: "m2 \<in> pairs" "m2 \<noteq> k div 2" "m2 \<noteq> m1" using other_pairs [of "k div 2" m1] by blast
  obtain n1 where n1: "n1 div 2 = m1" "n1 < 24" "sig (Data j b) n1" using sig_data_pair [OF assms m1(1)] by blast
  obtain n2 where n2: "n2 div 2 = m2" "n2 < 24" "sig (Data j b) n2" using sig_data_pair [OF assms m2(1)] by blast
  show ?thesis unfolding two_set_def
    by (rule exI [of _ n1], rule exI [of _ n2]) (use m1 m2 n1 n2 in auto)
qed

lemma data_data_bits:
  assumes "valid (Data j b)" "valid (Data j' b')" "Data j b \<noteq> Data j' b'"
  shows "two_set (\<lambda>n. sig (Data j b) n \<noteq> sig (Data j' b') n)"
proof -
  obtain m where m: "m \<in> pairs" "sig (Data j b) (2 * m) \<noteq> sig (Data j' b') (2 * m)" using two_data assms by blast
  then have "sig (Data j b) (2 * m + 1) \<noteq> sig (Data j' b') (2 * m + 1)"
    using sig_pair [OF assms(1) m(1)] sig_pair [OF assms(2) m(1)] by blast
  then show ?thesis unfolding two_set_def using m pairs_less [OF m(1)]
    by (intro exI [of _ "2 * m"] exI [of _ "2 * m + 1"]) auto
qed

lemma two_set_mono: "two_set P \<Longrightarrow> (\<And>n. P n \<Longrightarrow> Q n) \<Longrightarrow> two_set Q"
  unfolding two_set_def by blast

lemma two_bits_set:
  assumes "proper f" "proper g" "f \<noteq> g"
  shows "two_set (\<lambda>n. sig f n \<noteq> sig g n)"
proof -
  have v: "valid f" "valid g" using assms by (simp_all add: proper_def)
  show ?thesis
  proof (cases f; cases g)
    fix j b j' b' assume fg: "f = Data j b" "g = Data j' b'"
    show ?thesis unfolding fg by (rule data_data_bits) (use v assms fg in simp_all)
  next
    fix j b k assume fg: "f = Data j b" "g = Stored k"
    show ?thesis by (rule two_set_mono [OF data_stored_bits [of j b k]]) (use v fg in auto)
  next
    fix j b k assume fg: "f = Stored k" "g = Data j b"
    show ?thesis by (rule two_set_mono [OF data_stored_bits [of j b k]]) (use v fg in auto)
  next
    fix k k' assume "f = Stored k" "g = Stored k'"
    then show ?thesis unfolding two_set_def using v assms(3) by (intro exI [of _ k] exI [of _ k']) auto
  qed
qed

lemma hit_hit_bad:
  assumes "length buf = 256" "proper f" "proper g" "f \<noteq> g" "hit g (hit f (buf, ecc buf)) = (buf2, e2)"
  shows "nandecccorrect buf2 (ecc buf2) e2 = Ok (NandEccErrorBad, buf2, e2)"
proof -
  obtain buf1 e1 where h: "hit f (buf, ecc buf) = (buf1, e1)" by fastforce
  then have l: "length buf1 = 256" using assms(1) by (cases f) auto
  have v: "valid f" "valid g" using assms by (simp_all add: proper_def)
  have x: "bit (ecc buf2 XOR e2) n \<longleftrightarrow> sig f n \<noteq> sig g n" for n
  proof -
    have "bit (syndrome (buf2, e2)) n \<longleftrightarrow> sig f n \<noteq> sig g n"
      using syndrome_hit [OF assms(1) v(1), of "ecc buf" n] syndrome_hit [OF l v(2), of e1 n]
      unfolding assms(5) [unfolded h] h by (simp add: syndrome_def)
    then show ?thesis by (simp add: syndrome_def)
  qed
  obtain m where m: "m \<in> pairs" "alternates f m = alternates g m" using same_pair [OF assms(2,3)] by blast
  obtain n1 n2 where n: "n1 \<noteq> n2" "n1 < 24" "n2 < 24" "sig f n1 \<noteq> sig g n1" "sig f n2 \<noteq> sig g n2"
    using two_bits_set [OF assms(2-4)] unfolding two_set_def by blast
  show ?thesis
    by (rule correct_bad [OF m(1) _ n(1) _ _ n(2,3)]) (use m(2) n in \<open>unfold x alternates_def, blast+\<close>)
qed

lemma hit_one:
  assumes "length buf = 256" "valid f" "hit f (buf, ecc buf) = (buf1, e1)"
  shows "bit (ecc buf1 XOR e1) n = sig f n" "length buf1 = 256"
  using syndrome_hit [OF assms(1,2), of "ecc buf" n] assms by (cases f; auto simp: syndrome_def)+

lemma flip_back: "j < length buf \<Longrightarrow> (buf[j := buf ! j XOR bitw b])[j := buf[j := buf ! j XOR bitw b] ! j XOR bitw b] = (buf :: bytes)"
  by (simp add: xor.assoc)

text \<open>C28: The code of half a page corrects one wrong bit and detects two: for 256 bytes stored with their code,
  one wrong bit among the data is found and put right, one wrong bit of the stored code is recognised as such and the
  data left alone, and two different wrong bits anywhere (but in the two unused bits of the code) are reported
  and the data left alone.\<close>

theorem nandecc_corrects_one_detects_two:
  assumes "length buf = 256"
  shows "\<exists>e. nandecc buf = Ok e \<and> nandecccorrect buf e e = Ok (NandEccErrorGood, buf, e) \<and>
    (\<forall>j<256. \<forall>b<8. case hit (Data j b) (buf, e) of (buf1, e1) \<Rightarrow>
       \<exists>c. nandecc buf1 = Ok c \<and> nandecccorrect buf1 c e1 = Ok (NandEccErrorOneBit, buf, c)) \<and>
    (\<forall>k<24. case hit (Stored k) (buf, e) of (buf1, e1) \<Rightarrow>
       \<exists>c. nandecc buf1 = Ok c \<and> nandecccorrect buf1 c e1 = Ok (NandEccErrorOneBitInEcc, buf, e)) \<and>
    (\<forall>f g. proper f \<and> proper g \<and> f \<noteq> g \<longrightarrow> (case hit g (hit f (buf, e)) of (buf2, e2) \<Rightarrow>
       \<exists>c. nandecc buf2 = Ok c \<and> nandecccorrect buf2 c e2 = Ok (NandEccErrorBad, buf2, e2)))"
proof (intro exI conjI allI impI)
  show "nandecc buf = Ok (ecc buf)" by (rule nandecc_ecc [OF assms])
  show "nandecccorrect buf (ecc buf) (ecc buf) = Ok (NandEccErrorGood, buf, ecc buf)" by (simp add: nandecccorrect_def)
next
  fix j b :: nat assume "j < 256" "b < 8"
  then have v: "valid (Data j b)" by simp
  let ?buf = "buf[j := buf ! j XOR bitw b]"
  note h = hit_one [OF assms v hit.simps(1)]
  show "case hit (Data j b) (buf, ecc buf) of (buf1, e1) \<Rightarrow>
       \<exists>c. nandecc buf1 = Ok c \<and> nandecccorrect buf1 c e1 = Ok (NandEccErrorOneBit, buf, c)"
    using nandecc_ecc [OF h(2)] correct_data [OF h(1) v h(2)] flip_back [of j buf b] v assms by simp
next
  fix k :: nat assume k: "k < 24"
  then have v: "valid (Stored k)" by simp
  note h = hit_one [OF assms v hit.simps(2)]
  show "case hit (Stored k) (buf, ecc buf) of (buf1, e1) \<Rightarrow>
       \<exists>c. nandecc buf1 = Ok c \<and> nandecccorrect buf1 c e1 = Ok (NandEccErrorOneBitInEcc, buf, ecc buf)"
    using nandecc_ecc [OF assms] correct_stored [of "ecc buf" "ecc buf XOR bitw k" k buf] h(1) k by simp
next
  fix f g assume p: "proper f \<and> proper g \<and> f \<noteq> g"
  obtain buf2 e2 where h: "hit g (hit f (buf, ecc buf)) = (buf2, e2)" by fastforce
  moreover have "length buf2 = 256" using h assms by (cases f; cases g) auto
  ultimately show "case hit g (hit f (buf, ecc buf)) of (buf2, e2) \<Rightarrow>
       \<exists>c. nandecc buf2 = Ok c \<and> nandecccorrect buf2 c e2 = Ok (NandEccErrorBad, buf2, e2)"
    using nandecc_ecc hit_hit_bad [OF assms _ _ _ h] p by simp
qed

theorem nandecc_corrects_one_detects_two_witness:
  "\<exists>e c. nandecc (replicate 256 0) = Ok e \<and> nandecc ((replicate 256 0)[3 := bitw 5]) = Ok c \<and>
     nandecccorrect ((replicate 256 0)[3 := bitw 5]) c e = Ok (NandEccErrorOneBit, replicate 256 0, c)"
proof -
  have n: "replicate 256 (0 :: u8) ! 3 = 0" by (rule nth_replicate) simp
  have "length (replicate 256 (0 :: u8)) = 256" by (rule length_replicate)
  from nandecc_corrects_one_detects_two [OF this] obtain e where e: "nandecc (replicate 256 0) = Ok e"
    "\<forall>j<256. \<forall>b<8. case hit (Data j b) (replicate 256 0, e) of (buf1, e1) \<Rightarrow>
       \<exists>c. nandecc buf1 = Ok c \<and> nandecccorrect buf1 c e1 = Ok (NandEccErrorOneBit, replicate 256 0, c)"
    by blast
  have "\<exists>c. nandecc ((replicate 256 0)[3 := bitw 5]) = Ok c \<and>
      nandecccorrect ((replicate 256 0)[3 := bitw 5]) c e = Ok (NandEccErrorOneBit, replicate 256 0, c)"
    using e(2) [rule_format, of 3 5] by (simp only: hit.simps prod.case n xor.left_neutral)
  with e(1) show ?thesis by blast
qed

section \<open>The Hamming code corrects one wrong bit\<close>

definition hsyn :: "u32 \<Rightarrow> u8" where
  "hsyn w = nandfshamming31_26calcparity w XOR ucast (w AND 0x1f)"

lemmas xor_linear = bit.conj_xor_distrib2 bit.conj_xor_distrib drop_bit_xor push_bit_xor

lemma mashbits_xor: "mashbits (x XOR y) r = mashbits x r XOR mashbits y r"
  unfolding mashbits_def Let_def xor_linear by (simp only: xor.assoc xor.left_commute xor.commute)

lemma bit_mashbits: "bit (mashbits w r) n \<longleftrightarrow> n = 0 \<and> bit (mashbits w r) 0"
  unfolding mashbits_def Let_def by (auto simp: bit_and_iff bit_1_iff simp del: bit_0)

lemma bit_calcparity:
  "bit (nandfshamming31_26calcparity w) n \<longleftrightarrow> n < 5 \<and> bit (mashbits w ([row0, row1, row2, row3, row4] ! n)) 0"
proof -
  have m: "bit (ucast (mashbits w r) :: u8) n \<longleftrightarrow> n = 0 \<and> bit (mashbits w r) 0" for r n
    by (simp only: bit_ucast_iff bit_mashbits [of w r n]) auto
  consider "n = 0" | "n = 1" | "n = 2" | "n = 3" | "n = 4" | "5 \<le> n" by arith
  then show ?thesis
    unfolding nandfshamming31_26calcparity_def Let_def bit_or_iff bit_push_bit_iff m
    by cases (simp_all del: bit_0)
qed

lemma calcparity_xor:
  "nandfshamming31_26calcparity (x XOR y) = nandfshamming31_26calcparity x XOR nandfshamming31_26calcparity y"
  unfolding eq_bits bit_xor_iff bit_calcparity mashbits_xor by (auto simp: bit_xor_iff simp del: bit_0)

lemma hsyn_xor: "hsyn (x XOR y) = hsyn x XOR hsyn y"
proof -
  have "(ucast (v XOR w) :: u8) = ucast v XOR ucast w" for v w :: u32
    by (rule bit_word_eqI) (auto simp: bit_simps)
  then show ?thesis
    unfolding hsyn_def calcparity_xor xor_linear by (simp only: xor.assoc xor.left_commute xor.commute)
qed

text \<open>The syndrome of each bit, and what the table makes of it.\<close>

definition mash :: "u32 \<Rightarrow> u32" where
  "mash c = (let c = c XOR drop_bit 16 c; c = c XOR drop_bit 8 c; c = c XOR drop_bit 4 c; c = c XOR drop_bit 2 c
     in (c XOR drop_bit 1 c) AND 1)"

lemma upt32: "[0..<32] = [0, 1, 2, 3, 4, 5, 6, 7, 8, 9, 10, 11, 12, 13, 14, 15, 16, 17, 18, 19, 20, 21, 22, 23, 24, 25, 26, 27, 28, 29, 30, 31]"
  by code_simp

lemma mash_bit: "n < 32 \<Longrightarrow> mash (bitw n) = 1"
proof -
  have "\<forall>n\<in>set [0..<32]. mash (bitw n) = 1"
    unfolding upt32 by (simp add: bitw_def mash_def Let_def)
  then show "n < 32 \<Longrightarrow> mash (bitw n) = 1" by (simp only: set_upt atLeastLessThan_iff) simp
qed

lemma mashbits_bitw: "n < 32 \<Longrightarrow> mashbits (bitw n) r = of_bool (bit r n)"
proof -
  assume n: "n < 32"
  have "bitw n AND r = (if bit r n then bitw n else 0)" by (rule bit_word_eqI) (auto simp: bit_and_iff)
  moreover have "mashbits (bitw n) r = mash (bitw n AND r)" by (simp only: mashbits_def mash_def Let_def)
  moreover have "mash 0 = 0" by (simp add: mash_def)
  ultimately show ?thesis using mash_bit [OF n] by simp
qed

lemma hsyn_bits:
  "map (\<lambda>n. hsyn (bitw n)) [0..<32] =
     [1, 2, 4, 8, 16, 0, 31, 30, 29, 28, 27, 26, 25, 24, 23, 22, 21, 20, 19, 18, 17, 15, 14, 13, 12, 11, 10, 9, 7, 6, 5, 3]"
proof -
  show ?thesis
    unfolding upt32 list.map
    by (simp add: hsyn_def nandfshamming31_26calcparity_def mashbits_bitw Let_def row4_def row3_def row2_def row1_def row0_def,
        simp add: bitw_def)
qed

lemma hsyn_bit: "n < 32 \<Longrightarrow> hsyn (bitw n) = [1, 2, 4, 8, 16, 0, 31, 30, 29, 28, 27, 26, 25, 24, 23, 22, 21, 20, 19, 18, 17, 15, 14, 13, 12, 11, 10, 9, 7, 6, 5, 3] ! n"
  by (simp only: hsyn_bits [symmetric] nth_map length_upt nth_upt minus_nat.diff_0 add_0)

lemma hmap_bit:
  "n < 5 \<Longrightarrow> hsyn (bitw n) \<noteq> 0 \<and> (\<exists>m<0. rdat hmap (unat ((ucast (hsyn (bitw n)) :: u32) - 1)) = Ok m)"
  "6 \<le> n \<Longrightarrow> n < 32 \<Longrightarrow> hsyn (bitw n) \<noteq> 0 \<and> rdat hmap (unat ((ucast (hsyn (bitw n)) :: u32) - 1)) = Ok (31 - int n)"
proof -
  assume "n < 5"
  then consider "n = 0" | "n = 1" | "n = 2" | "n = 3" | "n = 4" by arith
  then show "hsyn (bitw n) \<noteq> 0 \<and> (\<exists>m<0. rdat hmap (unat ((ucast (hsyn (bitw n)) :: u32) - 1)) = Ok m)"
    by cases (simp_all add: hsyn_bit hmap_def)
next
  assume "6 \<le> n" "n < 32"
  then have "n \<in> set [6..<32]" by (simp only: set_upt atLeastLessThan_iff)
  moreover have "\<forall>n\<in>set [6..<32]. hsyn (bitw n) \<noteq> 0 \<and> rdat hmap (unat ((ucast (hsyn (bitw n)) :: u32) - 1)) = Ok (31 - int n)"
    by (simp add: hsyn_bit hmap_def)
  ultimately show "hsyn (bitw n) \<noteq> 0 \<and> rdat hmap (unat ((ucast (hsyn (bitw n)) :: u32) - 1)) = Ok (31 - int n)" by blast
qed

lemma correct_hsyn:
  "nandfshamming31_26correct w =
     (if hsyn w = 0 then Ok (False, w)
      else obind (rdat hmap (unat ((ucast (hsyn w) :: u32) - 1))) (\<lambda>m.
        if m < 0 then Ok (True, w) else Ok (True, w XOR bitw (nat (31 - m)))))"
proof -
  have "(ucast (v :: u8) :: u32) = 0 \<longleftrightarrow> v = 0" for v
    unfolding eq_bits bit_ucast_iff using bit_imp_le_length [of v] by fastforce
  then show ?thesis unfolding nandfshamming31_26correct_def Let_def hsyn_def bitw_def by simp
qed

lemma bit_data: "bit (0xffffffc0 :: u32) n \<longleftrightarrow> 6 \<le> n \<and> n < 32"
proof -
  have "(0xffffffc0 :: u32) = NOT (mask 6)" by (simp add: mask_eq_exp_minus_1)
  then show ?thesis by (simp only: bit_not_iff bit_mask_iff) auto
qed

lemma calcparity_low:
  assumes "\<And>n. bit w n \<Longrightarrow> n < 6"
  shows "nandfshamming31_26calcparity w = 0"
proof -
  have r: "\<forall>r\<in>set [row0, row1, row2, row3, row4]. r AND mask 6 = 0"
    by (simp add: row4_def row3_def row2_def row1_def row0_def mask_eq_exp_minus_1)
  have "w AND r = 0" if "r AND mask 6 = 0" for r
    using that assms unfolding eq_bits bit_and_iff bit_mask_iff by (metis bit_0_eq bot_apply bot_bool_def possible_bit_word bit_imp_possible_bit)
  then have "mashbits w r = 0" if "r AND mask 6 = 0" for r
    using that by (simp add: mashbits_def Let_def)
  then have "\<forall>r\<in>set [row0, row1, row2, row3, row4]. mashbits w r = 0" using r by blast
  then have "mashbits w ([row0, row1, row2, row3, row4] ! n) = 0" if "n < 5" for n
    using that by (simp only: all_set_conv_all_nth) simp
  then show ?thesis unfolding eq_bits bit_calcparity by (auto simp del: bit_0)
qed

lemma hamming_word:
  shows "drop_bit 6 (nandfshamming31_26calc x OR 0x20) = drop_bit 6 x" and "hsyn (nandfshamming31_26calc x OR 0x20) = 0"
proof -
  define y where "y = x AND 0xffffffc0"
  define p where "p = nandfshamming31_26calcparity y"
  have p: "bit p n \<Longrightarrow> n < 5" for n by (simp add: p_def bit_calcparity)
  have y: "bit y n \<longleftrightarrow> 6 \<le> n \<and> n < 32 \<and> bit x n" for n unfolding y_def bit_and_iff bit_data by blast
  have b5: "(0x20 :: u32) = bitw 5" by (simp add: bitw_def)
  have w: "nandfshamming31_26calc x OR 0x20 = y XOR (ucast p XOR bitw 5)"
    unfolding nandfshamming31_26calc_def Let_def y_def [symmetric] p_def [symmetric] b5
  proof (rule bit_word_eqI)
    fix n
    show "bit ((y OR ucast p) OR bitw 5) n = bit (y XOR (ucast p XOR bitw 5)) n"
      unfolding bit_or_iff bit_xor_iff y bit_ucast_iff bit_bitw using p [of n] by auto
  qed
  show "drop_bit 6 (nandfshamming31_26calc x OR 0x20) = drop_bit 6 x"
  proof (rule bit_word_eqI)
    fix n :: nat assume "n < LENGTH(32)"
    show "bit (drop_bit 6 (nandfshamming31_26calc x OR 0x20)) n = bit (drop_bit 6 x) n"
      unfolding w bit_drop_bit_eq comp_def bit_xor_iff y bit_ucast_iff bit_bitw
      using p [of "6 + n"] bit_imp_le_length [of x "6 + n"] by auto
  qed
  have "hsyn (bitw 5) = 0" by (simp add: hsyn_bit)
  moreover have "hsyn (ucast p) = p"
  proof -
    have m: "(0x1f :: u32) = mask 5" by (simp add: mask_eq_exp_minus_1)
    have "(ucast (ucast p AND 0x1f :: u32) :: u8) = p"
    proof (rule bit_word_eqI)
      fix n :: nat assume "n < LENGTH(8)"
      then show "bit (ucast (ucast p AND 0x1f :: u32) :: u8) n = bit p n"
        unfolding m bit_ucast_iff bit_and_iff bit_mask_iff using p [of n] by auto
    qed
    moreover have "nandfshamming31_26calcparity (ucast p) = 0" using p by (intro calcparity_low) (fastforce simp: bit_ucast_iff)
    ultimately show ?thesis by (simp add: hsyn_def)
  qed
  moreover have "hsyn y = p"
  proof -
    have "y AND 0x1f = 0" by (simp add: y_def and.assoc)
    then show ?thesis by (simp add: hsyn_def p_def)
  qed
  ultimately show "hsyn (nandfshamming31_26calc x OR 0x20) = 0" unfolding w hsyn_xor by simp
qed

lemma correct_one:
  assumes "hsyn w = 0"
  shows "nandfshamming31_26correct w = Ok (False, w)"
    and "6 \<le> n \<Longrightarrow> n < 32 \<Longrightarrow> nandfshamming31_26correct (w XOR bitw n) = Ok (True, w)"
    and "n < 5 \<Longrightarrow> nandfshamming31_26correct (w XOR bitw n) = Ok (True, w XOR bitw n)"
    and "nandfshamming31_26correct (w XOR bitw 5) = Ok (False, w XOR bitw 5)"
proof -
  show "nandfshamming31_26correct w = Ok (False, w)" unfolding correct_hsyn assms by simp
  have "hsyn (bitw 5) = 0" by (simp add: hsyn_bit)
  then show "nandfshamming31_26correct (w XOR bitw 5) = Ok (False, w XOR bitw 5)"
    unfolding correct_hsyn hsyn_xor assms by simp
next
  assume n: "6 \<le> n" "n < 32"
  then have "rdat hmap (unat ((ucast (hsyn (bitw n)) :: u32) - 1)) = Ok (31 - int n)" "hsyn (bitw n) \<noteq> 0" "\<not> 31 - int n < 0"
    "nat (31 - (31 - int n)) = n"
    using hmap_bit(2) [of n] by auto
  then show "nandfshamming31_26correct (w XOR bitw n) = Ok (True, w)"
    unfolding correct_hsyn hsyn_xor assms xor.left_neutral by (simp only: if_False obind.simps xor.assoc xor_self_eq xor.right_neutral)
next
  assume n: "n < 5"
  obtain m where "rdat hmap (unat ((ucast (hsyn (bitw n)) :: u32) - 1)) = Ok m" "hsyn (bitw n) \<noteq> 0" "m < 0"
    using hmap_bit(1) [OF n] by blast
  then show "nandfshamming31_26correct (w XOR bitw n) = Ok (True, w XOR bitw n)"
    unfolding correct_hsyn hsyn_xor assms xor.left_neutral by (simp only: if_False if_True obind.simps)
qed

text \<open>C29: The Hamming code of a tag corrects one wrong bit: the word made from 26 bits of data keeps them and is found
  without error, whatever its unused bit 5; with one wrong data bit the word is put right, with one wrong bit of the code
  the error is reported and the data kept.\<close>

theorem hamming31_26_corrects:
  "\<exists>w. w = nandfshamming31_26calc in' OR 0x20 \<and> drop_bit 6 w = drop_bit 6 in' \<and>
     nandfshamming31_26correct w = Ok (False, w) \<and>
     (\<forall>n. 6 \<le> n \<and> n < 32 \<longrightarrow> nandfshamming31_26correct (w XOR bitw n) = Ok (True, w)) \<and>
     (\<forall>n<5. nandfshamming31_26correct (w XOR bitw n) = Ok (True, w XOR bitw n) \<and> drop_bit 6 (w XOR bitw n) = drop_bit 6 in')"
proof (intro exI conjI allI impI)
  let ?w = "nandfshamming31_26calc in' OR 0x20"
  note c = correct_one [OF hamming_word(2) [of in']]
  show "?w = ?w" by (rule refl)
  show d: "drop_bit 6 ?w = drop_bit 6 in'" by (rule hamming_word(1))
  show "nandfshamming31_26correct ?w = Ok (False, ?w)" by (rule c(1))
  show "nandfshamming31_26correct (?w XOR bitw n) = Ok (True, ?w)" if "6 \<le> n \<and> n < 32" for n
    using c(2) that by blast
  show "nandfshamming31_26correct (?w XOR bitw n) = Ok (True, ?w XOR bitw n)" if "n < 5" for n
    using c(3) that by blast
  show "drop_bit 6 (?w XOR bitw n) = drop_bit 6 in'" if n: "n < 5" for n
  proof -
    have "drop_bit 6 (bitw n :: u32) = 0" using n by (simp add: drop_bitw)
    then show ?thesis by (simp only: drop_bit_xor d xor.right_neutral)
  qed
qed

theorem hamming31_26_corrects_witness:
  "\<exists>w. w = nandfshamming31_26calc 0x12345680 OR 0x20 \<and>
     nandfshamming31_26correct (w XOR bitw 9) = Ok (True, w) \<and> nandfshamming31_26correct (w XOR bitw 2) = Ok (True, w XOR bitw 2)"
proof -
  obtain w where w: "w = nandfshamming31_26calc 0x12345680 OR 0x20"
    "\<forall>n. 6 \<le> n \<and> n < 32 \<longrightarrow> nandfshamming31_26correct (w XOR bitw n) = Ok (True, w)"
    "\<forall>n<5. nandfshamming31_26correct (w XOR bitw n) = Ok (True, w XOR bitw n) \<and> drop_bit 6 (w XOR bitw n) = drop_bit 6 0x12345680"
    using hamming31_26_corrects [of "0x12345680"] by blast
  have "nandfshamming31_26correct (w XOR bitw 9) = Ok (True, w)" by (rule w(2) [rule_format]) simp
  moreover have "nandfshamming31_26correct (w XOR bitw 2) = Ok (True, w XOR bitw 2)" using w(3) [rule_format, of 2] by simp
  ultimately show ?thesis using w(1) by blast
qed

end
