(* ===== verification/NandFs.thy ===== *)
theory NandFs
  imports NandEcc
begin

unbundle bit_operations_syntax

text \<open>
  The flash file system's low level, \<open>libnandfs\<close>: pages with their auxiliary areas, blocks, and the
  table of blocks. The functions that read, write and erase the flash are function pointers of the
  code and fields of the state here; \<open>magic\<close> is the state of the flash they work on. An error message
  is \<open>Some\<close> string, \<open>None\<close> is nil. Block numbers are naturals, addresses 32-bit words; what is
  printed is left out. \<open>Undef\<close> is \<open>strcmp\<close> of nil or an access outside an array.
\<close>

section \<open>State\<close>

type_synonym err = "string option"

definition Eio :: string where "Eio = ''i/o error''"
definition Enomem :: string where "Enomem = ''out of memory''"
definition Eperm :: string where "Eperm = ''permission denied''"

definition NandfsPageSize :: nat where "NandfsPageSize = 512"
definition NandfsAuxiliarySize :: nat where "NandfsAuxiliarySize = 16"
definition NandfsFullSize :: nat where "NandfsFullSize = NandfsPageSize + NandfsAuxiliarySize"

abbreviation "NandfsPathMask \<equiv> (0x3ffffff :: u32)"
abbreviation "NandfsNeraseMask \<equiv> (0x3ffff :: u32)"

abbreviation "LogfsTnone \<equiv> (0xff :: u8)"
abbreviation "LogfsTboot \<equiv> (0x01 :: u8)"
abbreviation "LogfsTlog \<equiv> (0x06 :: u8)"
abbreviation "LogfsTdata \<equiv> (0x18 :: u8)"
abbreviation "LogfsTbad \<equiv> (-1 :: u16)"
abbreviation "LogfsTworse \<equiv> (-2 :: u16)"
abbreviation "LogfsMagic \<equiv> (86 :: u8)"

datatype readresult = ResultOk | ResultSoftError | ResultHardError | ResultBad | ResultAllOnes

record nandtags =
  path :: u32
  nerase :: u32
  tag :: u8
  tmagic :: u8

record nandblock =
  bpath :: u32
  btag :: u16
  bnerase :: u32
  bpartial :: bool

record 'd nandfs =
  l2pagesperblock :: nat
  blocks :: nat
  dread :: "'d \<Rightarrow> nat \<Rightarrow> u32 \<Rightarrow> err \<times> bytes"
  dwrite :: "'d \<Rightarrow> bytes \<Rightarrow> u32 \<Rightarrow> err \<times> 'd"
  derase :: "'d \<Rightarrow> u32 \<Rightarrow> err \<times> 'd"
  magic :: 'd
  rawblocksize :: u32
  baseblock :: nat
  limitblock :: nat
  blockdata :: "nandblock list option"
  worseblocks :: bool

section \<open>The auxiliary area of a page\<close>

record nandaux =
  parth :: bytes
  atag :: u8
  blockstatus :: u8
  nerasemagicmsw :: bytes
  ecc2 :: bytes
  nerasemagiclsw :: bytes
  ecc1 :: bytes

text \<open>The layout of the structure in memory.\<close>

definition aux_bytes :: "nandaux \<Rightarrow> bytes" where
  "aux_bytes h = parth h @ [atag h, blockstatus h] @ nerasemagicmsw h @ ecc2 h @ nerasemagiclsw h @ ecc1 h"

definition aux_of :: "bytes \<Rightarrow> nandaux" where
  "aux_of x = \<lparr>parth = take 4 x, atag = x ! 4, blockstatus = x ! 5, nerasemagicmsw = take 2 (drop 6 x),
     ecc2 = take 3 (drop 8 x), nerasemagiclsw = take 2 (drop 11 x), ecc1 = take 3 (drop 13 x)\<rparr>"

text \<open>\<open>memset(&hdr, 0xff, sizeof(hdr))\<close>\<close>

definition aux_ones :: nandaux where
  "aux_ones = \<lparr>parth = [0xff, 0xff, 0xff, 0xff], atag = 0xff, blockstatus = 0xff, nerasemagicmsw = [0xff, 0xff],
     ecc2 = [0xff, 0xff, 0xff], nerasemagiclsw = [0xff, 0xff], ecc1 = [0xff, 0xff, 0xff]\<rparr>"

definition getbig2 :: "bytes \<Rightarrow> u32" where
  "getbig2 p = push_bit 8 (ucast (p ! 0)) OR ucast (p ! 1)"

definition getbig4 :: "bytes \<Rightarrow> u32" where
  "getbig4 p = push_bit 24 (ucast (p ! 0)) OR push_bit 16 (ucast (p ! 1)) OR push_bit 8 (ucast (p ! 2)) OR ucast (p ! 3)"

definition getlittle3 :: "bytes \<Rightarrow> u32" where
  "getlittle3 p = push_bit 16 (ucast (p ! 2)) OR push_bit 8 (ucast (p ! 1)) OR ucast (p ! 0)"

definition putlittle3 :: "u32 \<Rightarrow> bytes" where
  "putlittle3 q = [ucast q, ucast (drop_bit 8 q), ucast (drop_bit 16 q)]"

definition putbig2 :: "u32 \<Rightarrow> bytes" where
  "putbig2 q = [ucast (drop_bit 8 q), ucast q]"

definition putbig4 :: "u32 \<Rightarrow> bytes" where
  "putbig4 q = [ucast (drop_bit 24 q), ucast (drop_bit 16 q), ucast (drop_bit 8 q), ucast q]"

definition nandfsextracttags :: "nandaux \<Rightarrow> nandtags" where
  "nandfsextracttags hdr =
     (let tmp = push_bit 16 (getbig2 (nerasemagicmsw hdr)) OR getbig2 (nerasemagiclsw hdr);
        p = getbig4 (parth hdr) in
      \<lparr>path = (if p \<noteq> 0xffffffff then drop_bit 6 p else 0xffffffff),
       nerase = (if tmp = 0xffffffff then 0xffffffff else drop_bit 6 tmp AND 0x3ffff),
       tag = atag hdr,
       tmagic = (if tmp = 0xffffffff then 0xff else ucast (drop_bit 24 tmp))\<rparr>)"

function count_bits :: "u8 \<Rightarrow> u8 \<Rightarrow> nat \<Rightarrow> nat" where
  "count_bits c i k = (if i = 0 then k else count_bits c (drop_bit 1 i) (if c AND i \<noteq> 0 then k + 1 else k))"
  by pat_completeness auto

termination count_bits
  by (relation "measure (\<lambda>(c, i, k). unat i)") (simp_all add: drop_bit_less)

declare count_bits.simps [simp del]

definition hammingdistance :: "u8 \<Rightarrow> u8 \<Rightarrow> nat" where
  "hammingdistance a b = (if a = b then 0 else count_bits (a XOR b) 0x80 0)"

definition countzeros :: "u8 \<Rightarrow> nat" where
  "countzeros b = count_bits (NOT b) 0x80 0"

definition nandfsvalidtags :: "u8 list" where
  "nandfsvalidtags = [LogfsTnone, LogfsTboot, LogfsTlog, LogfsTdata]"

text \<open>The loop over the valid tags: the least distance and the tag that has it.\<close>

fun find_tag :: "u8 \<Rightarrow> u8 list \<Rightarrow> nat \<times> u8 \<Rightarrow> nat \<times> u8" where
  "find_tag t [] m = m"
| "find_tag t (v # vs) (mi, mv) =
     (let d = hammingdistance t v in
      if d < mi then (if d = 0 then (d, v) else find_tag t vs (d, v)) else find_tag t vs (mi, mv))"

definition nandfscorrectauxiliary :: "nandaux \<Rightarrow> (readresult \<times> nandaux) outcome" where
  "nandfscorrectauxiliary hdr =
     (let e = ResultOk; (mi, mv) = find_tag (atag hdr) nandfsvalidtags (8, nandfsvalidtags ! 0) in
      if mi = 1 then Ok (ResultSoftError, hdr\<lparr>atag := mv\<rparr>)
      else if 1 < mi then Ok (ResultHardError, hdr)
      else if atag hdr \<noteq> LogfsTnone then
        let tmp = getbig4 (parth hdr) in
        obind (if tmp = 0xffffffff then Ok (False, tmp) else nandfshamming31_26correct tmp) (\<lambda>(bad, tmp).
        let hdr = (if bad then hdr\<lparr>parth := putbig4 tmp\<rparr> else hdr);
          e = (if bad \<and> e \<noteq> ResultOk then ResultSoftError else e);
          tmp = push_bit 16 (getbig2 (nerasemagicmsw hdr)) OR getbig2 (nerasemagiclsw hdr) in
        obind (if tmp = 0xffffffff then Ok (False, tmp) else nandfshamming31_26correct tmp) (\<lambda>(bad, tmp).
        let hdr = (if bad then hdr\<lparr>nerasemagicmsw := putbig2 (drop_bit 16 tmp), nerasemagiclsw := putbig2 tmp\<rparr> else hdr);
          e = (if bad \<and> e \<noteq> ResultOk then ResultSoftError else e) in
        Ok (e, hdr)))
      else if list_all (\<lambda>x. x = 0xff) (aux_bytes hdr) then Ok (ResultAllOnes, hdr)
      else Ok (e, hdr))"

section \<open>Pages\<close>

definition nandfswritepageauxiliary :: "'d nandfs \<Rightarrow> nandtags \<Rightarrow> nat \<Rightarrow> nat \<Rightarrow> err \<times> 'd nandfs" where
  "nandfswritepageauxiliary nf t absblock page =
     (let hdr = aux_ones;
        hdr = (if path t < NandfsPathMask
          then hdr\<lparr>parth := putbig4 (nandfshamming31_26calc (push_bit 6 (path t)) OR push_bit 5 1)\<rparr> else hdr);
        hdr = (if nerase t < NandfsNeraseMask \<or> tmagic t \<noteq> 0xff
          then let tmp = nandfshamming31_26calc (push_bit 24 (ucast (tmagic t)) OR push_bit 6 (nerase t)) OR push_bit 5 1 in
            hdr\<lparr>nerasemagicmsw := putbig2 (drop_bit 16 tmp), nerasemagiclsw := putbig2 tmp\<rparr> else hdr);
        hdr = (if tag t \<noteq> 0xff then hdr\<lparr>atag := tag t\<rparr> else hdr);
        (e, m) = dwrite nf (magic nf) (aux_bytes hdr)
          (rawblocksize nf * of_nat absblock + of_nat page * of_nat NandfsFullSize + of_nat NandfsPageSize)
      in (e, nf\<lparr>magic := m\<rparr>))"

definition nandfsreadpageauxiliary :: "'d nandfs \<Rightarrow> nat \<Rightarrow> nat \<Rightarrow> bool \<Rightarrow> (err \<times> (readresult \<times> nandtags option)) outcome" where
  "nandfsreadpageauxiliary nf block page correct =
     (case dread nf (magic nf) NandfsAuxiliarySize
        (rawblocksize nf * (of_nat (baseblock nf) + of_nat block) + of_nat page * of_nat NandfsFullSize + of_nat NandfsPageSize) of
       (Some rv, _) \<Rightarrow> Ok (Some rv, ResultOk, None)
     | (None, x) \<Rightarrow>
         let hdr = aux_of x in
         if 2 < countzeros (blockstatus hdr) then Ok (None, ResultBad, None)
         else if correct then
           obind (nandfscorrectauxiliary hdr) (\<lambda>(r, hdr). Ok (None, r, Some (nandfsextracttags hdr)))
         else Ok (None, ResultOk, Some (nandfsextracttags hdr)))"

definition page_offset :: "'d nandfs \<Rightarrow> nat \<Rightarrow> nat \<Rightarrow> u32" where
  "page_offset nf block page = rawblocksize nf * (of_nat (baseblock nf) + of_nat block) + of_nat NandfsFullSize * of_nat page"

text \<open>The message, the page read, the tags when they are asked for, and \<open>*result\<close>.\<close>

definition nandfsreadpage :: "'d nandfs \<Rightarrow> bool \<Rightarrow> nat \<Rightarrow> nat \<Rightarrow> (err \<times> bytes \<times> nandtags option \<times> readresult) outcome" where
  "nandfsreadpage nf tags block page =
     (let rawoffset = page_offset nf block page in
      case dread nf (magic nf) NandfsPageSize rawoffset of (Some e, buf) \<Rightarrow> Ok (Some e, buf, None, ResultOk) | (None, buf) \<Rightarrow>
      case dread nf (magic nf) NandfsAuxiliarySize (rawoffset + of_nat NandfsPageSize) of
        (Some e, _) \<Rightarrow> Ok (Some e, buf, None, ResultOk)
      | (None, x) \<Rightarrow>
      let hdr = aux_of x in
      obind (nandecc buf) (\<lambda>c1.
      obind (nandecc (drop 256 buf)) (\<lambda>c2.
      obind (nandecccorrect (take 256 buf) c1 (getlittle3 (ecc1 hdr))) (\<lambda>(e1, lo, _).
      obind (nandecccorrect (drop 256 buf) c2 (getlittle3 (ecc2 hdr))) (\<lambda>(e2, hi, _).
      let result = (if e1 = NandEccErrorBad \<or> e2 = NandEccErrorBad then ResultHardError
          else if e1 \<noteq> NandEccErrorGood \<or> e2 \<noteq> NandEccErrorGood then ResultSoftError else ResultOk) in
      if tags then obind (nandfscorrectauxiliary hdr) (\<lambda>(result, hdr).
        Ok (None, lo @ hi, Some (nandfsextracttags hdr), result))
      else Ok (None, lo @ hi, None, result))))))"

definition nandfsreadpagerange :: "'d nandfs \<Rightarrow> nat \<Rightarrow> nat \<Rightarrow> nat \<Rightarrow> nat \<Rightarrow> (err \<times> bytes \<times> readresult) outcome" where
  "nandfsreadpagerange nf block page offset count =
     obind (nandfsreadpage nf False block page) (\<lambda>(e, tmpbuf, _, result).
       if e \<noteq> None then Ok (e, [], result)
       else obind (rdmem count (drop offset tmpbuf)) (\<lambda>x. Ok (None, x, result)))"

definition nandfsupdatepage :: "'d nandfs \<Rightarrow> bytes \<Rightarrow> u32 \<Rightarrow> u8 \<Rightarrow> nat \<Rightarrow> nat \<Rightarrow> (err \<times> 'd nandfs) outcome" where
  "nandfsupdatepage nf buf pa t block page =
     obind (rdmem NandfsPageSize buf) (\<lambda>tbuf.
     obind (nandecc tbuf) (\<lambda>c1.
     obind (nandecc (drop 256 tbuf)) (\<lambda>c2.
     let hdr = aux_ones\<lparr>atag := t\<rparr>;
       hdr = (if pa < NandfsPathMask
         then hdr\<lparr>parth := putbig4 (nandfshamming31_26calc (push_bit 6 pa) OR push_bit 5 1)\<rparr> else hdr);
       hdr = hdr\<lparr>ecc1 := putlittle3 c1, ecc2 := putlittle3 c2\<rparr>;
       (e, m) = dwrite nf (magic nf) (tbuf @ aux_bytes hdr) (page_offset nf block page)
     in Ok (e, nf\<lparr>magic := m\<rparr>))))"

section \<open>The table of blocks\<close>

definition nandfsgettag :: "'d nandfs \<Rightarrow> nat \<Rightarrow> u16 outcome" where
  "nandfsgettag nf block = (case blockdata nf of None \<Rightarrow> Ok 0 | Some bd \<Rightarrow> obind (rdat bd block) (\<lambda>d. Ok (btag d)))"

definition nandfsgetpath :: "'d nandfs \<Rightarrow> nat \<Rightarrow> u32 outcome" where
  "nandfsgetpath nf block = (case blockdata nf of None \<Rightarrow> Ok 0 | Some bd \<Rightarrow> obind (rdat bd block) (\<lambda>d. Ok (bpath d)))"

definition nandfsgetnerase :: "'d nandfs \<Rightarrow> nat \<Rightarrow> u32 outcome" where
  "nandfsgetnerase nf block = (case blockdata nf of None \<Rightarrow> Ok 0 | Some bd \<Rightarrow> obind (rdat bd block) (\<lambda>d. Ok (bnerase d)))"

definition nandfsgetblockpartialformatstatus :: "'d nandfs \<Rightarrow> nat \<Rightarrow> bool outcome" where
  "nandfsgetblockpartialformatstatus nf block =
     (case blockdata nf of None \<Rightarrow> Ok False | Some bd \<Rightarrow> obind (rdat bd block) (\<lambda>d. Ok (bpartial d)))"

definition upd_block :: "'d nandfs \<Rightarrow> nat \<Rightarrow> (nandblock \<Rightarrow> nandblock) \<Rightarrow> 'd nandfs outcome" where
  "upd_block nf block f = (case blockdata nf of None \<Rightarrow> Ok nf
     | Some bd \<Rightarrow> obind (rdat bd block) (\<lambda>d. Ok (nf\<lparr>blockdata := Some (bd[block := f d])\<rparr>)))"

definition nandfssettag :: "'d nandfs \<Rightarrow> nat \<Rightarrow> u16 \<Rightarrow> 'd nandfs outcome" where
  "nandfssettag nf block t = obind (upd_block nf block (\<lambda>d. d\<lparr>btag := t\<rparr>)) (\<lambda>nf'.
     Ok (if blockdata nf \<noteq> None \<and> t = LogfsTworse then nf'\<lparr>worseblocks := True\<rparr> else nf'))"

definition nandfssetpath :: "'d nandfs \<Rightarrow> nat \<Rightarrow> u32 \<Rightarrow> 'd nandfs outcome" where
  "nandfssetpath nf block p = upd_block nf block (\<lambda>d. d\<lparr>bpath := p\<rparr>)"

definition nandfssetnerase :: "'d nandfs \<Rightarrow> nat \<Rightarrow> u32 \<Rightarrow> 'd nandfs outcome" where
  "nandfssetnerase nf block n = upd_block nf block (\<lambda>d. d\<lparr>bnerase := n\<rparr>)"

definition nandfssetblockpartialformatstatus :: "'d nandfs \<Rightarrow> nat \<Rightarrow> bool \<Rightarrow> 'd nandfs outcome" where
  "nandfssetblockpartialformatstatus nf block p = upd_block nf block (\<lambda>d. d\<lparr>bpartial := p\<rparr>)"

definition nandfsgetblocksize :: "'d nandfs \<Rightarrow> nat" where
  "nandfsgetblocksize nf = 2 ^ (l2pagesperblock nf + 9)"

definition nandfscalcrawaddress :: "'d nandfs \<Rightarrow> nat \<Rightarrow> nat \<Rightarrow> u32" where
  "nandfscalcrawaddress nf pblock dataoffset =
     (let lpage = dataoffset div NandfsPageSize; pageoffset = dataoffset mod NandfsPageSize in
      rawblocksize nf * of_nat pblock + of_nat (lpage * NandfsFullSize) + of_nat pageoffset)"

text \<open>The search for a free block, from block \<open>i\<close> with \<open>n\<close> to go: the best block, its erase count
  and the free blocks so far. Erase counts are compared as signed numbers.\<close>

fun free_loop :: "'d nandfs \<Rightarrow> nat \<Rightarrow> nat \<Rightarrow> int \<times> u32 \<times> nat \<Rightarrow> (int \<times> u32 \<times> nat) outcome" where
  "free_loop nf i 0 s = Ok s"
| "free_loop nf i (Suc n) (best, bestnerase, free) =
     obind (nandfsgettag nf i) (\<lambda>t.
       if t = ucast LogfsTnone then
         obind (nandfsgetnerase nf i) (\<lambda>ne.
           free_loop nf (i + 1) n (if ne <s bestnerase then (int i, ne, free + 1) else (best, bestnerase, free + 1)))
       else free_loop nf (i + 1) n (best, bestnerase, free))"

text \<open>The block, -1 for none, and \<open>*freeblocksp\<close>.\<close>

definition nandfsfindfreeblock :: "'d nandfs \<Rightarrow> (int \<times> nat) outcome" where
  "nandfsfindfreeblock nf = obind (free_loop nf 0 (blocks nf) (-1, 0x7fffffff, 0)) (\<lambda>(best, _, free). Ok (best, free))"

section \<open>Blocks\<close>

definition ppb :: "'d nandfs \<Rightarrow> nat" where
  "ppb nf = 2 ^ l2pagesperblock nf"

text \<open>Marking the pages from \<open>page\<close>, with \<open>n\<close> to go.\<close>

fun mark_loop :: "'d nandfs \<Rightarrow> nat \<Rightarrow> nat \<Rightarrow> nat \<Rightarrow> err \<times> 'd nandfs" where
  "mark_loop nf absblock page 0 = (None, nf)"
| "mark_loop nf absblock page (Suc n) =
     (let (e, m) = dwrite nf (magic nf) (aux_bytes (aux_ones\<lparr>blockstatus := 0xf0\<rparr>))
          (rawblocksize nf * of_nat absblock + of_nat page * of_nat NandfsFullSize + of_nat NandfsPageSize);
        nf = nf\<lparr>magic := m\<rparr> in
      if e \<noteq> None \<and> e \<noteq> Some Eio then (e, nf) else mark_loop nf absblock (page + 1) n)"

definition nandfsmarkabsblockbad :: "'d nandfs \<Rightarrow> nat \<Rightarrow> err \<times> 'd nandfs" where
  "nandfsmarkabsblockbad nf absblock = mark_loop nf absblock 0 (ppb nf)"

definition nandfsmarkblockbad :: "'d nandfs \<Rightarrow> nat \<Rightarrow> (err \<times> 'd nandfs) outcome" where
  "nandfsmarkblockbad nf block =
     (case nandfsmarkabsblockbad nf (block + baseblock nf) of
        (Some e, nf) \<Rightarrow> Ok (Some e, nf)
      | (None, nf) \<Rightarrow> obind (upd_block nf block (\<lambda>d. d\<lparr>btag := LogfsTbad\<rparr>)) (\<lambda>nf. Ok (None, nf)))"

text \<open>\<open>strcmp(e, Eio) != 0\<close>\<close>

fun not_Eio :: "err \<Rightarrow> bool outcome" where
  "not_Eio None = Undef"
| "not_Eio (Some e) = Ok (e \<noteq> Eio)"

text \<open>
  \<open>llsavep\<close> and \<open>markedbad\<close> tell whether those pointers are given, \<open>mem\<close> whether there is memory for the saved
  erase count. The result: the message, the saved count, \<open>*markedbad\<close> and the state.
\<close>

definition nandfseraseblock :: "bool \<Rightarrow> 'd nandfs \<Rightarrow> nat \<Rightarrow> bool \<Rightarrow> bool \<Rightarrow>
    (err \<times> u32 option \<times> bool \<times> 'd nandfs) outcome" where
  "nandfseraseblock mem nf block llsavep markedbad =
     (let (errmsg, m) = derase nf (magic nf) (rawblocksize nf * (of_nat (baseblock nf) + of_nat block));
        nf = nf\<lparr>magic := m\<rparr> in
      if errmsg \<noteq> None then
        obind (upd_block nf block (\<lambda>d. d\<lparr>btag := LogfsTworse\<rparr>)) (\<lambda>nf'.
        let nf = (if blockdata nf \<noteq> None then nf'\<lparr>worseblocks := True\<rparr> else nf') in
        obind (not_Eio errmsg) (\<lambda>b.
        if b then Ok (errmsg, None, False, nf)
        else if markedbad then
          obind (nandfsmarkblockbad nf block) (\<lambda>(errmsg, nf).
          obind (not_Eio errmsg) (\<lambda>b.
          if b then Ok (errmsg, None, True, nf) else Ok (None, None, True, nf)))
        else Ok (errmsg, None, False, nf)))
      else case blockdata nf of None \<Rightarrow> Ok (None, None, False, nf)
      | Some bd \<Rightarrow>
          if llsavep \<and> \<not> mem then Ok (Some Enomem, None, False, nf)
          else obind (rdat bd block) (\<lambda>d.
            Ok (None, if llsavep then Some (bnerase d) else None, False,
              nf\<lparr>blockdata := Some (bd[block := d\<lparr>btag := 0xff, bpath := NandfsPathMask, bnerase := NandfsNeraseMask\<rparr>])\<rparr>)))"

text \<open>The path written to a page.\<close>

definition format_path :: "u8 \<Rightarrow> u32 \<Rightarrow> u32 \<Rightarrow> u32 \<Rightarrow> u32 list \<Rightarrow> nat \<Rightarrow> u32 outcome" where
  "format_path t pa base sizeinblocks xdata page =
     (if t = LogfsTboot \<and> 0 < page \<and> page < length xdata + 3 then
        if page = 1 then Ok base else if page = 2 then Ok sizeinblocks else rdat xdata (page - 3)
      else Ok pa)"

fun format_loop :: "'d nandfs \<Rightarrow> nat \<Rightarrow> nandtags \<Rightarrow> (nat \<Rightarrow> u32 outcome) \<Rightarrow> nat \<Rightarrow> nat \<Rightarrow> (err \<times> 'd nandfs) outcome" where
  "format_loop nf absblock t pf page 0 = Ok (None, nf)"
| "format_loop nf absblock t pf page (Suc n) =
     obind (pf page) (\<lambda>p.
       case nandfswritepageauxiliary nf (t\<lparr>path := p\<rparr>) absblock page of
         (Some rv, nf) \<Rightarrow> Ok (Some rv, nf)
       | (None, nf) \<Rightarrow> format_loop nf absblock t pf (page + 1) n)"

definition nandfsformatblock :: "'d nandfs \<Rightarrow> nat \<Rightarrow> u8 \<Rightarrow> u32 \<Rightarrow> u32 \<Rightarrow> u32 \<Rightarrow> u32 list \<Rightarrow> u32 \<Rightarrow> bool \<Rightarrow>
    (err \<times> bool \<times> 'd nandfs) outcome" where
  "nandfsformatblock nf absblock t pa base sizeinblocks xdata llsave markedbad =
     (let tags = \<lparr>path = 0, nerase = (if llsave < NandfsNeraseMask then llsave + 1 else 1), tag = t, tmagic = LogfsMagic\<rparr> in
      obind (format_loop nf absblock tags (format_path t pa base sizeinblocks xdata) 0 (ppb nf)) (\<lambda>(rv, nf).
      if rv \<noteq> None then
        obind (not_Eio rv) (\<lambda>b.
        if b then Ok (rv, False, nf)
        else if markedbad then
          let (rv, nf) = nandfsmarkabsblockbad nf absblock in
          obind (not_Eio rv) (\<lambda>b. if b then Ok (rv, True, nf) else Ok (None, True, nf))
        else Ok (rv, False, nf))
      else Ok (None, False, nf)))"

definition nandfsreformatblock :: "'d nandfs \<Rightarrow> nat \<Rightarrow> u8 \<Rightarrow> u32 \<Rightarrow> u32 list \<Rightarrow> u32 \<Rightarrow> (err \<times> bool \<times> 'd nandfs) outcome" where
  "nandfsreformatblock nf block t pa xdata llsave =
     (if blockdata nf = None then Ok (Some Eperm, False, nf)
      else obind (nandfsformatblock nf block t pa (of_nat (baseblock nf)) (of_nat (limitblock nf) - of_nat (baseblock nf))
          xdata llsave True) (\<lambda>(errmsg, bad, nf).
        if errmsg \<noteq> None then Ok (errmsg, bad, nf)
        else obind (upd_block nf block (\<lambda>d. d\<lparr>btag := (if bad then LogfsTbad else ucast t), bpath := pa, bnerase := llsave,
            bpartial := False\<rparr>)) (\<lambda>nf. Ok (None, bad, nf))))"

definition nandfswritepage :: "'d nandfs \<Rightarrow> bytes \<Rightarrow> nat \<Rightarrow> nat \<Rightarrow> (err \<times> 'd nandfs) outcome" where
  "nandfswritepage nf buf block page =
     obind (nandfsgetpath nf block) (\<lambda>writepath.
     obind (nandfsgettag nf block) (\<lambda>writetag. nandfsupdatepage nf buf writepath (ucast writetag) block page))"

text \<open>Writing the pages from \<open>p\<close>, with \<open>n\<close> to go.\<close>

fun write_loop :: "'d nandfs \<Rightarrow> bytes \<Rightarrow> (nat \<Rightarrow> u32 outcome) \<Rightarrow> u8 \<Rightarrow> nat \<Rightarrow> nat \<Rightarrow> nat \<Rightarrow> (err \<times> 'd nandfs) outcome" where
  "write_loop nf buf pf t block p 0 = Ok (None, nf)"
| "write_loop nf buf pf t block p (Suc n) =
     obind (pf p) (\<lambda>wp.
     obind (nandfsupdatepage nf buf wp t block p) (\<lambda>(e, nf).
       if e \<noteq> None then Ok (e, nf) else write_loop nf (drop NandfsPageSize buf) pf t block (p + 1) n))"

definition nandfswriteblock :: "'d nandfs \<Rightarrow> bytes \<Rightarrow> u8 \<Rightarrow> u32 \<Rightarrow> u32 list \<Rightarrow> nat \<Rightarrow> (err \<times> 'd nandfs) outcome" where
  "nandfswriteblock nf buf t pa xdata block =
     obind (nandfsgetpath nf block) (\<lambda>opath.
     obind (nandfsgettag nf block) (\<lambda>otag.
     let writepath = (NOT opath OR pa) AND NandfsPathMask; writetag = ucast (NOT otag) OR t;
       pf = (\<lambda>p. if 0 < p \<and> p \<le> 2 + length xdata then
           obind (if p = 1 then Ok (of_nat (baseblock nf)) else if p = 2 then Ok (of_nat (blocks nf)) else rdat xdata (p - 3))
             (\<lambda>x. Ok ((NOT opath OR x) AND NandfsPathMask))
         else Ok writepath) in
     write_loop nf buf pf writetag block 0 (ppb nf)))"

fun worse_result :: "readresult \<Rightarrow> readresult \<Rightarrow> readresult" where
  "worse_result blocke ResultSoftError = (if blocke = ResultOk then ResultSoftError else blocke)"
| "worse_result blocke ResultHardError = (if blocke = ResultOk \<or> blocke = ResultSoftError then ResultHardError else blocke)"
| "worse_result blocke _ = blocke"

fun read_loop :: "'d nandfs \<Rightarrow> nat \<Rightarrow> nat \<Rightarrow> nat \<Rightarrow> bytes \<Rightarrow> readresult \<Rightarrow> (err \<times> bytes \<times> readresult) outcome" where
  "read_loop nf block p 0 bp blocke = Ok (None, bp, blocke)"
| "read_loop nf block p (Suc n) bp blocke =
     obind (nandfsreadpage nf False block p) (\<lambda>(errmsg, x, _, e).
       if errmsg \<noteq> None then Ok (errmsg, bp @ x, blocke)
       else read_loop nf block (p + 1) n (bp @ x) (worse_result blocke e))"

definition nandfsreadblock :: "'d nandfs \<Rightarrow> nat \<Rightarrow> (err \<times> bytes \<times> readresult) outcome" where
  "nandfsreadblock nf block = read_loop nf block 0 (ppb nf) [] ResultOk"

text \<open>Whether the parameters pass, and \<open>*baseblock\<close>, \<open>*limitblock\<close>, \<open>*bootblocks\<close>.\<close>

definition nandfscalcformat :: "'d nandfs \<Rightarrow> nat \<Rightarrow> nat \<Rightarrow> nat \<Rightarrow> bool \<times> nat \<times> nat \<times> nat" where
  "nandfscalcformat nf base limit bootsize =
     (let rbs = unat (rawblocksize nf); bb = (base + rbs - 1) div rbs;
        lb = (if limit = 0 then limitblock nf else limit div rbs);
        boot = (bootsize + rbs - 1) div rbs; boot = (if boot < 3 then 3 else boot) in
      (\<not> (limitblock nf < lb \<or> bb < baseblock nf \<or> int boot > int (limitblock nf) - int (baseblock nf)), bb, lb, boot))"

section \<open>Layout of the auxiliary area\<close>

definition sized :: "nandaux \<Rightarrow> bool" where
  "sized h \<longleftrightarrow> length (parth h) = 4 \<and> length (nerasemagicmsw h) = 2 \<and> length (ecc2 h) = 3 \<and>
     length (nerasemagiclsw h) = 2 \<and> length (ecc1 h) = 3"

lemma sized_simps [simp]:
  "sized aux_ones" "length (putbig4 q) = 4" "length (putbig2 q) = 2" "length (putlittle3 q) = 3"
  by (simp_all add: sized_def aux_ones_def putbig4_def putbig2_def putlittle3_def)

lemma length_aux_bytes: "sized h \<Longrightarrow> length (aux_bytes h) = 16"
  by (simp add: sized_def aux_bytes_def)

lemma aux_of_bytes: "sized h \<Longrightarrow> aux_of (aux_bytes h) = h"
  by (cases h) (simp add: sized_def aux_of_def aux_bytes_def nth_append)

lemma getlittle3_put:
  assumes "\<And>n. bit w n \<Longrightarrow> n < 24"
  shows "getlittle3 (putlittle3 w) = w"
proof (rule bit_word_eqI)
  fix n :: nat assume "n < LENGTH(32)"
  have "n < 8 \<or> 8 \<le> n \<and> n < 16 \<or> 16 \<le> n \<and> n < 24 \<or> 24 \<le> n" by arith
  then show "bit (getlittle3 (putlittle3 w)) n = bit w n"
    unfolding getlittle3_def putlittle3_def nth_Cons_0 using assms [of n]
    by (elim disjE) (auto simp: bit_or_iff bit_push_bit_iff bit_ucast_iff bit_drop_bit_eq numeral_2_eq_2)
qed

lemma ecc_24: "bit (ecc buf) n \<Longrightarrow> n < 24"
  unfolding ecc_def by (cases "ecc_loop 0 (255, 255, 255) buf") (auto simp only: bit_eccword)

section \<open>A page survives a wrong bit in each half\<close>

text \<open>What the flash may do to half a page and its code: nothing, or one wrong bit.\<close>

fun spoil :: "flip option \<Rightarrow> bytes \<times> u32 \<Rightarrow> bytes \<times> u32" where
  "spoil None x = x"
| "spoil (Some f) x = hit f x"

definition harmless :: "flip option \<Rightarrow> bool" where
  "harmless f \<longleftrightarrow> (case f of None \<Rightarrow> True | Some f \<Rightarrow> valid f)"

definition spoil_page :: "flip option \<Rightarrow> flip option \<Rightarrow> bytes \<Rightarrow> bytes" where
  "spoil_page f1 f2 x =
     (let h = aux_of (drop 512 x);
        (lo, s1) = spoil f1 (take 256 x, getlittle3 (ecc1 h));
        (hi, s2) = spoil f2 (take 256 (drop 256 x), getlittle3 (ecc2 h))
      in lo @ hi @ aux_bytes (h\<lparr>ecc1 := putlittle3 s1, ecc2 := putlittle3 s2\<rparr>))"

lemma spoil_corrected:
  assumes "length x = 256" "harmless f" "spoil f (x, ecc x) = (y, s)"
  shows "length y = 256 \<and> (\<forall>n. bit s n \<longrightarrow> n < 24) \<and>
    (\<exists>e c. nandecccorrect y (ecc y) s = Ok (e, x, c) \<and> e \<noteq> NandEccErrorBad \<and> (e = NandEccErrorGood \<longleftrightarrow> f = None))"
proof (cases f)
  case None
  then show ?thesis using assms by (auto simp: nandecccorrect_def dest: ecc_24)
next
  case (Some g)
  have v: "valid g" using assms(2) by (simp add: harmless_def Some)
  have h: "hit g (x, ecc x) = (y, s)" using assms(3) by (simp add: Some)
  note o = hit_one [OF assms(1) v h]
  show ?thesis
  proof (cases g)
    case (Data j b)
    have y: "y = x[j := x ! j XOR bitw b]" "s = ecc x" using h by (simp_all add: Data)
    have j: "j < length x" using v assms(1) by (simp add: Data)
    have v': "valid (Data j b)" using v by (simp only: Data)
    have "nandecccorrect y (ecc y) s = Ok (NandEccErrorOneBit, x, ecc y)"
      using correct_data [OF o(1) [unfolded Data] v' o(2)] flip_back [OF j, of b] unfolding y(1) by simp
    then show ?thesis using o(2) Some ecc_24 by (auto simp: y(2))
  next
    case (Stored k)
    have y: "y = x" "s = ecc x XOR bitw k" using h by (auto simp: Stored)
    have k: "k < 24" using v by (simp add: Stored)
    have "nandecccorrect y (ecc y) s = Ok (NandEccErrorOneBitInEcc, x, ecc y)"
      unfolding y(1) by (rule correct_stored [OF _ k]) (use o(1) in \<open>simp add: y(1) Stored\<close>)
    then show ?thesis using o(2) Some ecc_24 k by (auto simp: y bit_xor_iff)
  qed
qed

lemma nandecc_append: "length x = 256 \<Longrightarrow> nandecc (x @ y) = Ok (ecc x)"
  using nandecc_ecc [of x] by (simp add: nandecc_def rdmem_def)

text \<open>Reading a page of which the flash gives the halves \<open>lo'\<close> and \<open>hi'\<close> with the codes \<open>s1\<close> and \<open>s2\<close>.\<close>

lemma read_spoiled:
  assumes "length lo = 256" "length hi = 256" "harmless f1" "harmless f2"
    and l: "spoil f1 (lo, ecc lo) = (lo', s1)" and r: "spoil f2 (hi, ecc hi) = (hi', s2)"
    and h: "sized h'" "getlittle3 (ecc1 h') = s1" "getlittle3 (ecc2 h') = s2"
    and reads: "dread nf (magic nf) 512 (page_offset nf block page) = (None, lo' @ hi')"
      "dread nf (magic nf) 16 (page_offset nf block page + 512) = (None, aux_bytes h')"
  shows "nandfsreadpage nf False block page =
      Ok (None, lo @ hi, None, if f1 = None \<and> f2 = None then ResultOk else ResultSoftError)"
proof -
  note L = spoil_corrected [OF assms(1,3) l] and R = spoil_corrected [OF assms(2,4) r]
  obtain e1 c1 where e1: "nandecccorrect lo' (ecc lo') s1 = Ok (e1, lo, c1)" "e1 \<noteq> NandEccErrorBad" "e1 = NandEccErrorGood \<longleftrightarrow> f1 = None"
    using L by blast
  obtain e2 c2 where e2: "nandecccorrect hi' (ecc hi') s2 = Ok (e2, hi, c2)" "e2 \<noteq> NandEccErrorBad" "e2 = NandEccErrorGood \<longleftrightarrow> f2 = None"
    using R by blast
  have len: "length lo' = 256" "length hi' = 256" using L R by simp_all
  show ?thesis
    unfolding nandfsreadpage_def Let_def using e1(2,3) e2(2,3)
    by (simp add: NandfsPageSize_def NandfsAuxiliarySize_def reads len aux_of_bytes h nandecc_append nandecc_ecc e1(1) e2(1))
qed

text \<open>The auxiliary area \<open>nandfsupdatepage\<close> writes.\<close>

definition page_aux :: "bytes \<Rightarrow> bytes \<Rightarrow> u32 \<Rightarrow> u8 \<Rightarrow> nandaux" where
  "page_aux lo hi pa t = (let hdr = aux_ones\<lparr>atag := t\<rparr>;
      hdr = (if pa < NandfsPathMask
         then hdr\<lparr>parth := putbig4 (nandfshamming31_26calc (push_bit 6 pa) OR push_bit 5 1)\<rparr> else hdr)
      in hdr\<lparr>ecc1 := putlittle3 (ecc lo), ecc2 := putlittle3 (ecc hi)\<rparr>)"

lemma page_aux_facts:
  "sized (page_aux lo hi pa t)" "getlittle3 (ecc1 (page_aux lo hi pa t)) = ecc lo" "getlittle3 (ecc2 (page_aux lo hi pa t)) = ecc hi"
  using getlittle3_put [OF ecc_24] by (simp_all add: page_aux_def Let_def sized_def aux_ones_def)

lemma updatepage_writes:
  assumes "length lo = 256" "length hi = 256"
    "dwrite nf (magic nf) ((lo @ hi) @ aux_bytes (page_aux lo hi pa t)) (page_offset nf block page) = (None, m)"
  shows "nandfsupdatepage nf (lo @ hi) pa t block page = Ok (None, nf\<lparr>magic := m\<rparr>)"
  using assms unfolding page_aux_def
  by (simp add: nandfsupdatepage_def NandfsPageSize_def rdmem_def nandecc_append nandecc_ecc Let_def)

text \<open>C30: A page comes back although the flash spoils one bit in each half of it: when the flash takes a page of data
  with its auxiliary area and gives it back with at most one wrong bit in each half, data or code, reading the page that
  was written gives the data written; the result tells whether anything was corrected.\<close>

theorem page_survives_spoiling:
  assumes "length buf = 512" "harmless f1" "harmless f2"
    and dev: "\<And>x. length x = 528 \<Longrightarrow> \<exists>m. dwrite nf (magic nf) x (page_offset nf block page) = (None, m) \<and>
       dread nf m 512 (page_offset nf block page) = (None, take 512 (spoil_page f1 f2 x)) \<and>
       dread nf m 16 (page_offset nf block page + 512) = (None, drop 512 (spoil_page f1 f2 x))"
  shows "\<exists>nf'. nandfsupdatepage nf buf pa t block page = Ok (None, nf') \<and>
    nandfsreadpage nf' False block page =
      Ok (None, buf, None, if f1 = None \<and> f2 = None then ResultOk else ResultSoftError)"
proof -
  define lo hi where "lo = take 256 buf" and "hi = drop 256 buf"
  have b: "buf = lo @ hi" "length lo = 256" "length hi = 256" using assms(1) by (simp_all add: lo_def hi_def)
  define x where "x = (lo @ hi) @ aux_bytes (page_aux lo hi pa t)"
  have x: "length x = 528" "take 256 x = lo" "take 256 (drop 256 x) = hi" "aux_of (drop 512 x) = page_aux lo hi pa t"
    using page_aux_facts(1) b by (simp_all add: x_def length_aux_bytes aux_of_bytes)
  obtain m where m: "dwrite nf (magic nf) x (page_offset nf block page) = (None, m)"
    "dread nf m 512 (page_offset nf block page) = (None, take 512 (spoil_page f1 f2 x))"
    "dread nf m 16 (page_offset nf block page + 512) = (None, drop 512 (spoil_page f1 f2 x))"
    using dev [OF x(1)] by (elim exE conjE) (rule that; assumption)
  obtain lo' s1 where l: "spoil f1 (lo, ecc lo) = (lo', s1)" by fastforce
  obtain hi' s2 where r: "spoil f2 (hi, ecc hi) = (hi', s2)" by fastforce
  note L = spoil_corrected [OF b(2) assms(2) l] and R = spoil_corrected [OF b(3) assms(3) r]
  define h' where "h' = (page_aux lo hi pa t)\<lparr>ecc1 := putlittle3 s1, ecc2 := putlittle3 s2\<rparr>"
  have p: "spoil_page f1 f2 x = lo' @ hi' @ aux_bytes h'"
    unfolding spoil_page_def Let_def x page_aux_facts(2,3) l r prod.case h'_def by (rule refl)
  have h': "sized h'" "getlittle3 (ecc1 h') = s1" "getlittle3 (ecc2 h') = s2"
    using page_aux_facts(1) [of lo hi pa t] L R getlittle3_put [of s1] getlittle3_put [of s2] by (simp_all add: h'_def sized_def)
  have reads: "dread (nf\<lparr>magic := m\<rparr>) (magic (nf\<lparr>magic := m\<rparr>)) 512 (page_offset (nf\<lparr>magic := m\<rparr>) block page) = (None, lo' @ hi')"
    "dread (nf\<lparr>magic := m\<rparr>) (magic (nf\<lparr>magic := m\<rparr>)) 16 (page_offset (nf\<lparr>magic := m\<rparr>) block page + 512) = (None, aux_bytes h')"
    using m(2,3) L R unfolding p by (simp_all add: page_offset_def)
  show ?thesis
    unfolding b(1)
    using updatepage_writes [OF b(2,3) m(1) [unfolded x_def]] read_spoiled [OF b(2,3) assms(2,3) l r h' reads] by blast
qed

theorem page_survives_spoiling_witness:
  "\<exists>nf nf'. nandfsupdatepage nf (replicate 512 7) 5 LogfsTdata 1 2 = Ok (None, nf' :: bytes nandfs) \<and>
    nandfsreadpage nf' False 1 2 = Ok (None, replicate 512 7, None, ResultSoftError)"
proof -
  define sp where "sp = spoil_page (Some (Data 3 5)) (Some (Stored 2))"
  define nf :: "bytes nandfs" where "nf = \<lparr>l2pagesperblock = 5, blocks = 4,
    dread = (\<lambda>m n off. (None, if n = 512 then take 512 (sp m) else drop 512 (sp m))),
    dwrite = (\<lambda>m x off. (None, x)), derase = (\<lambda>m off. (None, m)), magic = [], rawblocksize = 16896, baseblock = 0,
    limitblock = 4, blockdata = None, worseblocks = False\<rparr>"
  have "\<exists>nf'. nandfsupdatepage nf (replicate 512 7) 5 LogfsTdata 1 2 = Ok (None, nf') \<and>
    nandfsreadpage nf' False 1 2 = Ok (None, replicate 512 7, None,
      if Some (Data 3 5) = None \<and> Some (Stored 2) = None then ResultOk else ResultSoftError)"
    by (rule page_survives_spoiling) (simp_all only: nf_def sp_def length_replicate harmless_def, simp_all)
  then show ?thesis by auto
qed

section \<open>Tags survive a wrong bit\<close>

lemma getbig4_put: "getbig4 (putbig4 w) = w"
proof (rule bit_word_eqI)
  fix n :: nat assume n: "n < LENGTH(32)"
  have "n < 8 \<or> 8 \<le> n \<and> n < 16 \<or> 16 \<le> n \<and> n < 24 \<or> 24 \<le> n" by arith
  then show "bit (getbig4 (putbig4 w)) n = bit w n"
    unfolding getbig4_def putbig4_def nth_Cons_0 using n
    by (elim disjE) (auto simp: bit_or_iff bit_push_bit_iff bit_ucast_iff bit_drop_bit_eq numeral_2_eq_2 numeral_3_eq_3)
qed

lemma bit_getbig2_put: "bit (getbig2 (putbig2 w)) n \<longleftrightarrow> n < 16 \<and> bit w n"
proof -
  have "n < 8 \<or> 8 \<le> n \<and> n < 16 \<or> 16 \<le> n" by arith
  then show ?thesis
    unfolding getbig2_def putbig2_def nth_Cons_0
    by (elim disjE) (auto simp: bit_or_iff bit_push_bit_iff bit_ucast_iff bit_drop_bit_eq)
qed

text \<open>The erase count and the magic are kept in two halves.\<close>

definition nerase_word :: "nandaux \<Rightarrow> u32" where
  "nerase_word h = push_bit 16 (getbig2 (nerasemagicmsw h)) OR getbig2 (nerasemagiclsw h)"

definition set_nerase :: "u32 \<Rightarrow> nandaux \<Rightarrow> nandaux" where
  "set_nerase w h = h\<lparr>nerasemagicmsw := putbig2 (drop_bit 16 w), nerasemagiclsw := putbig2 w\<rparr>"

lemma nerase_word_set [simp]: "nerase_word (set_nerase w h) = w"
proof (rule bit_word_eqI)
  fix n :: nat assume n: "n < LENGTH(32)"
  show "bit (nerase_word (set_nerase w h)) n = bit w n"
    unfolding nerase_word_def set_nerase_def using n
    by (auto simp: bit_or_iff bit_push_bit_iff bit_getbig2_put bit_drop_bit_eq)
qed

text \<open>What the flash may do to the tags: one wrong bit in the word of the path, the word of the erase count,
  or the tag.\<close>

datatype auxflip = PathBit nat | EraseBit nat | TagBit nat

fun spoil_aux :: "auxflip option \<Rightarrow> nandaux \<Rightarrow> nandaux" where
  "spoil_aux None h = h"
| "spoil_aux (Some (PathBit n)) h = h\<lparr>parth := putbig4 (getbig4 (parth h) XOR bitw n)\<rparr>"
| "spoil_aux (Some (EraseBit n)) h = set_nerase (nerase_word h XOR bitw n) h"
| "spoil_aux (Some (TagBit b)) h = h\<lparr>atag := atag h XOR bitw b\<rparr>"

fun harmless_aux :: "auxflip option \<Rightarrow> bool" where
  "harmless_aux None \<longleftrightarrow> True"
| "harmless_aux (Some (PathBit n)) \<longleftrightarrow> n < 32"
| "harmless_aux (Some (EraseBit n)) \<longleftrightarrow> n < 32"
| "harmless_aux (Some (TagBit b)) \<longleftrightarrow> b < 8"

text \<open>The tag.\<close>

lemma find_tag_valid:
  assumes "t \<in> set [LogfsTboot, LogfsTlog, LogfsTdata]"
  shows "find_tag t nandfsvalidtags (8, nandfsvalidtags ! 0) = (0, t)"
    and "b < 8 \<Longrightarrow> find_tag (t XOR bitw b) nandfsvalidtags (8, nandfsvalidtags ! 0) = (1, t)"
proof -
  have 1: "\<forall>t\<in>set [LogfsTboot, LogfsTlog, LogfsTdata]. find_tag t nandfsvalidtags (8, nandfsvalidtags ! 0) = (0, t)"
    by code_simp
  have 2: "\<forall>b\<in>set [0..<8]. \<forall>t\<in>set [LogfsTboot, LogfsTlog, LogfsTdata].
      find_tag (t XOR bitw b) nandfsvalidtags (8, nandfsvalidtags ! 0) = (1, t)"
    by code_simp
  show "find_tag t nandfsvalidtags (8, nandfsvalidtags ! 0) = (0, t)" by (rule bspec [OF 1 assms])
  show "b < 8 \<Longrightarrow> find_tag (t XOR bitw b) nandfsvalidtags (8, nandfsvalidtags ! 0) = (1, t)"
    by (rule bspec [OF bspec [OF 2] assms]) simp
qed

text \<open>A codeword with one wrong bit is not all ones, and is read as the data it stands for.\<close>

definition codeword :: "u32 \<Rightarrow> bool" where
  "codeword w \<longleftrightarrow> hsyn w = 0 \<and> bit w 5 \<and> w \<noteq> 0xffffffff"

lemma codeword_calc:
  assumes "drop_bit 6 x \<noteq> (0x3ffffff :: u32)"
  shows "codeword (nandfshamming31_26calc x OR push_bit 5 1)" "drop_bit 6 (nandfshamming31_26calc x OR push_bit 5 1) = drop_bit 6 x"
proof -
  have b: "push_bit 5 1 = (0x20 :: u32)" by simp
  show d: "drop_bit 6 (nandfshamming31_26calc x OR push_bit 5 1) = drop_bit 6 x" unfolding b by (rule hamming_word(1))
  have "nandfshamming31_26calc x OR push_bit 5 1 \<noteq> 0xffffffff"
  proof
    assume "nandfshamming31_26calc x OR push_bit 5 1 = 0xffffffff"
    then have "drop_bit 6 x = drop_bit 6 (0xffffffff :: u32)" using d by simp
    then show False using assms by simp
  qed
  moreover have "bit (nandfshamming31_26calc x OR push_bit 5 1) 5" by (simp add: bit_or_iff bit_push_bit_iff)
  ultimately show "codeword (nandfshamming31_26calc x OR push_bit 5 1)"
    unfolding codeword_def b using hamming_word(2) by blast
qed

lemma hsyn_ones: "hsyn 0xffffffff = 0"
  by (simp add: hsyn_def nandfshamming31_26calcparity_def mashbits_def Let_def row4_def row3_def row2_def row1_def row0_def)

lemma not_ones:
  assumes "codeword w" "n < 32"
  shows "w XOR bitw n \<noteq> 0xffffffff"
proof (cases "n = 5")
  case True
  have "bit (0xffffffff :: u32) 5" by simp
  moreover have "\<not> bit (w XOR bitw n) 5" using assms(1) True by (simp add: codeword_def bit_xor_iff)
  ultimately show ?thesis by auto
next
  case False
  have "hsyn (w XOR bitw n) = hsyn (bitw n)" using assms(1) by (simp add: codeword_def hsyn_xor)
  moreover have "hsyn (bitw n) \<noteq> 0" using hmap_bit [of n] False assms(2) by (cases "n < 5") auto
  ultimately show ?thesis using hsyn_ones by auto
qed

lemma correct_codeword:
  assumes "codeword w" "n < 32"
  shows "\<exists>b v. nandfshamming31_26correct (w XOR bitw n) = Ok (b, v) \<and> drop_bit 6 v = drop_bit 6 w
    \<and> (\<not> b \<longrightarrow> v = w XOR bitw n) \<and> v \<noteq> 0xffffffff"
proof -
  have s: "hsyn w = 0" "w \<noteq> 0xffffffff" using assms(1) by (simp_all add: codeword_def)
  have d: "drop_bit 6 (w XOR bitw n) = drop_bit 6 w" if "n < 6" using that by (simp add: drop_bitw)
  consider "n < 5" | "n = 5" | "6 \<le> n" by arith
  then show ?thesis
  proof cases
    case 1
    then show ?thesis using correct_one(3) [OF s(1) 1] d not_ones [OF assms] by auto
  next
    case 2
    then show ?thesis using correct_one(4) [OF s(1)] d not_ones [OF assms] by auto
  next
    case 3
    then show ?thesis using correct_one(2) [OF s(1) 3 assms(2)] s(2) by auto
  qed
qed

text \<open>Reading the tags of an area whose words are codewords.\<close>

definition good_aux :: "nandtags \<Rightarrow> nandaux \<Rightarrow> bool" where
  "good_aux t h \<longleftrightarrow> tag t \<in> set [LogfsTboot, LogfsTlog, LogfsTdata] \<and> atag h = tag t \<and>
     codeword (getbig4 (parth h)) \<and> drop_bit 6 (getbig4 (parth h)) = path t \<and>
     codeword (nerase_word h) \<and> drop_bit 6 (nerase_word h) AND 0x3ffff = nerase t \<and>
     (ucast (drop_bit 24 (nerase_word h)) :: u8) = tmagic t"

definition nearly :: "u32 \<Rightarrow> u32 \<Rightarrow> bool" where
  "nearly w u \<longleftrightarrow> codeword w \<and> (u = w \<or> (\<exists>n<32. u = w XOR bitw n))"

lemma nearly_correct:
  assumes "nearly w u"
  shows "u \<noteq> 0xffffffff"
    and "\<exists>b v. nandfshamming31_26correct u = Ok (b, v) \<and> drop_bit 6 v = drop_bit 6 w \<and> (\<not> b \<longrightarrow> v = u) \<and> v \<noteq> 0xffffffff"
proof -
  have w: "codeword w" "hsyn w = 0" "w \<noteq> 0xffffffff" using assms by (simp_all add: nearly_def codeword_def)
  have u: "u = w \<or> (\<exists>n<32. u = w XOR bitw n)" using assms by (simp add: nearly_def)
  then show "u \<noteq> 0xffffffff" using w(3) not_ones [OF w(1)] by (elim disjE exE conjE) simp_all
  show "\<exists>b v. nandfshamming31_26correct u = Ok (b, v) \<and> drop_bit 6 v = drop_bit 6 w \<and> (\<not> b \<longrightarrow> v = u) \<and> v \<noteq> 0xffffffff"
  proof (cases "u = w")
    case True
    then show ?thesis using correct_one(1) [OF w(2)] w(3) by auto
  next
    case False
    then obtain n where "n < 32" "u = w XOR bitw n" using u by (elim disjE exE conjE) (simp_all add: that)
    then show ?thesis using correct_codeword [OF w(1)] by simp
  qed
qed

text \<open>Writing back a corrected word or leaving the area alone.\<close>

definition fix_path :: "bool \<Rightarrow> u32 \<Rightarrow> nandaux \<Rightarrow> nandaux" where
  "fix_path b v h = (if b then h\<lparr>parth := putbig4 v\<rparr> else h)"

definition fix_nerase :: "bool \<Rightarrow> u32 \<Rightarrow> nandaux \<Rightarrow> nandaux" where
  "fix_nerase b v h = (if b then set_nerase v h else h)"

lemma nerase_word_simps [simp]:
  "nerase_word (h\<lparr>parth := p\<rparr>) = nerase_word h" "nerase_word (h\<lparr>atag := t\<rparr>) = nerase_word h"
  "parth (set_nerase v h) = parth h" "atag (set_nerase v h) = atag h"
  by (simp_all add: nerase_word_def set_nerase_def)

lemma fix_True_False [simp]:
  "fix_path True v h = h\<lparr>parth := putbig4 v\<rparr>" "fix_path False v h = h" "fix_nerase True v h = set_nerase v h" "fix_nerase False v h = h"
  by (simp_all add: fix_path_def fix_nerase_def)

lemma fix_simps:
  "atag (fix_path b v h) = atag h" "nerase_word (fix_path b v h) = nerase_word h"
  "atag (fix_nerase b v h) = atag h" "getbig4 (parth (fix_nerase b v h)) = getbig4 (parth h)"
  "\<not> b \<longrightarrow> v = getbig4 (parth h) \<Longrightarrow> getbig4 (parth (fix_path b v h)) = v"
  "\<not> b \<longrightarrow> v = nerase_word h \<Longrightarrow> nerase_word (fix_nerase b v h) = v"
  by (cases b; simp add: getbig4_put)+

lemma correctauxiliary_words:
  assumes "atag h \<in> set [LogfsTboot, LogfsTlog, LogfsTdata]"
    "nearly w1 (getbig4 (parth h))" "nearly w2 (nerase_word h)"
  shows "\<exists>h'. nandfscorrectauxiliary h = Ok (ResultOk, h') \<and> atag h' = atag h \<and>
    drop_bit 6 (getbig4 (parth h')) = drop_bit 6 w1 \<and> getbig4 (parth h') \<noteq> 0xffffffff \<and>
    drop_bit 6 (nerase_word h') = drop_bit 6 w2 \<and> nerase_word h' \<noteq> 0xffffffff"
proof -
  obtain b1 v1 where c1: "nandfshamming31_26correct (getbig4 (parth h)) = Ok (b1, v1)" "drop_bit 6 v1 = drop_bit 6 w1"
    "\<not> b1 \<longrightarrow> v1 = getbig4 (parth h)" "v1 \<noteq> 0xffffffff" using nearly_correct(2) [OF assms(2)] by blast
  obtain b2 v2 where c2: "nandfshamming31_26correct (nerase_word h) = Ok (b2, v2)" "drop_bit 6 v2 = drop_bit 6 w2"
    "\<not> b2 \<longrightarrow> v2 = nerase_word h" "v2 \<noteq> 0xffffffff" using nearly_correct(2) [OF assms(3)] by blast
  note n = nearly_correct(1) [OF assms(2)] nearly_correct(1) [OF assms(3)]
  have t: "atag h \<noteq> LogfsTnone" using assms(1) by auto
  have "nandfscorrectauxiliary h = Ok (ResultOk, fix_nerase b2 v2 (fix_path b1 v1 h))"
    unfolding nandfscorrectauxiliary_def Let_def find_tag_valid(1) [OF assms(1)] prod.case
    using n t c1(1) c2(1)
    by (cases b1; cases b2) (simp_all add: nerase_word_def [symmetric] set_nerase_def [symmetric] fix_simps)
  then show ?thesis
    using c1 c2 by (intro exI [of _ "fix_nerase b2 v2 (fix_path b1 v1 h)"]) (simp add: fix_simps)
qed

lemma extracttags_words:
  assumes "atag h = tag t" "drop_bit 6 (getbig4 (parth h)) = path t" "getbig4 (parth h) \<noteq> 0xffffffff"
    "drop_bit 6 (nerase_word h) = drop_bit 6 w" "nerase_word h \<noteq> 0xffffffff"
    "drop_bit 6 w AND 0x3ffff = nerase t" "(ucast (drop_bit 24 w) :: u8) = tmagic t"
  shows "nandfsextracttags h = t"
proof -
  have "drop_bit 24 (nerase_word h) = drop_bit 24 w"
    using arg_cong [OF assms(4), of "drop_bit 18"] by (simp only: drop_bit_drop_bit) simp
  then show ?thesis
    using assms unfolding nandfsextracttags_def Let_def nerase_word_def [symmetric] by (cases t) simp
qed

lemma spoiled_tags:
  assumes "good_aux t h" "harmless_aux f"
  shows "\<exists>h'. nandfscorrectauxiliary (spoil_aux f h) = Ok (if \<exists>b. f = Some (TagBit b) then ResultSoftError else ResultOk, h') \<and>
    nandfsextracttags h' = t"
proof (cases "\<exists>b. f = Some (TagBit b)")
  case True
  then obtain b where f: "f = Some (TagBit b)" by blast
  have t: "tag t \<in> set [LogfsTboot, LogfsTlog, LogfsTdata]" using assms(1) by (simp add: good_aux_def)
  have "nandfscorrectauxiliary (spoil_aux f h) = Ok (ResultSoftError, h\<lparr>atag := tag t\<rparr>)"
    using find_tag_valid(2) [OF t, of b] assms unfolding nandfscorrectauxiliary_def f
    by (simp add: good_aux_def)
  moreover have "nandfsextracttags (h\<lparr>atag := tag t\<rparr>) = t"
    by (rule extracttags_words [of _ _ "nerase_word h"]) (use assms(1) in \<open>auto simp: good_aux_def codeword_def nerase_word_def\<close>)
  ultimately show ?thesis using True by auto
next
  case False
  have g: "atag h \<in> set [LogfsTboot, LogfsTlog, LogfsTdata]" "codeword (getbig4 (parth h))" "codeword (nerase_word h)"
    using assms(1) by (simp_all add: good_aux_def)
  have "atag (spoil_aux f h) = atag h \<and> nearly (getbig4 (parth h)) (getbig4 (parth (spoil_aux f h)))
    \<and> nearly (nerase_word h) (nerase_word (spoil_aux f h))"
  proof (cases "(f, h)" rule: spoil_aux.cases)
    case (2 n h)
    then show ?thesis using g assms(2) by (auto simp: nearly_def getbig4_put)
  next
    case (3 n h)
    then show ?thesis using g assms(2) by (auto simp: nearly_def)
  qed (use False g in \<open>auto simp: nearly_def\<close>)
  then obtain h' where "nandfscorrectauxiliary (spoil_aux f h) = Ok (ResultOk, h')" "atag h' = atag h"
    "drop_bit 6 (getbig4 (parth h')) = drop_bit 6 (getbig4 (parth h))" "getbig4 (parth h') \<noteq> 0xffffffff"
    "drop_bit 6 (nerase_word h') = drop_bit 6 (nerase_word h)" "nerase_word h' \<noteq> 0xffffffff"
    using correctauxiliary_words [of "spoil_aux f h"] g(1) by (elim conjE) (simp, metis)
  moreover from this have "nandfsextracttags h' = t"
    using assms(1) by (intro extracttags_words [of h' t "nerase_word h"]) (simp_all add: good_aux_def)
  ultimately show ?thesis using False by auto
qed

text \<open>The auxiliary area \<open>nandfswritepageauxiliary\<close> writes for tags that are all to be written.\<close>

definition tags_aux :: "nandtags \<Rightarrow> nandaux" where
  "tags_aux t = (set_nerase (nandfshamming31_26calc (push_bit 24 (ucast (tmagic t)) OR push_bit 6 (nerase t)) OR push_bit 5 1)
     (aux_ones\<lparr>parth := putbig4 (nandfshamming31_26calc (push_bit 6 (path t)) OR push_bit 5 1)\<rparr>))\<lparr>atag := tag t\<rparr>"

definition all_tags :: "nandtags \<Rightarrow> bool" where
  "all_tags t \<longleftrightarrow> tag t \<in> set [LogfsTboot, LogfsTlog, LogfsTdata] \<and> path t < NandfsPathMask \<and> nerase t < NandfsNeraseMask"

lemma bit_less_word: "unat w < 2 ^ k \<Longrightarrow> bit w n \<Longrightarrow> n < k" for w :: u32
  using bit_less_nat [of "unat w" n k] by (simp add: bit_unsigned_iff)

lemma path_word:
  assumes "p < NandfsPathMask"
  shows "drop_bit 6 (push_bit 6 p) = p" "drop_bit 6 (push_bit 6 p) \<noteq> 0x3ffffff"
proof -
  have l: "unat p < 2 ^ 26" using assms by (simp add: word_less_nat_alt)
  show d: "drop_bit 6 (push_bit 6 p) = p"
  proof (rule bit_word_eqI)
    fix n :: nat assume "n < LENGTH(32)"
    show "bit (drop_bit 6 (push_bit 6 p)) n = bit p n"
      unfolding bit_drop_bit_eq comp_def bit_push_bit_iff using bit_less_word [OF l, of n] by auto
  qed
  show "drop_bit 6 (push_bit 6 p) \<noteq> 0x3ffffff" unfolding d using assms by auto
qed

lemma erase_word:
  fixes m :: u8
  assumes "n < NandfsNeraseMask"
  defines "x \<equiv> push_bit 24 (ucast m) OR push_bit 6 n"
  shows "drop_bit 6 x AND 0x3ffff = n" "drop_bit 6 x \<noteq> 0x3ffffff" "(ucast (drop_bit 18 (drop_bit 6 x)) :: u8) = m"
proof -
  have l: "unat n < 2 ^ 18" using assms by (simp add: word_less_nat_alt)
  have k: "(0x3ffff :: u32) = mask 18" by (simp add: mask_eq_exp_minus_1)
  show d: "drop_bit 6 x AND 0x3ffff = n"
  proof (rule bit_word_eqI)
    fix i :: nat assume "i < LENGTH(32)"
    show "bit (drop_bit 6 x AND 0x3ffff) i = bit n i"
      unfolding x_def k bit_and_iff bit_drop_bit_eq comp_def bit_or_iff bit_push_bit_iff bit_mask_iff
      using bit_less_word [OF l, of i] by auto
  qed
  show "drop_bit 6 x \<noteq> 0x3ffffff"
  proof
    assume "drop_bit 6 x = 0x3ffffff"
    with d have "n = 0x3ffff" by simp
    with assms(1) show False by simp
  qed
  show "(ucast (drop_bit 18 (drop_bit 6 x)) :: u8) = m"
  proof (rule bit_word_eqI)
    fix i :: nat assume "i < LENGTH(8)"
    then show "bit (ucast (drop_bit 18 (drop_bit 6 x)) :: u8) i = bit m i"
      unfolding x_def bit_ucast_iff bit_drop_bit_eq comp_def bit_or_iff bit_push_bit_iff
      using bit_less_word [OF l, of "18 + i"] by auto
  qed
qed

lemma good_tags_aux: "all_tags t \<Longrightarrow> good_aux t (tags_aux t)"
proof -
  assume a: "all_tags t"
  then have p: "path t < NandfsPathMask" and n: "nerase t < NandfsNeraseMask" by (simp_all add: all_tags_def)
  note P = codeword_calc [OF path_word(2) [OF p]] and E = codeword_calc [OF erase_word(2) [OF n, of "tmagic t"]]
  have d: "drop_bit 24 w = drop_bit 18 (drop_bit 6 w)" for w :: u32 by (simp add: drop_bit_drop_bit)
  show ?thesis
    using a P E path_word(1) [OF p] erase_word(1,3) [OF n, of "tmagic t"]
    by (simp add: good_aux_def tags_aux_def all_tags_def getbig4_put d del: drop_bit_drop_bit)
qed

lemma sized_spoil: "sized h \<Longrightarrow> sized (spoil_aux f h)"
  by (cases "(f, h)" rule: spoil_aux.cases) (simp_all add: sized_def set_nerase_def)

text \<open>C31: The tags of a page come back although the flash spoils a bit of them: when the flash takes the auxiliary area
  and gives it back with at most one wrong bit in the word of the path, in the word of the erase count and the magic, or in the tag,
  reading it gives the tags written. The result says so only for the tag: a corrected word is not reported.
  All three tags are written: the tag is one of boot, log and data, and path and erase count are not the values that stand for none.\<close>

theorem tags_survive_spoiling:
  assumes "all_tags t" "harmless_aux f"
    and dev: "\<And>x. length x = 16 \<Longrightarrow> \<exists>m. dwrite nf (magic nf) x (page_offset nf block page + 512) = (None, m) \<and>
       dread nf m 16 (page_offset nf block page + 512) = (None, aux_bytes (spoil_aux f (aux_of x)))"
  shows "\<exists>nf'. nandfswritepageauxiliary nf t (baseblock nf + block) page = (None, nf') \<and>
    nandfsreadpageauxiliary nf' block page True =
      Ok (None, if \<exists>b. f = Some (TagBit b) then ResultSoftError else ResultOk, Some t)"
proof -
  have z: "sized (tags_aux t)" by (simp add: tags_aux_def set_nerase_def sized_def aux_ones_def)
  obtain m where m: "dwrite nf (magic nf) (aux_bytes (tags_aux t)) (page_offset nf block page + 512) = (None, m)"
    "dread nf m 16 (page_offset nf block page + 512) = (None, aux_bytes (spoil_aux f (tags_aux t)))"
    using dev [OF length_aux_bytes [OF z]] by (elim exE conjE) (simp add: aux_of_bytes [OF z] that)
  obtain h' where h': "nandfscorrectauxiliary (spoil_aux f (tags_aux t)) =
      Ok (if \<exists>b. f = Some (TagBit b) then ResultSoftError else ResultOk, h')" "nandfsextracttags h' = t"
    using spoiled_tags [OF good_tags_aux [OF assms(1)] assms(2)] by blast
  have o: "rawblocksize nf * of_nat (baseblock nf + block) + of_nat page * of_nat NandfsFullSize + of_nat NandfsPageSize
      = page_offset nf block page + 512"
    by (simp add: page_offset_def NandfsPageSize_def algebra_simps)
  have w: "nandfswritepageauxiliary nf t (baseblock nf + block) page = (None, nf\<lparr>magic := m\<rparr>)"
    using assms(1) m(1) unfolding nandfswritepageauxiliary_def o tags_aux_def set_nerase_def Let_def
    by (auto simp: all_tags_def)
  have b: "blockstatus (spoil_aux f (tags_aux t)) = 0xff"
    by (cases "(f, tags_aux t)" rule: spoil_aux.cases) (simp_all add: tags_aux_def set_nerase_def aux_ones_def)
  have c: "countzeros 0xff = 0" by code_simp
  have r: "rawblocksize nf * (of_nat (baseblock nf) + of_nat block) + of_nat page * of_nat NandfsFullSize + of_nat NandfsPageSize
      = page_offset nf block page + 512"
    by (simp add: page_offset_def NandfsPageSize_def mult.commute)
  have "nandfsreadpageauxiliary (nf\<lparr>magic := m\<rparr>) block page True =
      Ok (None, if \<exists>b. f = Some (TagBit b) then ResultSoftError else ResultOk, Some t)"
    unfolding nandfsreadpageauxiliary_def Let_def
    by (simp add: r NandfsAuxiliarySize_def m(2) aux_of_bytes [OF sized_spoil [OF z]] b c h')
  with w show ?thesis by blast
qed

theorem tags_survive_spoiling_witness:
  "\<exists>nf nf'. nandfswritepageauxiliary nf \<lparr>path = 5, nerase = 9, tag = LogfsTdata, tmagic = LogfsMagic\<rparr> 3 2 = (None, nf' :: bytes nandfs) \<and>
    nandfsreadpageauxiliary nf' 1 2 True = Ok (None, ResultOk, Some \<lparr>path = 5, nerase = 9, tag = LogfsTdata, tmagic = LogfsMagic\<rparr>)"
proof -
  define t where "t = \<lparr>path = 5, nerase = 9, tag = LogfsTdata, tmagic = LogfsMagic\<rparr>"
  define sp where "sp = (\<lambda>x. aux_bytes (spoil_aux (Some (EraseBit 7)) (aux_of x)))"
  define nf :: "bytes nandfs" where "nf = \<lparr>l2pagesperblock = 5, blocks = 4, dread = (\<lambda>m n off. (None, sp m)),
    dwrite = (\<lambda>m x off. (None, x)), derase = (\<lambda>m off. (None, m)), magic = [], rawblocksize = 16896, baseblock = 2,
    limitblock = 4, blockdata = None, worseblocks = False\<rparr>"
  have "\<exists>nf'. nandfswritepageauxiliary nf t (baseblock nf + 1) 2 = (None, nf') \<and>
    nandfsreadpageauxiliary nf' 1 2 True =
      Ok (None, if \<exists>b. Some (EraseBit 7) = Some (TagBit b) then ResultSoftError else ResultOk, Some t)"
    by (rule tags_survive_spoiling) (simp_all add: nf_def sp_def t_def all_tags_def)
  then show ?thesis by (auto simp: nf_def t_def)
qed

section \<open>The free block\<close>

definition free_block :: "nandblock list \<Rightarrow> nat \<Rightarrow> bool" where
  "free_block bd i \<longleftrightarrow> btag (bd ! i) = ucast LogfsTnone"

text \<open>The first of the free blocks below \<open>n\<close> with the least erase count.\<close>

definition first_least :: "nandblock list \<Rightarrow> nat \<Rightarrow> nat \<Rightarrow> bool" where
  "first_least bd n k \<longleftrightarrow> k < n \<and> free_block bd k \<and>
     (\<forall>j<n. free_block bd j \<longrightarrow> sint (bnerase (bd ! k)) \<le> sint (bnerase (bd ! j))) \<and>
     (\<forall>j<k. free_block bd j \<longrightarrow> sint (bnerase (bd ! k)) < sint (bnerase (bd ! j)))"

text \<open>What the search has found before block \<open>i\<close>.\<close>

definition chosen :: "nandblock list \<Rightarrow> nat \<Rightarrow> int \<Rightarrow> u32 \<Rightarrow> bool" where
  "chosen bd i best ne \<longleftrightarrow> (\<exists>k. first_least bd i k \<and> best = int k \<and> ne = bnerase (bd ! k)) \<or>
     (\<forall>j<i. \<not> free_block bd j) \<and> best = -1 \<and> ne = 0x7fffffff"

lemma card_Suc_free: "card {j. j < Suc i \<and> P j} = card {j. j < i \<and> P j} + (if P i then 1 else 0)"
proof -
  have "{j. j < Suc i \<and> P j} = (if P i then insert i {j. j < i \<and> P j} else {j. j < i \<and> P j})" by (auto simp: less_Suc_eq)
  then show ?thesis by simp
qed

lemma chosen_Suc:
  assumes "chosen bd i best ne" "sint (bnerase (bd ! i)) < sint (0x7fffffff :: u32)"
  shows "\<not> free_block bd i \<Longrightarrow> chosen bd (Suc i) best ne"
    and "free_block bd i \<Longrightarrow> bnerase (bd ! i) <s ne \<Longrightarrow> chosen bd (Suc i) (int i) (bnerase (bd ! i))"
    and "free_block bd i \<Longrightarrow> \<not> bnerase (bd ! i) <s ne \<Longrightarrow> chosen bd (Suc i) best ne"
proof -
  consider k where "first_least bd i k" "best = int k" "ne = bnerase (bd ! k)"
    | "\<forall>j<i. \<not> free_block bd j" "best = -1" "ne = 0x7fffffff"
    using assms(1) unfolding chosen_def by blast
  note c = this
  show "chosen bd (Suc i) best ne" if "\<not> free_block bd i"
    using c by cases (use that in \<open>auto simp: chosen_def first_least_def less_Suc_eq\<close>)
  show "chosen bd (Suc i) (int i) (bnerase (bd ! i))" if f: "free_block bd i" "bnerase (bd ! i) <s ne"
  proof -
    have "first_least bd (Suc i) i"
      using c by cases (use f in \<open>fastforce simp: first_least_def less_Suc_eq word_sless_alt\<close>)+
    then show ?thesis by (auto simp: chosen_def)
  qed
  show "chosen bd (Suc i) best ne" if f: "free_block bd i" "\<not> bnerase (bd ! i) <s ne"
    using c
  proof cases
    case (1 k)
    then have "first_least bd (Suc i) k" using f by (auto simp: first_least_def less_Suc_eq word_sless_alt)
    then show ?thesis using 1 by (auto simp: chosen_def)
  next
    case 2
    then show ?thesis using f assms(2) by (simp add: word_sless_alt)
  qed
qed

lemma free_loop_best:
  assumes "blockdata nf = Some bd" "i + n \<le> length bd" "\<forall>d\<in>set bd. sint (bnerase d) < sint (0x7fffffff :: u32)"
    "chosen bd i best ne"
  shows "\<exists>best' ne'. free_loop nf i n (best, ne, card {j. j < i \<and> free_block bd j}) =
      Ok (best', ne', card {j. j < i + n \<and> free_block bd j}) \<and> chosen bd (i + n) best' ne'"
  using assms(2,4)
proof (induction n arbitrary: i best ne)
  case (Suc n)
  have i: "i < length bd" "sint (bnerase (bd ! i)) < sint (0x7fffffff :: u32)" using Suc.prems(1) assms(3) by auto
  note b = chosen_Suc [OF Suc.prems(2) i(2)]
  have n: "Suc i + n \<le> length bd" using Suc.prems(1) by simp
  show ?case
    using i(1) b [THEN Suc.IH [OF n]]
    by (auto simp: nandfsgettag_def nandfsgetnerase_def assms(1) free_block_def rdat_def card_Suc_free)
qed auto

text \<open>The block chosen for writing is the first of the free blocks that were erased least, -1 when there is none, and the
  free blocks are counted. Erase counts are assumed to be below the greatest long.\<close>

theorem findfreeblock_least_erased:
  assumes "blockdata nf = Some bd" "blocks nf \<le> length bd" "\<forall>d\<in>set bd. sint (bnerase d) < sint (0x7fffffff :: u32)"
  shows "\<exists>best. nandfsfindfreeblock nf = Ok (best, card {j. j < blocks nf \<and> free_block bd j}) \<and>
    (if \<exists>j<blocks nf. free_block bd j then \<exists>k. best = int k \<and> first_least bd (blocks nf) k else best = -1)"
proof -
  have "chosen bd 0 (-1) 0x7fffffff" by (simp add: chosen_def)
  from free_loop_best [OF assms(1) _ assms(3) this, of "blocks nf"] assms(2)
  obtain best ne where l: "free_loop nf 0 (blocks nf) (-1, 0x7fffffff, 0) = Ok (best, ne, card {j. j < blocks nf \<and> free_block bd j})"
    "chosen bd (blocks nf) best ne" by auto
  then show ?thesis
    unfolding nandfsfindfreeblock_def chosen_def by (auto simp: first_least_def)
qed

theorem findfreeblock_least_erased_witness:
  "\<exists>nf best. nandfsfindfreeblock (nf :: unit nandfs) = Ok (best, 2) \<and>
     first_least [\<lparr>bpath = 0, btag = 0xff, bnerase = 4, bpartial = False\<rparr>, \<lparr>bpath = 0, btag = 0xff, bnerase = 3, bpartial = False\<rparr>] 2 (nat best)"
proof -
  define bd where "bd = [\<lparr>bpath = 0, btag = 0xff, bnerase = 4, bpartial = False\<rparr>,
      \<lparr>bpath = 0, btag = 0xff, bnerase = 3, bpartial = False\<rparr>]"
  define nf where "nf = \<lparr>l2pagesperblock = 5, blocks = 2, dread = (\<lambda>m n off. (None, [])), dwrite = (\<lambda>m x off. (None, m)),
    derase = (\<lambda>m off. (None, m)), magic = (), rawblocksize = 16896, baseblock = 0, limitblock = 2, blockdata = Some bd, worseblocks = False\<rparr>"
  have b: "blocks nf = 2" "blockdata nf = Some bd" by (simp_all add: nf_def)
  have s: "\<forall>d\<in>set bd. sint (bnerase d) < sint (0x7fffffff :: u32)" by (simp add: bd_def)
  have f: "free_block bd j" if "j < 2" for j using that by (auto simp: bd_def free_block_def less_2_cases_iff)
  then have c: "{j. j < 2 \<and> free_block bd j} = {0, 1}" by auto
  have "\<exists>j<2. free_block bd j" using f [of 0] by (intro exI [of _ 0]) simp
  with findfreeblock_least_erased [OF b(2) _ s] obtain best k where
    "nandfsfindfreeblock nf = Ok (best, card {j. j < 2 \<and> free_block bd j})" "best = int k" "first_least bd 2 k"
    unfolding b by (auto simp: bd_def)
  moreover have "card {0, 1 :: nat} = 2" by simp
  ultimately show ?thesis unfolding bd_def [symmetric] c by (intro exI [of _ nf] exI [of _ best]) simp
qed

section \<open>Which block is written\<close>

text \<open>A flash that keeps a log of the addresses it is asked to write and erase, and never fails.\<close>

definition logging :: "u32 list nandfs \<Rightarrow> bool" where
  "logging nf \<longleftrightarrow> dwrite nf = (\<lambda>m x off. (None, m @ [off])) \<and> derase nf = (\<lambda>m off. (None, m @ [off]))"

definition aux_address :: "'d nandfs \<Rightarrow> nat \<Rightarrow> nat \<Rightarrow> u32" where
  "aux_address nf absblock page = rawblocksize nf * of_nat absblock + of_nat page * of_nat NandfsFullSize + of_nat NandfsPageSize"

lemma format_loop_log:
  assumes "logging nf" "\<forall>p<page + n. \<exists>x. pf p = Ok x"
  shows "format_loop nf absblock t pf page n = Ok (None, nf\<lparr>magic := magic nf @ map (aux_address nf absblock) [page..<page + n]\<rparr>)"
  using assms
proof (induction n arbitrary: nf page)
  case (Suc n)
  obtain x where x: "pf page = Ok x" using Suc.prems(2) [rule_format, of page] by auto
  let ?nf = "nf\<lparr>magic := magic nf @ [aux_address nf absblock page]\<rparr>"
  have w: "nandfswritepageauxiliary nf (t\<lparr>path := x\<rparr>) absblock page = (None, ?nf)"
    using Suc.prems(1) by (simp add: nandfswritepageauxiliary_def logging_def Let_def aux_address_def)
  have l: "logging ?nf" "aux_address ?nf = aux_address nf"
    using Suc.prems(1) by (simp_all add: logging_def aux_address_def fun_eq_iff)
  have "format_loop ?nf absblock t pf (Suc page) n =
      Ok (None, ?nf\<lparr>magic := magic ?nf @ map (aux_address ?nf absblock) [Suc page..<Suc page + n]\<rparr>)"
    using Suc.prems(2) by (intro Suc.IH [OF l(1)]) simp
  moreover have "[page..<page + Suc n] = page # [Suc page..<Suc page + n]" by (simp add: upt_conv_Cons del: upt_Suc)
  ultimately show ?case by (simp add: x w l del: upt_Suc)
qed simp

text \<open>Erasing a block and formatting it again touch different blocks when the file system does not begin at block 0 of the
  flash: the erase is made at \<open>baseblock + block\<close>, the new tags are written at \<open>block\<close>.\<close>

theorem reformat_ignores_baseblock:
  assumes "logging nf" "magic nf = []" "blockdata nf = Some bd" "block < length bd" "t \<noteq> LogfsTboot"
  shows "\<exists>nf1 nf2. nandfseraseblock True nf block False False = Ok (None, None, False, nf1) \<and>
      magic nf1 = [rawblocksize nf * (of_nat (baseblock nf) + of_nat block)] \<and>
    nandfsreformatblock nf block t pa xdata n = Ok (None, False, nf2) \<and>
      magic nf2 = map (aux_address nf block) [0..<ppb nf]"
proof -
  have f: "\<forall>p. \<exists>x. format_path t pa b s xdata p = Ok x" for b s using assms(5) by (simp add: format_path_def)
  show ?thesis
    using assms(1-4) f
    by (simp add: nandfseraseblock_def nandfsreformatblock_def nandfsformatblock_def logging_def [symmetric] format_loop_log upd_block_def rdat_def)
       (simp add: logging_def)
qed

definition log_sample :: "u32 list nandfs" where
  "log_sample = \<lparr>l2pagesperblock = 1, blocks = 2, dread = (\<lambda>m n off. (None, [])), dwrite = (\<lambda>m x off. (None, m @ [off])),
    derase = (\<lambda>m off. (None, m @ [off])), magic = [], rawblocksize = 1056, baseblock = 3, limitblock = 8,
    blockdata = Some (replicate 2 \<lparr>bpath = 0, btag = 0xff, bnerase = 0, bpartial = False\<rparr>), worseblocks = False\<rparr>"

theorem reformat_ignores_baseblock_witness:
  "\<exists>nf1 nf2. nandfseraseblock True log_sample 1 False False = Ok (None, None, False, nf1) \<and> magic nf1 = [4224] \<and>
    nandfsreformatblock log_sample 1 LogfsTdata 7 [] 0 = Ok (None, False, nf2) \<and> magic nf2 = [1568, 2096]"
proof -
  have u: "[0..<2] = [0, 1]" by (simp add: upt_rec)
  have "logging log_sample" "magic log_sample = []"
    "blockdata log_sample = Some (replicate 2 \<lparr>bpath = 0, btag = 0xff, bnerase = 0, bpartial = False\<rparr>)"
    by (simp_all add: log_sample_def logging_def)
  from reformat_ignores_baseblock [OF this, of 1 LogfsTdata 7 "[]" 0] show ?thesis
    by (simp add: log_sample_def ppb_def u aux_address_def NandfsFullSize_def NandfsPageSize_def NandfsAuxiliarySize_def)
qed

lemma mark_loop_nil:
  assumes "\<forall>m x off. fst (dwrite nf m x off) = None \<or> fst (dwrite nf m x off) = Some Eio"
  shows "\<exists>nf'. mark_loop nf b page n = (None, nf') \<and> blockdata nf' = blockdata nf"
  using assms
proof (induction n arbitrary: nf page)
  case (Suc n)
  let ?r = "dwrite nf (magic nf) (aux_bytes (aux_ones\<lparr>blockstatus := 0xf0\<rparr>))
          (rawblocksize nf * of_nat b + of_nat page * of_nat NandfsFullSize + of_nat NandfsPageSize)"
  obtain e m where r: "?r = (e, m)" by fastforce
  have e: "e = None \<or> e = Some Eio" using Suc.prems r by (metis fst_conv)
  then show ?case using Suc.IH [of "nf\<lparr>magic := m\<rparr>" "page + 1"] Suc.prems r by (auto simp: Let_def)
qed simp

text \<open>When the flash fails to erase a block and the block is to be marked bad, a marking that succeeds is not survived:
  \<open>nandfseraseblock\<close> compares its message, which is nil, with \<open>Eio\<close>.\<close>

theorem marking_bad_crashes:
  assumes "derase nf (magic nf) (rawblocksize nf * (of_nat (baseblock nf) + of_nat block)) = (Some Eio, m)"
    "\<forall>m x off. fst (dwrite nf m x off) = None \<or> fst (dwrite nf m x off) = Some Eio"
    "\<forall>bd. blockdata nf = Some bd \<longrightarrow> block < length bd"
  shows "nandfseraseblock mem nf block llsavep True = Undef"
proof -
  define good where "good = (\<lambda>nf2 :: 'a nandfs. \<forall>bd. blockdata nf2 = Some bd \<longrightarrow> block < length bd)"
  have u: "\<exists>nf'. upd_block nf2 block f = Ok nf' \<and> dwrite nf' = dwrite nf2 \<and> good nf'" if "good nf2" for nf2 f
    using that by (auto simp: upd_block_def good_def split: option.splits)
  have m: "\<exists>nf3. nandfsmarkblockbad nf2 block = Ok (None, nf3)" if h: "good nf2" "dwrite nf2 = dwrite nf" for nf2
  proof -
    obtain nf' where n: "nandfsmarkabsblockbad nf2 (block + baseblock nf2) = (None, nf')" "blockdata nf' = blockdata nf2"
      using mark_loop_nil [of nf2] assms(2) h(2) unfolding nandfsmarkabsblockbad_def by metis
    then have "good nf'" using h(1) by (simp add: good_def)
    with u [of nf'] show ?thesis by (auto simp: nandfsmarkblockbad_def n(1))
  qed
  have g: "good (nf\<lparr>magic := m\<rparr>)" using assms(3) by (simp add: good_def)
  obtain nf1 where n1: "upd_block (nf\<lparr>magic := m\<rparr>) block (\<lambda>d. d\<lparr>btag := LogfsTworse\<rparr>) = Ok nf1" "dwrite nf1 = dwrite nf" "good nf1"
    using u [OF g, of "\<lambda>d. d\<lparr>btag := LogfsTworse\<rparr>"] by auto
  define nf2 where "nf2 = (if blockdata nf \<noteq> None then nf1\<lparr>worseblocks := True\<rparr> else nf1)"
  have "good nf2" "dwrite nf2 = dwrite nf" using n1 by (simp_all add: nf2_def good_def)
  from m [OF this] obtain nf3 where "nandfsmarkblockbad nf2 block = Ok (None, nf3)" by blast
  then show ?thesis
    using assms(1) n1(1) by (cases "blockdata nf") (simp_all add: nandfseraseblock_def Let_def nf2_def)
qed

theorem marking_bad_crashes_witness:
  "\<exists>nf. nandfseraseblock True (nf :: unit nandfs) 1 False True = Undef \<and> blocks nf = 2"
proof -
  define nf :: "unit nandfs" where "nf = \<lparr>l2pagesperblock = 1, blocks = 2, dread = (\<lambda>m n off. (None, [])), dwrite = (\<lambda>m x off. (None, m)),
    derase = (\<lambda>m off. (Some Eio, m)), magic = (), rawblocksize = 1056, baseblock = 3, limitblock = 8, blockdata = None, worseblocks = False\<rparr>"
  have "nandfseraseblock True nf 1 False True = Undef"
    by (rule marking_bad_crashes [of _ _ "()"]) (simp_all add: nf_def)
  then show ?thesis by (intro exI [of _ nf]) (simp add: nf_def)
qed

end
