(* ===== verification/MpVec.thy ===== *)
theory MpVec
  imports Prelude
begin

unbundle bit_operations_syntax

text \<open>
  Vectors of digits, \<open>libmp/port\<close>: \<open>mpvecadd.c\<close>, \<open>mpvecsub.c\<close>, \<open>mpveccmp.c\<close>,
  \<open>mpvecdigmuladd.c\<close>, \<open>mpdigdiv.c\<close>.  A digit is 32 bits and the least significant comes
  first.  A digit pointer is the list of the digits from it to the end of its block, so that
  reading past the end of the block is \<open>Undef\<close> while reading past the length a caller means
  is not.  \<open>mpvecadd\<close> and \<open>mpvecsub\<close> give the digits they write; the callers of this
  library let the destination be one of the operands or apart from both, and each digit is
  read before the one at its place is written.
\<close>

section \<open>Digits and their value\<close>

type_synonym mpdigit = u32

definition Base :: nat where
  "Base = 2 ^ 32"

fun val :: "mpdigit list \<Rightarrow> nat" where
  "val [] = 0"
| "val (d # ds) = unat d + Base * val ds"

lemma Base_pos [simp]: "0 < Base" "Base \<noteq> 0" "1 < Base" "Suc 0 < Base" "Suc 0 \<le> Base"
  by (simp_all add: Base_def)

lemma unat_less_Base [simp]: "unat (d :: mpdigit) < Base"
  using unat_u32_lt [of d] by (simp add: Base_def)

lemma unat_le_Base [simp]: "unat (d :: mpdigit) \<le> Base"
  using unat_less_Base [of d] by (rule less_imp_le)

lemma val_append [simp]: "val (a @ b) = val a + Base ^ length a * val b"
  by (induction a) (simp_all add: algebra_simps)

lemma val_replicate_0 [simp]: "val (replicate n 0) = 0"
  by (induction n) simp_all

lemma val_less: "val a < Base ^ length a"
proof (induction a)
  case (Cons d a)
  have "val (d # a) < Base + Base * val a" by simp
  also have "\<dots> = Base * Suc (val a)" by simp
  also have "\<dots> \<le> Base * Base ^ length a" using Cons by (intro mult_le_mono) simp_all
  finally show ?case by simp
qed simp

lemma val_take_less: "n \<le> length a \<Longrightarrow> val (take n a) < Base ^ n"
  using val_less [of "take n a"] by simp

lemma val_take_drop: "val (take n a) + Base ^ min (length a) n * val (drop n a) = val a"
  using val_append [of "take n a" "drop n a"] by (simp add: min.commute)

lemma val_split: "n \<le> length a \<Longrightarrow> val a = val (take n a) + Base ^ n * val (drop n a)"
  using val_take_drop [of n a] by simp

lemma val_take_Suc: "n < length a \<Longrightarrow> val (take (Suc n) a) = val (take n a) + Base ^ n * unat (a ! n)"
  by (simp add: take_Suc_conv_app_nth)

lemma val_take_mod: "n \<le> length a \<Longrightarrow> val (take n a) = val a mod Base ^ n"
  using val_split [of n a] val_take_less [of n a] by simp

lemma val_zero_iff: "val a = 0 \<longleftrightarrow> (\<forall>d \<in> set a. d = 0)"
  by (induction a) (auto simp: unat_eq_zero)

lemma val_inj: "length a = length b \<Longrightarrow> val a = val b \<Longrightarrow> a = b"
proof (induction a b rule: list_induct2)
  case (Cons x xs y ys)
  have m: "(unat x + Base * val xs) mod Base = (unat y + Base * val ys) mod Base" using Cons.prems by simp
  then have u: "unat x = unat y" by (simp add: mod_less)
  then have "val xs = val ys" using Cons.prems by simp
  with Cons u show ?case by (simp add: word_unat_eq_iff)
qed simp

text \<open>Sums and differences of two digits.\<close>

lemma digit_add: "unat (x + y :: mpdigit) + Base * (if x + y < y then 1 else 0) = unat x + unat y"
proof -
  have "unat (x + y) = (if unat x + unat y < Base then unat x + unat y else unat x + unat y - Base)"
    by (simp add: unat_plus_if' Base_def)
  moreover have "unat x < Base" "unat y < Base" by simp_all
  ultimately have "(unat (x + y) < unat y \<longrightarrow> unat (x + y) + Base = unat x + unat y)
      \<and> (\<not> unat (x + y) < unat y \<longrightarrow> unat (x + y) = unat x + unat y)"
    by arith
  then show ?thesis unfolding word_less_nat_alt by simp
qed

lemma unat_digit_sub: "unat (x - y :: mpdigit) = (if x < y then unat x + Base - unat y else unat x - unat y)"
  unfolding word_less_nat_alt by (simp add: unat_sub_if' Base_def not_less)

lemma digit_sub: "unat (x - y :: mpdigit) + unat y = unat x + Base * (if x < y then 1 else 0)"
  using unat_less_Base [of y] unfolding unat_digit_sub
  by (cases "x < y") (simp_all add: word_less_nat_alt not_less le_imp_diff_is_add trans_le_add2 less_imp_le)

lemma digit_sub_wraps: "(x < x - y) = (x < (y :: mpdigit))"
proof -
  have "unat x < unat x + Base - unat y" if "unat x < unat y"
    using unat_less_Base [of y] by linarith
  then show ?thesis unfolding word_less_nat_alt unat_digit_sub
    by (auto simp: not_less)
qed

section \<open>Addition\<close>

text \<open>The loops over the digits both numbers have, then over the rest of the longer one; the
  digits written to \<open>sum\<close>, the rest of \<open>a\<close>, and \<open>carry\<close>.\<close>

fun add_lo :: "nat \<Rightarrow> mpdigit list \<Rightarrow> mpdigit list \<Rightarrow> mpdigit \<Rightarrow> (mpdigit list \<times> mpdigit list \<times> mpdigit) outcome" where
  "add_lo 0 a b carry = Ok ([], a, carry)"
| "add_lo (Suc n) (x # a) (y # b) carry = (let
     x = x + carry;
     carry = (if x < carry then 1 else 0);
     x = x + y;
     carry = (if x < y then carry + 1 else carry) in
     obind (add_lo n a b carry) (\<lambda>(s, a, carry). Ok (x # s, a, carry)))"
| "add_lo (Suc n) _ _ carry = Undef"

fun add_hi :: "nat \<Rightarrow> mpdigit list \<Rightarrow> mpdigit \<Rightarrow> mpdigit list outcome" where
  "add_hi 0 a carry = Ok [carry]"
| "add_hi (Suc n) (x # a) carry = (let
     x = x + carry;
     carry = (if x < carry then 1 else 0) in
     obind (add_hi n a carry) (\<lambda>s. Ok (x # s)))"
| "add_hi (Suc n) [] carry = Undef"

definition mpvecadd :: "mpdigit list \<Rightarrow> nat \<Rightarrow> mpdigit list \<Rightarrow> nat \<Rightarrow> mpdigit list outcome" where
  "mpvecadd a alen b blen =
     obind (add_lo blen a b 0) (\<lambda>(s, a, carry).
     obind (add_hi (alen - blen) a carry) (\<lambda>t. Ok (s @ t)))"

lemma add_lo_spec:
  assumes "n \<le> length a" "n \<le> length b" "carry \<le> 1"
  shows "\<exists>s c. add_lo n a b carry = Ok (s, drop n a, c) \<and> length s = n \<and> c \<le> 1
    \<and> val s + Base ^ n * unat c = val (take n a) + val (take n b) + unat carry"
  using assms
proof (induction n a b carry rule: add_lo.induct)
  case (2 n x a y b carry)
  define x' where "x' = x + carry"
  define c1 :: mpdigit where "c1 = (if x' < carry then 1 else 0)"
  define z where "z = x' + y"
  define c2 where "c2 = (if z < y then c1 + 1 else c1)"
  have u: "unat carry \<le> 1" using "2.prems"(3) by (simp add: word_le_nat_alt)
  have a1: "unat x' + Base * unat c1 = unat x + unat carry"
    using digit_add [of x carry] by (simp add: x'_def c1_def split: if_splits)
  have a2: "unat z + Base * (if z < y then 1 else 0) = unat x' + unat y"
    using digit_add [of x' y] by (simp add: z_def)
  have not_both: "\<not> (x' < carry \<and> z < y)"
  proof
    assume h: "x' < carry \<and> z < y"
    then have "unat x' = 0" using u by (simp add: word_less_nat_alt)
    then show False using h a2 unat_less_Base [of y] by (simp add: word_less_nat_alt)
  qed
  then have c2: "unat c2 = unat c1 + (if z < y then 1 else 0)" "c2 \<le> 1"
    by (auto simp: c2_def c1_def)
  have eq: "unat z + Base * unat c2 = unat x + unat y + unat carry"
    using a1 a2 unfolding c2(1) by (simp add: algebra_simps split: if_splits)
  obtain s c where s: "add_lo n a b c2 = Ok (s, drop n a, c)" "length s = n" "c \<le> 1"
    "val s + Base ^ n * unat c = val (take n a) + val (take n b) + unat c2"
    using "2.IH" [OF refl refl refl refl] "2.prems" c2(2)
    unfolding x'_def [symmetric] c1_def [symmetric] z_def [symmetric] c2_def [symmetric] by auto
  have "val (z # s) + Base ^ Suc n * unat c = unat z + Base * (val s + Base ^ n * unat c)"
    by (simp add: algebra_simps)
  also have "\<dots> = (unat z + Base * unat c2) + Base * val (take n a) + Base * val (take n b)"
    unfolding s(4) by (simp add: algebra_simps)
  also have "\<dots> = val (take (Suc n) (x # a)) + val (take (Suc n) (y # b)) + unat carry"
    unfolding eq by simp
  finally have "val (z # s) + Base ^ Suc n * unat c = val (take (Suc n) (x # a)) + val (take (Suc n) (y # b)) + unat carry" .
  moreover have "add_lo (Suc n) (x # a) (y # b) carry = Ok (z # s, drop n a, c)"
    using s(1) by (simp only: add_lo.simps Let_def x'_def [symmetric] c1_def [symmetric] z_def [symmetric] c2_def [symmetric] obind.simps prod.case)
  ultimately show ?case using s(2,3) by (intro exI [of _ "z # s"] exI [of _ c]) simp
qed simp_all

lemma add_hi_spec:
  assumes "n \<le> length a" "carry \<le> 1"
  shows "\<exists>s. add_hi n a carry = Ok s \<and> length s = Suc n
    \<and> val s = val (take n a) + unat carry"
  using assms
proof (induction n a carry rule: add_hi.induct)
  case (2 n x a carry)
  define x' where "x' = x + carry"
  define c1 :: mpdigit where "c1 = (if x' < carry then 1 else 0)"
  have a1: "unat x' + Base * unat c1 = unat x + unat carry"
    using digit_add [of x carry] by (simp add: x'_def c1_def split: if_splits)
  have c1_le: "c1 \<le> 1" by (simp add: c1_def)
  obtain s where s: "add_hi n a c1 = Ok s" "length s = Suc n" "val s = val (take n a) + unat c1"
    using "2.IH" [OF refl refl] "2.prems"
    unfolding x'_def [symmetric] c1_def [symmetric] by (metis Suc_le_mono c1_le length_Cons)
  have "add_hi (Suc n) (x # a) carry = Ok (x' # s)"
    by (simp add: Let_def x'_def [symmetric] c1_def [symmetric] s(1))
  then show ?case using s a1 by (intro exI [of _ "x' # s"]) (simp add: algebra_simps)
qed simp_all

lemma mpvecadd_spec:
  assumes "blen \<le> alen" "alen \<le> length a" "blen \<le> length b"
  obtains s where "mpvecadd a alen b blen = Ok s" "length s = Suc alen"
    "val s = val (take alen a) + val (take blen b)"
proof -
  obtain s c where s: "add_lo blen a b 0 = Ok (s, drop blen a, c)" "length s = blen" "c \<le> 1"
    "val s + Base ^ blen * unat c = val (take blen a) + val (take blen b)"
    using add_lo_spec [of blen a b 0] assms by auto
  obtain t where t: "add_hi (alen - blen) (drop blen a) c = Ok t" "length t = Suc (alen - blen)"
    "val t = val (take (alen - blen) (drop blen a)) + unat c"
    using add_hi_spec [OF _ s(3), of "alen - blen" "drop blen a"] assms by (metis diff_le_mono length_drop)
  have "take alen a = take blen a @ take (alen - blen) (drop blen a)"
    using assms(1) take_add [of blen "alen - blen" a] by simp
  then have "val (take alen a) = val (take blen a) + Base ^ blen * val (take (alen - blen) (drop blen a))"
    using assms by simp
  then have "val (s @ t) = val (take alen a) + val (take blen b)"
    using s(2,4) t(3) by (simp add: algebra_simps)
  moreover have "mpvecadd a alen b blen = Ok (s @ t)" by (simp add: mpvecadd_def s(1) t(1))
  ultimately show ?thesis using s(2) t(2) assms(1) by (intro that [of "s @ t"]) simp_all
qed

section \<open>Subtraction\<close>

fun sub_lo :: "nat \<Rightarrow> mpdigit list \<Rightarrow> mpdigit list \<Rightarrow> mpdigit \<Rightarrow> (mpdigit list \<times> mpdigit list \<times> mpdigit) outcome" where
  "sub_lo 0 a b borrow = Ok ([], a, borrow)"
| "sub_lo (Suc n) (x # a) (y # b) borrow = (let
     y = y + borrow;
     borrow = (if y < borrow then 1 else 0);
     borrow = (if x < y then borrow + 1 else borrow) in
     obind (sub_lo n a b borrow) (\<lambda>(s, a, borrow). Ok ((x - y) # s, a, borrow)))"
| "sub_lo (Suc n) _ _ borrow = Undef"

fun sub_hi :: "nat \<Rightarrow> mpdigit list \<Rightarrow> mpdigit \<Rightarrow> mpdigit list outcome" where
  "sub_hi 0 a borrow = Ok []"
| "sub_hi (Suc n) (x # a) borrow = (let
     y = x - borrow;
     borrow = (if x < y then 1 else 0) in
     obind (sub_hi n a borrow) (\<lambda>s. Ok (y # s)))"
| "sub_hi (Suc n) [] borrow = Undef"

definition mpvecsub :: "mpdigit list \<Rightarrow> nat \<Rightarrow> mpdigit list \<Rightarrow> nat \<Rightarrow> mpdigit list outcome" where
  "mpvecsub a alen b blen =
     obind (sub_lo blen a b 0) (\<lambda>(s, a, borrow).
     obind (sub_hi (alen - blen) a borrow) (\<lambda>t. Ok (s @ t)))"

lemma sub_lo_spec:
  assumes "n \<le> length a" "n \<le> length b" "borrow \<le> 1"
  shows "\<exists>s c. sub_lo n a b borrow = Ok (s, drop n a, c) \<and> length s = n \<and> c \<le> 1
    \<and> val s + val (take n b) + unat borrow = val (take n a) + Base ^ n * unat c"
  using assms
proof (induction n a b borrow rule: sub_lo.induct)
  case (2 n x a y b borrow)
  define y' where "y' = y + borrow"
  define c1 :: mpdigit where "c1 = (if y' < borrow then 1 else 0)"
  define c2 where "c2 = (if x < y' then c1 + 1 else c1)"
  have u: "unat borrow \<le> 1" using "2.prems"(3) by (simp add: word_le_nat_alt)
  have a1: "unat y' + Base * unat c1 = unat y + unat borrow"
    using digit_add [of y borrow] by (simp add: y'_def c1_def split: if_splits)
  have a2: "unat (x - y') + unat y' = unat x + Base * (if x < y' then 1 else 0)"
    by (rule digit_sub)
  have not_both: "\<not> (y' < borrow \<and> x < y')"
  proof
    assume h: "y' < borrow \<and> x < y'"
    then have "unat y' = 0" using u by (simp add: word_less_nat_alt)
    then show False using h by (simp add: word_less_nat_alt)
  qed
  then have c2: "unat c2 = unat c1 + (if x < y' then 1 else 0)" "c2 \<le> 1"
    by (auto simp: c2_def c1_def)
  have eq: "unat (x - y') + unat y + unat borrow = unat x + Base * unat c2"
    using a1 a2 unfolding c2(1) by (simp add: algebra_simps split: if_splits)
  obtain s c where s: "sub_lo n a b c2 = Ok (s, drop n a, c)" "length s = n" "c \<le> 1"
    "val s + val (take n b) + unat c2 = val (take n a) + Base ^ n * unat c"
    using "2.IH" [OF refl refl refl] "2.prems" c2(2)
    unfolding y'_def [symmetric] c1_def [symmetric] c2_def [symmetric] by auto
  have "val ((x - y') # s) + val (take (Suc n) (y # b)) + unat borrow
      = (unat (x - y') + unat y + unat borrow) + Base * (val s + val (take n b))"
    by (simp add: algebra_simps)
  also have "\<dots> = unat x + Base * (val s + val (take n b) + unat c2)"
    unfolding eq by (simp add: algebra_simps)
  also have "\<dots> = val (take (Suc n) (x # a)) + Base ^ Suc n * unat c"
    unfolding s(4) by (simp add: algebra_simps)
  finally have "val ((x - y') # s) + val (take (Suc n) (y # b)) + unat borrow
    = val (take (Suc n) (x # a)) + Base ^ Suc n * unat c" .
  moreover have "sub_lo (Suc n) (x # a) (y # b) borrow = Ok ((x - y') # s, drop n a, c)"
    using s(1) by (simp only: sub_lo.simps Let_def y'_def [symmetric] c1_def [symmetric] c2_def [symmetric]
      obind.simps prod.case)
  ultimately show ?case using s(2,3) by (intro exI [of _ "(x - y') # s"] exI [of _ c]) simp
qed simp_all

lemma sub_hi_spec:
  assumes "n \<le> length a" "borrow \<le> 1"
  shows "\<exists>s c. sub_hi n a borrow = Ok s \<and> length s = n \<and> c \<le> 1
    \<and> val s + unat borrow = val (take n a) + Base ^ n * unat (c :: mpdigit)"
  using assms
proof (induction n a borrow rule: sub_hi.induct)
  case (1 a borrow)
  then show ?case by (auto intro: exI [of _ borrow])
next
  case (2 n x a borrow)
  define c1 :: mpdigit where "c1 = (if x < x - borrow then 1 else 0)"
  have a1: "unat (x - borrow) + unat borrow = unat x + Base * unat c1"
    using digit_sub [of x borrow] by (simp add: c1_def digit_sub_wraps)
  have c1_le: "c1 \<le> 1" by (simp add: c1_def)
  obtain s c where s: "sub_hi n a c1 = Ok s" "length s = n" "c \<le> 1"
    "val s + unat c1 = val (take n a) + Base ^ n * unat (c :: mpdigit)"
    using "2.IH" [OF refl refl] "2.prems"
    unfolding c1_def [symmetric] by (metis Suc_le_mono c1_le length_Cons)
  have "val ((x - borrow) # s) + unat borrow = unat x + Base * (val s + unat c1)"
    using a1 by (simp add: algebra_simps)
  also have "\<dots> = val (take (Suc n) (x # a)) + Base ^ Suc n * unat c"
    unfolding s(4) by (simp add: algebra_simps)
  finally show ?case using s(1-3)
    by (intro exI [of _ "(x - borrow) # s"] exI [of _ c]) (simp add: Let_def c1_def)
qed simp

text \<open>Both lengths may be the longer: \<open>mpvecsub\<close> then reads \<open>max alen blen\<close> digits of \<open>a\<close>.\<close>

lemma mpvecsub_wraps:
  assumes "max alen blen \<le> length a" "blen \<le> length b"
  obtains s c where "mpvecsub a alen b blen = Ok s" "length s = max alen blen" "c \<le> (1 :: nat)"
    "val s + val (take blen b) = val (take (max alen blen) a) + Base ^ max alen blen * c"
proof -
  obtain s c where s: "sub_lo blen a b 0 = Ok (s, drop blen a, c)" "length s = blen" "c \<le> 1"
    "val s + val (take blen b) = val (take blen a) + Base ^ blen * unat c"
    using sub_lo_spec [of blen a b 0] assms by auto
  obtain t d where t: "sub_hi (alen - blen) (drop blen a) c = Ok t" "length t = alen - blen" "d \<le> 1"
    "val t + unat c = val (take (alen - blen) (drop blen a)) + Base ^ (alen - blen) * unat (d :: mpdigit)"
    using sub_hi_spec [OF _ s(3), of "alen - blen" "drop blen a"] assms by (metis diff_le_mono length_drop max.bounded_iff)
  have m: "max alen blen = blen + (alen - blen)" by simp
  have "take (max alen blen) a = take blen a @ take (alen - blen) (drop blen a)"
    unfolding m by (rule take_add)
  then have tk: "val (take (max alen blen) a) = val (take blen a) + Base ^ blen * val (take (alen - blen) (drop blen a))"
    using assms by simp
  have "val (s @ t) + val (take blen b) = val (take blen a) + Base ^ blen * (val t + unat c)"
    using s(2,4) by (simp add: algebra_simps)
  also have "\<dots> = val (take (max alen blen) a) + Base ^ max alen blen * unat d"
    unfolding t(4) tk by (simp add: m algebra_simps power_add del: add_diff_assoc)
  finally have "val (s @ t) + val (take blen b) = val (take (max alen blen) a) + Base ^ max alen blen * unat d" .
  moreover have "mpvecsub a alen b blen = Ok (s @ t)" by (simp add: mpvecsub_def s(1) t(1))
  ultimately show ?thesis using s(2) t(2,3) by (intro that [of "s @ t" "unat d"]) (simp_all add: word_le_nat_alt m)
qed

lemma mpvecsub_spec:
  assumes "max alen blen \<le> length a" "blen \<le> length b" "val (take blen b) \<le> val (take (max alen blen) a)"
  obtains s where "mpvecsub a alen b blen = Ok s" "length s = max alen blen"
    "val s = val (take (max alen blen) a) - val (take blen b)"
proof -
  obtain s c where s: "mpvecsub a alen b blen = Ok s" "length s = max alen blen" "c \<le> (1 :: nat)"
    "val s + val (take blen b) = val (take (max alen blen) a) + Base ^ max alen blen * c"
    using mpvecsub_wraps [OF assms(1,2)] by metis
  have "val s < Base ^ max alen blen" using val_less [of s] s(2) by simp
  then have "Base ^ max alen blen * c < Base ^ max alen blen * 1"
    using s(4) assms(3) by linarith
  then have "c = 0" by simp
  then show ?thesis using s assms(3) by (intro that [of s]) simp_all
qed

section \<open>Comparison\<close>

text \<open>Whether one of the \<open>k\<close> digits from \<open>lo\<close> on is not 0, from the top; then the digits both have.\<close>

fun cmp_hi :: "mpdigit list \<Rightarrow> nat \<Rightarrow> nat \<Rightarrow> bool outcome" where
  "cmp_hi a lo 0 = Ok False"
| "cmp_hi a lo (Suc k) = obind (rdat a (lo + k)) (\<lambda>x. if x \<noteq> 0 then Ok True else cmp_hi a lo k)"

fun cmp_lo :: "mpdigit list \<Rightarrow> mpdigit list \<Rightarrow> nat \<Rightarrow> int outcome" where
  "cmp_lo a b 0 = Ok 0"
| "cmp_lo a b (Suc i) =
     obind (rdat a i) (\<lambda>ai. obind (rdat b i) (\<lambda>bi. let x = ai - bi in
       if x = 0 then cmp_lo a b i else if ai < x then Ok (- 1) else Ok 1))"

definition mpveccmp :: "mpdigit list \<Rightarrow> nat \<Rightarrow> mpdigit list \<Rightarrow> nat \<Rightarrow> int outcome" where
  "mpveccmp a alen b blen =
     obind (cmp_hi a blen (alen - blen)) (\<lambda>h. if h then Ok 1 else
     obind (cmp_hi b alen (blen - alen)) (\<lambda>h. if h then Ok (- 1) else
     cmp_lo a b (min alen blen)))"

lemma cmp_hi_spec: "lo + k \<le> length a \<Longrightarrow> cmp_hi a lo k = Ok (val (take k (drop lo a)) \<noteq> 0)"
proof (induction k)
  case (Suc k)
  then have "lo + k < length a" "val (take (Suc k) (drop lo a)) = val (take k (drop lo a)) + Base ^ k * unat (a ! (lo + k))"
    using val_take_Suc [of k "drop lo a"] by simp_all
  then show ?case using Suc by (simp add: rdat_def unat_eq_zero)
qed simp

lemma cmp_lo_spec:
  "n \<le> length a \<Longrightarrow> n \<le> length b \<Longrightarrow>
   cmp_lo a b n = Ok (sgn (int (val (take n a)) - int (val (take n b))))"
proof (induction n)
  case (Suc n)
  have n: "n < length a" "n < length b" using Suc.prems by simp_all
  have l: "val (take n a) < Base ^ n" "val (take n b) < Base ^ n"
    using n by (simp_all add: val_take_less)
  have less: "u + Base ^ n * x < v + Base ^ n * y" if "x < y" "u < Base ^ n" for u v x y :: nat
  proof -
    have "u + Base ^ n * x < Base ^ n * Suc x" using that by simp
    also have "\<dots> \<le> Base ^ n * y" using that by (intro mult_le_mono) simp_all
    finally show ?thesis by simp
  qed
  show ?case
  proof (cases "a ! n = b ! n")
    case True
    then show ?thesis using Suc n by (simp add: rdat_def val_take_Suc)
  next
    case False
    then have c: "cmp_lo a b (Suc n) = (if a ! n < b ! n then Ok (- 1) else Ok 1)"
      using n by (simp add: rdat_def Let_def digit_sub_wraps)
    show ?thesis
    proof (cases "a ! n < b ! n")
      case True
      then have "val (take (Suc n) a) < val (take (Suc n) b)"
        using less l n by (simp add: val_take_Suc word_less_nat_alt)
      then show ?thesis using c True by simp
    next
      case 2: False
      then have "unat (b ! n) < unat (a ! n)" using False by (simp add: word_less_nat_alt word_unat_eq_iff)
      then have "val (take (Suc n) b) < val (take (Suc n) a)"
        using less l n by (simp add: val_take_Suc)
      then show ?thesis using c 2 by simp
    qed
  qed
qed simp

lemma val_take_le: "n \<le> m \<Longrightarrow> m \<le> length a \<Longrightarrow>
  val (take m a) = val (take n a) + Base ^ n * val (take (m - n) (drop n a))"
proof -
  assume h: "n \<le> m" "m \<le> length a"
  have "take m a = take n a @ take (m - n) (drop n a)" using h take_add [of n "m - n" a] by simp
  then show ?thesis using h by simp
qed

lemma mpveccmp_spec:
  assumes "alen \<le> length a" "blen \<le> length b"
  shows "mpveccmp a alen b blen = Ok (sgn (int (val (take alen a)) - int (val (take blen b))))"
proof -
  have big: "v < u + Base ^ n * w" if "v < Base ^ n" "w \<noteq> 0" for u v w n
  proof -
    have "Base ^ n * 1 \<le> Base ^ n * w" using that(2) by (intro mult_le_mono) simp_all
    then show ?thesis using that(1) by linarith
  qed
  consider "alen \<le> blen" | "blen \<le> alen" by linarith
  then show ?thesis
  proof cases
    case 1
    let ?h = "val (take (blen - alen) (drop alen b))"
    have v: "val (take blen b) = val (take alen b) + Base ^ alen * ?h" using 1 assms by (simp add: val_take_le)
    have h: "cmp_hi b alen (blen - alen) = Ok (?h \<noteq> 0)" using 1 assms by (intro cmp_hi_spec) simp
    show ?thesis
    proof (cases "?h = 0")
      case True
      then show ?thesis using 1 assms h v cmp_lo_spec [of alen a b] by (simp add: mpveccmp_def min_absorb1)
    next
      case False
      then have "val (take alen a) < val (take blen b)"
        unfolding v using assms by (intro big val_take_less)
      then show ?thesis using 1 h False by (simp add: mpveccmp_def)
    qed
  next
    case 2
    let ?h = "val (take (alen - blen) (drop blen a))"
    have v: "val (take alen a) = val (take blen a) + Base ^ blen * ?h" using 2 assms by (simp add: val_take_le)
    have h: "cmp_hi a blen (alen - blen) = Ok (?h \<noteq> 0)" using 2 assms by (intro cmp_hi_spec) simp
    show ?thesis
    proof (cases "?h = 0")
      case True
      then show ?thesis using 2 assms h v cmp_lo_spec [of blen a b] by (simp add: mpveccmp_def min_absorb2)
    next
      case False
      then have "val (take blen b) < val (take alen a)"
        unfolding v using assms by (intro big val_take_less)
      then show ?thesis using 2 h False by (simp add: mpveccmp_def)
    qed
  qed
qed

section \<open>Multiplication by a digit\<close>

definition LO :: "mpdigit \<Rightarrow> mpdigit" where
  "LO x = x AND (push_bit 16 1 - 1)"

definition HI :: "mpdigit \<Rightarrow> mpdigit" where
  "HI x = drop_bit 16 x"

text \<open>The two digits of \<open>p\<close>, low and high.\<close>

definition mpdigmul :: "mpdigit \<Rightarrow> mpdigit \<Rightarrow> mpdigit \<times> mpdigit" where
  "mpdigmul a b = (let
     ah = HI a; al = LO a; bh = HI b; bl = LO b;
     p1 = ah * bl; p2 = bh * al; p3 = bl * al; p4 = ah * bh;
     x = push_bit 16 p1;
     p3 = p3 + x;
     carry = (if p3 < x then 1 else 0);
     x = push_bit 16 p2;
     p3 = p3 + x;
     carry = (if p3 < x then carry + 1 else carry);
     p4 = p4 + (carry + HI p1 + HI p2) in
     (p3, p4))"

text \<open>\<open>p\<close> from the loop's digit on; its digit after the last is overwritten.\<close>

fun muladd_loop :: "nat \<Rightarrow> mpdigit list \<Rightarrow> mpdigit \<Rightarrow> mpdigit list \<Rightarrow> mpdigit \<Rightarrow> mpdigit \<Rightarrow> mpdigit list outcome" where
  "muladd_loop 0 b m (y # p) carry part1 = Ok ((part1 + carry) # p)"
| "muladd_loop (Suc n) (d # b) m (y # p) carry part1 = (let
     x = part1 + carry;
     carry = (if x < carry then 1 else 0);
     part = mpdigmul d m;
     x = x + fst part;
     carry = (if x < fst part then carry + 1 else carry);
     x = x + y;
     carry = (if x < y then carry + 1 else carry) in
     obind (muladd_loop n b m p carry (snd part)) (\<lambda>p. Ok (x # p)))"
| "muladd_loop _ _ m _ carry part1 = Undef"

definition mpvecdigmuladd :: "mpdigit list \<Rightarrow> nat \<Rightarrow> mpdigit \<Rightarrow> mpdigit list \<Rightarrow> mpdigit list outcome" where
  "mpvecdigmuladd b n m p = muladd_loop n b m p 0 0"

fun mulsub_loop :: "nat \<Rightarrow> mpdigit list \<Rightarrow> mpdigit \<Rightarrow> mpdigit list \<Rightarrow> mpdigit \<Rightarrow> mpdigit \<Rightarrow> (int \<times> mpdigit list) outcome" where
  "mulsub_loop 0 b m (x # p) borrow part1 = (let
     y = x - borrow - part1 in
     Ok (if x < y then - 1 else 1, y # p))"
| "mulsub_loop (Suc n) (d # b) m (x # p) borrow part1 = (let
     y = x - borrow;
     borrow = (if x < y then 1 else 0);
     part = mpdigmul d m;
     x = part1 + fst part;
     borrow = (if x < fst part then borrow + 1 else borrow);
     x = y - x;
     borrow = (if y < x then borrow + 1 else borrow) in
     obind (mulsub_loop n b m p borrow (snd part)) (\<lambda>(r, p). Ok (r, x # p)))"
| "mulsub_loop _ _ m _ borrow part1 = Undef"

definition mpvecdigmulsub :: "mpdigit list \<Rightarrow> nat \<Rightarrow> mpdigit \<Rightarrow> mpdigit list \<Rightarrow> (int \<times> mpdigit list) outcome" where
  "mpvecdigmulsub b n m p = mulsub_loop n b m p 0 0"

lemma halves: "unat x = unat (LO x) + 65536 * unat (HI x)" "unat (LO x) < 65536" "unat (HI x) < 65536"
proof -
  have "LO x = take_bit 16 x" by (simp add: LO_def take_bit_eq_mask mask_eq_exp_minus_1)
  then have "unat (LO x) = take_bit 16 (unat x)" by (simp only: unsigned_take_bit_eq)
  then have lo: "unat (LO x) = unat x mod 65536" by (simp add: take_bit_eq_mod)
  have hi: "unat (HI x) = unat x div 65536"
    unfolding HI_def unat_drop_bit_eq by (simp add: drop_bit_eq_div)
  show "unat x = unat (LO x) + 65536 * unat (HI x)" "unat (LO x) < 65536" "unat (HI x) < 65536"
    unfolding lo hi using unat_u32_lt [of x] by (simp_all add: less_mult_imp_div_less)
qed

lemma unat_small_mult: "m < 65536 \<Longrightarrow> n < 65536 \<Longrightarrow> unat x = m \<Longrightarrow> unat y = n \<Longrightarrow> unat (x * y :: mpdigit) = m * n"
proof -
  assume h: "m < 65536" "n < 65536" "unat x = m" "unat y = n"
  then have "m * n \<le> 65535 * 65535" by (intro mult_le_mono) simp_all
  then show ?thesis using h by (simp add: unat_word_ariths)
qed

lemma unat_push_half: "unat (push_bit 16 x :: mpdigit) = 65536 * (unat x mod 65536)"
proof -
  have "push_bit 16 x = x * of_nat 65536" by (simp add: push_bit_eq_mult)
  then have "unat (push_bit 16 x) = unat x * 65536 mod (65536 * 65536)" by (simp add: unat_word_ariths)
  then show ?thesis by (simp only: mod_mult_mult2 mult.commute)
qed

lemma mpdigmul_spec: "unat (fst (mpdigmul a b)) + Base * unat (snd (mpdigmul a b)) = unat a * unat b"
proof -
  define ah al bh bl where "ah = unat (HI a)" and "al = unat (LO a)" and "bh = unat (HI b)" and "bl = unat (LO b)"
  have a: "unat a = al + 65536 * ah" "al < 65536" "ah < 65536"
    and b: "unat b = bl + 65536 * bh" "bl < 65536" "bh < 65536"
    using halves [of a] halves [of b] by (simp_all add: ah_def al_def bh_def bl_def)
  define p1 p2 p3 p4 where "p1 = HI a * LO b" and "p2 = HI b * LO a" and "p3 = LO b * LO a" and "p4 = HI a * HI b"
  have p: "unat p1 = ah * bl" "unat p2 = bh * al" "unat p3 = bl * al" "unat p4 = ah * bh"
    unfolding p1_def p2_def p3_def p4_def
    by (rule unat_small_mult; simp add: a b ah_def [symmetric] al_def [symmetric] bh_def [symmetric] bl_def [symmetric])+
  define x1 x2 where "x1 = push_bit 16 p1" and "x2 = push_bit 16 p2"
  define q where "q = p3 + x1"
  define lo where "lo = q + x2"
  define c1 :: mpdigit where "c1 = (if q < x1 then 1 else 0)"
  define c2 where "c2 = (if lo < x2 then c1 + 1 else c1)"
  have c2: "unat c2 = (if q < x1 then 1 else 0) + (if lo < x2 then 1 else 0)"
    by (simp add: c2_def c1_def)
  have fst: "fst (mpdigmul a b) = lo" and snd: "snd (mpdigmul a b) = p4 + (c2 + HI p1 + HI p2)"
    by (simp_all only: mpdigmul_def Let_def p1_def [symmetric] p2_def [symmetric] p3_def [symmetric] p4_def [symmetric]
      x1_def [symmetric] x2_def [symmetric] q_def [symmetric] lo_def [symmetric] c1_def [symmetric] c2_def [symmetric]
      fst_conv snd_conv)
  have half: "unat x = 65536 * unat (HI x) + unat x mod 65536" for x
    using halves [of x] by simp
  have "unat lo + Base * unat c2 = unat p3 + unat x1 + unat x2"
    using digit_add [of p3 x1] digit_add [of q x2]
    unfolding q_def [symmetric] lo_def [symmetric] c2 by (simp add: algebra_simps split: if_splits)
  then have lo: "unat lo + Base * unat c2 = unat p3 + 65536 * (unat p1 mod 65536) + 65536 * (unat p2 mod 65536)"
    by (simp only: x1_def x2_def unat_push_half)
  define hi where "hi = unat p4 + unat c2 + unat (HI p1) + unat (HI p2)"
  have "unat lo + Base * hi = (unat lo + Base * unat c2) + Base * (unat p4 + unat (HI p1) + unat (HI p2))"
    by (simp add: hi_def algebra_simps)
  also have "\<dots> = unat p3 + 65536 * unat p1 + 65536 * unat p2 + Base * unat p4"
    unfolding lo using half [of p1] half [of p2] by (simp add: Base_def algebra_simps)
  also have "\<dots> = unat a * unat b" unfolding p a b by (simp add: Base_def algebra_simps)
  finally have sum: "unat lo + Base * hi = unat a * unat b" .
  have "unat a * unat b < Base * Base" by (intro mult_strict_mono) simp_all
  then have "Base * hi < Base * Base" using sum by linarith
  then have h: "hi < Base" by simp
  have "unat (p4 + (c2 + HI p1 + HI p2)) = hi mod Base"
    by (simp add: hi_def unat_word_ariths Base_def mod_simps add.assoc)
  then show ?thesis using sum h by (simp add: fst snd)
qed

lemma digit_square: "unat (d :: mpdigit) * unat (m :: mpdigit) + 2 * Base \<le> Base * Base + 1"
proof -
  obtain k where k: "Base = Suc k" using Base_pos(2) not0_implies_Suc by blast
  have "unat d * unat m \<le> k * k"
    using unat_less_Base [of d] unat_less_Base [of m] unfolding k by (intro mult_le_mono) simp_all
  then show ?thesis by (simp add: k)
qed

lemma unat_add_small: "unat (x :: mpdigit) + unat y < Base \<Longrightarrow> unat (x + y) = unat x + unat y"
  by (simp add: unat_plus_if' Base_def)

lemma muladd_loop_spec:
  "n \<le> length b \<Longrightarrow> n < length p \<Longrightarrow> unat part1 + unat carry < Base \<Longrightarrow>
   \<exists>r. muladd_loop n b m p carry part1 = Ok (r @ drop (Suc n) p) \<and> length r = Suc n
     \<and> val r = val (take n b) * unat m + val (take n p) + unat part1 + unat carry"
proof (induction n b m p carry part1 rule: muladd_loop.induct)
  case (1 b m y p carry part1)
  then show ?case by (intro exI [of _ "[part1 + carry]"]) (simp add: unat_add_small)
next
  case (2 n d b m y p carry part1)
  define x where "x = part1 + carry"
  have x: "unat x = unat part1 + unat carry" using "2.prems"(3) by (simp add: x_def unat_add_small)
  then have nc: "(if x < carry then 1 else 0) = (0 :: mpdigit)" by (simp add: word_less_nat_alt)
  define l h where "l = fst (mpdigmul d m)" and "h = snd (mpdigmul d m)"
  define z where "z = x + l"
  define c1 :: mpdigit where "c1 = (if z < l then 0 + 1 else 0)"
  define w where "w = z + y"
  define c2 where "c2 = (if w < y then c1 + 1 else c1)"
  have c2: "unat c2 = (if z < l then 1 else 0) + (if w < y then 1 else 0)"
    by (simp add: c2_def c1_def)
  have lh: "unat l + Base * unat h = unat d * unat m" unfolding l_def h_def by (rule mpdigmul_spec)
  have "unat w + Base * unat c2 = unat x + unat l + unat y"
    using digit_add [of x l] digit_add [of z y]
    unfolding z_def [symmetric] w_def [symmetric] c2 by (simp add: algebra_simps split: if_splits)
  then have eq: "unat w + Base * (unat h + unat c2) = unat d * unat m + unat y + unat part1 + unat carry"
    using lh x by (simp add: algebra_simps)
  have "Base * (unat h + unat c2) < Base * Base"
    using eq digit_square [of d m] unat_less_Base [of y] "2.prems"(3) by linarith
  then have hc: "unat h + unat c2 < Base" by simp
  obtain r where r: "muladd_loop n b m p c2 h = Ok (r @ drop (Suc n) p)" "length r = Suc n"
    "val r = val (take n b) * unat m + val (take n p) + unat h + unat c2"
    using "2.IH" [OF refl refl refl refl refl refl refl] "2.prems"(1,2) hc
    unfolding x_def [symmetric] nc l_def [symmetric] z_def [symmetric] c1_def [symmetric] w_def [symmetric]
      c2_def [symmetric] h_def [symmetric] by (metis Suc_le_mono Suc_less_eq length_Cons)
  have "val (w # r) = (unat w + Base * (unat h + unat c2)) + Base * (val (take n b) * unat m + val (take n p))"
    unfolding r(3) val.simps by (simp only: algebra_simps)
  also have "\<dots> = val (take (Suc n) (d # b)) * unat m + val (take (Suc n) (y # p)) + unat part1 + unat carry"
    unfolding eq by (simp add: algebra_simps)
  finally have "val (w # r) = val (take (Suc n) (d # b)) * unat m + val (take (Suc n) (y # p)) + unat part1 + unat carry" .
  moreover have "muladd_loop (Suc n) (d # b) m (y # p) carry part1 = Ok ((w # r) @ drop (Suc (Suc n)) (y # p))"
    using r(1) by (simp only: muladd_loop.simps Let_def x_def [symmetric] nc l_def [symmetric] h_def [symmetric] z_def [symmetric]
      w_def [symmetric] c1_def [symmetric] c2_def [symmetric] obind.simps append.simps drop_Suc_Cons)
  ultimately show ?case using r(2) by (intro exI [of _ "w # r"]) (simp del: muladd_loop.simps)
qed simp_all

lemma mpvecdigmuladd_spec:
  assumes "n \<le> length b" "n < length p"
  obtains r where "mpvecdigmuladd b n m p = Ok (r @ drop (Suc n) p)" "length r = Suc n"
    "val r = val (take n b) * unat m + val (take n p)"
  using muladd_loop_spec [of n b p 0 0 m] assms by (auto simp: mpvecdigmuladd_def)

lemma mulsub_loop_spec:
  "n \<le> length b \<Longrightarrow> n < length p \<Longrightarrow> unat part1 + unat borrow < Base \<Longrightarrow>
   \<exists>r k. mulsub_loop n b m p borrow part1 = Ok (k, r @ drop (Suc n) p) \<and> length r = Suc n
     \<and> k \<in> {1, - 1}
     \<and> val r + val (take n b) * unat m + unat part1 + unat borrow
       = val (take (Suc n) p) + (if k < 0 then Base ^ Suc n else 0)"
proof (induction n b m p borrow part1 rule: mulsub_loop.induct)
  case (1 b m x p borrow part1)
  have s: "x - borrow - part1 = x - (part1 + borrow)" by simp
  show ?case using "1.prems" digit_sub [of x "part1 + borrow"]
    by (intro exI [of _ "[x - borrow - part1]"] exI [of _ "if x < x - borrow - part1 then - 1 else 1 :: int"])
      (cases "x < part1 + borrow"; simp add: s digit_sub_wraps unat_add_small)
next
  case (2 n d b m x p borrow part1)
  define y where "y = x - borrow"
  define b1 :: mpdigit where "b1 = (if x < y then 1 else 0)"
  define l h where "l = fst (mpdigmul d m)" and "h = snd (mpdigmul d m)"
  define z where "z = part1 + l"
  define b2 where "b2 = (if z < l then b1 + 1 else b1)"
  define w where "w = y - z"
  define b3 where "b3 = (if y < w then b2 + 1 else b2)"
  have b3: "unat b3 = (if x < borrow then 1 else 0) + (if z < l then 1 else 0) + (if y < z then 1 else 0)"
    by (simp add: b3_def b2_def b1_def y_def w_def digit_sub_wraps)
  have lh: "unat l + Base * unat h = unat d * unat m" unfolding l_def h_def by (rule mpdigmul_spec)
  have "unat w + unat part1 + unat l + unat borrow = unat x + Base * unat b3"
    using digit_sub [of x borrow] digit_add [of part1 l] digit_sub [of y z]
    unfolding z_def [symmetric] y_def [symmetric] w_def [symmetric] b3
    by (simp add: algebra_simps split: if_splits)
  then have eq: "unat w + unat d * unat m + unat part1 + unat borrow = unat x + Base * (unat h + unat b3)"
    using lh by (simp add: algebra_simps)
  have "Base * (unat h + unat b3) < Base * Base"
    using eq digit_square [of d m] unat_less_Base [of w] "2.prems"(3) by linarith
  then have hc: "unat h + unat b3 < Base" by simp
  obtain r k where r: "mulsub_loop n b m p b3 h = Ok (k, r @ drop (Suc n) p)" "length r = Suc n" "k \<in> {1, - 1}"
    "val r + val (take n b) * unat m + unat h + unat b3 = val (take (Suc n) p) + (if k < 0 then Base ^ Suc n else 0)"
    using "2.IH" [OF refl refl refl refl refl refl refl] "2.prems"(1,2) hc
    unfolding y_def [symmetric] b1_def [symmetric] l_def [symmetric] z_def [symmetric] b2_def [symmetric] w_def [symmetric]
      b3_def [symmetric] h_def [symmetric] by (metis Suc_le_mono Suc_less_eq length_Cons)
  have "val (w # r) + val (take (Suc n) (d # b)) * unat m + unat part1 + unat borrow
      = (unat w + unat d * unat m + unat part1 + unat borrow) + Base * (val r + val (take n b) * unat m)"
    by (simp add: algebra_simps)
  also have "\<dots> = unat x + Base * (val r + val (take n b) * unat m + unat h + unat b3)"
    unfolding eq by (simp only: algebra_simps)
  also have "\<dots> = val (take (Suc (Suc n)) (x # p)) + (if k < 0 then Base ^ Suc (Suc n) else 0)"
    unfolding r(4) by (simp add: algebra_simps)
  finally have "val (w # r) + val (take (Suc n) (d # b)) * unat m + unat part1 + unat borrow
    = val (take (Suc (Suc n)) (x # p)) + (if k < 0 then Base ^ Suc (Suc n) else 0)" .
  moreover have "mulsub_loop (Suc n) (d # b) m (x # p) borrow part1 = Ok (k, (w # r) @ drop (Suc (Suc n)) (x # p))"
    using r(1) by (simp only: mulsub_loop.simps Let_def y_def [symmetric] b1_def [symmetric] l_def [symmetric] h_def [symmetric]
      z_def [symmetric] b2_def [symmetric] w_def [symmetric] b3_def [symmetric] obind.simps prod.case append.simps drop_Suc_Cons)
  ultimately show ?case using r(2,3) by (intro exI [of _ "w # r"] exI [of _ k]) (simp del: mulsub_loop.simps)
qed simp_all

lemma mpvecdigmulsub_spec:
  assumes "n \<le> length b" "n < length p"
  obtains r k where "mpvecdigmulsub b n m p = Ok (k, r @ drop (Suc n) p)" "length r = Suc n" "k \<in> {1, - 1}"
    "val r + val (take n b) * unat m = val (take (Suc n) p) + (if k < 0 then Base ^ Suc n else 0)"
  using mulsub_loop_spec [of n b p 0 0 m] assms by (auto simp: mpvecdigmulsub_def)

section \<open>Division of two digits by one\<close>

text \<open>The loop with \<open>i + 1\<close> of the source as its counter, and what follows it.\<close>

fun digdiv_loop :: "nat \<Rightarrow> mpdigit \<Rightarrow> mpdigit \<Rightarrow> mpdigit \<Rightarrow> mpdigit \<Rightarrow> mpdigit \<Rightarrow> mpdigit" where
  "digdiv_loop 0 lo hi divisor x q = q + lo div divisor"
| "digdiv_loop (Suc i) lo hi divisor x q =
     (if \<not> 0 < hi then q + lo div divisor
      else let x = drop_bit 1 x in
        if hi < x then digdiv_loop i lo hi divisor x q
        else let y = push_bit i divisor in
          if x = hi \<and> lo < y then digdiv_loop i lo hi divisor x q
          else let hi = (if lo < y then hi - 1 else hi) in
            digdiv_loop i (lo - y) (hi - x) divisor x (q OR push_bit i 1))"

definition mpdigdiv :: "mpdigit \<Rightarrow> mpdigit \<Rightarrow> mpdigit \<Rightarrow> mpdigit" where
  "mpdigdiv lo hi divisor =
     (if divisor \<le> hi \<or> divisor = 0 then NOT 0 else digdiv_loop 32 lo hi divisor divisor 0)"

lemma unat_drop_bit_1: "unat (drop_bit 1 x) = unat x div 2"
  unfolding unat_drop_bit_eq by (simp add: drop_bit_eq_div)

lemma unat_push_digit: "unat (push_bit i (x :: mpdigit)) = unat x * 2 ^ i mod Base"
proof -
  have "push_bit i x = x * of_nat (2 ^ i)" by (simp add: push_bit_eq_mult)
  also have "\<dots> = of_nat (unat x * 2 ^ i)" by simp
  finally have "unat (push_bit i x) = unat (of_nat (unat x * 2 ^ i) :: mpdigit)" by (rule arg_cong)
  also have "\<dots> = unat x * 2 ^ i mod Base" by (simp only: unat_of_nat Base_def) (simp add: take_bit_eq_mod)
  finally show ?thesis .
qed

text \<open>\<open>y\<close> and the shifted \<open>x\<close> are the two digits of the divisor shifted by \<open>i\<close>.\<close>

lemma shifted_digits:
  "i \<le> 32 \<Longrightarrow> unat x = unat d div 2 ^ (32 - i) \<Longrightarrow>
   Base * unat x + unat (push_bit i d) = unat (d :: mpdigit) * 2 ^ i"
proof -
  assume h: "i \<le> 32" "unat x = unat d div 2 ^ (32 - i)"
  have b: "Base = 2 ^ (32 - i) * 2 ^ i" using h(1) by (simp add: Base_def flip: power_add)
  have "unat d * 2 ^ i div Base = unat d div 2 ^ (32 - i)"
    unfolding b by (simp add: div_mult2_eq [symmetric] mult.commute)
  then show ?thesis unfolding unat_push_digit h(2) [folded] using div_mult_mod_eq [of "unat d * 2 ^ i" Base]
    by (simp add: mult.commute)
qed

lemma set_bit_plus:
  assumes "\<not> bit q i" "unat q + 2 ^ i < Base"
  shows "unat (q OR push_bit i 1 :: mpdigit) = unat q + 2 ^ i"
proof -
  have i: "i < 32" using assms(2) power_increasing [of 32 i "2 :: nat"] by (cases "i < 32") (auto simp: Base_def)
  have "(2 :: nat) ^ i < Base" using assms(2) by simp
  then have e: "unat (push_bit i 1 :: mpdigit) = 2 ^ i" by (simp only: unat_push_digit unat_1 mult_1 mod_less)
  have "q AND 2 ^ i = 0" using assms(1) by (simp add: and_exp_eq_0_iff_not_bit)
  then have "q OR push_bit i 1 = q + push_bit i 1" by (simp add: disjunctive_add_eq_or push_bit_eq_mult)
  then show ?thesis using unat_add_small [of q "push_bit i 1"] assms(2) unfolding e by simp
qed

lemma digdiv_loop_spec:
  assumes "k \<le> 32" "unat x = unat d div 2 ^ (32 - k)" "Base * unat hi + unat lo < unat d * 2 ^ k"
    "\<forall>n < k. \<not> bit q n" "unat q + 2 ^ k \<le> Base"
  shows "unat (digdiv_loop k lo hi d x q) = unat q + (Base * unat hi + unat lo) div unat d"
  using assms
proof (induction k arbitrary: lo hi x q)
  case 0
  then have "Base * unat hi + unat lo < unat d" by simp
  then have "Base * unat hi < Base * 1" using unat_less_Base [of d] by linarith
  then have "unat hi = 0" by simp
  moreover have "unat lo div unat d = 0" using 0(3) by simp
  ultimately show ?case using 0(3) by (simp add: unat_add_small unat_div)
next
  case (Suc i)
  let ?N = "Base * unat hi + unat lo"
  have d: "0 < unat d" using Suc.prems(3) by (cases "unat d") simp_all
  have i: "i \<le> 32" "i < 32" using Suc.prems(1) by simp_all
  have small: "unat q + 2 ^ i \<le> Base" "unat q + 2 ^ i < Base"
    using Suc.prems(5) by (simp_all add: less_le_trans [of _ "unat q + 2 ^ Suc i"])
  define x' where "x' = drop_bit 1 x"
  have "32 - i = Suc (32 - Suc i)" using i by simp
  then have x': "unat x' = unat d div 2 ^ (32 - i)"
    unfolding x'_def unat_drop_bit_1 Suc.prems(2) by (simp add: div_mult2_eq [symmetric] mult.commute)
  define y where "y = push_bit i d"
  have y: "Base * unat x' + unat y = unat d * 2 ^ i" unfolding y_def by (rule shifted_digits [OF i(1) x'])
  have lower: "unat (digdiv_loop i lo hi d x' q) = unat q + ?N div unat d" if "?N < unat d * 2 ^ i"
    using Suc.IH [OF i(1) x' that _ small(1)] Suc.prems(4) by simp
  consider (zero) "hi = 0" | (high) "hi \<noteq> 0" "hi < x'" | (same) "hi \<noteq> 0" "\<not> hi < x'" "x' = hi" "lo < y"
    | (sub) "hi \<noteq> 0" "\<not> hi < x'" "\<not> (x' = hi \<and> lo < y)" by blast
  then show ?case
  proof cases
    case zero
    have "unat lo div unat d < 2 ^ Suc i" using Suc.prems(3) zero by (simp add: less_mult_imp_div_less mult.commute)
    then have "unat q + unat (lo div d) < Base" using Suc.prems(5) by (simp add: unat_div)
    then show ?thesis using zero by (simp add: unat_add_small unat_div)
  next
    case high
    have "Base * (unat hi + 1) \<le> Base * unat x'" using high(2) by (intro mult_le_mono) (simp_all add: word_less_nat_alt)
    moreover have "Base * (unat hi + 1) = Base * unat hi + Base" by simp
    ultimately have "?N < unat d * 2 ^ i" using y unat_less_Base [of lo] by linarith
    then show ?thesis using high lower
      by (simp only: digdiv_loop.simps Let_def x'_def [symmetric] word_neq_0_conv not_not if_True if_False simp_thms)
  next
    case same
    then have "?N < unat d * 2 ^ i" using y by (simp add: word_less_nat_alt)
    then show ?thesis using same lower
      by (simp only: digdiv_loop.simps Let_def x'_def [symmetric] y_def [symmetric] word_neq_0_conv not_not if_True if_False simp_thms)
  next
    case sub
    define h' where "h' = (if lo < y then hi - 1 else hi)"
    define l z where "l = lo - y" and "z = h' - x'"
    have le: "unat x' \<le> unat hi" using sub(2) by (simp add: word_less_nat_alt)
    have less: "unat x' < unat hi" if "lo < y"
      using le sub(3) that by (metis le_neq_implies_less word_unat_eq_iff)
    have h': "unat h' = unat hi - (if lo < y then 1 else 0)" using sub(1)
      by (simp add: h'_def unat_minus_one)
    have z: "unat z = unat h' - unat x'"
      unfolding z_def using le less h' by (intro unat_sub) (auto simp: word_le_nat_alt)
    have zz: "unat z + unat x' + (if lo < y then 1 else 0) = unat hi"
      unfolding z h' using le less by auto
    have "Base * unat z + unat l + unat d * 2 ^ i = Base * (unat z + unat x') + (unat l + unat y)"
      using y by (simp add: algebra_simps)
    also have "\<dots> = ?N" unfolding l_def digit_sub zz [symmetric] by (simp add: algebra_simps)
    finally have N: "Base * unat z + unat l + unat d * 2 ^ i = ?N" .
    have q: "unat (q OR push_bit i 1) = unat q + 2 ^ i"
      using Suc.prems(4) small(2) by (intro set_bit_plus) simp_all
    have "unat (digdiv_loop i l z d x' (q OR push_bit i 1)) = unat (q OR push_bit i 1) + (Base * unat z + unat l) div unat d"
    proof (rule Suc.IH [OF i(1) x'])
      show "Base * unat z + unat l < unat d * 2 ^ i" using N Suc.prems(3) by simp
      show "\<forall>n<i. \<not> bit (q OR push_bit i 1) n" using Suc.prems(4) unfolding bit_or_iff bit_push_bit_iff by auto
      show "unat (q OR push_bit i 1) + 2 ^ i \<le> Base" unfolding q using Suc.prems(5) by simp
    qed
    also have "\<dots> = unat q + ?N div unat d"
      unfolding q N [symmetric] using d by simp
    finally have r: "unat (digdiv_loop i l z d x' (q OR push_bit i 1)) = unat q + ?N div unat d" .
    have "digdiv_loop (Suc i) lo hi d x q = digdiv_loop i l z d x' (q OR push_bit i 1)"
      using sub by (simp only: digdiv_loop.simps Let_def x'_def [symmetric] y_def [symmetric] h'_def [symmetric]
        l_def [symmetric] z_def [symmetric] word_neq_0_conv not_not if_False simp_thms)
    then show ?thesis using r by simp
  qed
qed

lemma mpdigdiv_spec:
  "hi < d \<Longrightarrow> unat (mpdigdiv lo hi d) = (Base * unat hi + unat lo) div unat d"
proof -
  assume h: "hi < d"
  have "Base * (unat hi + 1) \<le> Base * unat d" using h by (intro mult_le_mono) (simp_all add: word_less_nat_alt)
  moreover have "Base * (unat hi + 1) = Base * unat hi + Base" by simp
  ultimately have "Base * unat hi + unat lo < Base * unat d" using unat_less_Base [of lo] by linarith
  then have "Base * unat hi + unat lo < unat d * 2 ^ 32" by (simp only: Base_def mult.commute)
  moreover have "d \<noteq> 0" using h by auto
  moreover have "mpdigdiv lo hi d = digdiv_loop 32 lo hi d d 0"
    using h by (auto simp: mpdigdiv_def)
  ultimately show ?thesis using digdiv_loop_spec [of 32 d d hi lo 0] by (simp add: Base_def)
qed

lemma mpdigdiv_big: "d \<le> hi \<Longrightarrow> unat (mpdigdiv lo hi d) = Base - 1"
proof -
  have "(NOT 0 :: mpdigit) = 0xFFFFFFFF" by simp
  then have "unat (NOT 0 :: mpdigit) = 2 ^ 32 - 1" by (simp only:) simp
  then show "d \<le> hi \<Longrightarrow> ?thesis" by (simp only: mpdigdiv_def Base_def simp_thms if_True)
qed

end
