(* ===== verification/MpMul.thy ===== *)
theory MpMul
  imports MpVec
begin

text \<open>
  Multiplication of digit vectors, \<open>libmp/port/mpmul.c\<close>: the row by row method and, from 32
  digits on, Karatsuba's.  \<open>p\<close> is the list of the digits from the destination to the end of its
  block, and so are \<open>a\<close> and \<open>b\<close> for the operands; the scratch block \<open>t\<close> of \<open>mpkaratsuba\<close> is one
  list with the partial products at the offsets the source gives them.  Allocation succeeds.

  The middle term needs two differences.  Where the half that is subtracted has more digits
  than the other, \<open>mpvecsub\<close> reads past the end of the other: the digit it finds there belongs
  to the caller's memory.  The lemmas give the product for lengths whose halves always have the
  same length, and the value that comes of the digit behind \<open>a\<close> for an odd length.
\<close>

section \<open>The scratch block\<close>

text \<open>Digits written at an offset of a block.\<close>

definition put :: "nat \<Rightarrow> 'a list \<Rightarrow> 'a list \<Rightarrow> 'a list outcome" where
  "put off ds t =
     (if off + length ds \<le> length t then Ok (take off t @ ds @ drop (off + length ds) t) else Undef)"

definition vadd_at :: "nat \<Rightarrow> nat \<Rightarrow> nat \<Rightarrow> nat \<Rightarrow> mpdigit list \<Rightarrow> mpdigit list outcome" where
  "vadd_at dst alen src blen t =
     obind (mpvecadd (drop dst t) alen (drop src t) blen) (\<lambda>s. put dst s t)"

definition vsub_at :: "nat \<Rightarrow> nat \<Rightarrow> nat \<Rightarrow> nat \<Rightarrow> mpdigit list \<Rightarrow> mpdigit list outcome" where
  "vsub_at dst alen src blen t =
     obind (mpvecsub (drop dst t) alen (drop src t) blen) (\<lambda>s. put dst s t)"

section \<open>Multiplication\<close>

text \<open>The difference of two halves and its sign.\<close>

definition mpvecdiff :: "mpdigit list \<Rightarrow> nat \<Rightarrow> mpdigit list \<Rightarrow> nat \<Rightarrow> (int \<times> mpdigit list) outcome" where
  "mpvecdiff x xlen y ylen =
     obind (mpveccmp x xlen y ylen) (\<lambda>c.
       if c < 0 then obind (mpvecsub y ylen x xlen) (\<lambda>d. Ok (- 1, d))
       else obind (mpvecsub x xlen y ylen) (\<lambda>d. Ok (1, d)))"

text \<open>\<open>res\<close> from the partial products; \<open>w\<close> is the length \<open>2 * n + 1\<close> of a part of \<open>t\<close>.\<close>

definition kara_sum :: "nat \<Rightarrow> nat \<Rightarrow> nat \<Rightarrow> nat \<Rightarrow> int \<Rightarrow> mpdigit list \<Rightarrow> mpdigit list outcome" where
  "kara_sum n l0 l1 v1len sign t = (let w = 2 * n + 1; res = 3 * w; reslen = 4 * n + 1 in
     obind (vadd_at res reslen 0 l0 t) (\<lambda>t.
     obind (vadd_at (res + n) (reslen - n) 0 l0 t) (\<lambda>t.
     obind (if 0 < v1len then
         obind (vadd_at (res + n) (reslen - n) w l1 t) (\<lambda>t.
           vadd_at (res + 2 * n) (reslen - 2 * n) w l1 t)
       else Ok t) (\<lambda>t.
     obind (if sign < 0 then vsub_at (res + n) (reslen - n) (2 * w) l0 t
       else vadd_at (res + n) (reslen - n) (2 * w) l0 t) (\<lambda>t.
     Ok (drop res t))))))"

abbreviation "KARATSUBAMIN \<equiv> (32 :: nat)"

text \<open>The rows of the product from row \<open>i\<close> on, \<open>k\<close> of them; \<open>p\<close> is the destination.\<close>

fun mul_rows :: "mpdigit list \<Rightarrow> nat \<Rightarrow> mpdigit list \<Rightarrow> nat \<Rightarrow> mpdigit list \<Rightarrow> mpdigit list outcome" where
  "mul_rows a alen b 0 p = Ok p"
| "mul_rows a alen (d # b) (Suc k) (x # p) =
     obind (if d \<noteq> 0 then mpvecdigmuladd a alen d (x # p) else Ok (x # p)) (\<lambda>q.
       case q of [] \<Rightarrow> Undef | y # q \<Rightarrow> obind (mul_rows a alen b k q) (\<lambda>q. Ok (y # q)))"
| "mul_rows a alen b (Suc k) p = Undef"

text \<open>Only products of a number of at least 32 digits by one of at least 2 recurse.\<close>

definition mul_work :: "nat \<Rightarrow> nat \<Rightarrow> nat" where
  "mul_work alen blen =
     (if KARATSUBAMIN \<le> max alen blen \<and> 1 < min alen blen then 2 * (alen + blen) + 2 else 0)"

lemma half_up: "(if odd n then n div 2 + 1 else n div 2) = (n + 1) div 2" for n :: nat
  by auto

lemma mul_work_halves:
  assumes "n = (alen + 1) div 2"
  shows "mul_work n (if n < blen then n else blen) < 2 * (alen + blen) + 1"
    "mul_work (alen - n) (if n < blen then blen - n else 0) < 2 * (alen + blen) + 1"
proof -
  have n: "alen \<le> 2 * n" "2 * n \<le> alen + 1" unfolding assms by linarith+
  show "mul_work n (if n < blen then n else blen) < 2 * (alen + blen) + 1"
    using n unfolding mul_work_def by auto
  show "mul_work (alen - n) (if n < blen then blen - n else 0) < 2 * (alen + blen) + 1"
    using n unfolding mul_work_def by auto
qed

lemma mul_work_kara:
  "32 \<le> alen \<Longrightarrow> 1 < blen \<Longrightarrow> 2 * (alen + blen) + 1 < mul_work alen blen"
  "32 \<le> alen \<Longrightarrow> 1 < blen \<Longrightarrow> 2 * (alen + blen) + 1 < mul_work blen alen"
  by (auto simp: mul_work_def max_def min_def)

function mpkaratsuba :: "mpdigit list \<Rightarrow> nat \<Rightarrow> mpdigit list \<Rightarrow> nat \<Rightarrow> mpdigit list \<Rightarrow> mpdigit list outcome"
  and mpvecmul :: "mpdigit list \<Rightarrow> nat \<Rightarrow> mpdigit list \<Rightarrow> nat \<Rightarrow> mpdigit list \<Rightarrow> mpdigit list outcome"
  where
  "mpkaratsuba a alen b blen p = (let
     n = (if odd alen then alen div 2 + 1 else alen div 2);
     u0len = n; u1len = alen - n;
     v0len = (if n < blen then n else blen);
     v1len = (if n < blen then blen - n else 0);
     u1 = drop u0len a; v1 = drop v0len b;
     w = 2 * n + 1; t = replicate (5 * w) 0 in
     obind (mpvecdiff u1 u1len a u0len) (\<lambda>(s, d).
     obind (put 0 d t) (\<lambda>t.
     obind (mpvecdiff b v0len v1 v1len) (\<lambda>(s', d).
     obind (put w d t) (\<lambda>t.
     obind (mpvecmul t u0len (drop w t) v0len (drop (2 * w) t)) (\<lambda>r.
     let t = replicate (2 * w) 0 @ r in
     obind (if 0 < v1len then
         obind (mpvecmul u1 u1len v1 v1len (drop w t)) (\<lambda>r. Ok (take w t @ r))
       else Ok t) (\<lambda>t.
     obind (mpvecmul a u0len b v0len t) (\<lambda>t.
     obind (kara_sum n (u0len + v0len) (u1len + v1len) v1len (s * s') t) (\<lambda>res.
     obind (rdmem (alen + blen) res) (\<lambda>res. put 0 res p))))))))))"
| "mpvecmul a alen b blen p =
     (case (if alen < blen then (b, blen, a, alen) else (a, alen, b, blen)) of (a, alen, b, blen) \<Rightarrow>
       if blen = 0 then put 0 (replicate (alen + blen) 0) p
       else if KARATSUBAMIN \<le> alen \<and> 1 < blen then mpkaratsuba a alen b blen p
       else mul_rows a alen b blen p)"
  by pat_completeness auto

termination
proof (relation "measure (\<lambda>x. case x of
       Inl (a, alen, b, blen, p) \<Rightarrow> 2 * (alen + blen) + 1
     | Inr (a, alen, b, blen, p) \<Rightarrow> mul_work alen blen)", goal_cases)
  case 1 show ?case by (rule wf_measure)
next
  case 2 show ?case unfolding in_measure sum.case prod.case 2(1-5) half_up by (rule mul_work_halves(1) [OF refl])
next
  case 3 show ?case unfolding in_measure sum.case prod.case 3(1-5) half_up by (rule mul_work_halves(2) [OF refl])
next
  case 4 show ?case unfolding in_measure sum.case prod.case 4(1-5) half_up by (rule mul_work_halves(1) [OF refl])
next
  case 5 then show ?case using mul_work_kara unfolding in_measure by (auto split: if_splits)
qed

declare mpkaratsuba.simps [simp del] mpvecmul.simps [simp del]

section \<open>Correctness\<close>

lemma put_spec: "off + length ds \<le> length t \<Longrightarrow> put off ds t = Ok (take off t @ ds @ drop (off + length ds) t)"
  by (simp add: put_def)

lemma val_drop_zero: "val R < Base ^ k \<Longrightarrow> k \<le> length R \<Longrightarrow> val (drop k R) = 0 \<and> val (take k R) = val R"
proof -
  assume h: "val R < Base ^ k" "k \<le> length R"
  have v: "val R = val (take k R) + Base ^ k * val (drop k R)" using h(2) by (rule val_split)
  have "val (drop k R) = 0"
  proof (rule ccontr)
    assume "val (drop k R) \<noteq> 0"
    then have "Base ^ k * 1 \<le> Base ^ k * val (drop k R)" by (intro mult_le_mono) simp_all
    then show False using v h(1) by linarith
  qed
  then show ?thesis using v by simp
qed

text \<open>A sum or difference in place, in the last \<open>k + 1\<close> digits of a block.\<close>

lemma vadd_at_spec:
  assumes R: "length R = k + 1" "val R < Base ^ k" "j \<le> k" "blen \<le> k - j" "src + blen \<le> length F"
  obtains R' where "vadd_at (length F + j) (k - j) src blen (F @ R) = Ok (F @ R')"
    "length R' = k + 1" "val R' = val R + Base ^ j * val (take blen (drop src F))"
proof -
  define L M where "L = take j R" and "M = drop j R"
  have LM: "R = L @ M" "length L = j" "length M = k - j + 1" using R by (simp_all add: L_def M_def)
  have v: "val R = val L + Base ^ j * val M" using LM by simp
  have "Base ^ j * val M < Base ^ j * Base ^ (k - j)"
    using R(2,3) v by (simp flip: power_add)
  then have "val M < Base ^ (k - j)" by simp
  then have z: "val (take (k - j) M) = val M" using val_drop_zero [of M "k - j"] LM(3) by simp
  have tk: "take blen (drop src (F @ R)) = take blen (drop src F)" using R(5) by simp
  obtain s where s: "mpvecadd M (k - j) (drop src (F @ R)) blen = Ok s" "length s = Suc (k - j)"
    "val s = val M + val (take blen (drop src F))"
    by (rule mpvecadd_spec [of blen "k - j" M "drop src (F @ R)"])
      (use R(4,5) LM z in \<open>simp_all add: tk\<close>)
  have "vadd_at (length F + j) (k - j) src blen (F @ R) = Ok (F @ L @ s)"
    using s(1,2) LM by (simp add: vadd_at_def put_def)
  moreover have "val (L @ s) = val R + Base ^ j * val (take blen (drop src F))"
    using s(3) v LM(2) by (simp add: algebra_simps)
  ultimately show ?thesis using LM(2) s(2) R(3) by (intro that [of "L @ s"]) simp_all
qed

lemma vsub_at_spec:
  assumes R: "length R = k + 1" "val R < Base ^ k" "j \<le> k" "blen \<le> k - j" "src + blen \<le> length F"
    "val (take blen (drop src F)) * Base ^ j \<le> val R"
  obtains R' where "vsub_at (length F + j) (k - j) src blen (F @ R) = Ok (F @ R')"
    "length R' = k + 1" "val R' = val R - Base ^ j * val (take blen (drop src F))"
proof -
  define L M where "L = take j R" and "M = drop j R"
  have LM: "R = L @ M" "length L = j" "length M = k - j + 1" using R by (simp_all add: L_def M_def)
  define S where "S = val (take blen (drop src F))"
  have v: "val R = val L + Base ^ j * val M" using LM by simp
  have "Base ^ j * val M < Base ^ j * Base ^ (k - j)"
    using R(2,3) v by (simp flip: power_add)
  then have "val M < Base ^ (k - j)" by simp
  then have z: "val (drop (k - j) M) = 0" "val (take (k - j) M) = val M" using val_drop_zero [of M "k - j"] LM(3) by simp_all
  have "Base ^ j * S < Base ^ j * (val M + 1)"
    using R(6) v val_less [of L] LM(2) by (simp add: S_def algebra_simps)
  then have "S < val M + 1" by (simp only: mult_less_cancel1)
  then have SM: "S \<le> val M" by simp
  have tk: "take blen (drop src (F @ R)) = take blen (drop src F)" using R(5) by simp
  have mx: "max (k - j) blen = k - j" using R(4) by simp
  obtain s where s: "mpvecsub M (k - j) (drop src (F @ R)) blen = Ok s" "length s = k - j" "val s = val M - S"
    by (rule mpvecsub_spec [of "k - j" blen M "drop src (F @ R)"])
      (use SM R(4,5) LM z(2) in \<open>simp_all add: mx tk S_def\<close>)
  have "vsub_at (length F + j) (k - j) src blen (F @ R) = Ok (F @ L @ s @ drop (k - j) M)"
    using s(1,2) LM by (simp add: vsub_at_def put_def)
  moreover have "val (L @ s @ drop (k - j) M) = val R - Base ^ j * S"
    using s LM v z(1) SM by (simp add: diff_mult_distrib2)
  ultimately show ?thesis using LM s(2) R(3) unfolding S_def
    by (intro that [of "L @ s @ drop (k - j) M"]) simp_all
qed

text \<open>The partial products of a scratch block, and the bound on what \<open>res\<close> holds at any time.\<close>

lemma kara_bounds:
  fixes X :: nat
  assumes "P < X ^ 2" "0 < X"
  shows "P \<le> X ^ 4" "X * P \<le> X ^ 4" "X ^ 2 * P \<le> X ^ 4"
proof -
  have x: "X ^ 2 * 1 \<le> X ^ 2 * X ^ 2" "X * X ^ 2 \<le> X ^ 2 * X ^ 2"
    using assms(2) by (intro mult_le_mono; simp add: power2_eq_square)+
  have q: "X ^ 2 * X ^ 2 = X ^ 4" by (simp flip: power_add)
  show "X ^ 2 * P \<le> X ^ 4" unfolding q [symmetric] using assms(1) by (intro mult_le_mono) simp_all
  show "P \<le> X ^ 4" using x assms(1) unfolding q by linarith
  have "X * P \<le> X * X ^ 2" using assms(1) by (intro mult_le_mono) simp_all
  then show "X * P \<le> X ^ 4" using x unfolding q by linarith
qed

lemma five_less: "0 < X \<Longrightarrow> 5 * X < X * Base" for X :: nat
  by (simp add: Base_def)

lemma kara_sum_spec:
  assumes F: "length F = 3 * w" "w = 2 * n + 1" and l: "l0 \<le> 2 * n" "l1 \<le> 2 * n"
    and P: "P0 = val (take l0 F)" "P1 = val (take l1 (drop w F))" "D = val (take l0 (drop (2 * w) F))"
    and v: "v1len = 0 \<Longrightarrow> P1 = 0" and X: "X = Base ^ n"
    and s: "sign < 0 \<Longrightarrow> D \<le> P0 + P1"
  obtains r where "kara_sum n l0 l1 v1len sign (F @ replicate (2 * w) 0) = Ok r" "length r = 2 * w"
    "val r = (if sign < 0 then P0 + X * (P0 + P1) + X ^ 2 * P1 - X * D
      else P0 + X * (P0 + P1) + X ^ 2 * P1 + X * D)"
proof -
  define k where "k = 4 * n + 1"
  have k: "2 * w = k + 1" "n \<le> k" "2 * n \<le> k" using F by (simp_all add: k_def)
  have X0: "0 < X" by (simp add: X)
  have b: "val (take m (drop o' F)) < X ^ 2" if "m \<le> 2 * n" for m o'
  proof -
    have "val (take m (drop o' F)) < Base ^ length (take m (drop o' F))" by (rule val_less)
    also have "\<dots> \<le> Base ^ (2 * n)" using that by (intro power_increasing) auto
    also have "\<dots> = X ^ 2" by (simp add: X power_mult [symmetric] mult.commute)
    finally show ?thesis .
  qed
  have P0: "P0 < X ^ 2" using b [of l0 0] l(1) P(1) by simp
  have P1: "P1 < X ^ 2" and D: "D < X ^ 2" using b l P(2,3) by simp_all
  have Z: "Base ^ k = X ^ 4 * Base" by (simp add: k_def X power_mult [symmetric] mult.commute)
  note le = kara_bounds [OF P0 X0] kara_bounds [OF P1 X0] kara_bounds [OF D X0] five_less [of "X ^ 4"]
  have Xp: "0 < X ^ 4" using X0 by simp
  obtain R1 where R1: "vadd_at (3 * w) (4 * n + 1) 0 l0 (F @ replicate (2 * w) 0) = Ok (F @ R1)"
    "length R1 = k + 1" "val R1 = P0"
    using vadd_at_spec [of "replicate (2 * w) 0" k 0 l0 0 F thesis] F(1,2) l(1) k(1) P(1) by (simp add: k_def Base_def)
  have t1: "val R1 < Base ^ k" unfolding Z R1(3) using le Xp by linarith
  obtain R2 where R2: "vadd_at (3 * w + n) (4 * n + 1 - n) 0 l0 (F @ R1) = Ok (F @ R2)"
    "length R2 = k + 1" "val R2 = P0 + X * P0"
    using vadd_at_spec [OF R1(2) t1 k(2), of l0 0 F thesis] F(1,2) l(1) P(1) by (simp add: k_def R1(3) X)
  have t2: "val R2 < Base ^ k" unfolding Z R2(3) using le Xp by linarith
  obtain R4 where R4: "(if 0 < v1len then
         obind (vadd_at (3 * w + n) (4 * n + 1 - n) w l1 (F @ R2)) (\<lambda>t.
           vadd_at (3 * w + 2 * n) (4 * n + 1 - 2 * n) w l1 t)
       else Ok (F @ R2)) = Ok (F @ R4)" "length R4 = k + 1" "val R4 = P0 + X * (P0 + P1) + X ^ 2 * P1"
  proof (cases "v1len = 0")
    case True
    then show ?thesis using that [of R2] R2(2,3) v by simp
  next
    case False
    obtain R3 where R3: "vadd_at (3 * w + n) (4 * n + 1 - n) w l1 (F @ R2) = Ok (F @ R3)"
      "length R3 = k + 1" "val R3 = P0 + X * P0 + X * P1"
      using vadd_at_spec [OF R2(2) t2 k(2), of l1 w F thesis] F(1,2) l(2) P(2) by (simp add: k_def R2(3) X)
    have t3: "val R3 < Base ^ k" unfolding Z R3(3) using le Xp by linarith
    obtain R4 where "vadd_at (3 * w + 2 * n) (4 * n + 1 - 2 * n) w l1 (F @ R3) = Ok (F @ R4)"
      "length R4 = k + 1" "val R4 = P0 + X * P0 + X * P1 + X ^ 2 * P1"
      using vadd_at_spec [OF R3(2) t3 k(3), of l1 w F thesis] F(1,2) l(2) P(2)
      by (simp add: k_def R3(3) X power_mult [symmetric] mult.commute)
    then show ?thesis using that [of R4] R3(1) False by (simp add: algebra_simps)
  qed
  have "val R4 = P0 + X * P0 + X * P1 + X ^ 2 * P1" by (simp only: R4(3) distrib_left add.assoc)
  then have t4: "val R4 < Base ^ k" unfolding Z using le Xp by linarith
  obtain R5 where R5: "(if sign < 0 then vsub_at (3 * w + n) (4 * n + 1 - n) (2 * w) l0 (F @ R4)
       else vadd_at (3 * w + n) (4 * n + 1 - n) (2 * w) l0 (F @ R4)) = Ok (F @ R5)" "length R5 = k + 1"
    "val R5 = (if sign < 0 then val R4 - X * D else val R4 + X * D)"
  proof (cases "sign < 0")
    case True
    have "X * D \<le> X * (P0 + P1)" using s [OF True] by (intro mult_le_mono) simp_all
    then have "X * D \<le> val R4" unfolding R4(3) by linarith
    then have d: "val (take l0 (drop (2 * w) F)) * Base ^ n \<le> val R4"
      unfolding P(3) [symmetric] X [symmetric] by (simp only: mult.commute)
    show ?thesis using vsub_at_spec [OF R4(2) t4 k(2) _ _ d, of thesis] F(1,2) l(1) P(3) True that
      by (simp add: k_def X)
  next
    case False
    show ?thesis using vadd_at_spec [OF R4(2) t4 k(2), of l0 "2 * w" F thesis] F(1,2) l(1) P(3) False that
      by (simp add: k_def X)
  qed
  have "kara_sum n l0 l1 v1len sign (F @ replicate (2 * w) 0) = Ok R5"
    unfolding kara_sum_def Let_def F(2) [symmetric]
    by (simp only: R1(1) obind.simps R2(1) R4(1) R5(1)) (simp add: F(1))
  then show ?thesis using R5(2,3) R4(3) k(1) by (intro that [of R5]) simp_all
qed

text \<open>Row by row.\<close>

lemma mul_row:
  assumes "alen \<le> length a" "alen < length p" "val (take (Suc alen) p) < Base ^ alen"
  obtains r where "(if d \<noteq> 0 then mpvecdigmuladd a alen d p else Ok p) = Ok (r @ drop (Suc alen) p)"
    "length r = Suc alen" "val r = val (take alen a) * unat d + val (take (Suc alen) p)"
proof -
  have z: "val (take alen p) = val (take (Suc alen) p)"
    using val_drop_zero [OF assms(3)] assms(2) by (simp add: min_def)
  show ?thesis
  proof (cases "d = 0")
    case True
    then show ?thesis using assms(2) by (intro that [of "take (Suc alen) p"]) simp_all
  next
    case False
    obtain r where "mpvecdigmuladd a alen d p = Ok (r @ drop (Suc alen) p)" "length r = Suc alen"
      "val r = val (take alen a) * unat d + val (take alen p)"
      by (rule mpvecdigmuladd_spec [OF assms(1,2)])
    then show ?thesis using False z by (intro that [of r]) simp_all
  qed
qed

lemma mul_rows_spec:
  "k \<le> length b \<Longrightarrow> alen \<le> length a \<Longrightarrow> alen + k \<le> length p \<Longrightarrow> val (take (alen + k) p) < Base ^ alen \<Longrightarrow>
   \<exists>r. mul_rows a alen b k p = Ok (r @ drop (alen + k) p) \<and> length r = alen + k
     \<and> val r = val (take alen a) * val (take k b) + val (take (alen + k) p)"
proof (induction a alen b k p rule: mul_rows.induct)
  case (1 a alen b p)
  then show ?case by (intro exI [of _ "take alen p"]) simp
next
  case (2 a alen d b k x p)
  let ?p = "x # p"
  have v: "val (take (alen + Suc k) ?p) = val (take (Suc alen) ?p) + Base ^ Suc alen * val (take k (drop (Suc alen) ?p))"
    using 2(4) val_take_le [of "Suc alen" "alen + Suc k" ?p] by simp
  have z: "val (take k (drop (Suc alen) ?p)) = 0"
  proof (rule ccontr)
    assume "val (take k (drop (Suc alen) ?p)) \<noteq> 0"
    then have "Base ^ Suc alen * 1 \<le> Base ^ Suc alen * val (take k (drop (Suc alen) ?p))"
      by (intro mult_le_mono) simp_all
    moreover have "Base ^ alen \<le> Base ^ Suc alen" by simp
    ultimately show False using v 2(5) by linarith
  qed
  then have v': "val (take (alen + Suc k) ?p) = val (take (Suc alen) ?p)" using v by simp
  obtain r where r: "(if d \<noteq> 0 then mpvecdigmuladd a alen d ?p else Ok ?p) = Ok (r @ drop (Suc alen) ?p)"
    "length r = Suc alen" "val r = val (take alen a) * unat d + val (take (Suc alen) ?p)"
    by (rule mul_row [of alen a ?p d]) (use 2 v' in simp_all)
  obtain y q where q: "r = y # q" "length q = alen" using r(2) by (cases r) auto
  have tk: "take (alen + k) (q @ drop alen p) = q @ take k (drop alen p)" using q by simp
  have vq: "val (take (alen + k) (q @ drop alen p)) = val q" using z by (simp add: q(2) tk)
  have "\<exists>r. mul_rows a alen b k (q @ drop alen p) = Ok (r @ drop (alen + k) (q @ drop alen p)) \<and> length r = alen + k
     \<and> val r = val (take alen a) * val (take k b) + val (take (alen + k) (q @ drop alen p))"
    using 2(2-4) r(1) q val_less [of q] z by (intro "2.IH") simp_all
  then obtain r' where r': "mul_rows a alen b k (q @ drop alen p) = Ok (r' @ drop (alen + k) (q @ drop alen p))"
    "length r' = alen + k" "val r' = val (take alen a) * val (take k b) + val q" unfolding vq by blast
  have "val (y # r') = val r + Base * (val (take alen a) * val (take k b))"
    using r'(3) q by (simp add: algebra_simps)
  also have "\<dots> = val (take alen a) * val (take (Suc k) (d # b)) + val (take (alen + Suc k) ?p)"
    unfolding r(3) v' by (simp add: algebra_simps)
  finally have "val (y # r') = val (take alen a) * val (take (Suc k) (d # b)) + val (take (alen + Suc k) ?p)" .
  moreover have "mul_rows a alen (d # b) (Suc k) ?p = Ok ((y # r') @ drop (alen + Suc k) ?p)"
    using r(1) r'(1) q by (simp add: add.commute [of k alen])
  ultimately show ?case using r'(2) by (intro exI [of _ "y # r'"]) (simp del: mul_rows.simps val.simps)
qed simp_all

text \<open>Differences, by what \<open>mpvecsub\<close> reads.\<close>

lemma mpvecdiff_ge:
  assumes "max xlen ylen \<le> length x" "ylen \<le> length y" "val (take ylen y) \<le> val (take xlen x)"
  obtains d where "mpvecdiff x xlen y ylen = Ok (1, d)" "length d = max xlen ylen"
    "val d = val (take (max xlen ylen) x) - val (take ylen y)"
proof -
  have "val (take xlen x) \<le> val (take (max xlen ylen) x)"
    using val_take_le [of xlen "max xlen ylen" x] assms(1) by simp
  then obtain d where "mpvecsub x xlen y ylen = Ok d" "length d = max xlen ylen"
    "val d = val (take (max xlen ylen) x) - val (take ylen y)"
    using mpvecsub_spec [OF assms(1,2)] assms(3) by (metis order_trans)
  then show ?thesis using assms by (intro that [of d]) (simp_all add: mpvecdiff_def mpveccmp_spec)
qed

lemma mpvecdiff_lt:
  assumes "max xlen ylen \<le> length y" "xlen \<le> length x" "val (take xlen x) < val (take ylen y)"
  obtains d where "mpvecdiff x xlen y ylen = Ok (- 1, d)" "length d = max xlen ylen"
    "val d = val (take (max xlen ylen) y) - val (take xlen x)"
proof -
  have m: "max ylen xlen = max xlen ylen" by (rule max.commute)
  have "val (take ylen y) \<le> val (take (max xlen ylen) y)"
    using val_take_le [of ylen "max xlen ylen" y] assms(1) by simp
  then obtain d where "mpvecsub y ylen x xlen = Ok d" "length d = max xlen ylen"
    "val d = val (take (max xlen ylen) y) - val (take xlen x)"
    using mpvecsub_spec [of ylen xlen y x] assms unfolding m by (metis less_imp_le order_trans)
  then show ?thesis using assms by (intro that [of d]) (simp_all add: mpvecdiff_def mpveccmp_spec)
qed

lemma mpvecdiff_even:
  assumes "m \<le> length x" "m \<le> length y"
  obtains s d where "mpvecdiff x m y m = Ok (s, d)" "length d = m" "s \<in> {1, - 1}"
    "s * int (val d) = int (val (take m x)) - int (val (take m y))"
proof (cases "val (take m y) \<le> val (take m x)")
  case True
  obtain d where "mpvecdiff x m y m = Ok (1, d)" "length d = m" "val d = val (take m x) - val (take m y)"
    using mpvecdiff_ge [of m m x y] assms True by auto
  then show ?thesis using True by (intro that [of 1 d]) simp_all
next
  case False
  obtain d where "mpvecdiff x m y m = Ok (- 1, d)" "length d = m" "val d = val (take m y) - val (take m x)"
    using mpvecdiff_lt [of m m y x] assms False by auto
  then show ?thesis using False by (intro that [of "- 1" d]) simp_all
qed

text \<open>What a multiplication of \<open>alen\<close> by \<open>blen\<close> digits is to do.\<close>

definition mul_good :: "nat \<Rightarrow> nat \<Rightarrow> bool" where
  "mul_good alen blen \<longleftrightarrow> (\<forall>a b p. alen \<le> length a \<longrightarrow> blen \<le> length b \<longrightarrow> alen + blen \<le> length p \<longrightarrow>
     val (take (alen + blen) p) = 0 \<longrightarrow>
     (\<exists>r. mpvecmul a alen b blen p = Ok (r @ drop (alen + blen) p) \<and> length r = alen + blen
       \<and> val r = val (take alen a) * val (take blen b)))"

lemma mul_goodE:
  assumes "mul_good alen blen" "alen \<le> length a" "blen \<le> length b" "alen + blen \<le> length p"
    "val (take (alen + blen) p) = 0"
  obtains r where "mpvecmul a alen b blen p = Ok (r @ drop (alen + blen) p)" "length r = alen + blen"
    "val r = val (take alen a) * val (take blen b)"
  using assms unfolding mul_good_def by blast

text \<open>The parts of \<open>t\<close> between the first write and \<open>kara_sum\<close>.\<close>

lemma kara_parts:
  assumes "length q = l" "l \<le> w" "length q' = l'" "l' \<le> w" "length q1 = l1" "l1 \<le> w"
  defines "Z \<equiv> replicate (2 * w) (0 :: mpdigit)"
  defines "pad \<equiv> \<lambda>q. q @ replicate (w - length q) (0 :: mpdigit)"
  shows "put 0 q (replicate (5 * w) 0) = Ok (q @ replicate (5 * w - l) 0)"
    "put w q' (q @ replicate (5 * w - l) 0) = Ok (pad q @ pad q' @ replicate (3 * w) 0)"
    "q @ drop l (replicate (3 * w) 0) = pad q @ Z"
    "take w (replicate (2 * w) 0 @ pad q' @ Z) @ q1 @ drop l1 (drop w (replicate (2 * w) 0 @ pad q' @ Z))
      = replicate w 0 @ pad q1 @ pad q' @ Z"
    "q @ drop l (replicate w 0 @ pad q1 @ pad q' @ Z) = (pad q @ pad q1 @ pad q') @ Z"
  using assms by (simp_all add: put_def flip: replicate_add)

lemma kara_step:
  assumes n: "n = (alen + 1) div 2" and v0: "v0len = (if n < blen then n else blen)"
    and v1: "v1len = (if n < blen then blen - n else 0)"
    and len: "alen \<le> length a" "blen \<le> length b" "blen \<le> alen" "alen + blen \<le> length p"
    and d1: "mpvecdiff (drop n a) (alen - n) a n = Ok (s, d)" "length d = n"
    and d2: "mpvecdiff b v0len (drop v0len b) v1len = Ok (s', d')" "length d' = v0len"
    and good: "mul_good n v0len" "0 < v1len \<Longrightarrow> mul_good (alen - n) v1len"
    and P0: "P0 = val (take n a) * val (take v0len b)"
    and P1: "P1 = val (take (alen - n) (drop n a)) * val (take v1len (drop v0len b))"
    and D: "D = val d * val d'" and sg: "s * s' < 0 \<Longrightarrow> D \<le> P0 + P1" and X: "X = Base ^ n"
  obtains r where "mpkaratsuba a alen b blen p = Ok (r @ drop (alen + blen) p)" "length r = alen + blen"
    "val r = (if s * s' < 0 then P0 + X * (P0 + P1) + X ^ 2 * P1 - X * D
      else P0 + X * (P0 + P1) + X ^ 2 * P1 + X * D) mod Base ^ (alen + blen)"
proof -
  define w where "w = 2 * n + 1"
  define Z where "Z = replicate (2 * w) (0 :: mpdigit)"
  define pad where "pad = (\<lambda>q. q @ replicate (w - length q) (0 :: mpdigit))"
  have l: "n \<le> w" "v0len \<le> n" "n + v0len \<le> 2 * n" "alen - n + v1len \<le> 2 * n"
    "v0len \<le> w" "n + v0len \<le> w" "alen - n + v1len \<le> w" "alen \<le> 2 * n"
    using n v0 v1 len(3) by (auto simp: w_def)
  have bl: "v0len + v1len = blen" "v0len \<le> blen" "n \<le> alen" using v0 v1 n by simp_all
  define t where "t = pad d @ pad d' @ replicate (3 * w) 0"
  have t: "take n t = d" "take v0len (drop w t) = d'" "drop (2 * w) t = replicate (3 * w) 0" "length t = 5 * w"
    using d1(2) d2(2) l by (simp_all add: t_def pad_def)
  obtain q where q: "mpvecmul t n (drop w t) v0len (drop (2 * w) t) = Ok (q @ drop (n + v0len) (drop (2 * w) t))"
    "length q = n + v0len" "val q = D"
    by (rule mul_goodE [OF good(1), of t "drop w t" "drop (2 * w) t"])
      (use l t in \<open>simp_all add: D\<close>)
  define T where "T = replicate (2 * w) 0 @ pad q @ Z"
  have T: "length (drop w T) = w + w + 2 * w" "take w (drop w T) = replicate w 0" using l q(2)
    by (simp_all add: T_def pad_def Z_def)
  obtain q1 where q1: "(if 0 < v1len then
         obind (mpvecmul (drop n a) (alen - n) (drop v0len b) v1len (drop w T)) (\<lambda>r. Ok (take w T @ r))
       else Ok T) = Ok (replicate w 0 @ pad q1 @ pad q @ Z)" "length q1 \<le> w"
    "val (take (alen - n + v1len) (pad q1)) = P1"
  proof (cases "v1len = 0")
    case True
    have "T = replicate w 0 @ pad [] @ pad q @ Z" by (simp add: T_def pad_def flip: replicate_add) 
    then show ?thesis using True P1 by (intro that [of "[]"]) (simp_all add: pad_def)
  next
    case False
    have "take (alen - n + v1len) (drop w T) = take (alen - n + v1len) (take w (drop w T))"
      using l(7) by (simp add: min_def)
    then have z: "val (take (alen - n + v1len) (drop w T)) = 0" unfolding T(2) by simp
    obtain q1 where q1: "mpvecmul (drop n a) (alen - n) (drop v0len b) v1len (drop w T)
        = Ok (q1 @ drop (alen - n + v1len) (drop w T))" "length q1 = alen - n + v1len" "val q1 = P1"
    proof (rule mul_goodE [OF good(2), of "drop n a" "drop v0len b" "drop w T"])
      show "0 < v1len" using False by simp
      show "alen - n \<le> length (drop n a)" using len(1) by simp
      show "v1len \<le> length (drop v0len b)" using len(2) bl(1) by simp
      show "alen - n + v1len \<le> length (drop w T)" using T(1) l(7) by linarith
      show "val (take (alen - n + v1len) (drop w T)) = 0" by (rule z)
    qed (simp_all add: P1)
    have "take w T @ q1 @ drop (alen - n + v1len) (drop w T) = replicate w 0 @ pad q1 @ pad q @ Z"
      unfolding T_def pad_def Z_def using kara_parts(4) [OF q(2) l(6) q(2) l(6) q1(2) l(7)] .
    then show ?thesis using False q1 l(7) by (intro that [of q1]) (simp_all add: pad_def)
  qed
  obtain q0 where q0: "mpvecmul a n b v0len (replicate w 0 @ pad q1 @ pad q @ Z)
      = Ok (q0 @ drop (n + v0len) (replicate w 0 @ pad q1 @ pad q @ Z))" "length q0 = n + v0len" "val q0 = P0"
    by (rule mul_goodE [OF good(1), of a b "replicate w 0 @ pad q1 @ pad q @ Z"])
      (use l len bl in \<open>simp_all add: P0\<close>)
  define F where "F = pad q0 @ pad q1 @ pad q"
  have F: "length F = 3 * w" "val (take (n + v0len) F) = P0" "val (take (alen - n + v1len) (drop w F)) = P1"
    "val (take (n + v0len) (drop (2 * w) F)) = D"
    using q0(2,3) q1(2,3) q(2,3) l by (simp_all add: F_def pad_def)
  have e: "q0 @ drop (n + v0len) (replicate w 0 @ pad q1 @ pad q @ Z) = F @ Z"
    unfolding F_def pad_def Z_def using kara_parts(5) [OF q0(2) l(6) q(2) l(6) refl q1(2)] .
  have vz: "P1 = 0" if "v1len = 0" using that by (simp add: P1)
  obtain res where res: "kara_sum n (n + v0len) (alen - n + v1len) v1len (s * s') (F @ Z) = Ok res"
    "length res = 2 * w"
    "val res = (if s * s' < 0 then P0 + X * (P0 + P1) + X ^ 2 * P1 - X * D
      else P0 + X * (P0 + P1) + X ^ 2 * P1 + X * D)"
    unfolding Z_def
    by (rule kara_sum_spec [OF F(1) w_def l(3,4) F(2-4) [symmetric] vz X sg]) simp_all
  have lr: "alen + blen \<le> length res" using res(2) l len(3) by (simp add: w_def)
  have c: "put 0 d (replicate (5 * w) 0) = Ok (d @ replicate (5 * w - n) 0)"
    "put w d' (d @ replicate (5 * w - n) 0) = Ok t"
    "q @ drop (n + v0len) (drop (2 * w) t) = pad q @ Z"
    unfolding t(3) unfolding t_def pad_def Z_def
    using kara_parts [OF d1(2) l(1) d2(2) l(5), of "[]" 0] kara_parts(3) [OF q(2) l(6) d2(2) l(5), of "[]" 0] by simp_all
  have "mpkaratsuba a alen b blen p = Ok (take (alen + blen) res @ drop (alen + blen) p)"
    unfolding mpkaratsuba.simps [of a] Let_def half_up n [symmetric] v0 [symmetric] v1 [symmetric] w_def [symmetric]
    by (simp only: d1(1) d2(1) obind.simps prod.case c q(1) T_def [symmetric] q1(1) q0(1) e res(1) rdmem_def
        lr [THEN leD] if_False) (use lr len(4) in \<open>simp add: put_def\<close>)
  then show ?thesis using lr res(3) by (intro that [of "take (alen + blen) res"]) (simp_all add: val_take_mod)
qed

lemma kara_value:
  fixes d d' U0 U1 V0 V1 X :: nat and s s' :: int
  assumes s: "s \<in> {1, - 1}" "s' \<in> {1, - 1}"
    and d: "s * int d = int U1 - int U0" "s' * int d' = int V0 - int V1"
  defines "P \<equiv> U0 * V0 + U1 * V1"
  defines "T \<equiv> U0 * V0 + X * P + X ^ 2 * (U1 * V1)"
  shows "s * s' < 0 \<Longrightarrow> d * d' \<le> P"
    "(if s * s' < 0 then T - X * (d * d') else T + X * (d * d')) = (U0 + X * U1) * (V0 + X * V1)"
proof -
  have e: "(s * s') * (int d * int d') = (int U1 - int U0) * (int V0 - int V1)"
    unfolding d [symmetric] by simp
  have prod: "int U0 * int V0 + int X * (int U0 * int V0 + int U1 * int V1) + int X ^ 2 * (int U1 * int V1)
      + int X * ((int U1 - int U0) * (int V0 - int V1)) = (int U0 + int X * int U1) * (int V0 + int X * int V1)"
    by (simp add: algebra_simps power2_eq_square)
  have neg: "int d * int d' + (int U1 * int V0 + int U0 * int V1) = int P" if "s * s' < 0"
  proof -
    have "s * s' = - 1" using s that by auto
    then have "int d * int d' = - ((int U1 - int U0) * (int V0 - int V1))" using e by simp
    then show ?thesis by (simp add: P_def algebra_simps)
  qed
  have le: "d * d' \<le> P" if "s * s' < 0"
  proof -
    have "int (d * d') \<le> int P" using neg [OF that] by simp (metis add_nonneg_nonneg le_add_same_cancel1 mult_nonneg_nonneg of_nat_0_le_iff)
    then show ?thesis by (simp only: of_nat_le_iff)
  qed
  then show "s * s' < 0 \<Longrightarrow> d * d' \<le> P" .
  have "int (if s * s' < 0 then T - X * (d * d') else T + X * (d * d'))
      = int T + int X * ((s * s') * (int d * int d'))"
  proof (cases "s * s' < 0")
    case True
    then have "s * s' = - 1" using s by auto
    moreover have "X * (d * d') \<le> T"
    proof -
      have "X * (d * d') \<le> X * P" using le [OF True] by (intro mult_le_mono) simp_all
      then show ?thesis unfolding T_def by linarith
    qed
    ultimately show ?thesis by (simp add: of_nat_diff)
  next
    case False
    then have "s * s' = 1" using s by auto
    then show ?thesis by simp
  qed
  also have "\<dots> = int ((U0 + X * U1) * (V0 + X * V1))"
    unfolding e T_def P_def using prod by simp
  finally show "(if s * s' < 0 then T - X * (d * d') else T + X * (d * d')) = (U0 + X * U1) * (V0 + X * V1)"
    by (simp only: of_nat_eq_iff)
qed

text \<open>The lengths \<open>alen \<ge> blen\<close> whose halves have the same length, down to where rows take over.\<close>

function even_halves :: "nat \<Rightarrow> nat \<Rightarrow> bool" where
  "even_halves alen blen =
     (if alen < KARATSUBAMIN \<or> blen \<le> 1 then True
      else even alen \<and> (if blen \<le> alen div 2 then even_halves (alen div 2) blen
        else blen = alen \<and> even_halves (alen div 2) (alen div 2)))"
  by pat_completeness auto

termination by (relation "measure fst") auto

declare even_halves.simps [simp del]

lemma mul_good_rows:
  assumes "blen \<le> alen" "alen < KARATSUBAMIN \<or> blen \<le> 1"
  shows "mul_good alen blen"
  unfolding mul_good_def
proof (intro allI impI)
  fix a b p :: "mpdigit list"
  assume h: "alen \<le> length a" "blen \<le> length b" "alen + blen \<le> length p" "val (take (alen + blen) p) = 0"
  show "\<exists>r. mpvecmul a alen b blen p = Ok (r @ drop (alen + blen) p) \<and> length r = alen + blen
       \<and> val r = val (take alen a) * val (take blen b)"
  proof (cases "blen = 0")
    case True
    then show ?thesis using h assms by (intro exI [of _ "replicate alen 0"]) (simp add: mpvecmul.simps put_def)
  next
    case False
    then have "mpvecmul a alen b blen p = mul_rows a alen b blen p" using assms by (auto simp: mpvecmul.simps)
    then show ?thesis using mul_rows_spec [of blen b alen a p] h by simp
  qed
qed

lemma val_halves: "n \<le> m \<Longrightarrow> m \<le> length a \<Longrightarrow>
  val (take m a) = val (take n a) + Base ^ n * val (take (m - n) (drop n a))"
  by (rule val_take_le)

lemma mul_good_kara:
  assumes n: "alen = 2 * n" "KARATSUBAMIN \<le> alen" "1 < blen"
    and v: "blen \<le> n \<and> v0len = blen \<and> v1len = 0 \<or> blen = alen \<and> v0len = n \<and> v1len = n"
    and good: "mul_good n v0len" "0 < v1len \<Longrightarrow> mul_good n v1len"
  shows "mul_good alen blen"
  unfolding mul_good_def
proof (intro allI impI)
  fix a b p :: "mpdigit list"
  assume h: "alen \<le> length a" "blen \<le> length b" "alen + blen \<le> length p" "val (take (alen + blen) p) = 0"
  have vl: "v0len = (if n < blen then n else blen)" "v1len = (if n < blen then blen - n else 0)" "blen = v0len + v1len"
    "blen \<le> alen" "n = (alen + 1) div 2" "alen - n = n" "n \<le> alen" using v n by auto
  have le: "v0len \<le> blen" "blen - v0len = v1len" using v n by auto
  define U0 U1 V0 V1 where "U0 = val (take n a)" and "U1 = val (take n (drop n a))"
    and "V0 = val (take v0len b)" and "V1 = val (take v1len (drop v0len b))"
  obtain s d where d: "mpvecdiff (drop n a) n a n = Ok (s, d)" "length d = n" "s \<in> {1, - 1}"
    "s * int (val d) = int U1 - int U0"
    unfolding U0_def U1_def by (rule mpvecdiff_even [of n "drop n a" a]) (use h n in simp_all)
  obtain s' d' where d': "mpvecdiff b v0len (drop v0len b) v1len = Ok (s', d')" "length d' = v0len" "s' \<in> {1, - 1}"
    "s' * int (val d') = int V0 - int V1"
  proof (cases "v1len = 0")
    case True
    obtain d' where "mpvecdiff b v0len (drop v0len b) 0 = Ok (1, d')" "length d' = v0len" "val d' = V0"
      by (rule mpvecdiff_ge [of v0len 0 b "drop v0len b"]) (use h(2) le in \<open>simp_all add: V0_def\<close>)
    then show ?thesis using True by (intro that [of 1 d']) (simp_all add: V1_def)
  next
    case False
    then have e: "v0len = n" "v1len = n" "blen = 2 * n" using v n by auto
    show ?thesis using that h(2) unfolding V0_def V1_def e
      by (rule_tac mpvecdiff_even [of n b "drop n b"]) simp_all
  qed
  note kv = kara_value [OF d(3) d'(3) d(4) d'(4)]
  have A: "val (take alen a) = U0 + Base ^ n * U1"
    using val_halves [of n alen a] h(1) n(1) by (simp add: U0_def U1_def)
  have B: "val (take blen b) = V0 + Base ^ n * V1"
    using val_halves [of v0len blen b] h(2) le v by (auto simp: V0_def V1_def)
  have d1: "mpvecdiff (drop n a) (alen - n) a n = Ok (s, d)" unfolding vl(6) by (rule d(1))
  have good2: "mul_good (alen - n) v1len" if "0 < v1len" unfolding vl(6) using that by (rule good(2))
  have P0: "U0 * V0 = val (take n a) * val (take v0len b)" unfolding U0_def V0_def by (rule refl)
  have P1: "U1 * V1 = val (take (alen - n) (drop n a)) * val (take v1len (drop v0len b))"
    unfolding U1_def V1_def vl(6) by (rule refl)
  obtain r where r: "mpkaratsuba a alen b blen p = Ok (r @ drop (alen + blen) p)" "length r = alen + blen"
    "val r = (if s * s' < 0 then U0 * V0 + Base ^ n * (U0 * V0 + U1 * V1) + (Base ^ n) ^ 2 * (U1 * V1) - Base ^ n * (val d * val d')
      else U0 * V0 + Base ^ n * (U0 * V0 + U1 * V1) + (Base ^ n) ^ 2 * (U1 * V1) + Base ^ n * (val d * val d')) mod Base ^ (alen + blen)"
    by (rule kara_step [OF vl(5,1,2) h(1,2) vl(4) h(3) d1 d(2) d'(1,2) good(1) good2 P0 P1 refl kv(1) refl])
  have "val (take alen a) * val (take blen b) < Base ^ alen * Base ^ blen"
    using h by (intro mult_strict_mono val_take_less) simp_all
  then have "val r = val (take alen a) * val (take blen b)"
    unfolding r(3) kv(2) A [symmetric] B [symmetric] by (simp add: power_add)
  moreover have "mpvecmul a alen b blen p = mpkaratsuba a alen b blen p"
    using n vl(4) by (simp add: mpvecmul.simps)
  ultimately show "\<exists>r. mpvecmul a alen b blen p = Ok (r @ drop (alen + blen) p) \<and> length r = alen + blen
       \<and> val r = val (take alen a) * val (take blen b)" using r(1,2) by (intro exI [of _ r]) simp
qed

lemma mul_good_even: "even_halves alen blen \<Longrightarrow> blen \<le> alen \<Longrightarrow> mul_good alen blen"
proof (induction alen blen rule: even_halves.induct)
  case (1 alen blen)
  show ?case
  proof (cases "alen < KARATSUBAMIN \<or> blen \<le> 1")
    case True
    then show ?thesis using 1(4) by (intro mul_good_rows)
  next
    case False
    then have e: "even alen" using 1(3) by (simp add: even_halves.simps)
    then have n: "alen = 2 * (alen div 2)" by simp
    show ?thesis
    proof (cases "blen \<le> alen div 2")
      case True
      then have "even_halves (alen div 2) blen" using 1(3) False by (simp add: even_halves.simps [of alen])
      then have "mul_good (alen div 2) blen" using 1(1) False True e by simp
      then show ?thesis using False True by (intro mul_good_kara [OF n, of blen blen 0]) simp_all
    next
      case 2: False
      then have b: "blen = alen" "even_halves (alen div 2) (alen div 2)"
        using 1(3) False by (simp_all add: even_halves.simps [of alen])
      then have "mul_good (alen div 2) (alen div 2)" using 1(2) False 2 e by simp
      then show ?thesis using False b(1) by (intro mul_good_kara [OF n, of blen "alen div 2" "alen div 2"]) simp_all
    qed
  qed
qed

lemma mpvecmul_swap: "alen < blen \<Longrightarrow> mpvecmul a alen b blen p = mpvecmul b blen a alen p"
  by (simp add: mpvecmul.simps)

lemma mpvecmul_good:
  assumes "even_halves (max alen blen) (min alen blen)" "alen \<le> length a" "blen \<le> length b"
    "alen + blen \<le> length p" "val (take (alen + blen) p) = 0"
  obtains r where "mpvecmul a alen b blen p = Ok (r @ drop (alen + blen) p)" "length r = alen + blen"
    "val r = val (take alen a) * val (take blen b)"
proof (cases "alen < blen")
  case True
  then have "mul_good blen alen" using assms(1) by (intro mul_good_even) simp_all
  then obtain r where "mpvecmul b blen a alen p = Ok (r @ drop (blen + alen) p)" "length r = blen + alen"
    "val r = val (take blen b) * val (take alen a)"
    by (rule mul_goodE [where a = b and b = a and p = p]) (use assms in \<open>simp_all add: add.commute\<close>)
  then show ?thesis using True by (intro that [of r]) (simp_all add: mpvecmul_swap [OF True, of a b p] add.commute mult.commute)
next
  case False
  then have "mul_good alen blen" using assms(1) by (intro mul_good_even) simp_all
  then show ?thesis by (rule mul_goodE [where a = a and b = b and p = p]) (use assms that in simp_all)
qed



lemma mpvecmul_odd:
  assumes n: "alen + 1 = 2 * n" "KARATSUBAMIN < alen" "1 < blen" "blen \<le> n" and good: "even_halves n blen"
    and h: "alen < length a" "blen \<le> length b" "alen + blen \<le> length p"
    and le: "val (take n a) \<le> val (take (n - 1) (drop n a))"
  obtains r where "mpvecmul a alen b blen p = Ok (r @ drop (alen + blen) p)" "length r = alen + blen"
    "val r = (val (take alen a) + Base ^ alen * unat (a ! alen)) * val (take blen b) mod Base ^ (alen + blen)"
proof -
  have an: "alen - n = n - 1" "n \<le> alen" "blen \<le> alen" "n = (alen + 1) div 2" "max (n - 1) n = n" "n - 1 + n = alen"
    using n by simp_all
  define U0 U1 V where "U0 = val (take n a)" and "U1 = val (take n (drop n a))" and "V = val (take blen b)"
  have U1: "U1 = val (take (n - 1) (drop n a)) + Base ^ (n - 1) * unat (a ! alen)"
  proof -
    have "n + (n - 1) = alen" "Suc (n - 1) = n" using n by simp_all
    then show ?thesis using val_take_Suc [of "n - 1" "drop n a"] h(1) unfolding U1_def by simp
  qed
  then have le': "U0 \<le> U1" using le by (simp add: U0_def)
  obtain d where d: "mpvecdiff (drop n a) (alen - n) a n = Ok (1, d)" "length d = n" "val d = U1 - U0"
    unfolding an(1) by (rule mpvecdiff_ge [of "n - 1" n "drop n a" a])
      (use h n le in \<open>simp_all add: an(5) U0_def U1_def\<close>)
  obtain d' where d': "mpvecdiff b blen (drop blen b) 0 = Ok (1, d')" "length d' = blen" "val d' = V"
    by (rule mpvecdiff_ge [of blen 0 b "drop blen b"]) (use h(2) in \<open>simp_all add: V_def\<close>)
  have vl: "blen = (if n < blen then n else blen)" "0 = (if n < blen then blen - n else 0)" using n(4) by simp_all
  have mg: "mul_good n blen" using good n(4) by (rule mul_good_even)
  have P: "U0 * V = val (take n a) * val (take blen b)" "0 = val (take (alen - n) (drop n a)) * val (take 0 (drop blen b))"
    "(U1 - U0) * V = val d * val d'" by (simp_all add: U0_def V_def d(3) d'(3))
  obtain r where r: "mpkaratsuba a alen b blen p = Ok (r @ drop (alen + blen) p)" "length r = alen + blen"
    "val r = (if (1 :: int) * 1 < 0 then U0 * V + Base ^ n * (U0 * V + 0) + (Base ^ n) ^ 2 * 0 - Base ^ n * ((U1 - U0) * V)
      else U0 * V + Base ^ n * (U0 * V + 0) + (Base ^ n) ^ 2 * 0 + Base ^ n * ((U1 - U0) * V)) mod Base ^ (alen + blen)"
    by (rule kara_step [OF an(4) vl less_imp_le [OF h(1)] h(2) an(3) h(3) d(1,2) d'(1,2) mg _ P _ refl]) simp_all
  have "U0 * V + Base ^ n * (U0 * V) + Base ^ n * ((U1 - U0) * V) = (U0 + Base ^ n * (U0 + (U1 - U0))) * V"
    by (simp add: algebra_simps)
  also have "U0 + (U1 - U0) = U1" using le' by simp
  also have "U0 + Base ^ n * U1 = val (take alen a) + Base ^ alen * unat (a ! alen)"
    using val_halves [of n alen a] h(1) an(2) power_add [of Base n "n - 1"] 
    by (simp add: U0_def U1 an(1,6) [symmetric] algebra_simps an(6))
  finally have "val r = (val (take alen a) + Base ^ alen * unat (a ! alen)) * val (take blen b) mod Base ^ (alen + blen)"
    unfolding r(3) V_def [symmetric] by simp
  moreover have "mpvecmul a alen b blen p = mpkaratsuba a alen b blen p" using n an(3) by (simp add: mpvecmul.simps)
  ultimately show ?thesis using r(1,2) by (intro that [of r]) simp_all
qed

text \<open>For an odd number of digits over 32, and a second factor no longer than the lower half \<open>n\<close> whose
  products with \<open>n\<close> digits come out right (\<open>even_halves n blen\<close>), \<open>mpvecmul\<close> multiplies with one digit more
  than it was given when the lower half (the longer one) does not exceed the upper half: the digit of
  memory behind \<open>a\<close> is read as its top digit.\<close>

theorem mpvecmul_overread:
  assumes "alen + 1 = 2 * n" "KARATSUBAMIN < alen" "1 < blen" "blen \<le> n" "even_halves n blen"
    "alen < length a" "blen \<le> length b" "alen + blen \<le> length p"
    "val (take n a) \<le> val (take (n - 1) (drop n a))"
  shows "\<exists>r. mpvecmul a alen b blen p = Ok (r @ drop (alen + blen) p) \<and> length r = alen + blen
    \<and> val r = (val (take alen a) + Base ^ alen * unat (a ! alen)) * val (take blen b) mod Base ^ (alen + blen)"
  using mpvecmul_odd [OF assms] by blast

theorem mpvecmul_overread_witness:
  "\<exists>r. mpvecmul (replicate 32 0 @ [1, 7]) 33 [1, 0] 2 (replicate 35 0) = Ok r
    \<and> val r = Base ^ 32 + Base ^ 33 * 7 \<and> val r \<noteq> val (replicate 32 0 @ [1]) * val [1, 0]"
proof -
  let ?a = "replicate 32 0 @ [1, 7] :: mpdigit list"
  have e: "even_halves 17 2" by (simp add: even_halves.simps)
  have v: "val (take 33 ?a) = Base ^ 32" "?a ! 33 = 7" "val (take 17 ?a) = 0" by (simp_all add: nth_append)
  have l: "Base ^ 32 + Base ^ 33 * 7 < Base ^ (33 + 2)"
    by (simp add: Base_def)
  obtain r where "mpvecmul ?a 33 [1, 0] 2 (replicate 35 0) = Ok (r @ drop (33 + 2) (replicate 35 0))" "length r = 33 + 2"
    "val r = (val (take 33 ?a) + Base ^ 33 * unat (?a ! 33)) * val (take 2 [1, 0 :: mpdigit]) mod Base ^ (33 + 2)"
    using mpvecmul_overread [of 33 17 2 ?a "[1, 0]" "replicate 35 0"] e v by auto
  then show ?thesis using l v by (intro exI [of _ r]) simp
qed

end
