(* ===== verification/MpInt.thy ===== *)
theory MpInt
  imports MpMul
begin

unbundle bit_operations_syntax

text \<open>
  Signed numbers of any length, \<open>libmp/port\<close>: \<open>mpaux.c\<close>, \<open>mpcmp.c\<close>, \<open>mpadd.c\<close>, \<open>mpsub.c\<close>,
  \<open>mpleft.c\<close>, \<open>mpright.c\<close>, \<open>mpmul.c\<close>.  A \<open>mpint\<close> is a record with the digits allocated to it
  (\<open>size\<close> is their number); those from \<open>top\<close> on keep what was left in them.  Numbers live in a store
  by address, because the source lets a result be one of the operands; \<open>mpnew\<close> takes the next
  address.  Bit and digit counts do not overflow an \<open>int\<close>, and memory does not run out.
  \<open>Fail\<close> is \<open>sysfatal\<close>.
\<close>

section \<open>Numbers and the store\<close>

record mpint =
  sign :: int
  top :: nat
  digs :: "mpdigit list"
  static :: bool

record mps =
  cell :: "nat \<Rightarrow> mpint"
  brk :: nat
  mpmindigits :: nat

abbreviation upd :: "mps \<Rightarrow> nat \<Rightarrow> mpint \<Rightarrow> mps" where
  "upd s r x \<equiv> s\<lparr>cell := (cell s)(r := x)\<rparr>"

definition mptwo :: mpint where
  "mptwo = \<lparr>sign = 1, top = 1, digs = [2], static = True\<rparr>"

definition mpone :: mpint where
  "mpone = \<lparr>sign = 1, top = 1, digs = [1], static = True\<rparr>"

definition mpzero :: mpint where
  "mpzero = \<lparr>sign = 1, top = 0, digs = [0], static = True\<rparr>"

text \<open>Digits for a number of bits; a negative number of bits asks for none.\<close>

definition DIGITS :: "int \<Rightarrow> nat" where
  "DIGITS x = nat ((32 - 1 + x) div 32)"

definition mpsetminbits :: "mps \<Rightarrow> int \<Rightarrow> mps outcome" where
  "mpsetminbits s n =
     (if n < 0 then Fail else Ok (s\<lparr>mpmindigits := DIGITS (if n = 0 then 1 else n)\<rparr>))"

definition mpnew :: "mps \<Rightarrow> int \<Rightarrow> (nat \<times> mps) outcome" where
  "mpnew s n =
     (if n < 0 then Fail
      else let n = DIGITS n; n = (if n < mpmindigits s then mpmindigits s else n) in
        Ok (brk s, (upd s (brk s) \<lparr>sign = 1, top = 0, digs = replicate n 0, static = False\<rparr>)\<lparr>brk := brk s + 1\<rparr>))"

definition mpbits :: "mpint \<Rightarrow> int \<Rightarrow> mpint" where
  "mpbits b m = (let n = DIGITS m in
     if n \<le> length (digs b) then
       if n \<le> top b then b
       else b\<lparr>digs := take (top b) (digs b) @ replicate (n - top b) 0 @ drop n (digs b), top := n\<rparr>
     else b\<lparr>digs := take (top b) (digs b) @ replicate (n - top b) 0, top := n\<rparr>)"

definition mpfree :: "mps \<Rightarrow> nat \<Rightarrow> mps outcome" where
  "mpfree s b = (if static (cell s b) then Fail
     else Ok (upd s b ((cell s b)\<lparr>digs := replicate (length (digs (cell s b))) 0\<rparr>)))"

fun norm_top :: "mpdigit list \<Rightarrow> nat \<Rightarrow> nat outcome" where
  "norm_top p 0 = Ok 0"
| "norm_top p (Suc i) = obind (rdat p i) (\<lambda>x. if x \<noteq> 0 then Ok (Suc i) else norm_top p i)"

definition mpnorm :: "mpint \<Rightarrow> mpint outcome" where
  "mpnorm b = obind (norm_top (digs b) (top b)) (\<lambda>t.
     Ok (if t = 0 then b\<lparr>top := t, sign := 1\<rparr> else b\<lparr>top := t\<rparr>))"

text \<open>The number assigned, from the number \<open>old\<close> and the one that was at the address.\<close>

definition mpassign :: "mpint \<Rightarrow> mpint \<Rightarrow> mpint outcome" where
  "mpassign old new =
     (let new = (mpbits new (32 * int (top old)))\<lparr>sign := sign old, top := top old\<rparr> in
      obind (rdmem (top old) (digs old)) (\<lambda>ds.
      obind (put 0 ds (digs new)) (\<lambda>q. Ok (new\<lparr>digs := q\<rparr>))))"

definition mpcopy :: "mps \<Rightarrow> mpint \<Rightarrow> (nat \<times> mps) outcome" where
  "mpcopy s old =
     obind (mpnew s (32 * int (length (digs old)))) (\<lambda>(new, s).
     let x = (cell s new)\<lparr>top := top old, sign := sign old\<rparr> in
     obind (rdmem (top old) (digs old)) (\<lambda>ds.
     obind (put 0 ds (digs x)) (\<lambda>q. Ok (new, upd s new (x\<lparr>digs := q\<rparr>)))))"

text \<open>\<open>mpsignif\<close>: the place of the highest bit that is set.\<close>

fun signif_bit :: "mpdigit \<Rightarrow> nat \<Rightarrow> nat option" where
  "signif_bit d 0 = None"
| "signif_bit d (Suc j) = (if d AND push_bit j 1 \<noteq> 0 then Some (j + 1) else signif_bit d j)"

fun signif_loop :: "mpdigit list \<Rightarrow> nat \<Rightarrow> nat outcome" where
  "signif_loop p 0 = Ok 0"
| "signif_loop p (Suc i) = obind (rdat p i) (\<lambda>d. case signif_bit d 32 of
     Some k \<Rightarrow> Ok (i * 32 + k) | None \<Rightarrow> signif_loop p i)"

definition mpsignif :: "mpint \<Rightarrow> nat outcome" where
  "mpsignif n = (if top n = 0 then Ok 0 else signif_loop (digs n) (top n))"

section \<open>Comparison\<close>

definition mpmagcmp :: "mpint \<Rightarrow> mpint \<Rightarrow> int outcome" where
  "mpmagcmp b1 b2 = (let i = int (top b1) - int (top b2) in
     if i \<noteq> 0 then Ok i else mpveccmp (digs b1) (top b1) (digs b2) (top b2))"

definition mpcmp :: "mpint \<Rightarrow> mpint \<Rightarrow> int outcome" where
  "mpcmp b1 b2 =
     (if sign b1 \<noteq> sign b2 then Ok (sign b1 - sign b2)
      else if sign b1 < 0 then mpmagcmp b2 b1 else mpmagcmp b1 b2)"

section \<open>Addition and subtraction\<close>

definition mpmagadd :: "mps \<Rightarrow> nat \<Rightarrow> nat \<Rightarrow> nat \<Rightarrow> mps outcome" where
  "mpmagadd s b1 b2 sm = (let
     (b1, b2) = (if top (cell s b1) < top (cell s b2) then (b2, b1) else (b1, b2));
     n = top (cell s b1); m = top (cell s b2) in
     if n = 0 then obind (mpassign mpzero (cell s sm)) (\<lambda>x. Ok (upd s sm x))
     else if m = 0 then obind (mpassign (cell s b1) (cell s sm)) (\<lambda>x. Ok (upd s sm x))
     else let s = upd s sm ((mpbits (cell s sm) (int (n + 1) * 32))\<lparr>top := n + 1\<rparr>) in
       obind (mpvecadd (digs (cell s b1)) n (digs (cell s b2)) m) (\<lambda>ds.
       obind (put 0 ds (digs (cell s sm))) (\<lambda>q.
       obind (mpnorm ((cell s sm)\<lparr>digs := q, sign := 1\<rparr>)) (\<lambda>x. Ok (upd s sm x)))))"

definition mpmagsub :: "mps \<Rightarrow> nat \<Rightarrow> nat \<Rightarrow> nat \<Rightarrow> mps outcome" where
  "mpmagsub s b1 b2 diff =
     obind (mpmagcmp (cell s b1) (cell s b2)) (\<lambda>c. let
     (sg, b1, b2) = (if c < 0 then (- 1, b2, b1) else (1, b1, b2));
     n = top (cell s b1); m = top (cell s b2) in
     if m = 0 then obind (mpassign (cell s b1) (cell s diff)) (\<lambda>x. Ok (upd s diff (x\<lparr>sign := sg\<rparr>)))
     else let s = upd s diff (mpbits (cell s diff) (int n * 32)) in
       obind (mpvecsub (digs (cell s b1)) n (digs (cell s b2)) m) (\<lambda>ds.
       obind (put 0 ds (digs (cell s diff))) (\<lambda>q.
       obind (mpnorm ((cell s diff)\<lparr>digs := q, sign := sg, top := n\<rparr>)) (\<lambda>x. Ok (upd s diff x)))))"

definition mpadd :: "mps \<Rightarrow> nat \<Rightarrow> nat \<Rightarrow> nat \<Rightarrow> mps outcome" where
  "mpadd s b1 b2 sm =
     (if sign (cell s b1) \<noteq> sign (cell s b2) then
        if sign (cell s b1) < 0 then mpmagsub s b2 b1 sm else mpmagsub s b1 b2 sm
      else let sg = sign (cell s b1) in
        obind (mpmagadd s b1 b2 sm) (\<lambda>s.
          Ok (if top (cell s sm) \<noteq> 0 then upd s sm ((cell s sm)\<lparr>sign := sg\<rparr>) else s)))"

definition mpsub :: "mps \<Rightarrow> nat \<Rightarrow> nat \<Rightarrow> nat \<Rightarrow> mps outcome" where
  "mpsub s b1 b2 diff =
     (if sign (cell s b1) \<noteq> sign (cell s b2) then
        let sg = sign (cell s b1) in
        obind (mpmagadd s b1 b2 diff) (\<lambda>s. Ok (upd s diff ((cell s diff)\<lparr>sign := sg\<rparr>)))
      else let sg = sign (cell s b1) in
        obind (mpmagsub s b1 b2 diff) (\<lambda>s.
          Ok (if top (cell s diff) \<noteq> 0 then upd s diff ((cell s diff)\<lparr>sign := sign (cell s diff) * sg\<rparr>) else s)))"

section \<open>Shifts\<close>

text \<open>The loops that move digits; \<open>q\<close> is the destination and, when \<open>same\<close>, the source.\<close>

fun left_move :: "bool \<Rightarrow> mpdigit list \<Rightarrow> nat \<Rightarrow> nat \<Rightarrow> mpdigit list \<Rightarrow> mpdigit list outcome" where
  "left_move same bp d 0 q = Ok q"
| "left_move same bp d (Suc i) q =
     obind (rdat (if same then q else bp) i) (\<lambda>x. obind (wrat q (i + d) x) (left_move same bp d i))"

fun left_loop :: "bool \<Rightarrow> mpdigit list \<Rightarrow> nat \<Rightarrow> nat \<Rightarrow> nat \<Rightarrow> mpdigit \<Rightarrow> mpdigit list \<Rightarrow> (mpdigit \<times> mpdigit list) outcome" where
  "left_loop same bp d l 0 lst q = Ok (lst, q)"
| "left_loop same bp d l (Suc i) lst q =
     obind (rdat (if same then q else bp) i) (\<lambda>this.
     obind (wrat q (i + d + 1) (push_bit l lst OR drop_bit (32 - l) this)) (left_loop same bp d l i this))"

text \<open>\<open>mpleft\<close> and \<open>mpright\<close> by a shift that is not negative.\<close>

definition shift_left :: "mps \<Rightarrow> nat \<Rightarrow> nat \<Rightarrow> nat \<Rightarrow> mps outcome" where
  "shift_left s b shift res = (let
     otop = top (cell s b);
     s = upd s res (mpbits (cell s res) (int otop * 32 + int shift));
     rt = DIGITS (int otop * 32 + int shift);
     d = shift div 32; l = shift - d * 32;
     q = digs (cell s res); bp = digs (cell s b) in
     obind (if l = 0 then left_move (res = b) bp d otop q
       else obind (left_loop (res = b) bp d l otop 0 q) (\<lambda>(lst, q). wrat q d (push_bit l lst))) (\<lambda>q.
     obind (put 0 (replicate d 0) q) (\<lambda>q.
     obind (norm_top q rt) (\<lambda>t. Ok (upd s res ((cell s res)\<lparr>digs := q, top := t\<rparr>))))))"

fun right_move :: "bool \<Rightarrow> mpdigit list \<Rightarrow> nat \<Rightarrow> nat \<Rightarrow> nat \<Rightarrow> mpdigit list \<Rightarrow> mpdigit list outcome" where
  "right_move same bp d i 0 q = Ok q"
| "right_move same bp d i (Suc k) q =
     obind (rdat (if same then q else bp) (i + d)) (\<lambda>x. obind (wrat q i x) (right_move same bp d (i + 1) k))"

fun right_loop :: "bool \<Rightarrow> mpdigit list \<Rightarrow> nat \<Rightarrow> nat \<Rightarrow> nat \<Rightarrow> nat \<Rightarrow> mpdigit \<Rightarrow> mpdigit list \<Rightarrow> (mpdigit \<times> mpdigit list) outcome" where
  "right_loop same bp d r i 0 lst q = Ok (lst, q)"
| "right_loop same bp d r i (Suc k) lst q =
     obind (rdat (if same then q else bp) (i + d + 1)) (\<lambda>this.
     obind (wrat q i (push_bit (32 - r) this OR drop_bit r lst)) (right_loop same bp d r (i + 1) k this))"

definition shift_right :: "mps \<Rightarrow> nat \<Rightarrow> nat \<Rightarrow> nat \<Rightarrow> mps outcome" where
  "shift_right s b shift res = (let
     s = (if res \<noteq> b then upd s res (mpbits (cell s res) (int (top (cell s b)) * 32 - int shift)) else s);
     btop = top (cell s b);
     d = shift div 32; r = shift - d * 32;
     q = digs (cell s res); bp = digs (cell s b) in
     if btop \<le> d then Ok (upd s res ((cell s res)\<lparr>top := 0\<rparr>))
     else obind (if r = 0 then right_move (res = b) bp d 0 (btop - d) q
       else obind (rdat bp d) (\<lambda>lst.
         obind (right_loop (res = b) bp d r 0 (btop - d - 1) lst q) (\<lambda>(lst, q).
           wrat q (btop - d - 1) (drop_bit r lst)))) (\<lambda>q.
     obind (norm_top q (btop - d)) (\<lambda>t. let x = (cell s res)\<lparr>digs := q, top := t\<rparr> in
       Ok (upd s res (if t = 0 then x\<lparr>sign := 1\<rparr> else x)))))"

definition mpleft :: "mps \<Rightarrow> nat \<Rightarrow> int \<Rightarrow> nat \<Rightarrow> mps outcome" where
  "mpleft s b shift res = (let s = upd s res ((cell s res)\<lparr>sign := sign (cell s b)\<rparr>) in
     if top (cell s b) = 0 then Ok (upd s res ((cell s res)\<lparr>top := 0\<rparr>))
     else if shift < 0 then shift_right s b (nat (- shift)) res
     else shift_left s b (nat shift) res)"

definition mpright :: "mps \<Rightarrow> nat \<Rightarrow> int \<Rightarrow> nat \<Rightarrow> mps outcome" where
  "mpright s b shift res = (let s = upd s res ((cell s res)\<lparr>sign := sign (cell s b)\<rparr>) in
     if top (cell s b) = 0 then Ok (upd s res ((cell s res)\<lparr>top := 0\<rparr>))
     else if shift < 0 then shift_left s b (nat (- shift)) res
     else shift_right s b (nat shift) res)"

section \<open>Multiplication\<close>

definition mpmul :: "mps \<Rightarrow> nat \<Rightarrow> nat \<Rightarrow> nat \<Rightarrow> mps outcome" where
  "mpmul s b1 b2 pr =
     obind (if pr = b1 \<or> pr = b2 then obind (mpnew s 0) (\<lambda>(r, s). Ok (Some pr, r, s))
       else Ok (None, pr, s)) (\<lambda>(oprod, pr, s). let
     s = upd s pr ((cell s pr)\<lparr>top := 0\<rparr>);
     t1 = top (cell s b1); t2 = top (cell s b2);
     s = upd s pr (mpbits (cell s pr) (int (t1 + t2 + 1) * 32)) in
     obind (mpvecmul (digs (cell s b1)) t1 (digs (cell s b2)) t2 (digs (cell s pr))) (\<lambda>q.
     obind (mpnorm ((cell s pr)\<lparr>digs := q, top := t1 + t2 + 1, sign := sign (cell s b1) * sign (cell s b2)\<rparr>)) (\<lambda>x.
     let s = upd s pr x in
     case oprod of None \<Rightarrow> Ok s
     | Some o' \<Rightarrow> obind (mpassign (cell s pr) (cell s o')) (\<lambda>y. mpfree (upd s o' y) pr))))"

section \<open>What a number denotes\<close>

text \<open>The magnitude; room for the digits; no leading zeros; the number \<open>z\<close>.\<close>

definition mag :: "mpint \<Rightarrow> nat" where
  "mag x = val (take (top x) (digs x))"

definition room :: "mpint \<Rightarrow> bool" where
  "room x \<longleftrightarrow> top x \<le> length (digs x) \<and> digs x \<noteq> []"

definition normal :: "mpint \<Rightarrow> bool" where
  "normal x \<longleftrightarrow> room x \<and> (0 < top x \<longrightarrow> digs x ! (top x - 1) \<noteq> 0)"

definition isnum :: "mpint \<Rightarrow> int \<Rightarrow> bool" where
  "isnum x z \<longleftrightarrow> normal x \<and> (sign x = 1 \<or> sign x = - 1) \<and> (top x = 0 \<longrightarrow> sign x = 1)
    \<and> sign x * int (mag x) = z"

text \<open>A zero whose first digit is 0 too, as \<open>iseven\<close> needs.\<close>

definition clean :: "mpint \<Rightarrow> bool" where
  "clean x \<longleftrightarrow> (top x = 0 \<longrightarrow> digs x ! 0 = 0)"

lemma sign_update [simp]:
  "mag (x\<lparr>sign := k\<rparr>) = mag x" "room (x\<lparr>sign := k\<rparr>) = room x" "normal (x\<lparr>sign := k\<rparr>) = normal x"
  "clean (x\<lparr>sign := k\<rparr>) = clean x"
  by (simp_all add: mag_def room_def normal_def clean_def)

lemma room_normal [simp]: "normal x \<Longrightarrow> room x"
  by (simp add: normal_def)

lemma roomD: "room x \<Longrightarrow> top x \<le> length (digs x)" "room x \<Longrightarrow> digs x \<noteq> []"
  by (simp_all add: room_def)

lemma isnumD:
  assumes "isnum x z"
  shows "normal x" "room x" "sign x = 1 \<or> sign x = - 1" "top x = 0 \<Longrightarrow> sign x = 1" "z = sign x * int (mag x)"
  using assms by (simp_all add: isnum_def)

lemma mag_less: "room x \<Longrightarrow> mag x < Base ^ top x"
  by (simp add: mag_def val_take_less roomD)

lemma mag_top_0 [simp]: "top x = 0 \<Longrightarrow> mag x = 0"
  by (simp add: mag_def)

lemma normal_mag: "room x \<Longrightarrow> normal x \<longleftrightarrow> (0 < top x \<longrightarrow> Base ^ (top x - 1) \<le> mag x)"
proof (cases "top x")
  case (Suc t)
  assume r: "room x"
  have t: "t < length (digs x)" using r Suc roomD(1) [of x] by simp
  have m: "mag x = val (take t (digs x)) + Base ^ t * unat (digs x ! t)"
    unfolding mag_def Suc using t by (rule val_take_Suc)
  have l: "val (take t (digs x)) < Base ^ t" using t by (simp add: val_take_less)
  show ?thesis
  proof (cases "digs x ! t = 0")
    case True
    then show ?thesis using r m l Suc by (simp add: normal_def)
  next
    case False
    then have "Base ^ t * 1 \<le> Base ^ t * unat (digs x ! t)" by (intro mult_le_mono) (simp_all add: Suc_le_eq unat_gt_0)
    then show ?thesis using r m Suc False by (simp add: normal_def trans_le_add2)
  qed
qed (simp add: normal_def)

lemma normal_cong: "room y \<Longrightarrow> top y = top x \<Longrightarrow> mag y = mag x \<Longrightarrow> normal x \<Longrightarrow> normal y"
  using normal_mag [of x] normal_mag [of y] by simp

lemma normal_mag_pos: "normal x \<Longrightarrow> 0 < top x \<Longrightarrow> 0 < mag x"
  using normal_mag [of x] by (metis Base_pos(1) less_le_trans room_normal zero_less_power)

lemma normal_mag_0: "normal x \<Longrightarrow> mag x = 0 \<longleftrightarrow> top x = 0"
  using normal_mag_pos [of x] by (cases "top x = 0") auto

lemma normal_less: "normal x \<Longrightarrow> normal y \<Longrightarrow> top x < top y \<Longrightarrow> mag x < mag y"
proof -
  assume h: "normal x" "normal y" "top x < top y"
  have "mag x < Base ^ top x" using h by (simp add: mag_less)
  also have "\<dots> \<le> Base ^ (top y - 1)" using h by (intro power_increasing) simp_all
  also have "\<dots> \<le> mag y" using h normal_mag [of y] by simp
  finally show ?thesis .
qed

lemma isnum_mag: "isnum x z \<Longrightarrow> int (mag x) = \<bar>z\<bar>"
  by (auto simp: isnum_def abs_mult)

lemma isnum_zero: "isnum x z \<Longrightarrow> top x = 0 \<longleftrightarrow> z = 0"
  using normal_mag_0 [of x] by (auto simp: isnum_def)

lemma isnum_sign: "isnum x z \<Longrightarrow> sign x = (if z < 0 then - 1 else 1)"
proof -
  assume h: "isnum x z"
  show ?thesis
  proof (cases "top x = 0")
    case True
    then show ?thesis using h by (simp add: isnum_def)
  next
    case False
    then have "0 < mag x" using h by (simp add: isnum_def normal_mag_pos)
    then show ?thesis using h by (auto simp: isnum_def)
  qed
qed

lemma isnumI:
  "normal x \<Longrightarrow> sign x = (if z < 0 then - 1 else 1) \<Longrightarrow> int (mag x) = \<bar>z\<bar> \<Longrightarrow> isnum x z"
  using normal_mag_0 [of x] by (auto simp: isnum_def)

lemma isnum_fun: "isnum x z \<Longrightarrow> isnum x z' \<Longrightarrow> z = z'"
  by (simp add: isnum_def)

section \<open>Allocation, normal form, assignment\<close>

lemma DIGITS_digits [simp]: "DIGITS (int n * 32) = n" "DIGITS (32 * int n) = n"
proof -
  have "(31 + 32 * int n) div 32 = int n" by simp
  then show "DIGITS (int n * 32) = n" "DIGITS (32 * int n) = n" by (simp_all add: DIGITS_def mult.commute)
qed

lemma DIGITS_Suc [simp]: "DIGITS (32 + int n * 32) = Suc n"
  using DIGITS_digits(1) [of "Suc n"] by simp

lemma norm_top_spec:
  "t \<le> length p \<Longrightarrow> \<exists>k. norm_top p t = Ok k \<and> k \<le> t \<and> (0 < k \<longrightarrow> p ! (k - 1) \<noteq> 0)
     \<and> val (take k p) = val (take t p)"
proof (induction t)
  case (Suc t)
  then show ?case
    by (cases "p ! t = 0") (auto simp: rdat_def val_take_Suc intro: le_SucI exI [of _ "Suc t"])
qed simp

lemma mpnorm_spec:
  assumes "room b"
  obtains x where "mpnorm b = Ok x" "normal x" "digs x = digs b" "mag x = mag b"
    "sign x = (if top x = 0 then 1 else sign b)" "static x = static b"
proof -
  obtain k where "norm_top (digs b) (top b) = Ok k" "k \<le> top b" "0 < k \<longrightarrow> digs b ! (k - 1) \<noteq> 0"
    "val (take k (digs b)) = val (take (top b) (digs b))"
    using norm_top_spec [OF roomD(1) [OF assms]] by auto
  moreover have "val (take (top b) (digs b)) = 0" if "k = 0" using calculation(4) that by simp
  ultimately show ?thesis using assms
    by (intro that [of "if k = 0 then b\<lparr>top := k, sign := 1\<rparr> else b\<lparr>top := k\<rparr>"])
      (simp_all add: mpnorm_def normal_def room_def mag_def)
qed

lemma mpbits_simps [simp]:
  "sign (mpbits b m) = sign b" "static (mpbits b m) = static b" "top (mpbits b m) = max (top b) (DIGITS m)"
  if "room b"
  using roomD(1) [OF that] by (auto simp: mpbits_def Let_def max_def)

lemma mpbits_top: "room b \<Longrightarrow> (mpbits b m)\<lparr>top := max (top b) (DIGITS m)\<rparr> = mpbits b m"
  by (rule mpint.equality) simp_all

lemma length_mpbits [simp]: "room b \<Longrightarrow> length (digs (mpbits b m)) = max (length (digs b)) (DIGITS m)"
  using roomD(1) [of b] by (auto simp: mpbits_def Let_def)

lemma room_mpbits [simp]: "room b \<Longrightarrow> room (mpbits b m)"
proof -
  assume r: "room b"
  have "0 < length (digs b)" using roomD(2) [OF r] by simp
  then have "0 < length (digs (mpbits b m))" unfolding length_mpbits [OF r] by (rule less_le_trans) simp
  moreover have "top (mpbits b m) \<le> length (digs (mpbits b m))"
    unfolding length_mpbits [OF r] mpbits_simps(3) [OF r] using roomD(1) [OF r] by (intro max.mono) simp_all
  ultimately show "room (mpbits b m)" unfolding room_def by (simp only: length_greater_0_conv simp_thms)
qed

lemma take_mpbits [simp]: "room b \<Longrightarrow> take (top b) (digs (mpbits b m)) = take (top b) (digs b)"
  using roomD(1) [of b] by (simp add: mpbits_def Let_def)

text \<open>What \<open>mpbits\<close> adds to the digits in use is 0.\<close>

lemma mag_mpbits [simp]: "room b \<Longrightarrow> mag (mpbits b m) = mag b"
  using roomD(1) [of b] by (auto simp: mpbits_def Let_def mag_def)

lemma mpassign_spec:
  assumes "room new" "top old \<le> length (digs old)"
  obtains x where "mpassign old new = Ok x" "room x" "top x = top old" "sign x = sign old" "mag x = mag old"
    "static x = static new" "take (top old) (digs x) = take (top old) (digs old)"
    "top old = 0 \<Longrightarrow> digs x ! 0 = digs new ! 0" "length (digs new) \<le> length (digs x)"
proof -
  let ?y = "mpbits new (32 * int (top old))"
  have l: "top old \<le> length (digs ?y)" unfolding length_mpbits [OF assms(1)] by simp
  have ne: "digs ?y \<noteq> []" using roomD(2) [OF room_mpbits [OF assms(1)]] .
  have z: "digs ?y = digs new" if "top old = 0"
    using that assms(1) by (simp add: mpbits_def Let_def DIGITS_def)
  let ?x = "?y\<lparr>sign := sign old, top := top old, digs := take (top old) (digs old) @ drop (top old) (digs ?y)\<rparr>"
  have m: "min (length (digs old)) (top old) = top old" using assms(2) by simp
  have "mpassign old new = Ok ?x" using assms(2) l by (simp add: mpassign_def Let_def rdmem_def put_def m)
  moreover have "length (digs ?x) = length (digs ?y)" using l by (simp add: m)
  moreover have "room ?x" using l ne calculation(2) unfolding room_def length_0_conv [symmetric]
    by (simp del: length_mpbits)
  ultimately show ?thesis using assms z l by (intro that [of ?x]) (simp_all add: mag_def m)
qed

lemma mpassign_isnum:
  assumes "room new" "isnum old z"
  obtains x where "mpassign old new = Ok x" "isnum x z" "top x = top old" "static x = static new"
    "z = 0 \<Longrightarrow> digs x ! 0 = digs new ! 0"
proof -
  obtain x where x: "mpassign old new = Ok x" "room x" "top x = top old" "sign x = sign old" "mag x = mag old"
    "static x = static new" "top old = 0 \<Longrightarrow> digs x ! 0 = digs new ! 0"
    using assms mpassign_spec [of new old] by (metis isnumD(2) roomD(1))
  moreover have "isnum x z" using x assms(2) normal_cong [of x old] by (simp add: isnum_def)
  ultimately show ?thesis using isnum_zero [OF assms(2)] by (intro that [of x]) simp_all
qed

lemma mpzero_num [simp]: "isnum mpzero 0" and mpone_num [simp]: "isnum mpone 1"
  by (simp_all add: mpzero_def mpone_def isnum_def normal_def room_def mag_def)

lemma mpnew_spec:
  assumes "0 \<le> n" "0 < mpmindigits s"
  obtains x where "mpnew s n = Ok (brk s, (upd s (brk s) x)\<lparr>brk := brk s + 1\<rparr>)" "isnum x 0" "clean x" "\<not> static x"
    "digs x = replicate (max (DIGITS n) (mpmindigits s)) 0" "top x = 0" "sign x = 1"
proof -
  let ?x = "\<lparr>sign = 1, top = 0, digs = replicate (max (DIGITS n) (mpmindigits s)) 0, static = False\<rparr>"
  have "mpnew s n = Ok (brk s, (upd s (brk s) ?x)\<lparr>brk := brk s + 1\<rparr>)"
    using assms by (simp add: mpnew_def Let_def max_def)
  then show ?thesis using assms by (intro that [of ?x]) (simp_all add: isnum_def normal_def room_def clean_def)
qed

lemma mpcopy_spec:
  assumes o': "isnum old z" and m: "0 < mpmindigits s"
  obtains x where "mpcopy s old = Ok (brk s, (upd s (brk s) x)\<lparr>brk := brk s + 1\<rparr>)" "isnum x z" "clean x" "\<not> static x"
proof -
  define l where "l = length (digs old)"
  obtain y where y: "mpnew s (32 * int l) = Ok (brk s, (upd s (brk s) y)\<lparr>brk := brk s + 1\<rparr>)" "\<not> static y"
    "digs y = replicate (max (DIGITS (32 * int l)) (mpmindigits s)) 0"
    using mpnew_spec [OF _ m, of "32 * int l"] by (metis of_nat_0_le_iff zero_le_mult_iff zero_le_numeral)
  have t: "top old \<le> l" "l \<le> length (digs y)" using roomD(1) [OF isnumD(2) [OF o']] by (simp_all add: l_def y(3))
  define x where "x = y\<lparr>top := top old, sign := sign old, digs := take (top old) (digs old) @ drop (top old) (digs y)\<rparr>"
  have tk: "take (top old) (digs x) = take (top old) (digs old)" using t by (simp add: x_def l_def)
  have "mpcopy s old = Ok (brk s, (upd s (brk s) x)\<lparr>brk := brk s + 1\<rparr>)"
    using t y(1) by (simp add: mpcopy_def l_def [symmetric] rdmem_def put_def Let_def x_def min_absorb2)
  moreover have "isnum x z"
    using o' t tk m by (auto simp: isnum_def normal_def room_def mag_def x_def l_def y(3) nth_append)
  moreover have "clean x" using m by (simp add: clean_def x_def y(3))
  ultimately show ?thesis using y(2) by (intro that [of x]) (simp_all add: x_def)
qed

section \<open>Comparison\<close>

lemma mpmagcmp_spec:
  assumes "normal x" "normal y"
  obtains c where "mpmagcmp x y = Ok c" "c < 0 \<longleftrightarrow> mag x < mag y" "c = 0 \<longleftrightarrow> mag x = mag y"
proof (cases "top x = top y")
  case True
  then have "mpmagcmp x y = Ok (sgn (int (mag x) - int (mag y)))"
    using mpveccmp_spec [of "top x" "digs x" "top y" "digs y"] roomD(1) [of x] roomD(1) [of y] assms
    by (simp add: mpmagcmp_def mag_def)
  then show ?thesis by (rule that) (auto simp: sgn_if)
next
  case False
  then have c: "mpmagcmp x y = Ok (int (top x) - int (top y))" by (simp add: mpmagcmp_def)
  have m: "mag x < mag y \<longleftrightarrow> top x < top y" "mag x \<noteq> mag y"
    using False normal_less [OF assms] normal_less [OF assms(2,1)]
    by (metis less_asym linorder_neqE_nat)+
  have "int (top x) - int (top y) < 0 \<longleftrightarrow> mag x < mag y" unfolding m(1) by linarith
  moreover have "int (top x) - int (top y) = 0 \<longleftrightarrow> mag x = mag y" using m(2) False by linarith
  ultimately show ?thesis by (rule that [OF c])
qed

lemma mpcmp_spec:
  assumes "isnum x z" "isnum y z'"
  obtains c where "mpcmp x y = Ok c" "c < 0 \<longleftrightarrow> z < z'" "c = 0 \<longleftrightarrow> z = z'"
proof (cases "sign x = sign y")
  case False
  then have "mpcmp x y = Ok (sign x - sign y)" by (simp add: mpcmp_def)
  then show ?thesis
    by (rule that) (use False isnum_sign [OF assms(1)] isnum_sign [OF assms(2)] in \<open>auto split: if_splits\<close>)
next
  case True
  obtain c where c: "mpmagcmp x y = Ok c" "c < 0 \<longleftrightarrow> mag x < mag y" "c = 0 \<longleftrightarrow> mag x = mag y"
    using mpmagcmp_spec assms isnumD(1) by metis
  obtain c' where c': "mpmagcmp y x = Ok c'" "c' < 0 \<longleftrightarrow> mag y < mag x" "c' = 0 \<longleftrightarrow> mag y = mag x"
    using mpmagcmp_spec assms isnumD(1) by metis
  show ?thesis
  proof (cases "sign x < 0")
    case neg: True
    have "mpcmp x y = Ok c'" using True neg c'(1) by (simp add: mpcmp_def)
    then show ?thesis
      by (rule that) (use True neg c' isnum_mag [OF assms(1)] isnum_mag [OF assms(2)] isnum_sign [OF assms(1)]
        isnum_sign [OF assms(2)] in \<open>auto split: if_splits simp flip: of_nat_less_iff of_nat_eq_iff\<close>)
  next
    case pos: False
    have "mpcmp x y = Ok c" using True pos c(1) by (simp add: mpcmp_def)
    then show ?thesis
      by (rule that) (use True pos c isnum_mag [OF assms(1)] isnum_mag [OF assms(2)] isnum_sign [OF assms(1)]
        isnum_sign [OF assms(2)] in \<open>auto split: if_splits simp flip: of_nat_less_iff of_nat_eq_iff\<close>)
  qed
qed

section \<open>Addition and subtraction\<close>

text \<open>Making room in the result leaves the operands' digits alone, even when it is one of them.\<close>

lemma operand_after:
  fixes m :: int and k :: nat
  assumes "room (cell s r)" "room (cell s b)"
  defines "s' \<equiv> upd s r ((mpbits (cell s r) m)\<lparr>top := k\<rparr>)"
  shows "take (top (cell s b)) (digs (cell s' b)) = take (top (cell s b)) (digs (cell s b))"
    "top (cell s b) \<le> length (digs (cell s' b))"
  using assms(1) roomD(1) [OF assms(2)] by (auto simp: s'_def le_max_iff_disj)

lemma mpmagadd_spec:
  assumes b1: "normal (cell s b1)" and b2: "normal (cell s b2)" and r: "room (cell s r)"
  obtains x where "mpmagadd s b1 b2 r = Ok (upd s r x)" "normal x" "mag x = mag (cell s b1) + mag (cell s b2)"
    "top x = 0 \<Longrightarrow> sign x = 1" "static x = static (cell s r)"
    "r = b1 \<or> r = b2 \<Longrightarrow> clean (cell s r) \<Longrightarrow> clean x"
proof -
  define c1 c2 where "c1 = (if top (cell s b1) < top (cell s b2) then b2 else b1)"
    and "c2 = (if top (cell s b1) < top (cell s b2) then b1 else b2)"
  have c: "(if top (cell s b1) < top (cell s b2) then (b2, b1) else (b1, b2)) = (c1, c2)"
    "normal (cell s c1)" "normal (cell s c2)" "top (cell s c2) \<le> top (cell s c1)"
    "mag (cell s c1) + mag (cell s c2) = mag (cell s b1) + mag (cell s b2)"
    "r = b1 \<or> r = b2 \<longleftrightarrow> r = c1 \<or> r = c2"
    using b1 b2 by (auto simp: c1_def c2_def)
  define n m where "n = top (cell s c1)" and "m = top (cell s c2)"
  consider (zero) "n = 0" | (one) "n \<noteq> 0" "m = 0" | (both) "n \<noteq> 0" "m \<noteq> 0" by blast
  then show ?thesis
  proof cases
    case zero
    then have z: "top (cell s c1) = 0" "top (cell s c2) = 0" using c(4) by (simp_all add: n_def)
    obtain x where x: "mpassign mpzero (cell s r) = Ok x" "isnum x 0" "top x = top mpzero" "static x = static (cell s r)"
      "digs x ! 0 = digs (cell s r) ! 0"
      using mpassign_isnum [OF r mpzero_num] by metis
    have "mpmagadd s b1 b2 r = Ok (upd s r x)"
      using zero x(1) unfolding mpmagadd_def c(1) by (simp add: n_def)
    then show ?thesis using x z c(5,6) isnumD [OF x(2)]
      by (intro that [of x]) (auto simp: clean_def mpzero_def)
  next
    case one
    then have z: "top (cell s c2) = 0" by (simp add: m_def)
    obtain x where x: "mpassign (cell s c1) (cell s r) = Ok x" "room x" "top x = top (cell s c1)" "mag x = mag (cell s c1)"
      "static x = static (cell s r)"
      using mpassign_spec [OF r roomD(1) [OF room_normal [OF c(2)]]] by metis
    have "mpmagadd s b1 b2 r = Ok (upd s r x)"
      using one x(1) unfolding mpmagadd_def c(1) by (simp add: n_def m_def)
    moreover have "normal x" using x c(2) normal_cong by blast
    ultimately show ?thesis using one x z c(5) by (intro that [of x]) (auto simp: clean_def n_def)
  next
    case both
    define s' where "s' = upd s r ((mpbits (cell s r) (int (n + 1) * 32))\<lparr>top := n + 1\<rparr>)"
    have l: "n + 1 \<le> length (digs (cell s' r))" "static (cell s' r) = static (cell s r)" using r by (simp_all add: s'_def)
    note o1 = operand_after [OF r room_normal [OF c(2)], where m = "int (n + 1) * 32" and k = "n + 1", folded s'_def n_def]
    note o2 = operand_after [OF r room_normal [OF c(3)], where m = "int (n + 1) * 32" and k = "n + 1", folded s'_def m_def]
    obtain ds where ds: "mpvecadd (digs (cell s' c1)) n (digs (cell s' c2)) m = Ok ds" "length ds = Suc n"
      "val ds = mag (cell s c1) + mag (cell s c2)"
      by (rule mpvecadd_spec [of m n "digs (cell s' c1)" "digs (cell s' c2)"])
        (use c(4) o1 o2 in \<open>simp_all add: n_def m_def mag_def\<close>)
    define q where "q = ds @ drop (n + 1) (digs (cell s' r))"
    define y where "y = (cell s' r)\<lparr>digs := q, sign := 1\<rparr>"
    have y: "room y" "mag y = val ds" "static y = static (cell s r)" using ds(2) l
      by (auto simp: y_def q_def room_def mag_def s'_def)
    obtain x where x: "mpnorm y = Ok x" "normal x" "mag x = mag y" "sign x = (if top x = 0 then 1 else sign y)" "static x = static y"
      by (rule mpnorm_spec [OF y(1)])
    have pq: "put 0 ds (digs (cell s' r)) = Ok q" using ds(2) l(1) by (simp add: put_def q_def)
    have "mpmagadd s b1 b2 r = Ok (upd s' r x)"
      unfolding mpmagadd_def c(1) Let_def prod.case n_def [symmetric] m_def [symmetric] s'_def [symmetric]
        if_not_P [OF both(1)] if_not_P [OF both(2)] ds(1) pq obind.simps y_def [symmetric] x(1) by (rule refl)
    moreover have "upd s' r x = upd s r x" by (simp add: s'_def)
    moreover have "0 < top x"
      using x(2,3) y(2) ds(3) both(1) c(2) normal_mag_pos [OF c(2)] by (cases "top x = 0") (simp_all add: n_def)
    ultimately show ?thesis using x y ds(3) c(5) by (intro that [of x]) (simp_all add: clean_def)
  qed
qed

lemma mpmagsub_spec:
  assumes b1: "normal (cell s b1)" and b2: "normal (cell s b2)" and r: "room (cell s r)"
  obtains x where "mpmagsub s b1 b2 r = Ok (upd s r x)" "isnum x (int (mag (cell s b1)) - int (mag (cell s b2)))"
    "static x = static (cell s r)" "r = b1 \<or> r = b2 \<Longrightarrow> clean (cell s r) \<Longrightarrow> clean x"
proof -
  obtain k where k: "mpmagcmp (cell s b1) (cell s b2) = Ok k" "k < 0 \<longleftrightarrow> mag (cell s b1) < mag (cell s b2)"
    by (rule mpmagcmp_spec [OF b1 b2])
  define c1 c2 sg where "c1 = (if k < 0 then b2 else b1)" and "c2 = (if k < 0 then b1 else b2)"
    and "sg = (if k < 0 then - 1 else 1 :: int)"
  have c: "(if k < 0 then (- 1, b2, b1) else (1, b1, b2)) = (sg, c1, c2)"
    "normal (cell s c1)" "normal (cell s c2)" "mag (cell s c2) \<le> mag (cell s c1)"
    "r = b1 \<or> r = b2 \<longleftrightarrow> r = c1 \<or> r = c2" "sg = 1 \<or> sg = - 1"
    "sg * int (mag (cell s c1) - mag (cell s c2)) = int (mag (cell s b1)) - int (mag (cell s b2))"
    "mag (cell s c1) = mag (cell s c2) \<Longrightarrow> sg = 1"
    using b1 b2 k(2) by (auto simp: c1_def c2_def sg_def)
  define n m where "n = top (cell s c1)" and "m = top (cell s c2)"
  have mn: "m \<le> n" using c(4) normal_less [OF c(2,3)] unfolding n_def m_def by linarith
  show ?thesis
  proof (cases "m = 0")
    case True
    then have z: "top (cell s c2) = 0" by (simp add: m_def)
    obtain x where x: "mpassign (cell s c1) (cell s r) = Ok x" "room x" "top x = top (cell s c1)" "mag x = mag (cell s c1)"
      "static x = static (cell s r)" "top (cell s c1) = 0 \<Longrightarrow> digs x ! 0 = digs (cell s r) ! 0"
      using mpassign_spec [OF r roomD(1) [OF room_normal [OF c(2)]]] by metis
    have "mpmagsub s b1 b2 r = Ok (upd s r (x\<lparr>sign := sg\<rparr>))"
      using True x(1) k(1) unfolding mpmagsub_def by (simp add: c(1) m_def)
    moreover have "normal (x\<lparr>sign := sg\<rparr>)"
      using normal_cong [OF x(2,3,4) c(2)] by simp
    moreover have "mag (cell s c1) = mag (cell s c2)" if "top (cell s c1) = 0" using that z by simp
    then have "isnum (x\<lparr>sign := sg\<rparr>) (int (mag (cell s b1)) - int (mag (cell s b2)))"
      using calculation(2) x(3,4) c(6,8) z unfolding isnum_def c(7) [symmetric] by simp
    moreover have "clean (x\<lparr>sign := sg\<rparr>)" if "r = b1 \<or> r = b2" "clean (cell s r)"
    proof -
      have "top (cell s r) = 0" if "top x = 0"
        using \<open>r = b1 \<or> r = b2\<close> c(5) x(3) z that by auto
      then show ?thesis using that(2) x(3,6) by (simp add: clean_def)
    qed
    ultimately show ?thesis using x(5) by (intro that [of "x\<lparr>sign := sg\<rparr>"]) simp_all
  next
    case False
    define s' where "s' = upd s r (mpbits (cell s r) (int n * 32))"
    have s': "s' = upd s r ((mpbits (cell s r) (int n * 32))\<lparr>top := max (top (cell s r)) n\<rparr>)"
      unfolding s'_def using mpbits_top [OF r, of "int n * 32"] by simp
    have l: "n \<le> length (digs (cell s' r))" "static (cell s' r) = static (cell s r)" "digs (cell s' r) \<noteq> []"
      using r roomD(2) [OF room_mpbits [OF r]] by (simp_all add: s'_def)
    note o1 = operand_after [OF r room_normal [OF c(2)], where m = "int n * 32" and k = "max (top (cell s r)) n", folded s' n_def]
    note o2 = operand_after [OF r room_normal [OF c(3)], where m = "int n * 32" and k = "max (top (cell s r)) n", folded s' m_def]
    have mx: "max n m = n" using mn by simp
    obtain ds where ds: "mpvecsub (digs (cell s' c1)) n (digs (cell s' c2)) m = Ok ds" "length ds = n"
      "val ds = mag (cell s c1) - mag (cell s c2)"
      by (rule mpvecsub_spec [of n m "digs (cell s' c1)" "digs (cell s' c2)", unfolded mx])
        (use c(4) o1 o2 in \<open>simp_all add: n_def m_def mag_def\<close>)
    define q where "q = ds @ drop n (digs (cell s' r))"
    define y where "y = (cell s' r)\<lparr>digs := q, sign := sg, top := n\<rparr>"
    have n0: "0 < n" using False mn by simp
    have y: "room y" "mag y = val ds" "static y = static (cell s r)" using ds(2) l n0
      by (auto simp: y_def q_def room_def mag_def)
    obtain x where x: "mpnorm y = Ok x" "normal x" "mag x = mag y" "sign x = (if top x = 0 then 1 else sign y)" "static x = static y"
      "digs x = digs y"
      by (rule mpnorm_spec [OF y(1)])
    have pq: "put 0 ds (digs (cell s' r)) = Ok q" using ds(2) l(1) by (simp add: put_def q_def)
    have "mpmagsub s b1 b2 r = Ok (upd s' r x)"
      unfolding mpmagsub_def k(1) obind.simps Let_def c(1) prod.case n_def [symmetric] m_def [symmetric] s'_def [symmetric]
        if_not_P [OF False] ds(1) pq obind.simps y_def [symmetric] x(1) by (rule refl)
    moreover have "upd s' r x = upd s r x" by (simp add: s'_def)
    moreover have sx: "sign x = (if top x = 0 then 1 else sg)" using x(4) by (simp add: y_def)
    moreover have "isnum x (int (mag (cell s b1)) - int (mag (cell s b2)))"
      using x(2,3) y(2) ds(3) c(6) normal_mag_0 [OF x(2)] unfolding isnum_def c(7) [symmetric] sx by auto
    moreover have "clean x" unfolding clean_def
    proof
      assume "top x = 0"
      then have "val ds = 0" using x(3) y(2) by simp
      then have "ds ! 0 = 0" using ds(2) n0 unfolding val_zero_iff by simp
      then show "digs x ! 0 = 0" using ds(2) n0 by (simp add: x(6) y_def q_def nth_append)
    qed
    ultimately show ?thesis using x(5) y(3) by (intro that [of x]) simp_all
  qed
qed

lemma upd_upd [simp]: "upd (upd s r x) r y = upd s r y"
  by simp

lemma isnum_abs: "isnum x z \<Longrightarrow> mag x = nat \<bar>z\<bar>"
  using isnum_mag [of x z] by linarith

lemma mpadd_spec:
  assumes b1: "isnum (cell s b1) z1" and b2: "isnum (cell s b2) z2" and r: "room (cell s r)"
  obtains x where "mpadd s b1 b2 r = Ok (upd s r x)" "isnum x (z1 + z2)" "static x = static (cell s r)"
    "r = b1 \<or> r = b2 \<Longrightarrow> clean (cell s r) \<Longrightarrow> clean x"
proof -
  note n = isnumD(1) [OF b1] isnumD(1) [OF b2] and sg = isnum_sign [OF b1] isnum_sign [OF b2]
    and m = isnum_mag [OF b1] isnum_mag [OF b2]
  show ?thesis
  proof (cases "sign (cell s b1) = sign (cell s b2)")
    case True
    obtain x where x: "mpmagadd s b1 b2 r = Ok (upd s r x)" "normal x" "mag x = mag (cell s b1) + mag (cell s b2)"
      "top x = 0 \<Longrightarrow> sign x = 1" "static x = static (cell s r)" "r = b1 \<or> r = b2 \<Longrightarrow> clean (cell s r) \<Longrightarrow> clean x"
      using mpmagadd_spec [OF n r] by blast
    let ?y = "if top x \<noteq> 0 then x\<lparr>sign := sign (cell s b1)\<rparr> else x"
    have "mpadd s b1 b2 r = Ok (upd s r ?y)" using True x(1) by (simp add: mpadd_def)
    moreover have "isnum ?y (z1 + z2)"
    proof (rule isnumI)
      show "normal ?y" using x(2) by simp
      show "int (mag ?y) = \<bar>z1 + z2\<bar>" using x(3) m True sg by (auto split: if_splits)
      show "sign ?y = (if z1 + z2 < 0 then - 1 else 1)"
        using x(3,4) m True sg normal_mag_0 [OF x(2)] by (auto split: if_splits)
    qed
    ultimately show ?thesis using x(5,6) by (intro that [of ?y]) simp_all
  next
    case False
    define c1 c2 where "c1 = (if sign (cell s b1) < 0 then b2 else b1)" and "c2 = (if sign (cell s b1) < 0 then b1 else b2)"
    have c: "normal (cell s c1)" "normal (cell s c2)" "r = b1 \<or> r = b2 \<longleftrightarrow> r = c1 \<or> r = c2"
      "int (mag (cell s c1)) - int (mag (cell s c2)) = z1 + z2"
      using n m sg False by (auto simp: c1_def c2_def split: if_splits)
    obtain x where x: "mpmagsub s c1 c2 r = Ok (upd s r x)" "isnum x (z1 + z2)" "static x = static (cell s r)"
      "r = c1 \<or> r = c2 \<Longrightarrow> clean (cell s r) \<Longrightarrow> clean x"
      using mpmagsub_spec [OF c(1,2) r] unfolding c(4) by blast
    have "mpadd s b1 b2 r = Ok (upd s r x)" using False x(1) by (auto simp: mpadd_def c1_def c2_def)
    then show ?thesis using x c(3) by (intro that [of x]) simp_all
  qed
qed

lemma mpsub_spec:
  assumes b1: "isnum (cell s b1) z1" and b2: "isnum (cell s b2) z2" and r: "room (cell s r)"
  obtains x where "mpsub s b1 b2 r = Ok (upd s r x)" "isnum x (z1 - z2)" "static x = static (cell s r)"
    "r = b1 \<or> r = b2 \<Longrightarrow> clean (cell s r) \<Longrightarrow> clean x"
proof -
  note n = isnumD(1) [OF b1] isnumD(1) [OF b2] and sg = isnum_sign [OF b1] isnum_sign [OF b2]
    and m = isnum_mag [OF b1] isnum_mag [OF b2]
  show ?thesis
  proof (cases "sign (cell s b1) = sign (cell s b2)")
    case False
    obtain x where x: "mpmagadd s b1 b2 r = Ok (upd s r x)" "normal x" "mag x = mag (cell s b1) + mag (cell s b2)"
      "top x = 0 \<Longrightarrow> sign x = 1" "static x = static (cell s r)" "r = b1 \<or> r = b2 \<Longrightarrow> clean (cell s r) \<Longrightarrow> clean x"
      using mpmagadd_spec [OF n r] by blast
    let ?y = "x\<lparr>sign := sign (cell s b1)\<rparr>"
    have "mpsub s b1 b2 r = Ok (upd s r ?y)" using False x(1) by (simp add: mpsub_def)
    moreover have "isnum ?y (z1 - z2)"
    proof (rule isnumI)
      show "normal ?y" using x(2) by simp
      show "int (mag ?y) = \<bar>z1 - z2\<bar>" using x(3) m False sg by (auto split: if_splits)
      show "sign ?y = (if z1 - z2 < 0 then - 1 else 1)" using sg False by (auto split: if_splits)
    qed
    ultimately show ?thesis using x(5,6) by (intro that [of ?y]) simp_all
  next
    case True
    obtain x where x: "mpmagsub s b1 b2 r = Ok (upd s r x)" "isnum x (int (mag (cell s b1)) - int (mag (cell s b2)))"
      "static x = static (cell s r)" "r = b1 \<or> r = b2 \<Longrightarrow> clean (cell s r) \<Longrightarrow> clean x"
      using mpmagsub_spec [OF n r] by blast
    let ?y = "if top x \<noteq> 0 then x\<lparr>sign := sign x * sign (cell s b1)\<rparr> else x"
    have "mpsub s b1 b2 r = Ok (upd s r ?y)" using True x(1) by (simp add: mpsub_def)
    moreover have "isnum ?y (z1 - z2)"
    proof (rule isnumI)
      show "normal ?y" using isnumD(1) [OF x(2)] by simp
      show "int (mag ?y) = \<bar>z1 - z2\<bar>" using isnum_mag [OF x(2)] m True sg by (auto split: if_splits)
      show "sign ?y = (if z1 - z2 < 0 then - 1 else 1)"
        using isnum_sign [OF x(2)] isnum_zero [OF x(2)] m True sg by (auto split: if_splits)
    qed
    ultimately show ?thesis using x(3,4) by (intro that [of ?y]) simp_all
  qed
qed

section \<open>Shifts\<close>

text \<open>The digit put together from the low bits of one and the high bits of its neighbour.\<close>

lemma unat_drop_digit: "unat (drop_bit k x) = unat (x :: mpdigit) div 2 ^ k"
  unfolding unat_drop_bit_eq by (simp add: drop_bit_eq_div)

lemma digit_shift:
  "l \<le> 32 \<Longrightarrow> unat (x :: mpdigit) * 2 ^ l = unat (push_bit l x) + Base * (unat x div 2 ^ (32 - l))"
  using shifted_digits [of l "drop_bit (32 - l) x" x] by (simp add: unat_drop_digit)

lemma digit_join:
  assumes "l < 32"
  shows "unat (push_bit l x OR drop_bit (32 - l) (y :: mpdigit)) = unat (push_bit l x) + unat y div 2 ^ (32 - l)"
proof -
  have "push_bit l x AND drop_bit (32 - l) y = 0"
  proof (rule bit_word_eqI)
    fix n :: nat
    assume "n < LENGTH(32)"
    show "bit (push_bit l x AND drop_bit (32 - l) y) n = bit (0 :: mpdigit) n"
    proof (cases "l \<le> n")
      case True
      then have "\<not> bit y (32 - l + n)" using bit_imp_le_length [of y "32 - l + n"] assms by auto
      then show ?thesis by (simp only: bit_and_iff bit_drop_bit_eq comp_apply bit_0_eq bot_apply simp_thms) simp
    next
      case False
      then show ?thesis by (simp add: bit_and_iff bit_push_bit_iff)
    qed
  qed
  then have o: "push_bit l x OR drop_bit (32 - l) y = push_bit l x + drop_bit (32 - l) y"
    by (simp add: disjunctive_add_eq_or)
  have "unat (push_bit l x) + unat y div 2 ^ (32 - l) < Base"
  proof -
    have b: "Base = 2 ^ l * 2 ^ (32 - l)" using assms by (simp add: Base_def flip: power_add)
    have d: "2 ^ l dvd Base" unfolding b by simp
    have "unat (push_bit l x) = 2 ^ l * (unat x mod 2 ^ (32 - l))"
      unfolding unat_push_digit b by (simp add: mult.commute [of "unat x"] mod_mult_mult1)
    also have "\<dots> \<le> 2 ^ l * (2 ^ (32 - l) - 1)" by (intro mult_le_mono) (simp_all add: less_imp_le_nat Suc_le_eq flip: less_Suc_eq_le)
    also have "\<dots> = Base - 2 ^ l" unfolding b by (simp add: diff_mult_distrib2)
    finally have "unat (push_bit l x) \<le> Base - 2 ^ l" .
    moreover have "unat y div 2 ^ (32 - l) < 2 ^ l"
      using unat_less_Base [of y] unfolding b by (simp add: less_mult_imp_div_less mult.commute)
    moreover have "2 ^ l \<le> Base" using d by (simp add: dvd_imp_le)
    ultimately show ?thesis by linarith
  qed
  then show ?thesis using unat_add_small [of "push_bit l x" "drop_bit (32 - l) y"] unfolding o unat_drop_digit by simp
qed

lemma left_loop_spec:
  assumes "l < 32" "i + d + 1 \<le> length q" "\<forall>j < i. rdat (if same then q else bp) j = Ok (A ! j)" "i \<le> length A"
  shows "\<exists>z q'. left_loop same bp d l i lst q = Ok (z, q') \<and> length q' = length q
    \<and> drop (i + d + 1) q' = drop (i + d + 1) q
    \<and> Base ^ i * unat (push_bit l lst) + 2 ^ l * val (take i A)
      = unat (push_bit l z) + Base * val (take i (drop (d + 1) q'))"
  using assms
proof (induction i arbitrary: lst q)
  case (Suc i)
  define w where "w = push_bit l lst OR drop_bit (32 - l) (A ! i)"
  have w: "unat w = unat (push_bit l lst) + unat (A ! i) div 2 ^ (32 - l)"
    unfolding w_def using Suc.prems(1) by (rule digit_join)
  let ?q = "q[i + d + 1 := w]"
  have l: "i + d + 1 < length q" using Suc.prems(2) by simp
  have "\<forall>j < i. rdat (if same then ?q else bp) j = Ok (A ! j)" using Suc.prems(3) by (cases same) auto
  then obtain z q' where q': "left_loop same bp d l i (A ! i) ?q = Ok (z, q')" "length q' = length q"
    "drop (i + d + 1) q' = drop (i + d + 1) ?q"
    "Base ^ i * unat (push_bit l (A ! i)) + 2 ^ l * val (take i A)
      = unat (push_bit l z) + Base * val (take i (drop (d + 1) q'))"
    using Suc.IH [OF Suc.prems(1), of ?q "A ! i"] Suc.prems(2,4) by auto
  have at: "q' ! (i + d + 1) = w" using q'(2,3) l
    by (metis (no_types, lifting) hd_drop_conv_nth length_list_update nth_list_update_eq)
  have dr: "drop (Suc i + d + 1) q' = drop (Suc i + d + 1) q"
  proof -
    have "drop 1 (drop (i + d + 1) q') = drop 1 (drop (i + d + 1) ?q)" using q'(3) by simp
    then show ?thesis by simp
  qed
  have "val (take (Suc i) (drop (d + 1) q')) = val (take i (drop (d + 1) q')) + Base ^ i * unat w"
    using val_take_Suc [of i "drop (d + 1) q'"] at l q'(2) by (simp add: add.commute add.left_commute)
  moreover have "val (take (Suc i) A) = val (take i A) + Base ^ i * unat (A ! i)"
    using Suc.prems(4) by (simp add: val_take_Suc)
  moreover have "2 ^ l * unat (A ! i) = unat (push_bit l (A ! i)) + Base * (unat (A ! i) div 2 ^ (32 - l))"
    using digit_shift [of l "A ! i"] Suc.prems(1) by (simp add: mult.commute)
  ultimately have "Base ^ Suc i * unat (push_bit l lst) + 2 ^ l * val (take (Suc i) A)
      = unat (push_bit l z) + Base * val (take (Suc i) (drop (d + 1) q'))"
    using q'(4) w by (simp add: algebra_simps)
  moreover have "left_loop same bp d l (Suc i) lst q = Ok (z, q')"
    using Suc.prems(3) l q'(1) by (simp add: w_def wrat_def)
  ultimately show ?case using q'(2) dr by (intro exI [of _ z] exI [of _ q']) simp
qed simp

lemma Base_power: "Base ^ d = 2 ^ (d * 32)"
  by (simp only: Base_def power_mult [symmetric] mult.commute)

lemma left_move_spec:
  assumes "i + d \<le> length q" "\<forall>j < i. rdat (if same then q else bp) j = Ok (A ! j)" "i \<le> length A"
  shows "\<exists>q'. left_move same bp d i q = Ok q' \<and> length q' = length q
    \<and> drop (i + d) q' = drop (i + d) q \<and> take i (drop d q') = take i A"
  using assms
proof (induction i arbitrary: q)
  case (Suc i)
  let ?q = "q[i + d := A ! i]"
  have l: "i + d < length q" using Suc.prems(1) by simp
  have "\<forall>j < i. rdat (if same then ?q else bp) j = Ok (A ! j)" using Suc.prems(2) by (cases same) auto
  then obtain q' where q': "left_move same bp d i ?q = Ok q'" "length q' = length q"
    "drop (i + d) q' = drop (i + d) ?q" "take i (drop d q') = take i A"
    using Suc.IH [of ?q] Suc.prems(1,3) by auto
  have at: "q' ! (i + d) = A ! i" using q'(2,3) l
    by (metis (no_types, lifting) hd_drop_conv_nth length_list_update nth_list_update_eq)
  have "drop 1 (drop (i + d) q') = drop 1 (drop (i + d) ?q)" using q'(3) by simp
  then have "drop (Suc i + d) q' = drop (Suc i + d) q" by simp
  moreover have "take (Suc i) (drop d q') = take (Suc i) A"
    using q'(2,4) at l Suc.prems(3) by (simp add: take_Suc_conv_app_nth add.commute)
  moreover have "left_move same bp d (Suc i) q = Ok q'"
    using Suc.prems(2) l q'(1) by (simp add: wrat_def)
  ultimately show ?case using q'(2) by (intro exI [of _ q']) simp
qed simp

lemma shift_left_spec:
  assumes b: "normal (cell s b)" "0 < top (cell s b)" and r: "room (cell s r)"
  obtains x where "shift_left s b k r = Ok (upd s r x)" "normal x" "mag x = mag (cell s b) * 2 ^ k"
    "sign x = sign (cell s r)" "static x = static (cell s r)"
    "length (digs (cell s r)) \<le> length (digs x)"
proof -
  define d l n where "d = k div 32" and "l = k - d * 32" and "n = top (cell s b)"
  define m where "m = int n * 32 + int k"
  have l: "k = d * 32 + l" "l < 32" by (simp_all add: d_def l_def minus_div_mult_eq_mod)
  define rt where "rt = DIGITS m"
  have rt: "rt = n + d + (if l = 0 then 0 else 1)"
  proof -
    have "(31 + (int n * 32 + int (d * 32 + l))) div 32 = int n + int d + (31 + int l) div 32" by simp
    moreover have "(31 + int l) div 32 = (if l = 0 then 0 else 1)" using l(2) by auto
    ultimately have "(31 + m) div 32 = int n + int d + (if l = 0 then 0 else 1)" unfolding m_def l(1) by (simp only:)
    then show ?thesis by (simp add: rt_def DIGITS_def nat_add_distrib)
  qed
  define s' where "s' = upd s r (mpbits (cell s r) m)"
  have s': "s' = upd s r ((mpbits (cell s r) m)\<lparr>top := max (top (cell s r)) (DIGITS m)\<rparr>)"
    unfolding s'_def using mpbits_top [OF r, of m] by simp
  note o1 = operand_after [OF r room_normal [OF b(1)], where m = m and k = "max (top (cell s r)) (DIGITS m)", folded s' n_def]
  define q bp A where "q = digs (cell s' r)" and "bp = digs (cell s' b)" and "A = take n (digs (cell s b))"
  have A: "length A = n" "val A = mag (cell s b)" using roomD(1) [OF room_normal [OF b(1)]] by (simp_all add: A_def n_def mag_def)
  have lq: "rt \<le> length q" using r by (simp add: q_def s'_def rt_def)
  have rd: "\<forall>j < n. rdat (if r = b then q else bp) j = Ok (A ! j)"
  proof (intro allI impI)
    fix j
    assume j: "j < n"
    have e: "(if r = b then q else bp) = bp" by (auto simp: q_def bp_def)
    have "bp ! j = take n bp ! j" using j by simp
    also have "\<dots> = A ! j" using o1(1) by (simp add: bp_def A_def)
    finally show "rdat (if r = b then q else bp) j = Ok (A ! j)" using o1(2) j unfolding e by (simp add: rdat_def bp_def)
  qed
  have z0: "unat (push_bit l (0 :: mpdigit)) = 0" by simp
  obtain q' where q': "(if l = 0 then left_move (r = b) bp d n q
       else obind (left_loop (r = b) bp d l n 0 q) (\<lambda>(lst, q). wrat q d (push_bit l lst))) = Ok q'" "length q' = length q"
    "val (take (rt - d) (drop d q')) = val A * 2 ^ l"
  proof (cases "l = 0")
    case True
    obtain q' where "left_move (r = b) bp d n q = Ok q'" "length q' = length q" "take n (drop d q') = take n A"
      using left_move_spec [of n d q "r = b" bp A] lq rd rt True A(1) by auto
    then show ?thesis using True rt A(1) by (intro that [of q']) simp_all
  next
    case False
    obtain z q' where z: "left_loop (r = b) bp d l n 0 q = Ok (z, q')" "length q' = length q"
      "2 ^ l * val (take n A) = unat (push_bit l z) + Base * val (take n (drop (d + 1) q'))"
      using left_loop_spec [of l n d q "r = b" bp A 0] l(2) lq rd rt False A(1) z0 by auto
    have dl: "d < length q'" using lq rt False z(2) by simp
    have "drop d (q'[d := push_bit l z]) = push_bit l z # drop (d + 1) q'"
      using dl Cons_nth_drop_Suc [of d "q'[d := push_bit l z]"] by simp
    then have "val (take (rt - d) (drop d (q'[d := push_bit l z]))) = val A * 2 ^ l"
      using z(3) rt False A(1) by (simp add: mult.commute)
    then show ?thesis using False z dl by (intro that [of "q'[d := push_bit l z]"]) (simp_all add: wrat_def)
  qed
  define q2 where "q2 = replicate d 0 @ drop d q'"
  have d2: "d \<le> rt" "d \<le> length q'" using rt lq q'(2) by simp_all
  have q2: "put 0 (replicate d 0) q' = Ok q2" "length q2 = length q" using d2 q'(2) by (simp_all add: put_def q2_def)
  have v2: "val (take rt q2) = mag (cell s b) * 2 ^ k"
  proof -
    have "val (take rt q2) = Base ^ d * (val A * 2 ^ l)" using q'(3) d2 by (simp add: q2_def)
    also have "\<dots> = mag (cell s b) * 2 ^ k"
      unfolding l(1) A(2) power_add Base_power by (simp only: mult.commute mult.left_commute)
    finally show ?thesis .
  qed
  obtain t where t: "norm_top q2 rt = Ok t" "t \<le> rt" "0 < t \<longrightarrow> q2 ! (t - 1) \<noteq> 0" "val (take t q2) = val (take rt q2)"
    using norm_top_spec [of rt q2] lq q2(2) by auto
  define x where "x = (cell s' r)\<lparr>digs := q2, top := t\<rparr>"
  have nq: "q2 \<noteq> []" using lq q2(2) rt b(2) by (auto simp: n_def)
  have "shift_left s b k r = Ok (upd s' r x)"
    unfolding shift_left_def Let_def n_def [symmetric] m_def [symmetric] rt_def [symmetric] d_def [symmetric] l_def [symmetric]
      s'_def [symmetric] q_def [symmetric] bp_def [symmetric] q'(1) obind.simps q2(1) t(1) x_def [symmetric] by (rule refl)
  moreover have "upd s' r x = upd s r x" by (simp add: s'_def)
  moreover have "length (digs (cell s r)) \<le> length q" using r by (simp add: q_def s'_def)
  ultimately show ?thesis using t v2 lq q2(2) nq r
    by (intro that [of x]) (simp_all add: x_def normal_def room_def mag_def s'_def)
qed

lemma right_loop_spec:
  assumes "r < 32" "0 < r" "i + k \<le> length q"
    "\<forall>j. i + d < j \<and> j \<le> i + d + k \<longrightarrow> rdat (if same then q else bp) j = Ok (A ! j)" "i + d + k < length A"
    "lst = A ! (i + d)"
  shows "\<exists>z q'. right_loop same bp d r i k lst q = Ok (z, q') \<and> length q' = length q
    \<and> take i q' = take i q \<and> z = A ! (i + d + k)
    \<and> val (take k (drop i q')) + Base ^ k * (unat z div 2 ^ r)
      = unat lst div 2 ^ r + 2 ^ (32 - r) * val (take k (drop (i + d + 1) A))"
  using assms
proof (induction k arbitrary: i lst q)
  case (Suc k)
  define u where "u = A ! (i + d + 1)"
  define w where "w = push_bit (32 - r) u OR drop_bit r lst"
  have w: "unat w = unat (push_bit (32 - r) u) + unat lst div 2 ^ r"
    using digit_join [of "32 - r" u lst] Suc.prems(1,2) by (simp add: w_def)
  let ?q = "q[i := w]"
  have l: "i < length q" using Suc.prems(3) by simp
  have "\<forall>j. i + 1 + d < j \<and> j \<le> i + 1 + d + k \<longrightarrow> rdat (if same then ?q else bp) j = Ok (A ! j)"
    using Suc.prems(4) by (cases same) auto
  then obtain z q' where q': "right_loop same bp d r (i + 1) k u ?q = Ok (z, q')" "length q' = length q"
    "take (i + 1) q' = take (i + 1) ?q" "z = A ! (i + 1 + d + k)"
    "val (take k (drop (i + 1) q')) + Base ^ k * (unat z div 2 ^ r)
      = unat u div 2 ^ r + 2 ^ (32 - r) * val (take k (drop (i + 1 + d + 1) A))"
    using Suc.IH [OF Suc.prems(1,2), of "i + 1" ?q u] Suc.prems(3,5) by (auto simp: u_def)
  have at: "q' ! i = w" using q'(2,3) l by (metis add_gr_0 length_list_update less_add_same_cancel1 nth_list_update_eq nth_take zero_less_one)
  have tk: "take i q' = take i q" using arg_cong [OF q'(3), of "take i"] by simp
  have "drop i q' = w # drop (i + 1) q'" using Cons_nth_drop_Suc [of i q'] at l q'(2) by simp
  then have v: "val (take (Suc k) (drop i q')) = unat w + Base * val (take k (drop (i + 1) q'))" by simp
  have "drop (i + d + 1) A = u # drop (i + 1 + d + 1) A"
    using Cons_nth_drop_Suc [of "i + d + 1" A] Suc.prems(5) by (simp add: u_def)
  then have a: "val (take (Suc k) (drop (i + d + 1) A)) = unat u + Base * val (take k (drop (i + 1 + d + 1) A))" by simp
  have u: "2 ^ (32 - r) * unat u = unat (push_bit (32 - r) u) + Base * (unat u div 2 ^ r)"
    using digit_shift [of "32 - r" u] Suc.prems(1,2) by (simp add: mult.commute)
  have "val (take (Suc k) (drop i q')) + Base ^ Suc k * (unat z div 2 ^ r)
      = unat w + Base * (val (take k (drop (i + 1) q')) + Base ^ k * (unat z div 2 ^ r))"
    unfolding v by (simp add: algebra_simps)
  also have "\<dots> = unat lst div 2 ^ r + (unat (push_bit (32 - r) u) + Base * (unat u div 2 ^ r))
      + 2 ^ (32 - r) * (Base * val (take k (drop (i + 1 + d + 1) A)))"
    unfolding q'(5) w by (simp add: algebra_simps)
  also have "\<dots> = unat lst div 2 ^ r + 2 ^ (32 - r) * val (take (Suc k) (drop (i + d + 1) A))"
    unfolding u [symmetric] a by (simp add: algebra_simps)
  finally have e: "val (take (Suc k) (drop i q')) + Base ^ Suc k * (unat z div 2 ^ r)
    = unat lst div 2 ^ r + 2 ^ (32 - r) * val (take (Suc k) (drop (i + d + 1) A))" .
  have "rdat (if same then q else bp) (i + d + 1) = Ok u" using Suc.prems(4) by (simp add: u_def)
  then have "right_loop same bp d r i (Suc k) lst q = Ok (z, q')"
    using l q'(1) by (simp add: w_def wrat_def)
  then show ?case using q'(2,4) tk e by (intro exI [of _ z] exI [of _ q']) simp
qed simp

lemma right_move_spec:
  assumes "i + k \<le> length q" "\<forall>j. i + d \<le> j \<and> j < i + d + k \<longrightarrow> rdat (if same then q else bp) j = Ok (A ! j)"
    "i + d + k \<le> length A"
  shows "\<exists>q'. right_move same bp d i k q = Ok q' \<and> length q' = length q
    \<and> take i q' = take i q \<and> take k (drop i q') = take k (drop (i + d) A)"
  using assms
proof (induction k arbitrary: i q)
  case (Suc k)
  let ?u = "A ! (i + d)"
  let ?q = "q[i := ?u]"
  have l: "i < length q" using Suc.prems(1) by simp
  have "\<forall>j. i + 1 + d \<le> j \<and> j < i + 1 + d + k \<longrightarrow> rdat (if same then ?q else bp) j = Ok (A ! j)"
    using Suc.prems(2) by (cases same) auto
  then obtain q' where q': "right_move same bp d (i + 1) k ?q = Ok q'" "length q' = length q"
    "take (i + 1) q' = take (i + 1) ?q" "take k (drop (i + 1) q') = take k (drop (i + 1 + d) A)"
    using Suc.IH [of "i + 1" ?q] Suc.prems(1,3) by auto
  have at: "q' ! i = ?u" using q'(2,3) l by (metis add_gr_0 length_list_update less_add_same_cancel1 nth_list_update_eq nth_take zero_less_one)
  have tk: "take i q' = take i q" using arg_cong [OF q'(3), of "take i"] by simp
  have "drop i q' = ?u # drop (i + 1) q'" using Cons_nth_drop_Suc [of i q'] at l q'(2) by simp
  moreover have "drop (i + d) A = ?u # drop (i + 1 + d) A"
    using Cons_nth_drop_Suc [of "i + d" A] Suc.prems(3) by simp
  ultimately have "take (Suc k) (drop i q') = take (Suc k) (drop (i + d) A)" using q'(4) by simp
  moreover have "rdat (if same then q else bp) (i + d) = Ok ?u" using Suc.prems(2) by simp
  then have "right_move same bp d i (Suc k) q = Ok q'" using l q'(1) by (simp add: wrat_def)
  ultimately show ?case using q'(2) tk by (intro exI [of _ q']) simp
qed simp

text \<open>Shifting every digit out leaves the sign that was there.\<close>

lemma shift_right_spec:
  assumes b: "room (cell s b)" "0 < top (cell s b)" and r: "room (cell s r)"
  obtains x where "shift_right s b k r = Ok (upd s r x)" "normal x" "mag x = mag (cell s b) div 2 ^ k"
    "sign x = (if top x = 0 \<and> k div 32 < top (cell s b) then 1 else sign (cell s r))" "static x = static (cell s r)"
    "k div 32 < top (cell s b) \<Longrightarrow> clean x"
proof -
  define d l n where "d = k div 32" and "l = k - d * 32" and "n = top (cell s b)"
  define m where "m = int n * 32 - int k"
  have l: "k = d * 32 + l" "l < 32" by (simp_all add: d_def l_def minus_div_mult_eq_mod)
  define s' where "s' = (if r \<noteq> b then upd s r (mpbits (cell s r) m) else s)"
  have cb: "cell s' b = cell s b" by (simp add: s'_def)
  have rr: "room (cell s' r)" "sign (cell s' r) = sign (cell s r)" "static (cell s' r) = static (cell s r)"
    using r by (auto simp: s'_def)
  have us: "upd s' r x = upd s r x" for x by (simp add: s'_def)
  define q bp A where "q = digs (cell s' r)" and "bp = digs (cell s' b)" and "A = take n (digs (cell s b))"
  have A: "length A = n" "val A = mag (cell s b)" using roomD(1) [OF b(1)] by (simp_all add: A_def n_def mag_def)
  have div: "mag (cell s b) div 2 ^ k = val (drop d A) div 2 ^ l" if "d < n"
  proof -
    have "mag (cell s b) = val (take d A) + Base ^ d * val (drop d A)" using val_split [of d A] that A by simp
    moreover have "val (take d A) < Base ^ d" using that A by (intro val_take_less) simp
    ultimately have "mag (cell s b) div Base ^ d = val (drop d A)" by simp
    then show ?thesis unfolding l(1) power_add div_mult2_eq Base_power by simp
  qed
  show ?thesis
  proof (cases "n \<le> d")
    case True
    have "mag (cell s b) < Base ^ n" using b(1) by (simp add: n_def mag_less)
    also have "\<dots> \<le> 2 ^ k" unfolding Base_power l(1) using True by (intro power_increasing) simp_all
    finally have "mag (cell s b) div 2 ^ k = 0" by simp
    moreover have "shift_right s b k r = Ok (upd s' r ((cell s' r)\<lparr>top := 0\<rparr>))"
      unfolding shift_right_def Let_def n_def [symmetric] m_def [symmetric] s'_def [symmetric] cb d_def [symmetric]
      using True by simp
    ultimately show ?thesis using True rr unfolding us
      by (intro that [of "(cell s' r)\<lparr>top := 0\<rparr>"]) (simp_all add: normal_def room_def n_def [symmetric] d_def [symmetric])
  next
    case False
    have lq: "n - d \<le> length q"
    proof (cases "r = b")
      case True
      then show ?thesis using A b(1) roomD(1) [OF b(1)] by (simp add: q_def s'_def n_def)
    next
      case 2: False
      have "31 + m = (31 - int l) + 32 * (int n - int d)" unfolding m_def l(1) by simp
      then have "(31 + m) div 32 = (31 - int l) div 32 + (int n - int d)" by simp
      moreover have "(31 - int l) div 32 = 0" using l(2) by simp
      ultimately have "DIGITS m = n - d" using False by (simp add: DIGITS_def nat_diff_distrib')
      then show ?thesis using 2 r by (simp add: q_def s'_def)
    qed
    have rd: "rdat (if r = b then q else bp) j = Ok (A ! j)" if "j < n" for j
    proof -
      have "(if r = b then q else bp) = digs (cell s b)" using cb by (auto simp: q_def bp_def)
      then show ?thesis using that roomD(1) [OF b(1)] by (simp add: rdat_def A_def n_def)
    qed
    have bd: "rdat bp d = Ok (A ! d)" using rd [of d] False cb by (auto simp: q_def bp_def split: if_splits)
    obtain q' where q': "(if l = 0 then right_move (r = b) bp d 0 (n - d) q
       else obind (rdat bp d) (\<lambda>lst.
         obind (right_loop (r = b) bp d l 0 (n - d - 1) lst q) (\<lambda>(lst, q).
           wrat q (n - d - 1) (drop_bit l lst)))) = Ok q'" "length q' = length q"
      "val (take (n - d) q') = val (drop d A) div 2 ^ l"
    proof (cases "l = 0")
      case True
      obtain q' where "right_move (r = b) bp d 0 (n - d) q = Ok q'" "length q' = length q"
        "take (n - d) (drop 0 q') = take (n - d) (drop (0 + d) A)"
        using right_move_spec [of 0 "n - d" q d "r = b" bp A] lq rd False A(1) by auto
      then show ?thesis using True A(1) by (intro that [of q']) simp_all
    next
      case 2: False
      define K where "K = n - d - 1"
      have K: "n - d = Suc K" "d + K < n" using False by (simp_all add: K_def)
      obtain z q' where z: "right_loop (r = b) bp d l 0 K (A ! d) q = Ok (z, q')" "length q' = length q"
        "val (take K (drop 0 q')) + Base ^ K * (unat z div 2 ^ l)
          = unat (A ! d) div 2 ^ l + 2 ^ (32 - l) * val (take K (drop (0 + d + 1) A))"
        using right_loop_spec [of l 0 K q d "r = b" bp A "A ! d"] l(2) 2 lq K rd A(1) by auto
      have kl: "K < length q'" using lq K z(2) by simp
      have "val (take (Suc K) (q'[K := drop_bit l z])) = val (take K q') + Base ^ K * (unat z div 2 ^ l)"
        using kl by (simp add: val_take_Suc unat_drop_digit)
      also have "\<dots> = unat (A ! d) div 2 ^ l + 2 ^ (32 - l) * val (drop (d + 1) A)"
      proof -
        have "length (drop (d + 1) A) = K" using A(1) by (simp add: K_def)
        then have "take K (drop (0 + d + 1) A) = drop (d + 1) A" by simp
        then show ?thesis using z(3) by simp
      qed
      also have "\<dots> = (unat (A ! d) + Base * val (drop (d + 1) A)) div 2 ^ l"
      proof -
        have "Base = 2 ^ l * 2 ^ (32 - l)" using l(2) by (simp add: Base_def flip: power_add)
        then have "unat (A ! d) + Base * val (drop (d + 1) A) = unat (A ! d) + 2 ^ l * (2 ^ (32 - l) * val (drop (d + 1) A))"
          by simp
        then show ?thesis by (simp only: div_mult_self2 power_not_zero) simp
      qed
      also have "\<dots> = val (drop d A) div 2 ^ l"
        using Cons_nth_drop_Suc [of d A] False A(1) by (metis Suc_eq_plus1 leI val.simps(2))
      finally have v: "val (take (n - d) (q'[K := drop_bit l z])) = val (drop d A) div 2 ^ l" unfolding K(1) .
      have "obind (right_loop (r = b) bp d l 0 K (A ! d) q) (\<lambda>(lst, q). wrat q K (drop_bit l lst))
        = Ok (q'[K := drop_bit l z])" using z(1) kl by (simp add: wrat_def)
      then have "(if l = 0 then right_move (r = b) bp d 0 (n - d) q
         else obind (rdat bp d) (\<lambda>lst.
           obind (right_loop (r = b) bp d l 0 (n - d - 1) lst q) (\<lambda>(lst, q).
             wrat q (n - d - 1) (drop_bit l lst)))) = Ok (q'[K := drop_bit l z])"
        unfolding if_not_P [OF 2] bd obind.simps K_def [symmetric] .
      then show ?thesis by (rule that) (simp add: z(2), rule v)
    qed
    obtain t where t: "norm_top q' (n - d) = Ok t" "t \<le> n - d" "0 < t \<longrightarrow> q' ! (t - 1) \<noteq> 0" "val (take t q') = val (take (n - d) q')"
      using norm_top_spec [of "n - d" q'] lq q'(2) by auto
    define y where "y = (cell s' r)\<lparr>digs := q', top := t\<rparr>"
    define x where "x = (if t = 0 then y\<lparr>sign := 1\<rparr> else y)"
    have nq: "q' \<noteq> []" using lq q'(2) False by auto
    have "shift_right s b k r = Ok (upd s' r x)"
      unfolding shift_right_def Let_def n_def [symmetric] m_def [symmetric] s'_def [symmetric] cb d_def [symmetric] l_def [symmetric]
        q_def [symmetric] bp_def [unfolded cb, symmetric] if_not_P [OF False]
      unfolding q'(1) obind.simps t(1) y_def [symmetric] x_def [symmetric]
      by (rule refl)
    moreover have "clean x" unfolding clean_def
    proof
      assume "top x = 0"
      then have "t = 0" by (simp add: x_def y_def split: if_splits)
      then have "val (take (n - d) q') = 0" using t(4) by simp
      moreover have "take (n - d) q' = q' ! 0 # drop 1 (take (n - d) q')"
        using nq False by (cases q'; cases "n - d") simp_all
      ultimately have "q' ! 0 = 0" by (metis add_is_0 unat_eq_zero val.simps(2))
      then show "digs x ! 0 = 0" by (simp add: x_def y_def)
    qed
    moreover have "normal x" "mag x = mag (cell s b) div 2 ^ k"
      using t lq q'(2,3) nq div False by (auto simp: x_def y_def normal_def room_def mag_def)
    ultimately show ?thesis using rr False unfolding us
      by (intro that [of x]) (simp_all add: x_def y_def d_def [symmetric] n_def [symmetric])
  qed
qed

lemma with_sign:
  assumes "isnum (cell s b) z" "room (cell s r)"
  defines "s1 \<equiv> upd s r ((cell s r)\<lparr>sign := sign (cell s b)\<rparr>)"
  shows "normal (cell s1 b)" "room (cell s1 r)" "top (cell s1 b) = top (cell s b)" "mag (cell s1 b) = mag (cell s b)"
    "sign (cell s1 r) = sign (cell s b)" "static (cell s1 r) = static (cell s r)"
  using assms(2) isnumD(1) [OF assms(1)] by (auto simp: s1_def)

lemma zero_result:
  "room y \<Longrightarrow> sign y = 1 \<Longrightarrow> isnum (y\<lparr>top := 0\<rparr>) 0"
  by (simp add: isnum_def normal_def room_def)

lemma mpleft_spec:
  assumes b: "isnum (cell s b) z" and r: "room (cell s r)" and k: "0 \<le> k"
  obtains x where "mpleft s b k r = Ok (upd s r x)" "isnum x (z * 2 ^ nat k)" "static x = static (cell s r)"
    "length (digs (cell s r)) \<le> length (digs x)"
proof -
  define s1 where "s1 = upd s r ((cell s r)\<lparr>sign := sign (cell s b)\<rparr>)"
  note w = with_sign [OF b r, folded s1_def]
  have us: "upd s1 r x = upd s r x" for x by (simp add: s1_def)
  show ?thesis
  proof (cases "top (cell s b) = 0")
    case True
    then have "mpleft s b k r = Ok (upd s r ((cell s1 r)\<lparr>top := 0\<rparr>))"
      using w(3) by (simp add: mpleft_def Let_def s1_def [symmetric] us)
    moreover have "z = 0" using True isnum_zero [OF b] by simp
    moreover have "sign (cell s b) = 1" using isnumD(4) [OF b True] .
    moreover have "digs (cell s1 r) = digs (cell s r)" by (simp add: s1_def)
    ultimately show ?thesis using w(2,5,6) zero_result [of "cell s1 r"]
      by (intro that [of "(cell s1 r)\<lparr>top := 0\<rparr>"]) simp_all
  next
    case False
    obtain x where x: "shift_left s1 b (nat k) r = Ok (upd s1 r x)" "normal x" "mag x = mag (cell s1 b) * 2 ^ nat k"
      "sign x = sign (cell s1 r)" "static x = static (cell s1 r)" "length (digs (cell s1 r)) \<le> length (digs x)"
      by (rule shift_left_spec [OF w(1) _ w(2)]) (use False w(3) in simp_all)
    have "mpleft s b k r = Ok (upd s r x)"
      using False k w(3) x(1) by (simp add: mpleft_def Let_def s1_def [symmetric] us)
    moreover have "isnum x (z * 2 ^ nat k)"
      using x w isnum_mag [OF b] isnum_sign [OF b] by (intro isnumI) (simp_all add: mult_less_0_iff abs_mult)
    moreover have "digs (cell s1 r) = digs (cell s r)" by (simp add: s1_def)
    ultimately show ?thesis using x(5,6) w(6) by (intro that [of x]) simp_all
  qed
qed

text \<open>\<open>mpright\<close> rounds towards 0.\<close>

definition shr :: "int \<Rightarrow> nat \<Rightarrow> int" where
  "shr z k = (if z < 0 then - (- z div 2 ^ k) else z div 2 ^ k)"

lemma shr_abs: "\<bar>shr z k\<bar> = \<bar>z\<bar> div 2 ^ k"
  by (auto simp: shr_def pos_imp_zdiv_nonneg_iff)

lemma shr_sign: "shr z k < 0 \<longleftrightarrow> z < 0 \<and> \<bar>z\<bar> div 2 ^ k \<noteq> 0"
proof -
  have "0 \<le> \<bar>z\<bar> div 2 ^ k" by (simp add: pos_imp_zdiv_nonneg_iff)
  then show ?thesis by (cases "z < 0") (simp_all add: shr_def, linarith)
qed

lemma mpright_nonzero:
  assumes b: "isnum (cell s b) z" and r: "room (cell s r)" and k: "0 \<le> k" and z: "z \<noteq> 0"
  obtains x where "mpright s b k r = Ok (upd s r x)" "normal x" "int (mag x) = \<bar>z\<bar> div 2 ^ nat k"
    "sign x = (if top x = 0 \<and> nat k div 32 < top (cell s b) then 1 else sign (cell s b))" "static x = static (cell s r)"
    "nat k div 32 < top (cell s b) \<Longrightarrow> clean x"
proof -
  define s1 where "s1 = upd s r ((cell s r)\<lparr>sign := sign (cell s b)\<rparr>)"
  note w = with_sign [OF b r, folded s1_def]
  have us: "upd s1 r x = upd s r x" for x by (simp add: s1_def)
  have t: "0 < top (cell s1 b)" "top (cell s b) \<noteq> 0" using z isnum_zero [OF b] w(3) by simp_all
  obtain x where x: "shift_right s1 b (nat k) r = Ok (upd s1 r x)" "normal x" "mag x = mag (cell s1 b) div 2 ^ nat k"
    "sign x = (if top x = 0 \<and> nat k div 32 < top (cell s1 b) then 1 else sign (cell s1 r))" "static x = static (cell s1 r)"
    "nat k div 32 < top (cell s1 b) \<Longrightarrow> clean x"
    using shift_right_spec [OF room_normal [OF w(1)] t(1) w(2)] by blast
  have "mpright s b k r = Ok (upd s r x)"
    using t k w(3) x(1) by (simp add: mpright_def Let_def s1_def [symmetric] us)
  then show ?thesis using x(2-) w isnum_mag [OF b] by (intro that [of x]) (simp_all add: of_nat_div)
qed

lemma mpright_spec:
  assumes b: "isnum (cell s b) z" and r: "room (cell s r)" and k: "0 \<le> k" "0 \<le> z \<or> nat k div 32 < top (cell s b)"
  obtains x where "mpright s b k r = Ok (upd s r x)" "isnum x (shr z (nat k))" "static x = static (cell s r)"
    "r = b \<Longrightarrow> clean (cell s r) \<Longrightarrow> nat k < 32 \<Longrightarrow> clean x"
proof (cases "z = 0")
  case True
  define s1 where "s1 = upd s r ((cell s r)\<lparr>sign := sign (cell s b)\<rparr>)"
  note w = with_sign [OF b r, folded s1_def]
  have us: "upd s1 r x = upd s r x" for x by (simp add: s1_def)
  have t: "top (cell s b) = 0" using True isnum_zero [OF b] by simp
  then have "mpright s b k r = Ok (upd s r ((cell s1 r)\<lparr>top := 0\<rparr>))"
    using w(3) by (simp add: mpright_def Let_def s1_def [symmetric] us)
  moreover have "sign (cell s b) = 1" using isnumD(4) [OF b t] .
  moreover have "clean ((cell s1 r)\<lparr>top := 0\<rparr>)" if "r = b" "clean (cell s r)"
    using that t by (simp add: clean_def s1_def)
  ultimately show ?thesis using w(2,5,6) zero_result [of "cell s1 r"] True
    by (intro that [of "(cell s1 r)\<lparr>top := 0\<rparr>"]) (simp_all add: shr_def)
next
  case False
  obtain x where x: "mpright s b k r = Ok (upd s r x)" "normal x" "int (mag x) = \<bar>z\<bar> div 2 ^ nat k"
    "sign x = (if top x = 0 \<and> nat k div 32 < top (cell s b) then 1 else sign (cell s b))" "static x = static (cell s r)"
    "nat k div 32 < top (cell s b) \<Longrightarrow> clean x"
    using mpright_nonzero [OF b r k(1) False] by blast
  have "isnum x (shr z (nat k))"
  proof (rule isnumI [OF x(2)])
    show "int (mag x) = \<bar>shr z (nat k)\<bar>" by (simp add: shr_abs x(3))
    have "top x = 0 \<longleftrightarrow> \<bar>z\<bar> div 2 ^ nat k = 0" using normal_mag_0 [OF x(2)] x(3) by auto
    then show "sign x = (if shr z (nat k) < 0 then - 1 else 1)"
      unfolding shr_sign x(4) isnum_sign [OF b] using k(2) by auto
  qed
  moreover have "nat k div 32 < top (cell s b)" if "nat k < 32" using that False isnum_zero [OF b] by simp
  ultimately show ?thesis using x by (intro that [of x]) simp_all
qed

section \<open>Multiplication\<close>

text \<open>The store but for the cells \<open>R\<close>; new cells may have been allocated.\<close>

definition same_but :: "nat set \<Rightarrow> mps \<Rightarrow> mps \<Rightarrow> bool" where
  "same_but R s s' \<longleftrightarrow> brk s \<le> brk s' \<and> mpmindigits s' = mpmindigits s
    \<and> (\<forall>q < brk s. q \<notin> R \<longrightarrow> cell s' q = cell s q)"

lemma same_but_upd: "r \<in> R \<Longrightarrow> same_but R s (upd s r x)"
  by (simp add: same_but_def)

lemma same_but_trans: "same_but R s s' \<Longrightarrow> same_but R s' s'' \<Longrightarrow> same_but R s s''"
  unfolding same_but_def by (metis less_le_trans order_trans)

lemma same_but_mono: "same_but R s s' \<Longrightarrow> R \<subseteq> R' \<Longrightarrow> same_but R' s s'"
  unfolding same_but_def by blast

lemma mpmul_into:
  assumes b1: "isnum (cell s b1) z1" and b2: "isnum (cell s b2) z2" and r: "room (cell s r)" "r \<noteq> b1" "r \<noteq> b2"
    and e: "even_halves (max (top (cell s b1)) (top (cell s b2))) (min (top (cell s b1)) (top (cell s b2)))"
  defines "t1 \<equiv> top (cell s b1)" and "t2 \<equiv> top (cell s b2)"
  defines "y \<equiv> mpbits ((cell s r)\<lparr>top := 0\<rparr>) (int (t1 + t2 + 1) * 32)"
  obtains q x where "mpvecmul (digs (cell s b1)) t1 (digs (cell s b2)) t2 (digs y) = Ok q"
    "mpnorm (y\<lparr>digs := q, top := t1 + t2 + 1, sign := sign (cell s b1) * sign (cell s b2)\<rparr>) = Ok x"
    "isnum x (z1 * z2)" "static x = static (cell s r)"
proof -
  define n where "n = t1 + t2 + 1"
  have r0: "room ((cell s r)\<lparr>top := 0\<rparr>)" using r(1) by (simp add: room_def)
  define M where "M = int n * 32"
  have D: "DIGITS M = n" by (simp add: M_def)
  have yM: "y = mpbits ((cell s r)\<lparr>top := 0\<rparr>) M" by (simp only: y_def M_def n_def)
  have y: "n \<le> length (digs y)" "take n (digs y) = replicate n 0" "static y = static (cell s r)"
    using r0 D by (auto simp: yM mpbits_def Let_def)
  have z: "val (take (t1 + t2) (digs y)) = 0"
  proof -
    have "take (t1 + t2) (digs y) = take (t1 + t2) (take n (digs y))" by (simp add: n_def)
    then show ?thesis unfolding y(2) by simp
  qed
  obtain q0 where q0: "mpvecmul (digs (cell s b1)) t1 (digs (cell s b2)) t2 (digs y) = Ok (q0 @ drop (t1 + t2) (digs y))"
    "length q0 = t1 + t2" "val q0 = mag (cell s b1) * mag (cell s b2)"
    by (rule mpvecmul_good [of t1 t2 "digs (cell s b1)" "digs (cell s b2)" "digs y"])
      (use e y(1) z roomD(1) [OF isnumD(2) [OF b1]] roomD(1) [OF isnumD(2) [OF b2]] in \<open>simp_all add: t1_def t2_def n_def mag_def\<close>)
  define q where "q = q0 @ drop (t1 + t2) (digs y)"
  have tk: "take n q = q0 @ [0]"
  proof -
    have "t1 + t2 < length (digs y)" using y(1) by (simp add: n_def)
    then have "take n q = q0 @ [digs y ! (t1 + t2)]" using q0(2) by (simp add: q_def n_def take_Suc_conv_app_nth hd_drop_conv_nth take_Suc)
    moreover have "digs y ! (t1 + t2) = take n (digs y) ! (t1 + t2)" by (simp add: n_def)
    moreover have "replicate n 0 ! (t1 + t2) = (0 :: mpdigit)" by (rule nth_replicate) (simp add: n_def)
    ultimately show ?thesis unfolding y(2) by simp
  qed
  have lq: "n \<le> length q" using q0(2) y(1) by (simp add: q_def n_def)
  define w where "w = y\<lparr>digs := q, top := n, sign := sign (cell s b1) * sign (cell s b2)\<rparr>"
  have w: "room w" "mag w = mag (cell s b1) * mag (cell s b2)"
    using lq tk q0(2,3) by (auto simp: w_def room_def mag_def n_def)
  obtain x where x: "mpnorm w = Ok x" "normal x" "mag x = mag w" "sign x = (if top x = 0 then 1 else sign w)" "static x = static w"
    by (rule mpnorm_spec [OF w(1)])
  have "isnum x (z1 * z2)"
  proof (rule isnumI [OF x(2)])
    show "int (mag x) = \<bar>z1 * z2\<bar>" using x(3) w(2) isnum_mag [OF b1] isnum_mag [OF b2] by (simp add: abs_mult)
    then have "top x = 0 \<longleftrightarrow> z1 * z2 = 0" using normal_mag_0 [OF x(2)] by auto
    then show "sign x = (if z1 * z2 < 0 then - 1 else 1)"
      using isnum_sign [OF b1] isnum_sign [OF b2] x(4) by (auto simp: w_def mult_less_0_iff)
  qed
  then show ?thesis using q0(1) x(1,5) y(3) by (intro that [of q x]) (simp_all add: w_def q_def n_def)
qed

lemma mpmul_spec:
  assumes b1: "isnum (cell s b1) z1" "b1 < brk s" and b2: "isnum (cell s b2) z2" "b2 < brk s"
    and r: "room (cell s r)" "r < brk s" and m: "0 < mpmindigits s"
    and e: "even_halves (max (top (cell s b1)) (top (cell s b2))) (min (top (cell s b1)) (top (cell s b2)))"
  obtains s' where "mpmul s b1 b2 r = Ok s'" "same_but {r} s s'" "isnum (cell s' r) (z1 * z2)"
    "static (cell s' r) = static (cell s r)"
proof (cases "r = b1 \<or> r = b2")
  case False
  define s0 where "s0 = upd s r ((cell s r)\<lparr>top := 0\<rparr>)"
  define t1 t2 where "t1 = top (cell s b1)" and "t2 = top (cell s b2)"
  obtain q x where x: "mpvecmul (digs (cell s b1)) t1 (digs (cell s b2)) t2
      (digs (mpbits ((cell s r)\<lparr>top := 0\<rparr>) (int (t1 + t2 + 1) * 32))) = Ok q"
    "mpnorm ((mpbits ((cell s r)\<lparr>top := 0\<rparr>) (int (t1 + t2 + 1) * 32))
      \<lparr>digs := q, top := t1 + t2 + 1, sign := sign (cell s b1) * sign (cell s b2)\<rparr>) = Ok x"
    "isnum x (z1 * z2)" "static x = static (cell s r)"
    unfolding t1_def t2_def by (rule mpmul_into [OF b1(1) b2(1) r(1) _ _ e]) (use False in auto)
  have "mpmul s b1 b2 r = Ok (upd s r x)"
    using False x(1,2) by (simp add: mpmul_def Let_def t1_def t2_def del: of_nat_add of_nat_Suc)
  then show ?thesis using x(3,4) by (intro that [of "upd s r x"]) (simp_all add: same_but_upd)
next
  case True
  obtain y where y: "mpnew s 0 = Ok (brk s, (upd s (brk s) y)\<lparr>brk := brk s + 1\<rparr>)" "isnum y 0" "\<not> static y"
    using mpnew_spec [OF _ m, of 0] by (metis order_refl)
  define s1 p where "s1 = (upd s (brk s) y)\<lparr>brk := brk s + 1\<rparr>" and "p = brk s"
  have c: "cell s1 q = cell s q" if "q < brk s" for q using that by (simp add: s1_def)
  have cp: "cell s1 p = y" by (simp add: s1_def p_def)
  have c12: "cell s1 b1 = cell s b1" "cell s1 b2 = cell s b2" "cell s1 r = cell s r" using c b1(2) b2(2) r(2) by simp_all
  have pn: "p \<noteq> b1" "p \<noteq> b2" "p \<noteq> r" using b1(2) b2(2) r(2) by (simp_all add: p_def)
  define t1 t2 where "t1 = top (cell s b1)" and "t2 = top (cell s b2)"
  obtain q x where x: "mpvecmul (digs (cell s1 b1)) t1 (digs (cell s1 b2)) t2
      (digs (mpbits ((cell s1 p)\<lparr>top := 0\<rparr>) (int (t1 + t2 + 1) * 32))) = Ok q"
    "mpnorm ((mpbits ((cell s1 p)\<lparr>top := 0\<rparr>) (int (t1 + t2 + 1) * 32))
      \<lparr>digs := q, top := t1 + t2 + 1, sign := sign (cell s1 b1) * sign (cell s1 b2)\<rparr>) = Ok x"
    "isnum x (z1 * z2)" "static x = static (cell s1 p)"
    unfolding t1_def t2_def c12(1,2) [symmetric]
    by (rule mpmul_into [of s1 b1 z1 b2 z2 p]) (use b1(1) b2(1) c12 cp pn e isnumD(2) [OF y(2)] in simp_all)
  obtain w where w: "mpassign x (cell s r) = Ok w" "isnum w (z1 * z2)" "static w = static (cell s r)"
    using mpassign_isnum [OF r(1) x(3)] by metis
  define s2 where "s2 = upd (upd s1 p x) r w"
  have "\<not> static x" using x(4) cp y(3) by simp
  then obtain s' where s': "mpfree s2 p = Ok s'" "s' = upd s2 p (x\<lparr>digs := replicate (length (digs x)) 0\<rparr>)"
    using pn by (simp add: mpfree_def s2_def)
  have y': "mpnew s 0 = Ok (p, s1)" by (simp only: y(1) s1_def p_def)
  have "mpmul s b1 b2 r = mpfree s2 p"
    unfolding mpmul_def if_P [OF True] y' obind.simps prod.case
    using x(1,2) w(1) pn
    by (simp add: Let_def c12 t1_def [symmetric] t2_def [symmetric] s2_def cp del: of_nat_add of_nat_Suc)
  then have "mpmul s b1 b2 r = Ok s'" using s'(1) by simp
  moreover have "same_but {r} s s'" using r(2) by (auto simp: same_but_def s'(2) s2_def s1_def p_def)
  moreover have "cell s' r = w" using pn by (simp add: s'(2) s2_def)
  ultimately show ?thesis using w by (intro that [of s']) simp_all
qed

section \<open>Signed arithmetic is arithmetic\<close>

text \<open>A store with the numbers \<open>- 2 ^ 32\<close>, \<open>2 ^ 32 - 1\<close> and 0 for the examples.\<close>

definition mps_example :: mps where
  "mps_example = \<lparr>cell = (\<lambda>c. if c = 0 then \<lparr>sign = - 1, top = 2, digs = [0, 1], static = False\<rparr>
     else if c = 1 then \<lparr>sign = 1, top = 1, digs = [0xFFFFFFFF], static = False\<rparr>
     else \<lparr>sign = 1, top = 0, digs = [0], static = False\<rparr>), brk = 3, mpmindigits = 1\<rparr>"

lemma mps_example:
  "isnum (cell mps_example 0) (- (2 ^ 32))" "isnum (cell mps_example 1) (2 ^ 32 - 1)" "isnum (cell mps_example 2) 0"
  "room (cell mps_example 2)" "room (cell mps_example 0)" "brk mps_example = 3" "0 < mpmindigits mps_example"
  "\<not> static (cell mps_example 0)" "top (cell mps_example 0) = 2" "top (cell mps_example 1) = 1"
  by (simp_all add: mps_example_def isnum_def normal_def room_def mag_def Base_def)

text \<open>C33: \<open>mpadd\<close> and \<open>mpsub\<close> are addition and subtraction of integers: they change no cell but the
  result, which may be one of the operands, and leave it in normal form.\<close>

theorem mpadd_mpsub_int:
  assumes "isnum (cell s b1) z1" "isnum (cell s b2) z2" "room (cell s r)"
  shows "\<exists>x y. mpadd s b1 b2 r = Ok (upd s r x) \<and> isnum x (z1 + z2) \<and> static x = static (cell s r)
    \<and> mpsub s b1 b2 r = Ok (upd s r y) \<and> isnum y (z1 - z2) \<and> static y = static (cell s r)"
proof -
  obtain x where "mpadd s b1 b2 r = Ok (upd s r x)" "isnum x (z1 + z2)" "static x = static (cell s r)"
    by (rule mpadd_spec [OF assms])
  moreover obtain y where "mpsub s b1 b2 r = Ok (upd s r y)" "isnum y (z1 - z2)" "static y = static (cell s r)"
    by (rule mpsub_spec [OF assms])
  ultimately show ?thesis by blast
qed

theorem mpadd_mpsub_int_witness:
  "\<exists>x y. mpadd mps_example 0 1 0 = Ok (upd mps_example 0 x) \<and> isnum x (- 1)
    \<and> mpsub mps_example 0 1 0 = Ok (upd mps_example 0 y) \<and> isnum y (1 - 2 ^ 33)"
  using mpadd_mpsub_int [OF mps_example(1,2,5)] by auto



text \<open>\<open>mpleft\<close> multiplies by a power of two and \<open>mpright\<close> divides by one, rounding towards zero, as
  long as digits of a negative number remain.\<close>

theorem mpleft_mpright_int:
  assumes "isnum (cell s b) z" "room (cell s r)" "0 \<le> k" "0 \<le> z \<or> nat k div 32 < top (cell s b)"
  shows "\<exists>x y. mpleft s b k r = Ok (upd s r x) \<and> isnum x (z * 2 ^ nat k)
    \<and> mpright s b k r = Ok (upd s r y) \<and> isnum y (sgn z * (\<bar>z\<bar> div 2 ^ nat k))"
proof -
  obtain x where "mpleft s b k r = Ok (upd s r x)" "isnum x (z * 2 ^ nat k)"
    using mpleft_spec [OF assms(1-3)] by blast
  moreover obtain y where "mpright s b k r = Ok (upd s r y)" "isnum y (shr z (nat k))"
    using mpright_spec [OF assms] by blast
  moreover have "shr z (nat k) = sgn z * (\<bar>z\<bar> div 2 ^ nat k)" by (simp add: shr_def sgn_if)
  ultimately show ?thesis by auto
qed

theorem mpleft_mpright_int_witness:
  "\<exists>x y. mpleft mps_example 0 33 0 = Ok (upd mps_example 0 x) \<and> isnum x (- (2 ^ 65))
    \<and> mpright mps_example 0 33 0 = Ok (upd mps_example 0 y) \<and> isnum y 0"
  using mpleft_mpright_int [OF mps_example(1,5), of 33] by (simp add: mps_example)

text \<open>Shifting all the digits out of a negative number leaves the zero with the sign of a negative
  number, which \<open>mpcmp\<close> takes for less than zero.\<close>

theorem mpright_negative_zero:
  assumes "isnum (cell s b) z" "room (cell s r)" "0 \<le> k" "z < 0" "top (cell s b) \<le> nat k div 32"
  shows "\<exists>x. mpright s b k r = Ok (upd s r x) \<and> top x = 0 \<and> sign x = - 1 \<and> mpcmp x mpzero = Ok (- 2)
    \<and> \<not> isnum x 0"
proof -
  obtain x where x: "mpright s b k r = Ok (upd s r x)" "normal x" "int (mag x) = \<bar>z\<bar> div 2 ^ nat k"
    "sign x = (if top x = 0 \<and> nat k div 32 < top (cell s b) then 1 else sign (cell s b))"
    using mpright_nonzero [OF assms(1-3)] assms(4) by (metis less_irrefl)
  have sg: "sign x = - 1" using x(4) assms(4,5) isnum_sign [OF assms(1)] by simp
  have "mag (cell s b) < Base ^ top (cell s b)" using mag_less isnumD(2) [OF assms(1)] by blast
  also have "\<dots> \<le> Base ^ (nat k div 32)" using assms(5) by (intro power_increasing) (simp_all add: Base_def)
  also have "\<dots> = 2 ^ (32 * (nat k div 32))" unfolding power_mult by (simp add: Base_def)
  also have "\<dots> \<le> (2 :: nat) ^ nat k" by (intro power_increasing) simp_all
  finally have "\<bar>z\<bar> < 2 ^ nat k" using isnum_mag [OF assms(1)] by (metis of_nat_less_numeral_power_cancel_iff)
  then have "mag x = 0" using x(3) by simp
  then have "top x = 0" using normal_mag_0 [OF x(2)] by simp
  then show ?thesis using x(1) sg by (intro exI [of _ x]) (simp add: mpcmp_def mpzero_def isnum_def)
qed

theorem mpright_negative_zero_witness:
  "\<exists>x. mpright mps_example 0 64 2 = Ok (upd mps_example 2 x) \<and> top x = 0 \<and> mpcmp x mpzero = Ok (- 2)"
  using mpright_negative_zero [OF mps_example(1,4), of 64] mps_example(9) by auto

end
