(* ===== verification/MpDiv.thy ===== *)
theory MpDiv
  imports MpInt
begin

unbundle bit_operations_syntax

text \<open>
  Division, \<open>libmp/port\<close>: \<open>mpdiv.c\<close> and \<open>mpmod.c\<close>.  \<open>u\<close> and \<open>v\<close> of the source are cells of the
  store; the loop works on the lists of their digits.  \<open>Undef\<close> is also a loop that does not end:
  the search for the highest bit of a divisor whose top digit is 0.  \<open>Fail\<close> is \<open>sysfatal\<close>.
\<close>

section \<open>One digit of the quotient\<close>

text \<open>The shift that sets the highest bit of the top digit of the divisor.\<close>

fun top_shift :: "nat \<Rightarrow> mpdigit \<Rightarrow> nat outcome" where
  "top_shift 0 qd = Undef"
| "top_shift (Suc k) qd =
     (if qd AND push_bit 31 1 = 0 then obind (top_shift k (push_bit 1 qd)) (\<lambda>s. Ok (s + 1)) else Ok 0)"

text \<open>D3a: \<open>vp1\<close> points to the two top digits of \<open>v\<close>, \<open>up2\<close> to the three of \<open>u\<close>, \<open>t\<close> to scratch
  digits.  A digit of 0 is never too high, so that the loop ends.\<close>

function trial_loop :: "mpdigit list \<Rightarrow> mpdigit list \<Rightarrow> mpdigit list \<Rightarrow> mpdigit \<Rightarrow> mpdigit outcome" where
  "trial_loop vp1 up2 t qd =
     obind (put 0 (replicate 3 0) t) (\<lambda>t.
     obind (mpvecdigmuladd vp1 2 qd t) (\<lambda>t.
     obind (mpveccmp t 3 up2 3) (\<lambda>c.
     if 0 < c then if qd = 0 then Undef else trial_loop vp1 up2 t (qd - 1) else Ok qd)))"
  by pat_completeness auto

termination
  by (relation "measure (\<lambda>(vp1, up2, t, qd). unat qd)") (auto simp: unat_minus_one unat_gt_0 intro: diff_less)

declare trial_loop.simps [simp del]

text \<open>D3 to D5 for the digit of \<open>u\<close> at \<open>up\<close>: the digits of \<open>u\<close>, of the scratch number, the quotient digit.\<close>

definition div_step :: "mpdigit list \<Rightarrow> nat \<Rightarrow> mpdigit list \<Rightarrow> nat \<Rightarrow> mpdigit list \<Rightarrow> (mpdigit \<times> mpdigit list) outcome" where
  "div_step v vn t up u =
     obind (rdat u (up - 1)) (\<lambda>lo. obind (rdat u up) (\<lambda>hi. obind (rdat v (vn - 1)) (\<lambda>vp.
     let qd = mpdigdiv lo hi vp in
     obind (if 1 < vn then trial_loop (drop (vn - 2) v) (drop (up - 2) u) t qd else Ok qd) (\<lambda>qd.
     obind (mpvecdigmulsub v vn qd (drop (up - vn) u)) (\<lambda>(sg, w).
     let u = take (up - vn) u @ w in
     obind (if sg < 0 then
         obind (mpvecadd (drop (up - vn) u) (vn + 1) v vn) (\<lambda>ds.
         obind (put (up - vn) ds u) (\<lambda>u. Ok (qd - 1, u)))
       else Ok (qd, u)) (\<lambda>(qd, u).
     obind (wrat u up 0) (\<lambda>u. Ok (qd, u))))))))"

text \<open>D2 to D7, with \<open>k\<close> digits of the quotient to come; \<open>q\<close> are the digits of the quotient when it
  is wanted.\<close>

fun div_loop :: "mpdigit list \<Rightarrow> nat \<Rightarrow> mpdigit list \<Rightarrow> nat \<Rightarrow> mpdigit list \<Rightarrow> mpdigit list option \<Rightarrow> (mpdigit list \<times> mpdigit list option) outcome" where
  "div_loop v vn t 0 u q = Ok (u, q)"
| "div_loop v vn t (Suc k) u q =
     obind (div_step v vn t (vn + k) u) (\<lambda>(qd, u).
     obind (case q of None \<Rightarrow> Ok None | Some q \<Rightarrow> obind (wrat q k qd) (\<lambda>q. Ok (Some q))) (\<lambda>q.
     div_loop v vn t k u q))"

section \<open>Division\<close>

text \<open>A result goes to a cell, when there is one.\<close>

definition assign_opt :: "mpint \<Rightarrow> nat option \<Rightarrow> mps \<Rightarrow> mps outcome" where
  "assign_opt x r s = (case r of None \<Rightarrow> Ok s | Some r \<Rightarrow> obind (mpassign x (cell s r)) (\<lambda>y. Ok (upd s r y)))"

text \<open>D1: the shift \<open>sh\<close>, and the cells \<open>u\<close> and \<open>v\<close> of the shifted numbers.\<close>

definition div_setup :: "mps \<Rightarrow> nat \<Rightarrow> nat \<Rightarrow> nat option \<Rightarrow> nat option \<Rightarrow> (nat \<times> nat \<times> nat \<times> mps) outcome" where
  "div_setup s dividend divisor quo rmd =
     obind (rdat (digs (cell s divisor)) (top (cell s divisor) - 1)) (\<lambda>qd.
     obind (top_shift 32 qd) (\<lambda>sh.
     obind (mpnew s (int (top (cell s dividend) + 2) * 32 + int sh)) (\<lambda>(u, s).
     if sh = 0 \<and> Some divisor \<noteq> quo \<and> Some divisor \<noteq> rmd then
       obind (mpassign (cell s dividend) (cell s u)) (\<lambda>x. Ok (sh, u, divisor, upd s u x))
     else obind (mpleft s dividend (int sh) u) (\<lambda>s.
       obind (mpnew s (int (top (cell s divisor)) * 32)) (\<lambda>(v, s).
       obind (mpleft s divisor (int sh) v) (\<lambda>s. Ok (sh, u, v, s)))))))"

text \<open>D1a: the high digit of \<open>u\<close> is made less than that of \<open>v\<close>.\<close>

definition div_high :: "mpint \<Rightarrow> mpint \<Rightarrow> mpint outcome" where
  "div_high u v =
     obind (rdat (digs u) (top u - 1)) (\<lambda>up. obind (rdat (digs v) (top v - 1)) (\<lambda>vp.
     if vp \<le> up then obind (wrat (digs u) (top u) 0) (\<lambda>ds. Ok (u\<lparr>digs := ds, top := top u + 1\<rparr>))
     else Ok u))"

definition mpdiv :: "mps \<Rightarrow> nat \<Rightarrow> nat \<Rightarrow> nat option \<Rightarrow> nat option \<Rightarrow> mps outcome" where
  "mpdiv s dividend divisor quo rmd =
     (if top (cell s divisor) = 0 then Fail
      else obind (mpmagcmp (cell s dividend) (cell s divisor)) (\<lambda>c.
       if c < 0 then obind (assign_opt (cell s dividend) rmd s) (assign_opt mpzero quo)
       else obind (div_setup s dividend divisor quo rmd) (\<lambda>(sh, u, v, s).
       obind (div_high (cell s u) (cell s v)) (\<lambda>x. let s = upd s u x; vn = top (cell s v) in
       obind (mpnew s (4 * 32)) (\<lambda>(t, s). let
         n = top (cell s u) - vn;
         s = (case quo of None \<Rightarrow> s
           | Some q \<Rightarrow> upd s q ((mpbits (cell s q) (int n * 32))\<lparr>top := n\<rparr>)) in
       obind (div_loop (digs (cell s v)) vn (digs (cell s t)) n (digs (cell s u))
           (map_option (\<lambda>q. digs (cell s q)) quo)) (\<lambda>(ds, qs). let
         s = upd s u ((cell s u)\<lparr>digs := ds, top := vn\<rparr>) in
       obind (case quo of None \<Rightarrow> Ok s
         | Some q \<Rightarrow> obind (mpnorm ((cell s q)\<lparr>digs := the qs\<rparr>)) (\<lambda>x. let s = upd s q x in
           Ok (if sign (cell s dividend) \<noteq> sign (cell s divisor) then upd s q (x\<lparr>sign := - 1\<rparr>) else s))) (\<lambda>s.
       obind (case rmd of None \<Rightarrow> Ok s
         | Some r \<Rightarrow> obind (mpright s u (int sh) r) (\<lambda>s.
             Ok (upd s r ((cell s r)\<lparr>sign := sign (cell s dividend)\<rparr>)))) (\<lambda>s.
       obind (mpfree s t) (\<lambda>s. obind (mpfree s u) (\<lambda>s.
       if v \<noteq> divisor then mpfree s v else Ok s))))))))))"

definition mpmod :: "mps \<Rightarrow> nat \<Rightarrow> nat \<Rightarrow> nat \<Rightarrow> mps outcome" where
  "mpmod s b m rmd =
     obind (mpdiv s b m None (Some rmd)) (\<lambda>s.
       if sign (cell s rmd) < 0 then mpadd s m rmd rmd else Ok s)"

section \<open>The digit is right\<close>

lemma trial_bounds:
  fixes N V V2 X q qd n3 :: nat
  assumes v: "V2 * X \<le> V" "V < (V2 + 1) * X" and n: "n3 = N div X" and q: "q = N div V"
    and X: "0 < X" and V2: "Base \<le> V2" and qB: "q < Base" and t: "qd * V2 \<le> n3"
  shows "qd \<le> q + 1"
proof (rule ccontr)
  assume "\<not> qd \<le> q + 1"
  then have qd: "q + 2 \<le> qd" by simp
  have V0: "0 < V" using v(1) V2 X by (metis Base_pos(1) less_le_trans mult_pos_pos)
  have "(q + 2) * V2 * X \<le> qd * V2 * X" using qd by (intro mult_le_mono) simp_all
  also have "\<dots> \<le> n3 * X" using t by (intro mult_le_mono) simp_all
  also have "\<dots> \<le> N" unfolding n by simp
  also have "N < (q + 1) * V" unfolding q using V0 by (simp add: dividend_less_div_times)
  also have "\<dots> \<le> (q + 1) * ((V2 + 1) * X)" using v(2) by (intro mult_le_mono) simp_all
  finally have "(q + 2) * V2 * X < (q + 1) * (V2 + 1) * X" by (simp only: mult.assoc)
  then have "(q + 2) * V2 < (q + 1) * (V2 + 1)" by (simp only: mult_less_cancel2)
  then have "V2 < q + 1" by (simp add: algebra_simps)
  then show False using V2 qB by simp
qed

lemma quotient_fits:
  fixes N V V2 X :: nat
  assumes "V2 * X \<le> V" "0 < X"
  shows "(N div V) * V2 \<le> N div X"
proof -
  have "(N div V) * V2 * X \<le> (N div V) * V" using assms(1) by (simp add: mult.assoc)
  also have "\<dots> \<le> N" by simp
  finally show ?thesis using assms(2) by (simp add: less_eq_div_iff_mult_less_eq)
qed

lemma trial_loop_spec:
  "2 \<le> length vp1 \<Longrightarrow> 3 \<le> length up2 \<Longrightarrow> 3 \<le> length t \<Longrightarrow>
   q \<le> unat qd \<Longrightarrow> q * val (take 2 vp1) \<le> val (take 3 up2) \<Longrightarrow>
   \<exists>r. trial_loop vp1 up2 t qd = Ok r \<and> q \<le> unat r \<and> unat r * val (take 2 vp1) \<le> val (take 3 up2)"
proof (induction vp1 up2 t qd rule: trial_loop.induct)
  case (1 vp1 up2 t qd)
  define t1 where "t1 = replicate 3 0 @ drop 3 t"
  have t1: "put 0 (replicate 3 0) t = Ok t1" "length t1 = length t" "take 2 t1 = replicate 2 0"
    using "1.prems"(3) by (simp_all add: put_def t1_def)
  obtain r where r: "mpvecdigmuladd vp1 2 qd t1 = Ok (r @ drop (Suc 2) t1)" "length r = Suc 2"
    "val r = val (take 2 vp1) * unat qd + val (take 2 t1)"
    by (rule mpvecdigmuladd_spec [of 2 vp1 t1 qd]) (use "1.prems"(1,3) t1(2) in simp_all)
  define t2 where "t2 = r @ drop (Suc 2) t1"
  have t2: "3 \<le> length t2" "val (take 3 t2) = val (take 2 vp1) * unat qd"
    using r(2,3) unfolding t1(3) by (simp_all add: t2_def)
  have c: "mpveccmp t2 3 up2 3 = Ok (sgn (int (val (take 3 t2)) - int (val (take 3 up2))))"
    using t2(1) "1.prems"(2) by (rule mpveccmp_spec)
  note eq = trial_loop.simps [of vp1 up2 t qd, unfolded t1(1) obind.simps r(1) t2_def [symmetric] c]
  show ?case
  proof (cases "val (take 3 t2) \<le> val (take 3 up2)")
    case True
    then have "\<not> 0 < sgn (int (val (take 3 t2)) - int (val (take 3 up2)))" by simp
    then have "trial_loop vp1 up2 t qd = Ok qd" unfolding eq by (rule if_not_P)
    then show ?thesis using "1.prems"(4) t2(2) True by (simp add: mult.commute)
  next
    case False
    then have "val (take 3 up2) < unat qd * val (take 2 vp1)" using t2(2) by (simp add: mult.commute)
    then have "q * val (take 2 vp1) < unat qd * val (take 2 vp1)" using "1.prems"(5) by linarith
    then have lt: "q < unat qd" by (simp only: mult_less_cancel2)
    then have qd: "qd \<noteq> 0" by auto
    have pos: "0 < sgn (int (val (take 3 t2)) - int (val (take 3 up2)))" using False by simp
    have "q \<le> unat (qd - 1)" using lt qd by (simp add: unat_minus_one)
    then have "\<exists>r. trial_loop vp1 up2 t2 (qd - 1) = Ok r \<and> q \<le> unat r \<and> unat r * val (take 2 vp1) \<le> val (take 3 up2)"
      using "1.IH" [OF t1(1) r(1) [folded t2_def] c pos qd "1.prems"(1,2) t2(1) _ "1.prems"(5)] by blast
    then show ?thesis unfolding eq if_P [OF pos] if_not_P [OF qd] .
  qed
qed

lemma top_bound: "vn \<le> length v \<Longrightarrow> 0 < vn \<Longrightarrow> v ! (vn - 1) \<noteq> 0 \<Longrightarrow> Base ^ (vn - 1) \<le> val (take vn v)"
proof -
  assume h: "vn \<le> length v" "0 < vn" "v ! (vn - 1) \<noteq> 0"
  have "val (take vn v) = val (take (vn - 1) v) + Base ^ (vn - 1) * unat (v ! (vn - 1))"
    using val_take_Suc [of "vn - 1" v] h by simp
  moreover have "Base ^ (vn - 1) * 1 \<le> Base ^ (vn - 1) * unat (v ! (vn - 1))"
    using h(3) by (intro mult_le_mono) (simp_all add: Suc_le_eq unat_gt_0)
  ultimately show ?thesis by linarith
qed

text \<open>The digits a pointer further up sees.\<close>

lemma val_upper: "i + m \<le> length a \<Longrightarrow> val (take m (drop i a)) = val (take (i + m) a) div Base ^ i"
proof -
  assume h: "i + m \<le> length a"
  have "val (take (i + m) a) = val (take i a) + Base ^ i * val (take m (drop i a))"
    using val_take_le [of i "i + m" a] h by simp
  moreover have "val (take i a) < Base ^ i" using h by (intro val_take_less) simp
  ultimately show ?thesis by simp
qed

lemma first_digit:
  assumes v: "0 < vn" "vn \<le> length v" "v ! (vn - 1) \<noteq> 0" and u: "k + vn < length u"
    and N: "N = val (take (vn + 1) (drop k u))" "V = val (take vn v)" "N < Base * V"
  shows "N div V \<le> unat (mpdigdiv (u ! (k + vn - 1)) (u ! (k + vn)) (v ! (vn - 1)))"
    "vn = 1 \<Longrightarrow> unat (mpdigdiv (u ! (k + vn - 1)) (u ! (k + vn)) (v ! (vn - 1))) = N div V"
proof -
  define X where "X = Base ^ (vn - 1)"
  define lo hi vp where "lo = u ! (k + vn - 1)" and "hi = u ! (k + vn)" and "vp = v ! (vn - 1)"
  have X: "0 < X" by (simp add: X_def)
  have V: "V = val (take (vn - 1) v) + X * unat vp"
    using val_take_Suc [of "vn - 1" v] v by (simp add: N(2) X_def vp_def)
  have top2: "N div X = unat lo + Base * unat hi"
  proof -
    have "N div X = val (take 2 (drop (vn - 1) (drop k u)))"
      using val_upper [of "vn - 1" 2 "drop k u"] v(1) u by (simp add: N(1) X_def)
    also have "drop (vn - 1) (drop k u) = lo # hi # drop (k + vn + 1) u"
      using v(1) u Cons_nth_drop_Suc [of "k + vn - 1" u] Cons_nth_drop_Suc [of "k + vn" u]
      by (simp add: lo_def hi_def add.commute)
    finally show ?thesis by (simp add: numeral_2_eq_2)
  qed
  have V0: "0 < V" using top_bound [OF v(2,1,3)] N(2) by (metis Base_pos(1) less_le_trans zero_less_power)
  have q: "N div V < Base" using N(3) V0 by (simp add: less_mult_imp_div_less)
  show "N div V \<le> unat (mpdigdiv (u ! (k + vn - 1)) (u ! (k + vn)) (v ! (vn - 1)))"
    unfolding lo_def [symmetric] hi_def [symmetric] vp_def [symmetric]
  proof (cases "vp \<le> hi")
    case True
    then show "N div V \<le> unat (mpdigdiv lo hi vp)" using q mpdigdiv_big [OF True] by simp
  next
    case False
    have "(N div V) * unat vp \<le> N div X" using V X by (intro quotient_fits) (simp_all add: mult.commute)
    moreover have "0 < unat vp" using v(3) by (simp add: vp_def unat_gt_0)
    ultimately have "N div V \<le> (N div X) div unat vp" by (simp add: less_eq_div_iff_mult_less_eq)
    then show "N div V \<le> unat (mpdigdiv lo hi vp)" using mpdigdiv_spec [of hi vp lo] False top2 by (simp add: not_le add.commute)
  qed
  show "unat (mpdigdiv (u ! (k + vn - 1)) (u ! (k + vn)) (v ! (vn - 1))) = N div V" if "vn = 1"
    unfolding lo_def [symmetric] hi_def [symmetric] vp_def [symmetric]
  proof -
    have e: "V = unat vp" "N = Base * unat hi + unat lo" using that V top2 by (simp_all add: X_def)
    then have "Base * unat hi < Base * unat vp" using N(3) unfolding e(1) by linarith
    then have "hi < vp" by (simp add: word_less_nat_alt)
    then show "unat (mpdigdiv lo hi vp) = N div V" by (simp add: mpdigdiv_spec e)
  qed
qed

text \<open>The trial digit is the digit of the quotient or one more.\<close>

lemma trial_digit:
  assumes v: "0 < vn" "vn \<le> length v" "v ! (vn - 1) \<noteq> 0" and u: "k + vn < length u" and t: "3 \<le> length t"
    and N: "N = val (take (vn + 1) (drop k u))" "V = val (take vn v)" "N < Base * V"
  obtains qd where "(if 1 < vn then trial_loop (drop (vn - 2) v) (drop (vn + k - 2) u) t
      (mpdigdiv (u ! (k + vn - 1)) (u ! (k + vn)) (v ! (vn - 1)))
    else Ok (mpdigdiv (u ! (k + vn - 1)) (u ! (k + vn)) (v ! (vn - 1)))) = Ok qd"
    "N div V \<le> unat qd" "unat qd \<le> N div V + 1"
proof -
  define qd0 where "qd0 = mpdigdiv (u ! (k + vn - 1)) (u ! (k + vn)) (v ! (vn - 1))"
  note f = first_digit [OF v u N, folded qd0_def]
  have V0: "0 < V" using top_bound [OF v(2,1,3)] N(2) by (metis Base_pos(1) less_le_trans zero_less_power)
  have q: "N div V < Base" using N(3) V0 by (simp add: less_mult_imp_div_less)
  show ?thesis
  proof (cases "1 < vn")
    case False
    then show ?thesis using f v(1) by (intro that [of qd0]) (simp_all add: qd0_def)
  next
    case True
    define X V2 n3 where "X = Base ^ (vn - 2)" and "V2 = val (take 2 (drop (vn - 2) v))"
      and "n3 = val (take 3 (drop (vn + k - 2) u))"
    have vn: "vn - 2 + 2 = vn" "vn - 2 + 3 = vn + 1" using True by simp_all
    have n3: "n3 = N div X"
    proof -
      have "drop (vn + k - 2) u = drop (vn - 2) (drop k u)" using True by (simp add: add.commute)
      then show ?thesis using val_upper [of "vn - 2" 3 "drop k u"] u unfolding n3_def N(1) X_def by (simp add: vn)
    qed
    have V: "V = val (take (vn - 2) v) + X * V2"
      using val_take_le [of "vn - 2" vn v] v(2) True by (simp add: N(2) X_def V2_def)
    have X: "0 < X" by (simp add: X_def)
    have l: "val (take (vn - 2) v) < X" unfolding X_def using v(2) by (intro val_take_less) simp
    have V2: "Base \<le> V2"
    proof -
      have "Base ^ (2 - 1) \<le> val (take 2 (drop (vn - 2) v))"
      proof (rule top_bound)
        have "vn - 2 + (2 - 1) = vn - 1" using True by simp
        then show "drop (vn - 2) v ! (2 - 1) \<noteq> 0" using v(2,3) by simp
      qed (use v(2) True in simp_all)
      then show ?thesis by (simp add: V2_def)
    qed
    have fit: "(N div V) * V2 \<le> n3" unfolding n3 using V X by (intro quotient_fits) (simp_all add: mult.commute)
    obtain qd where qd: "trial_loop (drop (vn - 2) v) (drop (vn + k - 2) u) t qd0 = Ok qd" "N div V \<le> unat qd" "unat qd * V2 \<le> n3"
    proof -
      have "2 \<le> length (drop (vn - 2) v)" "3 \<le> length (drop (vn + k - 2) u)" using v(2) u True by auto
      then show ?thesis using trial_loop_spec [OF _ _ t f(1) fit [unfolded V2_def n3_def]] that
        unfolding V2_def n3_def by blast
    qed
    have "unat qd \<le> N div V + 1"
      by (rule trial_bounds [OF _ _ n3 refl X V2 q qd(3)]) (use V l in \<open>simp_all add: algebra_simps\<close>)
    then show ?thesis using True qd(1,2) by (intro that [of qd]) (simp_all add: qd0_def)
  qed
qed

lemma zero_digit: "val W < Base ^ n \<Longrightarrow> n < length W \<Longrightarrow> W ! n = 0"
  using val_drop_zero [of W n] Cons_nth_drop_Suc [of n W] by (metis add_is_0 less_imp_le unat_eq_zero val.simps(2))

lemma div_step_spec:
  assumes v: "0 < vn" "vn \<le> length v" "v ! (vn - 1) \<noteq> 0" and u: "k + vn + 1 < length u" and t: "3 \<le> length t"
    and N: "N = val (take (vn + 1) (drop k u))" "V = val (take vn v)" "N < Base * V"
  obtains qd u' where "div_step v vn t (vn + k) u = Ok (qd, u')" "length u' = length u" "unat qd = N div V"
    "take k u' = take k u" "val (take (vn + 1) (drop k u')) = N mod V"
proof -
  have u1: "k + vn < length u" using u by simp
  have V0: "0 < V" using top_bound [OF v(2,1,3)] N(2) by (metis Base_pos(1) less_le_trans zero_less_power)
  have VB: "V < Base ^ vn" using v(2) by (simp add: N(2) val_take_less)
  obtain qd where qd: "(if 1 < vn then trial_loop (drop (vn - 2) v) (drop (vn + k - 2) u) t
      (mpdigdiv (u ! (k + vn - 1)) (u ! (k + vn)) (v ! (vn - 1)))
    else Ok (mpdigdiv (u ! (k + vn - 1)) (u ! (k + vn)) (v ! (vn - 1)))) = Ok qd"
    "N div V \<le> unat qd" "unat qd \<le> N div V + 1"
    by (rule trial_digit [OF v u1 t N])
  obtain r sg where r: "mpvecdigmulsub v vn qd (drop k u) = Ok (sg, r @ drop (Suc vn) (drop k u))" "length r = Suc vn"
    "sg \<in> {1, - 1}" "val r + V * unat qd = N + (if sg < 0 then Base ^ Suc vn else 0)"
    by (rule mpvecdigmulsub_spec [of vn v "drop k u" qd]) (use v(2) u1 in \<open>simp_all add: N(1,2)\<close>)
  define u2 where "u2 = take k u @ r @ drop (Suc vn) (drop k u)"
  have u2: "length u2 = length u" "take k u2 = take k u" "take (vn + 1) (drop k u2) = r"
    using u1 r(2) by (simp_all add: u2_def)
  have rB: "val r < Base ^ Suc vn" using val_less [of r] r(2) by simp
  have NV: "N = V * (N div V) + N mod V" "N mod V < V" using V0 by simp_all
  have VB': "V < Base ^ Suc vn" using VB by (rule less_le_trans) simp
  obtain qd' u3 where u3: "(if sg < 0 then
         obind (mpvecadd (drop k u2) (vn + 1) v vn) (\<lambda>ds.
         obind (put k ds u2) (\<lambda>u. Ok (qd - 1, u)))
       else Ok (qd, u2)) = Ok (qd', u3)" "length u3 = length u" "take k u3 = take k u"
    "val (take (vn + 1) (drop k u3)) = N mod V" "unat qd' = N div V"
  proof (cases "unat qd = N div V")
    case True
    have e: "val r = N mod V + (if sg < 0 then Base ^ Suc vn else 0)"
      using r(4) NV(1) unfolding True by linarith
    then have "\<not> sg < 0" using rB by (auto split: if_splits)
    then show ?thesis using u2 e True by (intro that [of qd u2]) simp_all
  next
    case False
    then have q1: "unat qd = N div V + 1" using qd(2,3) by simp
    have "val r + V * (N div V) + V = N + (if sg < 0 then Base ^ Suc vn else 0)" using r(4) unfolding q1 by simp
    then have e: "val r + V = N mod V + (if sg < 0 then Base ^ Suc vn else 0)" using NV(1) by linarith
    then have sg: "sg < 0" using NV(2) by (auto split: if_splits)
    obtain ds where ds: "mpvecadd (drop k u2) (vn + 1) v vn = Ok ds" "length ds = Suc (vn + 1)"
      "val ds = val r + V"
      by (rule mpvecadd_spec [of vn "vn + 1" "drop k u2" v]) (use v(2) u u2 N(2) in simp_all)
    have "val (take (vn + 1) ds) = (N mod V + Base ^ Suc vn) mod Base ^ (vn + 1)"
      using ds(2,3) e sg by (simp add: val_take_mod)
    also have "\<dots> = N mod V" using NV(2) VB' by simp
    finally have vd: "val (take (vn + 1) ds) = N mod V" .
    define u3 where "u3 = take k u2 @ ds @ drop (k + length ds) u2"
    have "put k ds u2 = Ok u3" using ds(2) u u2(1) by (simp add: put_def u3_def)
    moreover have "length u3 = length u" "take k u3 = take k u" "take (vn + 1) (drop k u3) = take (vn + 1) ds"
      using ds(2) u u2 by (simp_all add: u3_def)
    moreover have "qd \<noteq> 0" using q1 by auto
    ultimately show ?thesis using sg ds(1) vd q1 by (intro that [of "qd - 1" u3]) (simp_all add: unat_minus_one)
  qed
  have z: "u3 ! (vn + k) = 0"
  proof -
    have "take (vn + 1) (drop k u3) ! vn = 0"
      by (rule zero_digit) (use u3 NV(2) VB u in simp_all)
    then show ?thesis using u u3(2) by (simp add: add.commute)
  qed
  have id: "u3[vn + k := 0] = u3" using z by (metis list_update_id)
  have rd: "rdat u (vn + k - 1) = Ok (u ! (k + vn - 1))" "rdat u (vn + k) = Ok (u ! (k + vn))"
    "rdat v (vn - 1) = Ok (v ! (vn - 1))" "wrat u3 (vn + k) 0 = Ok u3"
    using v u u3(2) id by (simp_all add: add.commute)
  have "div_step v vn t (vn + k) u = Ok (qd', u3)"
    unfolding div_step_def rd obind.simps Let_def qd(1) add_diff_cancel_left' r(1) prod.case u2_def [symmetric] u3(1)
    by (rule refl)
  then show ?thesis using u3 by (intro that [of qd' u3]) simp_all
qed

lemma div_loop_spec:
  assumes v: "0 < vn" "vn \<le> length v" "v ! (vn - 1) \<noteq> 0" and t: "3 \<le> length t" and V: "V = val (take vn v)"
  shows "k + vn < length u \<Longrightarrow> val (take (vn + k) u) < V * Base ^ k \<Longrightarrow> \<forall>q0. q = Some q0 \<longrightarrow> k \<le> length q0 \<Longrightarrow>
    \<exists>u' q'. div_loop v vn t k u q = Ok (u', q') \<and> length u' = length u
      \<and> val (take vn u') = val (take (vn + k) u) mod V
      \<and> (q = None \<longrightarrow> q' = None)
      \<and> (\<forall>q0. q = Some q0 \<longrightarrow> (\<exists>q1. q' = Some q1 \<and> length q1 = length q0
        \<and> drop k q1 = drop k q0 \<and> val (take k q1) = val (take (vn + k) u) div V))"
proof (induction k arbitrary: u q)
  case 0
  then show ?case by (cases q) simp_all
next
  case (Suc k)
  define T N where "T = val (take (vn + Suc k) u)" and "N = val (take (vn + 1) (drop k u))"
  have V0: "0 < V" using top_bound [OF v(2,1,3)] V by (metis Base_pos(1) less_le_trans zero_less_power)
  have VB: "V < Base ^ vn" using v(2) by (simp add: V val_take_less)
  have T: "T = val (take k u) + Base ^ k * N"
    using val_take_le [of k "vn + Suc k" u] Suc.prems(1) by (simp add: T_def N_def)
  have lk: "val (take k u) < Base ^ k" using Suc.prems(1) by (intro val_take_less) simp
  have "Base ^ k * N \<le> T" by (simp add: T)
  also have "T < V * Base ^ Suc k" using Suc.prems(2) by (simp only: T_def)
  also have "\<dots> = Base ^ k * (Base * V)" by simp
  finally have "Base ^ k * N < Base ^ k * (Base * V)" .
  then have NB: "N < Base * V" by simp
  obtain qd u' where u': "div_step v vn t (vn + k) u = Ok (qd, u')" "length u' = length u" "unat qd = N div V"
    "take k u' = take k u" "val (take (vn + 1) (drop k u')) = N mod V"
    by (rule div_step_spec [OF v _ t N_def V NB]) (use Suc.prems(1) in simp)
  define T' where "T' = val (take k u) + Base ^ k * (N mod V)"
  have T'V: "T' < V * Base ^ k"
  proof -
    have "T' < Base ^ k * (N mod V + 1)" using lk by (simp add: T'_def)
    also have "\<dots> \<le> Base ^ k * V" using V0 by (intro mult_le_mono) (simp_all add: Suc_le_eq)
    finally show ?thesis by (simp only: mult.commute)
  qed
  have TT: "T = V * (Base ^ k * (N div V)) + T'"
  proof -
    have "Base ^ k * N = Base ^ k * (V * (N div V) + N mod V)" by simp
    then show ?thesis unfolding T T'_def by (simp only: distrib_left ac_simps)
  qed
  have v': "val (take (vn + k) u') = T'"
  proof -
    have l: "vn + k < length u'" using Suc.prems(1) u'(2) by simp
    have "val (take (vn + Suc k) u') = T'"
      using val_take_le [of k "vn + Suc k" u'] l u'(4,5) by (simp add: T'_def)
    moreover have "T' < Base ^ (vn + k)"
    proof -
      have "V * Base ^ k \<le> Base ^ vn * Base ^ k" using VB by (intro mult_le_mono) simp_all
      then show ?thesis using T'V unfolding power_add by linarith
    qed
    ultimately have "val (take (vn + k) (take (vn + Suc k) u')) = T'"
      using val_drop_zero [of "take (vn + Suc k) u'" "vn + k"] l by simp
    then show ?thesis by (simp add: min_def)
  qed
  define q2 where "q2 = map_option (\<lambda>q. q[k := qd]) q"
  have q2: "(case q of None \<Rightarrow> Ok None | Some q \<Rightarrow> obind (wrat q k qd) (\<lambda>q. Ok (Some q))) = Ok q2"
    using Suc.prems(3) by (cases q) (simp_all add: q2_def wrat_def Suc_le_eq)
  have prem3: "\<forall>q0. q2 = Some q0 \<longrightarrow> k \<le> length q0" using Suc.prems(3) by (auto simp: q2_def)
  have prem1: "k + vn < length u'" using Suc.prems(1) u'(2) by simp
  obtain u3 q' where r: "div_loop v vn t k u' q2 = Ok (u3, q')" "length u3 = length u'" "val (take vn u3) = T' mod V"
    "q2 = None \<longrightarrow> q' = None"
    "\<forall>q0. q2 = Some q0 \<longrightarrow> (\<exists>q1. q' = Some q1 \<and> length q1 = length q0 \<and> drop k q1 = drop k q0 \<and> val (take k q1) = T' div V)"
    using Suc.IH [OF prem1 _ prem3, unfolded v', OF T'V] by (elim exE conjE) (rule that; assumption)
  have "div_loop v vn t (Suc k) u q = Ok (u3, q')"
    unfolding div_loop.simps u'(1) obind.simps prod.case q2 r(1) by (rule refl)
  moreover have "T mod V = T' mod V" unfolding TT by simp
  moreover have "\<exists>q1. q' = Some q1 \<and> length q1 = length q0 \<and> drop (Suc k) q1 = drop (Suc k) q0 \<and> val (take (Suc k) q1) = T div V"
    if h: "q = Some q0" for q0
  proof -
    obtain q1 where q1: "q' = Some q1" "length q1 = length q0" "drop k q1 = drop k (q0[k := qd])" "val (take k q1) = T' div V"
    proof -
      have "q2 = Some (q0[k := qd])" using h by (simp add: q2_def)
      then have "\<exists>q1. q' = Some q1 \<and> length q1 = length (q0[k := qd]) \<and> drop k q1 = drop k (q0[k := qd])
        \<and> val (take k q1) = T' div V" using r(5) by blast
      then show ?thesis by (elim exE conjE) (rule that; simp)
    qed
    have l: "k < length q0" using Suc.prems(3) h by (simp add: Suc_le_eq)
    have "q1 ! k = qd" using q1(2,3) l by (metis hd_drop_conv_nth length_list_update nth_list_update_eq)
    then have "val (take (Suc k) q1) = T' div V + Base ^ k * (N div V)"
      using q1(2) l by (simp only: val_take_Suc q1(4) u'(3))
    also have "\<dots> = T div V" unfolding TT using V0 by simp
    finally have "val (take (Suc k) q1) = T div V" .
    moreover have "drop 1 (drop k q1) = drop 1 (drop k (q0[k := qd]))" using q1(3) by simp
    ultimately show ?thesis using q1(1,2) by simp
  qed
  ultimately show ?case using r(2,3,4) u'(2) unfolding T_def [symmetric]
    by (intro exI [of _ u3] exI [of _ q']) (auto simp: q2_def)
qed

section \<open>The setting of the loop\<close>

lemma top_shift_spec:
  "bit qd n \<Longrightarrow> n < 32 \<Longrightarrow> 31 - n < k \<Longrightarrow> \<exists>s. top_shift k qd = Ok s \<and> s < k"
proof (induction k arbitrary: qd n)
  case (Suc k)
  show ?case
  proof (cases "bit qd 31")
    case True
    have "\<not> qd AND push_bit 31 1 = 0" using True by (simp add: and_exp_eq_0_iff_not_bit [of qd 31, simplified])
    then show ?thesis by simp
  next
    case False
    have z: "qd AND push_bit 31 1 = 0" using False by (simp add: and_exp_eq_0_iff_not_bit [of qd 31, simplified])
    have "n \<noteq> 31" using Suc.prems(1) False by metis
    then have n: "n < 31" using Suc.prems(2) by simp
    then have "bit (push_bit 1 qd) (n + 1)" using Suc.prems(1) unfolding bit_push_bit_iff by simp
    moreover have "31 - (n + 1) < k" "n + 1 < 32" using n Suc.prems(3) by linarith+
    ultimately obtain s where "top_shift k (push_bit 1 qd) = Ok s" "s < k" using Suc.IH by blast
    then show ?thesis using z by (simp del: push_bit_of_1)
  qed
qed simp

lemma top_shift_ends: "qd \<noteq> 0 \<Longrightarrow> \<exists>s. top_shift 32 qd = Ok s \<and> s < 32"
proof -
  assume "qd \<noteq> 0"
  then obtain n where "bit qd n" by (auto simp: bit_eq_iff)
  moreover from this have "n < 32" using bit_imp_le_length [of qd n] by simp
  ultimately show ?thesis by (intro top_shift_spec) simp_all
qed

lemma div_setup_spec:
  assumes a: "isnum (cell s a) za" "a < brk s" and b: "isnum (cell s b) zb" "b < brk s" "0 < top (cell s b)"
    and m: "0 < mpmindigits s"
  obtains sh u v s' where "div_setup s a b quo rmd = Ok (sh, u, v, s')" "sh < 32" "same_but {} s s'"
    "brk s \<le> u" "u < brk s'" "normal (cell s' u)" "mag (cell s' u) = mag (cell s a) * 2 ^ sh"
    "sign (cell s' u) = sign (cell s a)" "\<not> static (cell s' u)"
    "top (cell s a) + 2 + (if sh = 0 then 0 else 1) \<le> length (digs (cell s' u))"
    "v = b \<and> Some b \<noteq> quo \<and> Some b \<noteq> rmd \<or> brk s \<le> v \<and> v < brk s' \<and> v \<noteq> u \<and> \<not> static (cell s' v)"
    "normal (cell s' v)" "mag (cell s' v) = mag (cell s b) * 2 ^ sh"
proof -
  have nb: "normal (cell s b)" and na: "normal (cell s a)" using a(1) b(1) isnumD(1) by blast+
  define qd where "qd = digs (cell s b) ! (top (cell s b) - 1)"
  have qd: "rdat (digs (cell s b)) (top (cell s b) - 1) = Ok qd" "qd \<noteq> 0"
    using nb b(3) by (auto simp: normal_def room_def qd_def)
  obtain sh where sh: "top_shift 32 qd = Ok sh" "sh < 32" using top_shift_ends [OF qd(2)] by blast
  define w where "w = int (top (cell s a) + 2) * 32 + int sh"
  have dw: "top (cell s a) + 2 + (if sh = 0 then 0 else 1) \<le> DIGITS w"
  proof -
    have "(31 + (int sh + 32 * int (top (cell s a) + 2))) div 32 = (31 + int sh) div 32 + int (top (cell s a) + 2)"
      by (simp only: add.assoc [symmetric] div_mult_self2)
    moreover have "(31 + int sh) div 32 = (if sh = 0 then 0 else 1)" using sh(2) by auto
    ultimately show ?thesis by (simp add: DIGITS_def w_def add.commute mult.commute nat_add_distrib)
  qed
  obtain x where x: "mpnew s w = Ok (brk s, (upd s (brk s) x)\<lparr>brk := brk s + 1\<rparr>)" "isnum x 0" "\<not> static x"
    "digs x = replicate (max (DIGITS w) (mpmindigits s)) 0"
    using mpnew_spec [OF _ m, of w] by (auto simp: w_def)
  define u s1 where "u = brk s" and "s1 = (upd s (brk s) x)\<lparr>brk := brk s + 1\<rparr>"
  have s1: "mpnew s w = Ok (u, s1)" "same_but {} s s1" "cell s1 u = x" "cell s1 a = cell s a" "cell s1 b = cell s b"
    "brk s1 = brk s + 1" "a \<noteq> u" "b \<noteq> u" "mpmindigits s1 = mpmindigits s"
    using x(1) a(2) b(2) by (simp_all add: u_def s1_def same_but_def)
  have lx: "DIGITS w \<le> length (digs x)" "room x" using x(4) isnumD(2) [OF x(2)] by simp_all
  have step: "div_setup s a b quo rmd =
     (if sh = 0 \<and> Some b \<noteq> quo \<and> Some b \<noteq> rmd then
       obind (mpassign (cell s1 a) (cell s1 u)) (\<lambda>x. Ok (sh, u, b, upd s1 u x))
     else obind (mpleft s1 a (int sh) u) (\<lambda>s.
       obind (mpnew s (int (top (cell s b)) * 32)) (\<lambda>(v, s).
       obind (mpleft s b (int sh) v) (\<lambda>s. Ok (sh, u, v, s)))))"
    unfolding div_setup_def qd(1) obind.simps sh(1) w_def [symmetric] s1(1) prod.case by (rule refl)
  show ?thesis
  proof (cases "sh = 0 \<and> Some b \<noteq> quo \<and> Some b \<noteq> rmd")
    case True
    obtain y where y: "mpassign (cell s a) x = Ok y" "room y" "top y = top (cell s a)" "sign y = sign (cell s a)"
      "mag y = mag (cell s a)" "static y = static x" "length (digs x) \<le> length (digs y)"
      using mpassign_spec [OF lx(2) roomD(1) [OF room_normal [OF na]]] by metis
    have "normal y" using normal_cong y na by blast
    moreover have "div_setup s a b quo rmd = Ok (sh, u, b, upd s1 u y)"
      unfolding step if_P [OF True] s1(3,4) y(1) obind.simps by (rule refl)
    ultimately show ?thesis using y s1 True x(3) sh(2) dw lx(1) nb
      by (intro that [of sh u b "upd s1 u y"]) (auto simp: same_but_def u_def)
  next
    case False
    have a1: "isnum (cell s1 a) za" using a(1) s1(4) by simp
    have r1: "room (cell s1 u)" using lx(2) s1(3) by simp
    obtain y where y: "mpleft s1 a (int sh) u = Ok (upd s1 u y)" "isnum y (za * 2 ^ sh)" "static y = static x"
      "length (digs x) \<le> length (digs y)"
      using mpleft_spec [OF a1 r1, of "int sh"] s1(3) by auto
    define s2 where "s2 = upd s1 u y"
    have m2: "0 < mpmindigits s2" using m s1(9) by (simp add: s2_def)
    obtain x2 where x2: "mpnew s2 (int (top (cell s2 b)) * 32) = Ok (brk s2, (upd s2 (brk s2) x2)\<lparr>brk := brk s2 + 1\<rparr>)"
      "isnum x2 0" "\<not> static x2"
      using mpnew_spec [OF _ m2, of "int (top (cell s2 b)) * 32"] by auto
    define v s3 where "v = brk s2" and "s3 = (upd s2 (brk s2) x2)\<lparr>brk := brk s2 + 1\<rparr>"
    have s3: "cell s3 v = x2" "cell s3 b = cell s b" "cell s3 u = y" "v = brk s + 1" "brk s3 = brk s + 2"
      "mpmindigits s3 = mpmindigits s" "\<forall>q < brk s. cell s3 q = cell s q"
      using s1 b(2) by (auto simp: s3_def v_def s2_def u_def s1_def)
    have b3: "isnum (cell s3 b) zb" using b(1) s3(2) by simp
    have r3: "room (cell s3 v)" using isnumD(2) [OF x2(2)] s3(1) by simp
    obtain z where z: "mpleft s3 b (int sh) v = Ok (upd s3 v z)" "isnum z (zb * 2 ^ sh)" "static z = static x2"
      using mpleft_spec [OF b3 r3, of "int sh"] s3(1) by auto
    have "div_setup s a b quo rmd = Ok (sh, u, v, upd s3 v z)"
      unfolding step if_not_P [OF False] y(1) obind.simps s2_def [symmetric] x2(1) prod.case v_def [symmetric]
      unfolding v_def s3_def [symmetric] z(1) [unfolded v_def] obind.simps by (rule refl)
    moreover have uv: "u < v" by (simp add: u_def s3(4))
    moreover have "mag y = mag (cell s a) * 2 ^ sh" "mag z = mag (cell s b) * 2 ^ sh"
      using isnum_abs [OF y(2)] isnum_abs [OF z(2)] isnum_abs [OF a(1)] isnum_abs [OF b(1)]
      by (simp_all add: abs_mult nat_mult_distrib nat_power_eq)
    moreover have "sign y = sign (cell s a)"
      using isnum_sign [OF y(2)] isnum_sign [OF a(1)] by (simp add: mult_less_0_iff)
    ultimately show ?thesis using sh(2) s3 y(3,4) x(3) x2(3) z(3) isnumD(1) [OF y(2)] isnumD(1) [OF z(2)] dw lx(1)
      by (intro that [of sh u v "upd s3 v z"]) (auto simp: same_but_def u_def)
  qed
qed

lemma div_high_spec:
  assumes u: "normal u" "top u + 1 \<le> length (digs u)" and v: "normal v" "0 < top v" and le: "mag v \<le> mag u"
  obtains x n where "div_high u v = Ok x" "length (digs x) = length (digs u)" "top x = top v + n" "top x \<le> top u + 1"
    "mag x = mag u" "mag u < mag v * Base ^ n" "sign x = sign u" "static x = static u"
    "top x = top u + 1 \<or> top x = top u \<and> top u < length (digs u)"
proof -
  define vn where "vn = top v"
  have tu: "vn \<le> top u" using le normal_less [OF u(1) v(1)] unfolding vn_def by linarith
  have u0: "0 < top u" using tu v(2) by (simp add: vn_def)
  define up vp where "up = digs u ! (top u - 1)" and "vp = digs v ! (vn - 1)"
  have rd: "rdat (digs u) (top u - 1) = Ok up" "rdat (digs v) (vn - 1) = Ok vp"
    using u v u0 roomD(1) [OF room_normal [OF v(1)]] by (simp_all add: up_def vp_def vn_def)
  have V: "mag v = val (take (vn - 1) (digs v)) + Base ^ (vn - 1) * unat vp"
    using val_take_Suc [of "vn - 1" "digs v"] v(2) roomD(1) [OF room_normal [OF v(1)]] by (simp add: mag_def vn_def vp_def)
  have U: "mag u = val (take (top u - 1) (digs u)) + Base ^ (top u - 1) * unat up"
    using val_take_Suc [of "top u - 1" "digs u"] u0 u(2) by (simp add: mag_def up_def)
  show ?thesis
  proof (cases "vp \<le> up")
    case True
    define n where "n = top u + 1 - vn"
    let ?x = "u\<lparr>digs := (digs u)[top u := 0], top := top u + 1\<rparr>"
    have "mag u < Base ^ top u" using u(1) by (simp add: mag_less)
    also have "\<dots> = Base ^ (vn - 1) * Base ^ n" using tu v(2) by (simp add: n_def vn_def flip: power_add)
    also have "\<dots> \<le> mag v * Base ^ n" using normal_mag [of v] v by (intro mult_le_mono) (simp_all add: vn_def)
    finally have "mag u < mag v * Base ^ n" .
    moreover have "div_high u v = Ok ?x" using True rd u(2) by (simp add: div_high_def vn_def wrat_def)
    moreover have "mag ?x = mag u" using u(2) by (simp add: mag_def val_take_Suc)
    ultimately show ?thesis using tu by (intro that [of ?x n]) (simp_all add: n_def vn_def)
  next
    case False
    define n where "n = top u - vn"
    have "val (take (top u - 1) (digs u)) < Base ^ (top u - 1)" using u(2) by (intro val_take_less) simp
    then have "mag u < Base ^ (top u - 1) * (unat up + 1)" using U by simp
    also have "\<dots> \<le> Base ^ (top u - 1) * unat vp" using False by (intro mult_le_mono) (simp_all add: not_le word_less_nat_alt)
    also have "\<dots> = Base ^ (vn - 1) * unat vp * Base ^ n"
    proof -
      have "top u - 1 = vn - 1 + n" using tu v(2) by (simp add: n_def vn_def)
      then show ?thesis by (simp add: power_add)
    qed
    also have "\<dots> \<le> mag v * Base ^ n" using V by (intro mult_le_mono) simp_all
    finally have "mag u < mag v * Base ^ n" .
    moreover have "div_high u v = Ok u" using False rd by (simp add: div_high_def vn_def)
    ultimately show ?thesis using tu u(2) by (intro that [of u n]) (simp_all add: n_def vn_def)
  qed
qed

text \<open>A number with leading zeros is shifted right too.\<close>

lemma mpright_raw:
  assumes u: "room (cell s u)" "0 < top (cell s u)" "u \<noteq> r" and r: "room (cell s r)" and k: "k < 32"
  obtains x where "mpright s u (int k) r = Ok (upd s r x)" "normal x" "mag x = mag (cell s u) div 2 ^ k"
    "sign x = (if top x = 0 then 1 else sign (cell s u))" "static x = static (cell s r)"
proof -
  define s1 where "s1 = upd s r ((cell s r)\<lparr>sign := sign (cell s u)\<rparr>)"
  have c: "cell s1 u = cell s u" "room (cell s1 r)" "sign (cell s1 r) = sign (cell s u)" "static (cell s1 r) = static (cell s r)"
    using u(3) r by (simp_all add: s1_def)
  have us: "upd s1 r x = upd s r x" for x by (simp add: s1_def)
  obtain x where x: "shift_right s1 u k r = Ok (upd s1 r x)" "normal x" "mag x = mag (cell s1 u) div 2 ^ k"
    "sign x = (if top x = 0 \<and> k div 32 < top (cell s1 u) then 1 else sign (cell s1 r))" "static x = static (cell s1 r)"
    using shift_right_spec [of s1 u r k] u(1,2) c by metis
  have "mpright s u (int k) r = Ok (upd s r x)"
    using u(2,3) x(1) c(1) by (simp add: mpright_def Let_def s1_def [symmetric] us)
  then show ?thesis using x c u(2) k by (intro that [of x]) simp_all
qed

section \<open>Quotient and remainder\<close>

lemma mpdiv_less:
  assumes a: "isnum (cell s a) za" "a < brk s" and b: "isnum (cell s b) zb" "b < brk s" "zb \<noteq> 0"
    and q: "\<forall>q. quo = Some q \<longrightarrow> q < brk s \<and> room (cell s q)" and r: "\<forall>r. rmd = Some r \<longrightarrow> r < brk s \<and> room (cell s r)"
    and d: "\<forall>q. quo = Some q \<longrightarrow> rmd \<noteq> Some q" and less: "\<bar>za\<bar> < \<bar>zb\<bar>"
  obtains s' where "mpdiv s a b quo rmd = Ok s'" "same_but (set_option quo \<union> set_option rmd) s s'"
    "\<And>q. quo = Some q \<Longrightarrow> isnum (cell s' q) 0 \<and> static (cell s' q) = static (cell s q)"
    "\<And>r. rmd = Some r \<Longrightarrow> isnum (cell s' r) za \<and> static (cell s' r) = static (cell s r)"
proof -
  have "mag (cell s a) < mag (cell s b)" using less isnum_abs [OF a(1)] isnum_abs [OF b(1)] by simp
  then obtain c where c: "mpmagcmp (cell s a) (cell s b) = Ok c" "c < 0"
    using mpmagcmp_spec [OF isnumD(1) [OF a(1)] isnumD(1) [OF b(1)]] by metis
  have e: "mpdiv s a b quo rmd = obind (assign_opt (cell s a) rmd s) (assign_opt mpzero quo)"
    using b isnum_zero [OF b(1)] c by (simp add: mpdiv_def)
  have R: "\<exists>s1. assign_opt (cell s a) rmd s = Ok s1 \<and> same_but (set_option rmd) s s1
      \<and> (\<forall>r. rmd = Some r \<longrightarrow> isnum (cell s1 r) za \<and> static (cell s1 r) = static (cell s r))"
  proof (cases rmd)
    case (Some r0)
    obtain x where "mpassign (cell s a) (cell s r0) = Ok x" "isnum x za" "static x = static (cell s r0)"
      using mpassign_isnum [OF _ a(1), of "cell s r0"] r Some by metis
    then show ?thesis using Some by (auto simp: assign_opt_def same_but_def)
  qed (simp add: assign_opt_def same_but_def)
  then obtain s1 where s1: "assign_opt (cell s a) rmd s = Ok s1" "same_but (set_option rmd) s s1"
    "\<forall>r. rmd = Some r \<longrightarrow> isnum (cell s1 r) za \<and> static (cell s1 r) = static (cell s r)" by blast
  show ?thesis
  proof (cases quo)
    case None
    then show ?thesis using e s1 by (intro that [of s1]) (simp_all add: assign_opt_def)
  next
    case (Some q0)
    have c1: "cell s1 q0 = cell s q0" "brk s \<le> brk s1" using s1(2) q d Some by (auto simp: same_but_def)
    obtain x where x: "mpassign mpzero (cell s1 q0) = Ok x" "isnum x 0" "static x = static (cell s1 q0)"
      using mpassign_isnum [OF _ mpzero_num, of "cell s1 q0"] q Some c1 by metis
    have "mpdiv s a b quo rmd = Ok (upd s1 q0 x)" using e s1(1) Some x(1) by (simp add: assign_opt_def)
    then show ?thesis using x s1 Some d c1 by (intro that [of "upd s1 q0 x"]) (auto simp: same_but_def)
  qed
qed

text \<open>The three stores after the loop, one result at a time.\<close>

lemma div_store_quotient:
  assumes q: "\<forall>q. quo = Some q \<longrightarrow> room (cell s q) \<and> top (cell s q) = n"
    and qs: "\<forall>q. quo = Some q \<longrightarrow> (\<exists>p. qs = Some p \<and> length p = length (digs (cell s q)) \<and> val (take n p) = Q)"
    and Q: "0 < Q"
  obtains s' where "(case quo of None \<Rightarrow> Ok s
         | Some q \<Rightarrow> obind (mpnorm ((cell s q)\<lparr>digs := the qs\<rparr>)) (\<lambda>x. let s = upd s q x in
           Ok (if sign (cell s a) \<noteq> sign (cell s b) then upd s q (x\<lparr>sign := - 1\<rparr>) else s))) = Ok s'"
    "same_but (set_option quo) s s'" "\<And>c. c \<notin> set_option quo \<Longrightarrow> cell s' c = cell s c"
    "\<And>q. quo = Some q \<Longrightarrow> normal (cell s' q) \<and> mag (cell s' q) = Q \<and> static (cell s' q) = static (cell s q)
      \<and> sign (cell s' q) = (if sign (cell s a) \<noteq> sign (cell s b) then - 1 else sign (cell s q))"
    "brk s' = brk s"
proof (cases quo)
  case None
  then show ?thesis by (intro that [of s]) (simp_all add: same_but_def)
next
  case (Some q0)
  obtain p where p: "qs = Some p" "length p = length (digs (cell s q0))" "val (take n p) = Q" using qs Some by blast
  have r: "room (cell s q0)" "top (cell s q0) = n" using q Some by auto
  define w where "w = (cell s q0)\<lparr>digs := p\<rparr>"
  have w: "room w" "mag w = Q"
    using r p roomD(1) [OF r(1)] roomD(2) [OF r(1)] by (auto simp: w_def room_def mag_def)
  obtain x where x: "mpnorm w = Ok x" "normal x" "mag x = mag w" "sign x = (if top x = 0 then 1 else sign w)" "static x = static w"
    by (rule mpnorm_spec [OF w(1)])
  have sx: "sign x = sign (cell s q0)"
    using x(3,4) w(2) Q normal_mag_0 [OF x(2)] by (simp add: w_def)
  define y where "y = (if sign (cell s a) \<noteq> sign (cell s b) then x\<lparr>sign := - 1\<rparr> else x)"
  have c: "sign (cell (upd s q0 x) c) = sign (cell s c)" for c using sx by simp
  have "obind (mpnorm ((cell s q0)\<lparr>digs := p\<rparr>)) (\<lambda>x. let s = upd s q0 x in
           Ok (if sign (cell s a) \<noteq> sign (cell s b) then upd s q0 (x\<lparr>sign := - 1\<rparr>) else s)) = Ok (upd s q0 y)"
    unfolding w_def [symmetric] x(1) obind.simps Let_def c by (simp add: y_def)
  then show ?thesis using Some p(1) x(2,3,5) w(2) sx
    by (intro that [of "upd s q0 y"]) (auto simp: same_but_def y_def w_def)
qed

lemma div_store_remainder:
  assumes u: "room (cell s u)" "0 < top (cell s u)" and k: "k < 32"
    and r: "\<forall>r. rmd = Some r \<longrightarrow> room (cell s r) \<and> r \<noteq> u"
  obtains s' where "(case rmd of None \<Rightarrow> Ok s
         | Some r \<Rightarrow> obind (mpright s u (int k) r) (\<lambda>s.
             Ok (upd s r ((cell s r)\<lparr>sign := sign (cell s a)\<rparr>)))) = Ok s'"
    "same_but (set_option rmd) s s'" "\<And>c. c \<notin> set_option rmd \<Longrightarrow> cell s' c = cell s c" "brk s' = brk s"
    "\<And>r. rmd = Some r \<Longrightarrow> normal (cell s' r) \<and> mag (cell s' r) = mag (cell s u) div 2 ^ k
      \<and> static (cell s' r) = static (cell s r)
      \<and> sign (cell s' r) = (if r \<noteq> a then sign (cell s a) else if mag (cell s u) div 2 ^ k = 0 then 1 else sign (cell s u))"
proof (cases rmd)
  case None
  then show ?thesis by (intro that [of s]) (simp_all add: same_but_def)
next
  case (Some r0)
  obtain x where x: "mpright s u (int k) r0 = Ok (upd s r0 x)" "normal x" "mag x = mag (cell s u) div 2 ^ k"
    "sign x = (if top x = 0 then 1 else sign (cell s u))" "static x = static (cell s r0)"
    by (rule mpright_raw [OF u _ _ k]) (use r Some in auto)
  have t: "top x = 0 \<longleftrightarrow> mag (cell s u) div 2 ^ k = 0" using normal_mag_0 [OF x(2)] x(3) by simp
  show ?thesis using Some x t
    by (intro that [of "upd (upd s r0 x) r0 (x\<lparr>sign := sign (cell (upd s r0 x) a)\<rparr>)"]) (auto simp: same_but_def)
qed

lemma mpdiv_main:
  assumes a: "isnum (cell s a) za" "a < brk s" and b: "isnum (cell s b) zb" "b < brk s" "zb \<noteq> 0"
    and q: "\<forall>q. quo = Some q \<longrightarrow> q < brk s \<and> room (cell s q)" and r: "\<forall>r. rmd = Some r \<longrightarrow> r < brk s \<and> room (cell s r)"
    and d: "\<forall>q. quo = Some q \<longrightarrow> rmd \<noteq> Some q" and m: "0 < mpmindigits s" and le: "\<bar>zb\<bar> \<le> \<bar>za\<bar>"
  obtains s' where "mpdiv s a b quo rmd = Ok s'" "same_but (set_option quo \<union> set_option rmd) s s'"
    "\<And>q. quo = Some q \<Longrightarrow> normal (cell s' q) \<and> int (mag (cell s' q)) = \<bar>za\<bar> div \<bar>zb\<bar> \<and> static (cell s' q) = static (cell s q)
      \<and> sign (cell s' q) = (if sign (cell s a) \<noteq> sign (cell s b) then - 1 else sign (cell s q))"
    "\<And>r. rmd = Some r \<Longrightarrow> normal (cell s' r) \<and> int (mag (cell s' r)) = \<bar>za\<bar> mod \<bar>zb\<bar> \<and> static (cell s' r) = static (cell s r)
      \<and> (quo \<noteq> Some a \<longrightarrow> sign (cell s' r) = (if r = a \<and> \<bar>za\<bar> mod \<bar>zb\<bar> = 0 then 1 else sign (cell s a)))"
proof -
  define A B where "A = mag (cell s a)" and "B = mag (cell s b)"
  have AB: "int A = \<bar>za\<bar>" "int B = \<bar>zb\<bar>" "B \<le> A" "0 < B"
    using isnum_mag [OF a(1)] isnum_mag [OF b(1)] le b(3) by (simp_all add: A_def B_def)
  have tb: "0 < top (cell s b)" using isnum_zero [OF b(1)] b(3) by simp
  obtain c where c: "mpmagcmp (cell s a) (cell s b) = Ok c" "\<not> c < 0"
    using mpmagcmp_spec [OF isnumD(1) [OF a(1)] isnumD(1) [OF b(1)]] AB(3) by (metis A_def B_def leD)
  obtain sh u v s1 where s1: "div_setup s a b quo rmd = Ok (sh, u, v, s1)" "sh < 32" "same_but {} s s1"
    "brk s \<le> u" "u < brk s1" "normal (cell s1 u)" "mag (cell s1 u) = mag (cell s a) * 2 ^ sh"
    "sign (cell s1 u) = sign (cell s a)" "\<not> static (cell s1 u)"
    "top (cell s a) + 2 + (if sh = 0 then 0 else 1) \<le> length (digs (cell s1 u))"
    "v = b \<and> Some b \<noteq> quo \<and> Some b \<noteq> rmd \<or> brk s \<le> v \<and> v < brk s1 \<and> v \<noteq> u \<and> \<not> static (cell s1 v)"
    "normal (cell s1 v)" "mag (cell s1 v) = mag (cell s b) * 2 ^ sh"
    by (rule div_setup_spec [OF a b(1,2) tb m])
  have b1: "brk s \<le> brk s1" "\<And>c. c < brk s \<Longrightarrow> cell s1 c = cell s c" "mpmindigits s1 = mpmindigits s"
    using s1(3) by (simp_all add: same_but_def)
  define V where "V = B * 2 ^ sh"
  have V: "mag (cell s1 v) = V" "0 < V" "mag (cell s1 u) = A * 2 ^ sh" "V \<le> A * 2 ^ sh"
    using s1(7,13) AB by (simp_all add: V_def A_def B_def)
  have uv: "u \<noteq> v" "v < brk s1" using s1(4,11) b(2) b1(1) by auto
  have tv: "0 < top (cell s1 v)" using V(1,2) by (cases "top (cell s1 v)") simp_all
  have tu: "top (cell s1 u) + 1 + 1 \<le> length (digs (cell s1 u))"
  proof -
    have "A < Base ^ top (cell s a)" using isnumD(2) [OF a(1)] by (simp add: A_def mag_less)
    then have "A * 2 ^ sh < Base ^ (top (cell s a) + (if sh = 0 then 0 else 1))"
    proof (cases "sh = 0")
      case False
      have "(2 :: nat) ^ sh < 2 ^ 32" using s1(2) by (intro power_strict_increasing) simp_all
      then have "(2 :: nat) ^ sh < Base" by (simp add: Base_def)
      then have "A * 2 ^ sh < Base ^ top (cell s a) * Base"
        using \<open>A < _\<close> by (intro mult_strict_mono) simp_all
      then show ?thesis using False by (simp add: mult.commute)
    qed simp
    moreover have "Base ^ (top (cell s1 u) - 1) \<le> A * 2 ^ sh" if "0 < top (cell s1 u)"
      using normal_mag [of "cell s1 u"] s1(6) that V(3) by simp
    ultimately have "Base ^ (top (cell s1 u) - 1) < Base ^ (top (cell s a) + (if sh = 0 then 0 else 1))" if "0 < top (cell s1 u)"
      using that by (meson le_less_trans)
    then have "top (cell s1 u) \<le> top (cell s a) + (if sh = 0 then 0 else 1)"
      by (cases "top (cell s1 u)") (auto simp: Suc_le_eq split: if_splits)
    then show ?thesis using s1(10) by (simp split: if_splits)
  qed
  obtain x n where x: "div_high (cell s1 u) (cell s1 v) = Ok x" "length (digs x) = length (digs (cell s1 u))"
    "top x = top (cell s1 v) + n" "top x \<le> top (cell s1 u) + 1" "mag x = mag (cell s1 u)" "mag (cell s1 u) < mag (cell s1 v) * Base ^ n"
    "sign x = sign (cell s1 u)" "static x = static (cell s1 u)"
    by (rule div_high_spec [of "cell s1 u" "cell s1 v"]) (use s1(6,12) tu tv V in simp_all)
  define vn where "vn = top (cell s1 v)"
  define s2 where "s2 = upd s1 u x"
  have m2: "0 < mpmindigits s2" using m b1(3) by (simp add: s2_def)
  obtain y where y: "mpnew s2 (4 * 32) = Ok (brk s2, (upd s2 (brk s2) y)\<lparr>brk := brk s2 + 1\<rparr>)" "isnum y 0" "\<not> static y"
    "digs y = replicate (max (DIGITS (4 * 32)) (mpmindigits s2)) 0"
    using mpnew_spec [OF _ m2, of "4 * 32"] by auto
  define t s3 where "t = brk s2" and "s3 = (upd s2 (brk s2) y)\<lparr>brk := brk s2 + 1\<rparr>"
  have y': "mpnew s2 (4 * 32) = Ok (t, s3)" by (simp only: y(1) t_def s3_def)
  have ly: "3 \<le> length (digs y)" unfolding y(4) by (simp add: DIGITS_def)
  have ut: "u < t" "v < t" "brk s3 = t + 1" "brk s \<le> t" using s1(5) uv(2) b1(1) by (simp_all add: t_def s3_def s2_def)
  have c3: "cell s3 u = x" "cell s3 v = cell s1 v" "cell s3 t = y" "\<And>c. c < brk s \<Longrightarrow> cell s3 c = cell s c" "mpmindigits s3 = mpmindigits s"
    using uv ut s1(4) b1 by (auto simp: s3_def s2_def t_def)
  define s4 where "s4 = (case quo of None \<Rightarrow> s3 | Some q \<Rightarrow> upd s3 q ((mpbits (cell s3 q) (int n * 32))\<lparr>top := n\<rparr>))"
  have qn: "q0 < brk s" "q0 \<noteq> u" "q0 \<noteq> v" "q0 \<noteq> t" "room (cell s3 q0)" if "quo = Some q0" for q0
    using q that s1(4,11) ut c3(4) by auto
  have c4: "cell s4 c = cell s3 c" if "c \<notin> set_option quo" for c
    using that by (cases quo) (simp_all add: s4_def)
  have b4: "brk s4 = brk s3" "mpmindigits s4 = mpmindigits s3" by (cases quo; simp add: s4_def)+
  have nq: "u \<notin> set_option quo" "v \<notin> set_option quo" "t \<notin> set_option quo"
    using qn(2-4) by (metis elem_set)+
  have c4': "cell s4 u = x" "cell s4 v = cell s1 v" "cell s4 t = y"
    using c4 nq c3(1-3) by metis+
  have q4: "room (cell s4 q0) \<and> top (cell s4 q0) = n \<and> n \<le> length (digs (cell s4 q0))
      \<and> sign (cell s4 q0) = sign (cell s q0) \<and> static (cell s4 q0) = static (cell s q0)" if "quo = Some q0" for q0
  proof -
    have rb: "room (mpbits (cell s3 q0) (int n * 32))" using qn(5) [OF that] by simp
    have ln: "n \<le> length (digs (mpbits (cell s3 q0) (int n * 32)))" using qn(5) [OF that] by simp
    show ?thesis using qn [OF that] that rb ln roomD(2) [OF rb] c3(4) by (simp add: s4_def room_def [of "_\<lparr>top := n\<rparr>"])
  qed
  have dv: "0 < vn" "vn \<le> length (digs (cell s1 v))" "digs (cell s1 v) ! (vn - 1) \<noteq> 0" "V = val (take vn (digs (cell s1 v)))"
    using s1(12) tv V(1) by (simp_all add: vn_def normal_def room_def mag_def)
  have T: "val (take (vn + n) (digs x)) = A * 2 ^ sh" using x(3,5) V(3) by (simp add: mag_def vn_def)
  define qd where "qd = map_option (\<lambda>q. digs (cell s4 q)) quo"
  have p1: "n + vn < length (digs x)" "A * 2 ^ sh < V * Base ^ n"
    using x(2,3,4,6) tu V(1,3) by (simp_all add: vn_def)
  have p3: "\<forall>q0. qd = Some q0 \<longrightarrow> n \<le> length q0" using q4 by (auto simp: qd_def)
  have "\<exists>u' q'. div_loop (digs (cell s1 v)) vn (digs y) n (digs x) qd = Ok (u', q') \<and> length u' = length (digs x)
     \<and> val (take vn u') = A * 2 ^ sh mod V \<and> (qd = None \<longrightarrow> q' = None)
     \<and> (\<forall>q0. qd = Some q0 \<longrightarrow> (\<exists>q1. q' = Some q1 \<and> length q1 = length q0 \<and> drop n q1 = drop n q0
        \<and> val (take n q1) = A * 2 ^ sh div V))"
    using div_loop_spec [OF dv(1-3) ly dv(4), of n "digs x" qd] p1 p3 unfolding T by simp
  then obtain ds qs where L: "div_loop (digs (cell s1 v)) vn (digs y) n (digs x) qd = Ok (ds, qs)"
    "length ds = length (digs x)" "val (take vn ds) = A * 2 ^ sh mod V" "qd = None \<longrightarrow> qs = None"
    "\<forall>q0. qd = Some q0 \<longrightarrow> (\<exists>q1. qs = Some q1 \<and> length q1 = length q0
        \<and> drop n q1 = drop n q0 \<and> val (take n q1) = A * 2 ^ sh div V)"
    by (elim exE conjE) (rule that; assumption)
  have dm: "A * 2 ^ sh div V = A div B" "A * 2 ^ sh mod V = (A mod B) * 2 ^ sh"
    unfolding V_def by (simp_all add: mod_mult_mult2)
  define s5 where "s5 = upd s4 u ((cell s4 u)\<lparr>digs := ds, top := vn\<rparr>)"
  have c5: "cell s5 c = cell s4 c" if "c \<noteq> u" for c using that by (simp add: s5_def)
  have u5: "top (cell s5 u) = vn" "digs (cell s5 u) = ds" "sign (cell s5 u) = sign (cell s a)" "static (cell s5 u) = static x"
    using c4'(1) x(7) s1(8) by (simp_all add: s5_def)
  have au: "a \<noteq> u" "b \<noteq> u" "a < brk s" "b < brk s" using a(2) b(2) s1(4) by auto
  have sg5: "sign (cell s5 c) = sign (cell s c)" if "c < brk s" for c
  proof -
    have "c \<noteq> u" using that s1(4) by simp
    then show ?thesis using c5 c4 [of c] c3(4) [OF that] q4 by (cases "c \<in> set_option quo") (auto simp: elem_set)
  qed
  have q5: "\<forall>q. quo = Some q \<longrightarrow> room (cell s5 q) \<and> top (cell s5 q) = n" using q4 qn c5 by metis
  have qs5: "\<forall>q. quo = Some q \<longrightarrow> (\<exists>p. qs = Some p \<and> length p = length (digs (cell s5 q)) \<and> val (take n p) = A div B)"
    using L(5) qn(2) c5 dm(1) unfolding qd_def by fastforce
  have Q0: "0 < A div B" using AB by (simp add: div_greater_zero_iff)
  obtain s6 where s6: "(case quo of None \<Rightarrow> Ok s5
         | Some q \<Rightarrow> obind (mpnorm ((cell s5 q)\<lparr>digs := the qs\<rparr>)) (\<lambda>x. let s = upd s5 q x in
           Ok (if sign (cell s a) \<noteq> sign (cell s b) then upd s q (x\<lparr>sign := - 1\<rparr>) else s))) = Ok s6"
    "same_but (set_option quo) s5 s6" "\<And>c. c \<notin> set_option quo \<Longrightarrow> cell s6 c = cell s5 c"
    "\<And>q. quo = Some q \<Longrightarrow> normal (cell s6 q) \<and> mag (cell s6 q) = A div B \<and> static (cell s6 q) = static (cell s5 q)
      \<and> sign (cell s6 q) = (if sign (cell s5 a) \<noteq> sign (cell s5 b) then - 1 else sign (cell s5 q))"
    "brk s6 = brk s5"
    using div_store_quotient [OF q5 qs5 Q0] by blast
  have u6: "cell s6 u = cell s5 u" using s6(3) nq(1) by simp
  have ru: "room (cell s6 u)" "0 < top (cell s6 u)" "mag (cell s6 u) = (A mod B) * 2 ^ sh"
    using u6 u5 L(2,3) dm(2) dv(1) x(2,3) tu x(4) by (auto simp: room_def mag_def vn_def)
  have rr: "\<forall>r. rmd = Some r \<longrightarrow> room (cell s6 r) \<and> r \<noteq> u"
  proof (intro allI impI)
    fix r0
    assume h: "rmd = Some r0"
    have n: "r0 < brk s" "room (cell s r0)" "r0 \<noteq> u" using r h s1(4) by auto
    have "cell s6 r0 = cell s r0" using s6(3) [of r0] c5 c4 [of r0] c3(4) n d h by (auto simp: elem_set)
    then show "room (cell s6 r0) \<and> r0 \<noteq> u" using n by simp
  qed
  obtain s7 where s7: "(case rmd of None \<Rightarrow> Ok s6
         | Some r \<Rightarrow> obind (mpright s6 u (int sh) r) (\<lambda>s.
             Ok (upd s r ((cell s r)\<lparr>sign := sign (cell s a)\<rparr>)))) = Ok s7"
    "same_but (set_option rmd) s6 s7" "\<And>c. c \<notin> set_option rmd \<Longrightarrow> cell s7 c = cell s6 c" "brk s7 = brk s6"
    "\<And>r. rmd = Some r \<Longrightarrow> normal (cell s7 r) \<and> mag (cell s7 r) = mag (cell s6 u) div 2 ^ sh
      \<and> static (cell s7 r) = static (cell s6 r)
      \<and> sign (cell s7 r) = (if r \<noteq> a then sign (cell s6 a) else if mag (cell s6 u) div 2 ^ sh = 0 then 1 else sign (cell s6 u))"
    using div_store_remainder [OF ru(1,2) s1(2) rr] by blast
  have rem: "mag (cell s6 u) div 2 ^ sh = A mod B" unfolding ru(3) by simp
  have tn: "c \<notin> set_option quo" "c \<notin> set_option rmd" if "brk s \<le> c" for c
    using that q r by (auto simp: elem_set)
  have c7: "cell s7 c = cell s5 c" if "brk s \<le> c" for c using s7(3) s6(3) tn that by simp
  have st: "\<not> static (cell s7 t)" "\<not> static (cell s7 u)" "v \<noteq> b \<Longrightarrow> \<not> static (cell s7 v)"
    using c7 [of t] c7 [of u] c7 [of v] c5 c4' y(3) u5(4) x(8) s1(4,9,11) ut uv by auto
  define fr :: "mpint \<Rightarrow> mpint" where "fr = (\<lambda>x. x\<lparr>digs := replicate (length (digs x)) 0\<rparr>)"
  have free: "mpfree s c = Ok (upd s c (fr (cell s c)))" if "\<not> static (cell s c)" for s c
    using that by (simp add: mpfree_def fr_def)
  have stfr: "static (fr x) = static x" for x by (simp add: fr_def)
  obtain s8 where s8: "obind (mpfree s7 t) (\<lambda>s. obind (mpfree s u) (\<lambda>s. if v \<noteq> b then mpfree s v else Ok s)) = Ok s8"
    "\<forall>c < brk s. cell s8 c = cell s7 c" "brk s8 = brk s7" "mpmindigits s8 = mpmindigits s7"
  proof -
    define sa where "sa = upd s7 t (fr (cell s7 t))"
    define sb where "sb = upd sa u (fr (cell sa u))"
    have "\<not> static (cell sa u)" using st(2) ut(1) by (simp add: sa_def)
    then have e: "mpfree s7 t = Ok sa" "mpfree sa u = Ok sb" using st(1) by (simp_all add: free sa_def sb_def)
    have cb: "\<forall>c < brk s. cell sb c = cell s7 c" using ut s1(4) by (auto simp: sb_def sa_def)
    show ?thesis
    proof (cases "v = b")
      case True
      then show ?thesis using e cb by (intro that [of sb]) (simp_all add: sb_def sa_def)
    next
      case False
      then have "\<not> static (cell sb v)" using st(3) ut(2) uv(1) by (simp add: sb_def sa_def)
      moreover have "brk s \<le> v" using False s1(11) by simp
      ultimately show ?thesis using e cb False free by (intro that [of "upd sb v (fr (cell sb v))"]) (auto simp: sb_def sa_def)
    qed
  qed
  have e2: "top (cell s2 v) = vn" using uv(1) by (simp add: s2_def vn_def)
  have e3: "top x - vn = n" using x(3) by (simp add: vn_def)
  have e5: "upd s4 u (x\<lparr>digs := ds, top := vn\<rparr>) = s5" by (simp add: s5_def c4'(1))
  have "mpdiv s a b quo rmd = Ok s8"
    unfolding mpdiv_def if_not_P [OF less_not_refl2 [OF tb]] c(1) obind.simps if_not_P [OF c(2)] s1(1) prod.case x(1)
      Let_def s2_def [symmetric] y'
    unfolding obind.simps prod.case e2 c3(1) e3 s4_def [symmetric] c4' qd_def [symmetric] L(1)
    unfolding obind.simps prod.case e5
    by (simp only: s6(1) [unfolded Let_def] s7(1) s8(1) obind.simps Let_def)
  moreover have "same_but (set_option quo \<union> set_option rmd) s s8"
  proof -
    have "cell s8 c = cell s c" if "c < brk s" "c \<notin> set_option quo" "c \<notin> set_option rmd" for c
      using s8(2) s7(3) s6(3) c5 [of c] c4 c3(4) that s1(4) by simp
    moreover have "brk s \<le> brk s8" using s8(3) s7(4) s6(5) b4(1) ut by (simp add: s5_def)
    moreover have "mpmindigits s8 = mpmindigits s" using s8(4) s7(2) s6(2) b4(2) c3(5) by (simp add: same_but_def s5_def)
    ultimately show ?thesis by (simp add: same_but_def)
  qed
  moreover have "normal (cell s8 q0) \<and> int (mag (cell s8 q0)) = \<bar>za\<bar> div \<bar>zb\<bar> \<and> static (cell s8 q0) = static (cell s q0)
      \<and> sign (cell s8 q0) = (if sign (cell s a) \<noteq> sign (cell s b) then - 1 else sign (cell s q0))" if h: "quo = Some q0" for q0
  proof -
    have "cell s8 q0 = cell s6 q0" using s8(2) s7(3) [of q0] qn(1) [OF h] d h by (auto simp: elem_set)
    moreover have "sign (cell s5 a) = sign (cell s a)" "sign (cell s5 b) = sign (cell s b)" "sign (cell s5 q0) = sign (cell s q0)"
      using sg5 au qn(1) [OF h] by blast+
    moreover have "static (cell s5 q0) = static (cell s q0)" using q4 [OF h] c5 [OF qn(2) [OF h]] by simp
    moreover have "int (A div B) = \<bar>za\<bar> div \<bar>zb\<bar>" using AB(1,2) by (simp add: zdiv_int)
    ultimately show ?thesis using s6(4) [OF h] by simp
  qed
  moreover have "normal (cell s8 r0) \<and> int (mag (cell s8 r0)) = \<bar>za\<bar> mod \<bar>zb\<bar> \<and> static (cell s8 r0) = static (cell s r0)
      \<and> (quo \<noteq> Some a \<longrightarrow> sign (cell s8 r0) = (if r0 = a \<and> \<bar>za\<bar> mod \<bar>zb\<bar> = 0 then 1 else sign (cell s a)))" if h: "rmd = Some r0" for r0
  proof -
    have l: "r0 < brk s" "r0 \<notin> set_option quo" "r0 \<noteq> u" using r h d rr by (auto simp: elem_set)
    have c8: "cell s8 r0 = cell s7 r0" using s8(2) l(1) by simp
    have c6: "cell s6 r0 = cell s r0" using s6(3) c5 c4 c3(4) l by simp
    have sa: "sign (cell s6 a) = sign (cell s a)" if "quo \<noteq> Some a" using s6(3) [of a] that sg5 au by (auto simp: elem_set)
    have mz: "A mod B = 0 \<longleftrightarrow> \<bar>za\<bar> mod \<bar>zb\<bar> = 0" "int (A mod B) = \<bar>za\<bar> mod \<bar>zb\<bar>"
      using AB(1,2) by (metis of_nat_eq_0_iff zmod_int, simp add: zmod_int)
    show ?thesis using s7(5) [OF h] sa c6 u6 u5(3) mz unfolding c8 rem by auto
  qed
  ultimately show ?thesis by (rule that)
qed

section \<open>Division of signed numbers\<close>

lemma mpdiv_signs:
  assumes a: "isnum (cell s a) za" "a < brk s" and b: "isnum (cell s b) zb" "b < brk s" "zb \<noteq> 0"
    and q: "q < brk s" "room (cell s q)" and r: "r < brk s" "room (cell s r)" and d: "q \<noteq> r" "q \<noteq> a"
    and m: "0 < mpmindigits s"
  obtains s' where "mpdiv s a b (Some q) (Some r) = Ok s'" "same_but {q, r} s s'"
    "sign (cell s q) = 1 \<or> sgn za \<noteq> sgn zb \<or> \<bar>za\<bar> < \<bar>zb\<bar> \<Longrightarrow> isnum (cell s' q) (sgn za * sgn zb * (\<bar>za\<bar> div \<bar>zb\<bar>))"
    "0 \<le> za \<or> za mod zb \<noteq> 0 \<or> r = a \<Longrightarrow> isnum (cell s' r) (sgn za * (\<bar>za\<bar> mod \<bar>zb\<bar>))"
proof (cases "\<bar>za\<bar> < \<bar>zb\<bar>")
  case True
  obtain s' where s': "mpdiv s a b (Some q) (Some r) = Ok s'" "same_but {q, r} s s'" "isnum (cell s' q) 0" "isnum (cell s' r) za"
    using mpdiv_less [of s a za b zb "Some q" "Some r"] a b q r d(1) True by (auto simp: insert_commute)
  have "sgn za * (\<bar>za\<bar> mod \<bar>zb\<bar>) = za" using True by (simp add: sgn_mult_abs)
  then show ?thesis using s' True by (intro that [of s']) simp_all
next
  case False
  obtain s' where s': "mpdiv s a b (Some q) (Some r) = Ok s'" "same_but {q, r} s s'"
    "normal (cell s' q)" "int (mag (cell s' q)) = \<bar>za\<bar> div \<bar>zb\<bar>"
    "sign (cell s' q) = (if sign (cell s a) \<noteq> sign (cell s b) then - 1 else sign (cell s q))"
    "normal (cell s' r)" "int (mag (cell s' r)) = \<bar>za\<bar> mod \<bar>zb\<bar>"
    "sign (cell s' r) = (if r = a \<and> \<bar>za\<bar> mod \<bar>zb\<bar> = 0 then 1 else sign (cell s a))"
    using mpdiv_main [of s a za b zb "Some q" "Some r"] a b q r d m False by (auto simp: insert_commute)
  note sg = isnum_sign [OF a(1)] isnum_sign [OF b(1)]
  show ?thesis
  proof (rule that [OF s'(1,2)])
    have pos: "0 < \<bar>za\<bar> div \<bar>zb\<bar>" using False b(3) by (simp add: pos_imp_zdiv_pos_iff)
    have z: "za \<noteq> 0" using False b(3) by auto
    assume "sign (cell s q) = 1 \<or> sgn za \<noteq> sgn zb \<or> \<bar>za\<bar> < \<bar>zb\<bar>"
    then show "isnum (cell s' q) (sgn za * sgn zb * (\<bar>za\<bar> div \<bar>zb\<bar>))"
      using s'(3,4,5) False pos z b(3) sg by (intro isnumI) (auto simp: sgn_if abs_mult split: if_splits)
  next
    assume h: "0 \<le> za \<or> za mod zb \<noteq> 0 \<or> r = a"
    have "\<bar>za\<bar> mod \<bar>zb\<bar> = 0 \<longleftrightarrow> za mod zb = 0" by (simp flip: dvd_eq_mod_eq_0)
    moreover have "0 \<le> \<bar>za\<bar> mod \<bar>zb\<bar>" using b(3) by simp
    ultimately show "isnum (cell s' r) (sgn za * (\<bar>za\<bar> mod \<bar>zb\<bar>))"
      using s'(6,7,8) h sg by (intro isnumI) (auto simp: sgn_if abs_mult split: if_splits)
  qed
qed

text \<open>C34: \<open>mpdiv\<close> divides with truncation towards zero, with any aliasing of its four arguments in which
  the two results are different cells and the quotient is not the dividend, for a quotient whose sign was
  positive and for a dividend that is not a negative multiple of the divisor (or is the remainder's cell).\<close>

theorem mpdiv_truncates:
  assumes "isnum (cell s a) za" "a < brk s" "isnum (cell s b) zb" "b < brk s" "zb \<noteq> 0"
    "q < brk s" "room (cell s q)" "r < brk s" "room (cell s r)" "q \<noteq> r" "q \<noteq> a" "0 < mpmindigits s"
    "sign (cell s q) = 1" "0 \<le> za \<or> za mod zb \<noteq> 0 \<or> r = a"
  shows "\<exists>s' Q R. mpdiv s a b (Some q) (Some r) = Ok s' \<and> same_but {q, r} s s'
    \<and> isnum (cell s' q) Q \<and> isnum (cell s' r) R
    \<and> za = Q * zb + R \<and> \<bar>R\<bar> < \<bar>zb\<bar> \<and> (R \<noteq> 0 \<longrightarrow> sgn R = sgn za)"
proof -
  obtain s' where s': "mpdiv s a b (Some q) (Some r) = Ok s'" "same_but {q, r} s s'"
    "isnum (cell s' q) (sgn za * sgn zb * (\<bar>za\<bar> div \<bar>zb\<bar>))" "isnum (cell s' r) (sgn za * (\<bar>za\<bar> mod \<bar>zb\<bar>))"
    using mpdiv_signs [of s a za b zb q r] assms by metis
  have "za = sgn za * \<bar>za\<bar>" by (simp add: sgn_mult_abs)
  also have "\<dots> = sgn za * (\<bar>za\<bar> div \<bar>zb\<bar> * \<bar>zb\<bar> + \<bar>za\<bar> mod \<bar>zb\<bar>)" by simp
  also have "\<dots> = sgn za * sgn zb * (\<bar>za\<bar> div \<bar>zb\<bar>) * zb + sgn za * (\<bar>za\<bar> mod \<bar>zb\<bar>)"
    by (simp add: algebra_simps abs_sgn)
  finally have "za = sgn za * sgn zb * (\<bar>za\<bar> div \<bar>zb\<bar>) * zb + sgn za * (\<bar>za\<bar> mod \<bar>zb\<bar>)" .
  moreover have "\<bar>sgn za * (\<bar>za\<bar> mod \<bar>zb\<bar>)\<bar> < \<bar>zb\<bar>" using assms(5) by (cases "za = 0") (simp_all add: abs_mult)
  moreover have "sgn (sgn za * (\<bar>za\<bar> mod \<bar>zb\<bar>)) = sgn za" if "sgn za * (\<bar>za\<bar> mod \<bar>zb\<bar>) \<noteq> 0"
    using that pos_mod_sign [of "\<bar>zb\<bar>" "\<bar>za\<bar>"] assms(5) by (simp add: sgn_mult sgn_1_pos order_less_le)
  ultimately show ?thesis using s' by blast
qed

theorem mpdiv_truncates_witness:
  "\<exists>s' Q R. mpdiv mps_example 0 1 (Some 2) (Some 0) = Ok s' \<and> same_but {2, 0} mps_example s'
    \<and> isnum (cell s' 2) Q \<and> isnum (cell s' 0) R
    \<and> - (2 ^ 32) = Q * (2 ^ 32 - 1) + R \<and> \<bar>R\<bar> < \<bar>2 ^ 32 - 1\<bar> \<and> (R \<noteq> 0 \<longrightarrow> sgn R = sgn (- (2 ^ 32)))"
  by (rule mpdiv_truncates [OF mps_example(1) _ mps_example(2) _ _ _ mps_example(4) _ mps_example(5) _ _ mps_example(7)])
    (simp_all add: mps_example mps_example_def)

text \<open>\<open>mpdiv\<close> never makes the sign of the quotient positive: with a negative number in the quotient's
  cell, the quotient of two numbers of the same sign comes out negative.\<close>

theorem mpdiv_stale_sign:
  assumes "isnum (cell s a) za" "a < brk s" "isnum (cell s b) zb" "b < brk s" "zb \<noteq> 0"
    "q < brk s" "room (cell s q)" "0 < mpmindigits s" "sign (cell s q) = - 1" "0 < za * zb" "\<bar>zb\<bar> \<le> \<bar>za\<bar>"
  shows "\<exists>s'. mpdiv s a b (Some q) None = Ok s' \<and> isnum (cell s' q) (- (\<bar>za\<bar> div \<bar>zb\<bar>)) \<and> 0 < \<bar>za\<bar> div \<bar>zb\<bar>"
proof -
  obtain s' where s': "mpdiv s a b (Some q) None = Ok s'" "normal (cell s' q)" "int (mag (cell s' q)) = \<bar>za\<bar> div \<bar>zb\<bar>"
    "sign (cell s' q) = (if sign (cell s a) \<noteq> sign (cell s b) then - 1 else sign (cell s q))"
    using mpdiv_main [of s a za b zb "Some q" None] assms by auto
  have pos: "0 < \<bar>za\<bar> div \<bar>zb\<bar>" using assms(5,11) by (simp add: pos_imp_zdiv_pos_iff)
  then have "isnum (cell s' q) (- (\<bar>za\<bar> div \<bar>zb\<bar>))"
    using s'(2-4) assms(9) by (intro isnumI) (auto split: if_splits)
  then show ?thesis using s'(1) pos by blast
qed

theorem mpdiv_stale_sign_witness:
  "\<exists>s'. mpdiv mps_example 0 0 (Some 0) None = Ok s' \<and> isnum (cell s' 0) (- 1)"
  using mpdiv_stale_sign [OF mps_example(1) _ mps_example(1) _ _ _ mps_example(5) mps_example(7)] mps_example(6)
  by (auto simp: mps_example_def)

lemma mpmod_spec:
  assumes b: "isnum (cell s b) z" "b < brk s" and m: "isnum (cell s mc) m" "mc < brk s" "0 < m"
    and r: "r < brk s" "room (cell s r)" "r \<noteq> mc \<or> 0 \<le> z" and k: "0 < mpmindigits s"
  obtains s' where "mpmod s b mc r = Ok s'" "same_but {r} s s'" "static (cell s' r) = static (cell s r)"
    "isnum (cell s' r) (if z \<le> - m \<and> z mod m = 0 \<and> r \<noteq> b then m else z mod m)"
proof -
  have m0: "m \<noteq> 0" using m(3) by simp
  obtain s1 where s1: "mpdiv s b mc None (Some r) = Ok s1" "same_but {r} s s1" "normal (cell s1 r)" "static (cell s1 r) = static (cell s r)"
    "int (mag (cell s1 r)) = \<bar>z\<bar> mod m" "sign (cell s1 r) = (if z < 0 \<and> \<not> (r = b \<and> \<bar>z\<bar> mod m = 0) then - 1 else 1)"
  proof (cases "\<bar>z\<bar> < m")
    case True
    then obtain s' where s': "mpdiv s b mc None (Some r) = Ok s'" "same_but {r} s s'" "isnum (cell s' r) z" "static (cell s' r) = static (cell s r)"
      using mpdiv_less [of s b z mc m None "Some r"] b m m0 r(1,2) by auto
    then show ?thesis using isnumD(1) [OF s'(3)] isnum_mag [OF s'(3)] isnum_sign [OF s'(3)] True m(3)
      by (intro that [of s']) auto
  next
    case False
    then obtain s' where s': "mpdiv s b mc None (Some r) = Ok s'" "same_but {r} s s'" "normal (cell s' r)" "static (cell s' r) = static (cell s r)"
      "int (mag (cell s' r)) = \<bar>z\<bar> mod m" "sign (cell s' r) = (if r = b \<and> \<bar>z\<bar> mod m = 0 then 1 else sign (cell s b))"
      using mpdiv_main [of s b z mc m None "Some r"] b m m0 r(1,2) k by auto
    then show ?thesis using isnum_sign [OF b(1)] by (intro that [of s']) auto
  qed
  have mod: "z mod m = (if z < 0 \<and> \<bar>z\<bar> mod m \<noteq> 0 then m - \<bar>z\<bar> mod m else \<bar>z\<bar> mod m)"
    using zmod_zminus1_eq_if [of "\<bar>z\<bar>" m] by (cases "z < 0") auto
  have lim: "z \<le> - m" if "z < 0" "\<bar>z\<bar> mod m = 0"
    using that zdvd_imp_le [of m "\<bar>z\<bar>"] by (simp add: dvd_eq_mod_eq_0)
  show ?thesis
  proof (cases "sign (cell s1 r) < 0")
    case False
    have "isnum (cell s1 r) (\<bar>z\<bar> mod m)"
      using s1(3,5,6) False m(3) by (intro isnumI) (auto split: if_splits simp: pos_mod_sign not_less)
    moreover have "mpmod s b mc r = Ok s1" using s1(1) False by (simp add: mpmod_def)
    moreover have "(if z \<le> - m \<and> z mod m = 0 \<and> r \<noteq> b then m else z mod m) = \<bar>z\<bar> mod m"
    proof (cases "z < 0")
      case True
      then have "r = b" "\<bar>z\<bar> mod m = 0" using False s1(6) by (auto split: if_splits)
      then show ?thesis using mod by simp
    qed (use m(3) in simp)
    ultimately show ?thesis using s1(2,4) by (intro that [of s1]) simp_all
  next
    case True
    have neg: "z < 0" "\<not> (r = b \<and> \<bar>z\<bar> mod m = 0)" using True s1(6) by (auto split: if_splits)
    have "cell s1 mc = cell s mc" using s1(2) m(2) r(3) neg(1) by (auto simp: same_but_def)
    then have mc: "isnum (cell s1 mc) m" using m(1) by simp
    obtain x where x: "mpmagsub s1 mc r r = Ok (upd s1 r x)" "isnum x (int (mag (cell s1 mc)) - int (mag (cell s1 r)))"
      "static x = static (cell s1 r)"
      by (rule mpmagsub_spec [OF isnumD(1) [OF mc] s1(3) room_normal [OF s1(3)]])
    have sm: "sign (cell s1 mc) = 1" using isnum_sign [OF mc] m(3) by simp
    have "mpadd s1 mc r r = Ok (upd s1 r x)" using True sm x(1) by (simp add: mpadd_def)
    then have "mpmod s b mc r = Ok (upd s1 r x)" using s1(1) True by (simp add: mpmod_def)
    moreover have "isnum x (m - \<bar>z\<bar> mod m)" using x(2) s1(5) isnum_mag [OF mc] m(3) by simp
    moreover have "(if z \<le> - m \<and> z mod m = 0 \<and> r \<noteq> b then m else z mod m) = m - \<bar>z\<bar> mod m"
    proof (cases "\<bar>z\<bar> mod m = 0")
      case True
      then show ?thesis using lim neg mod by simp
    next
      case False
      then have e: "z mod m = m - \<bar>z\<bar> mod m" using neg(1) by (subst mod) simp
      then have "z mod m \<noteq> 0" using pos_mod_bound [OF m(3), of "\<bar>z\<bar>"] by linarith
      then show ?thesis using e by simp
    qed
    moreover have "same_but {r} s (upd s1 r x)" using s1(2) by (auto simp: same_but_def)
    ultimately show ?thesis using x(3) s1(4) by (intro that [of "upd s1 r x"]) simp_all
  qed
qed

text \<open>C39: \<open>mpmod\<close> leaves the residue between 0 and the modulus, except that a negative multiple of the
  modulus leaves the modulus itself, unless the result replaces the number that is reduced.\<close>

theorem mpmod_int:
  assumes "isnum (cell s b) z" "b < brk s" "isnum (cell s mc) m" "mc < brk s" "0 < m"
    "r < brk s" "room (cell s r)" "r \<noteq> mc \<or> 0 \<le> z" "0 < mpmindigits s"
  shows "\<exists>s'. mpmod s b mc r = Ok s' \<and> same_but {r} s s'
    \<and> isnum (cell s' r) (if z \<le> - m \<and> z mod m = 0 \<and> r \<noteq> b then m else z mod m)"
  using mpmod_spec [OF assms] by metis

theorem mpmod_int_witness:
  "\<exists>s'. mpmod mps_example 0 1 2 = Ok s' \<and> same_but {2} mps_example s' \<and> isnum (cell s' 2) (2 ^ 32 - 2)"
  using mpmod_int [OF mps_example(1) _ mps_example(2) _ _ _ mps_example(4) _ mps_example(7)] mps_example(6)
  by simp

end
