(* ===== verification/MpGcd.thy ===== *)
theory MpGcd
  imports MpDiv
begin

unbundle bit_operations_syntax

text \<open>
  Greatest common divisors and inverses, \<open>libmp/port\<close>: \<open>mpextendedgcd.c\<close> and \<open>mpinvert.c\<close>.
  A call is \<open>None\<close> when it does not return.  Numbers live in the store of \<open>MpInt\<close>.
\<close>

section \<open>Loops that may not end\<close>

definition onext :: "'a outcome \<Rightarrow> ('a \<Rightarrow> 'b outcome option) \<Rightarrow> 'b outcome option" where
  "onext m f = (case m of Ok x \<Rightarrow> f x | Fail \<Rightarrow> Some Fail | Undef \<Rightarrow> Some Undef)"

definition pnext :: "'a outcome option \<Rightarrow> ('a \<Rightarrow> 'b outcome option) \<Rightarrow> 'b outcome option" where
  "pnext m f = Option.bind m (\<lambda>r. onext r f)"

lemma onext_simps [simp]: "onext (Ok x) f = f x" "onext Fail f = Some Fail" "onext Undef f = Some Undef"
  by (simp_all add: onext_def)

lemma pnext_simps [simp]: "pnext (Some r) f = onext r f" "pnext None f = None"
  by (simp_all add: pnext_def)

lemma onext_mono [partial_function_mono]:
  "(\<And>x. mono_option (g x)) \<Longrightarrow> mono_option (\<lambda>f. onext m (\<lambda>x. g x f))"
  by (cases m) (simp_all add: monotone_def flat_ord_def)

lemma pnext_mono [partial_function_mono]:
  "mono_option h \<Longrightarrow> (\<And>x. mono_option (g x)) \<Longrightarrow> mono_option (\<lambda>f. pnext (h f) (\<lambda>x. g x f))"
  unfolding pnext_def by (intro bind_mono onext_mono)

text \<open>\<open>while(test) body\<close>.\<close>

partial_function (option) owhile :: "('s \<Rightarrow> bool outcome) \<Rightarrow> ('s \<Rightarrow> 's outcome option) \<Rightarrow> 's \<Rightarrow> 's outcome option" where
  "owhile test body s = onext (test s) (\<lambda>t. if t then pnext (body s) (owhile test body) else Some (Ok s))"

text \<open>The rule for a loop: an invariant and a measure.\<close>

lemma owhile_rule:
  assumes test: "\<And>s. I s \<Longrightarrow> \<exists>t. test s = Ok t"
    and body: "\<And>s. I s \<Longrightarrow> test s = Ok True \<Longrightarrow> \<exists>s'. body s = Some (Ok s') \<and> I s' \<and> m s' < (m s :: nat)"
  shows "I s \<Longrightarrow> \<exists>s'. owhile test body s = Some (Ok s') \<and> I s' \<and> test s' = Ok False"
proof (induction "m s" arbitrary: s rule: less_induct)
  case less
  obtain t where t: "test s = Ok t" using test [OF less.prems] by blast
  show ?case
  proof (cases t)
    case False
    then show ?thesis using t less.prems by (simp add: owhile.simps [of _ _ s])
  next
    case True
    then have "test s = Ok True" using t by simp
    then obtain s1 where s1: "body s = Some (Ok s1)" "I s1" "m s1 < m s" using body [OF less.prems] by blast
    then have "owhile test body s = owhile test body s1" using t True by (simp add: owhile.simps [of _ _ s])
    then show ?thesis using less.hyps [OF s1(3,2)] by simp
  qed
qed

section \<open>Pairs of cofactors\<close>

text \<open>What the algorithm asks of the store of numbers: \<open>num s c z\<close> says that cell \<open>c\<close> holds \<open>z\<close>,
  \<open>kept R s s'\<close> that only the cells in \<open>R\<close> changed.\<close>

locale int_cells =
  fixes num :: "'s \<Rightarrow> nat \<Rightarrow> int \<Rightarrow> bool"
    and kept :: "nat set \<Rightarrow> 's \<Rightarrow> 's \<Rightarrow> bool"
    and add :: "'s \<Rightarrow> nat \<Rightarrow> nat \<Rightarrow> nat \<Rightarrow> 's outcome"
    and sub :: "'s \<Rightarrow> nat \<Rightarrow> nat \<Rightarrow> nat \<Rightarrow> 's outcome"
    and half :: "'s \<Rightarrow> nat \<Rightarrow> 's outcome"
    and evenp :: "'s \<Rightarrow> nat \<Rightarrow> bool outcome"
  assumes add_num: "num s p x \<Longrightarrow> num s q y \<Longrightarrow> \<exists>s'. add s p q p = Ok s' \<and> kept {p} s s' \<and> num s' p (x + y)"
    and sub_num: "num s p x \<Longrightarrow> num s q y \<Longrightarrow> \<exists>s'. sub s p q p = Ok s' \<and> kept {p} s s' \<and> num s' p (x - y)"
    and half_num: "num s p x \<Longrightarrow> even x \<Longrightarrow> \<exists>s'. half s p = Ok s' \<and> kept {p} s s' \<and> num s' p (x div 2)"
    and evenp_num: "num s p x \<Longrightarrow> evenp s p = Ok (even x)"
    and kept_num: "kept R s s' \<Longrightarrow> c \<notin> R \<Longrightarrow> num s c z \<Longrightarrow> num s' c z"
    and kept_refl: "kept R s s"
    and kept_trans: "kept R s s' \<Longrightarrow> kept R' s' s'' \<Longrightarrow> kept (R \<union> R') s s''"
begin

text \<open>Three subtractions.\<close>

lemma sub_pair:
  assumes n: "num s u U" "num s v V" "num s A x" "num s C x'" "num s B y" "num s D y'"
    and d: "distinct [u, v, A, B, C, D]"
  obtains s' where "obind (sub s u v u) (\<lambda>s. obind (sub s A C A) (\<lambda>s. sub s B D B)) = Ok s'"
    "kept {u, A, B} s s'" "num s' u (U - V)" "num s' A (x - x')" "num s' B (y - y')"
proof -
  obtain s1 where s1: "sub s u v u = Ok s1" "kept {u} s s1" "num s1 u (U - V)" using sub_num [OF n(1,2)] by blast
  have n1: "num s1 A x" "num s1 C x'" "num s1 B y" "num s1 D y'" using kept_num [OF s1(2)] n d by auto
  obtain s2 where s2: "sub s1 A C A = Ok s2" "kept {A} s1 s2" "num s2 A (x - x')" using sub_num [OF n1(1,2)] by blast
  have n2: "num s2 u (U - V)" "num s2 B y" "num s2 D y'" using kept_num [OF s2(2)] s1(3) n1 d by auto
  obtain s3 where s3: "sub s2 B D B = Ok s3" "kept {B} s2 s3" "num s3 B (y - y')" using sub_num [OF n2(2,3)] by blast
  have "num s3 u (U - V)" "num s3 A (x - x')" using kept_num [OF s3(2)] n2(1) s2(3) d by auto
  moreover have "kept {u, A, B} s s3" using kept_trans [OF kept_trans [OF s1(2) s2(2)] s3(2)] by (simp add: insert_commute)
  ultimately show ?thesis using s1(1) s2(1) s3(1,3) by (intro that [of s3]) simp_all
qed

text \<open>The cofactors of a number that is halved: when they are not both even, they are made even
  first.\<close>

lemma halve_pair:
  assumes n: "num s u U" "num s A x" "num s B y" "num s a p" "num s b q" and d: "distinct [u, A, B, a, b]"
    and U: "even U" "p * x + q * y = U" and pq: "odd p \<or> odd q"
  obtains s' x' y' where
    "obind (half s u) (\<lambda>s. obind (evenp s A) (\<lambda>e. obind (if e then evenp s B else Ok False) (\<lambda>e.
       obind (if e then Ok s else obind (add s A b A) (\<lambda>s. sub s B a B)) (\<lambda>s. obind (half s A) (\<lambda>s. half s B))))) = Ok s'"
    "kept {u, A, B} s s'" "num s' u (U div 2)" "num s' A x'" "num s' B y'" "p * x' + q * y' = U div 2"
proof -
  define e where "e = (even x \<and> even y)"
  define x1 y1 where "x1 = (if e then x else x + q)" and "y1 = (if e then y else y - p)"
  have ev: "even x1" "even y1"
    using U pq by (auto simp: x1_def y1_def e_def)
  have sm: "p * x1 + q * y1 = U" using U(2) by (simp add: x1_def y1_def algebra_simps)
  have hs: "p * (x1 div 2) + q * (y1 div 2) = U div 2"
    using ev sm by (auto elim!: evenE simp: algebra_simps)
  obtain s1 where s1: "half s u = Ok s1" "kept {u} s s1" "num s1 u (U div 2)" using half_num [OF n(1) U(1)] by blast
  have n1: "num s1 A x" "num s1 B y" "num s1 a p" "num s1 b q" using kept_num [OF s1(2)] n d by auto
  obtain s2 where s2: "(if e then Ok s1 else obind (add s1 A b A) (\<lambda>s. sub s B a B)) = Ok s2"
    "kept {A, B} s1 s2" "num s2 A x1" "num s2 B y1"
  proof (cases e)
    case True
    then show ?thesis using n1 kept_refl by (intro that [of s1]) (simp_all add: x1_def y1_def)
  next
    case False
    obtain t where t: "add s1 A b A = Ok t" "kept {A} s1 t" "num t A (x + q)" using add_num [OF n1(1,4)] by blast
    have nt: "num t B y" "num t a p" using kept_num [OF t(2)] n1 d by auto
    obtain w where w: "sub t B a B = Ok w" "kept {B} t w" "num w B (y - p)" using sub_num [OF nt] by blast
    have "num w A (x + q)" using kept_num [OF w(2)] t(3) d by auto
    moreover have "kept {A, B} s1 w" using kept_trans [OF t(2) w(2)] by (simp add: insert_commute)
    ultimately show ?thesis using t(1) w(1,3) False by (intro that [of w]) (simp_all add: x1_def y1_def)
  qed
  obtain s3 where s3: "half s2 A = Ok s3" "kept {A} s2 s3" "num s3 A (x1 div 2)" using half_num [OF s2(3) ev(1)] by blast
  have n3: "num s3 B y1" using kept_num [OF s3(2)] s2(4) d by auto
  obtain s4 where s4: "half s3 B = Ok s4" "kept {B} s3 s4" "num s4 B (y1 div 2)" using half_num [OF n3 ev(2)] by blast
  have k: "kept {u, A, B} s s4"
    using kept_trans [OF kept_trans [OF kept_trans [OF s1(2) s2(2)] s3(2)] s4(2)] by (simp add: insert_commute)
  have "num s4 u (U div 2)" "num s4 A (x1 div 2)"
    using kept_num [OF s4(2)] kept_num [OF s3(2)] kept_num [OF s2(2)] s1(3) s3(3) d by auto
  moreover have "obind (evenp s1 A) (\<lambda>e. if e then evenp s1 B else Ok False) = Ok e"
    using evenp_num n1 by (simp add: e_def)
  ultimately show ?thesis using s1(1) s2(1) s3(1) s4(1,3) k hs evenp_num [OF n1(1)] evenp_num [OF n1(2)]
    by (intro that [of s4 "x1 div 2" "y1 div 2"]) (simp_all add: e_def split: if_splits)
qed

end

section \<open>The store has the interface\<close>

text \<open>\<open>iseven\<close> looks at the lowest digit, also of a zero.\<close>

definition iseven :: "mps \<Rightarrow> nat \<Rightarrow> bool outcome" where
  "iseven s c = obind (rdat (digs (cell s c)) 0) (\<lambda>d. Ok (d AND 1 = 0))"

definition cnum :: "mps \<Rightarrow> nat \<Rightarrow> int \<Rightarrow> bool" where
  "cnum s c z \<longleftrightarrow> isnum (cell s c) z \<and> clean (cell s c)"

definition kept :: "nat set \<Rightarrow> mps \<Rightarrow> mps \<Rightarrow> bool" where
  "kept R s s' \<longleftrightarrow> brk s' = brk s \<and> mpmindigits s' = mpmindigits s
    \<and> (\<forall>c. c \<notin> R \<longrightarrow> cell s' c = cell s c) \<and> (\<forall>c. static (cell s' c) = static (cell s c))"

lemma kept_upd: "static x = static (cell s r) \<Longrightarrow> kept {r} s (upd s r x)"
  by (auto simp: kept_def)

lemma mag_even: "room x \<Longrightarrow> 0 < top x \<Longrightarrow> even (mag x) \<longleftrightarrow> digs x ! 0 AND 1 = 0"
proof -
  assume h: "room x" "0 < top x"
  obtain d ds where d: "digs x = d # ds" using roomD(2) [OF h(1)] by (cases "digs x") auto
  obtain t where t: "top x = Suc t" using h(2) by (cases "top x") auto
  have "even (mag x) \<longleftrightarrow> even (unat d)" by (simp add: mag_def d t Base_def)
  also have "\<dots> \<longleftrightarrow> d AND 1 = 0" by (simp add: and_one_eq word_unat_eq_iff unat_mod even_iff_mod_2_eq_zero)
  finally show ?thesis by (simp add: d)
qed

lemma iseven_num: "cnum s c z \<Longrightarrow> iseven s c = Ok (even z)"
proof -
  assume h: "cnum s c z"
  then have n: "isnum (cell s c) z" and r: "room (cell s c)" by (simp_all add: cnum_def isnum_def)
  have l: "0 < length (digs (cell s c))" using roomD(2) [OF r] by simp
  have "digs (cell s c) ! 0 AND 1 = 0 \<longleftrightarrow> even z"
  proof (cases "top (cell s c) = 0")
    case True
    then show ?thesis using h isnum_zero [OF n] by (simp add: cnum_def clean_def)
  next
    case False
    then have "even (mag (cell s c)) \<longleftrightarrow> digs (cell s c) ! 0 AND 1 = 0" using r by (intro mag_even) simp_all
    moreover have "even (mag (cell s c)) \<longleftrightarrow> even z" using isnum_mag [OF n] by (metis even_of_nat even_abs_add_iff dvd_abs_iff)
    ultimately show ?thesis by simp
  qed
  then show ?thesis using l by (simp add: iseven_def rdat_def)
qed

lemma cnumD: "cnum s c z \<Longrightarrow> isnum (cell s c) z" "cnum s c z \<Longrightarrow> clean (cell s c)" "cnum s c z \<Longrightarrow> room (cell s c)"
  by (simp_all add: cnum_def isnum_def)

lemma cnum_upd [simp]: "cnum (upd s r x) r z \<longleftrightarrow> isnum x z \<and> clean x"
  by (simp add: cnum_def)

lemma mpadd_cnum:
  "cnum s p x \<Longrightarrow> cnum s q y \<Longrightarrow> \<exists>s'. mpadd s p q p = Ok s' \<and> kept {p} s s' \<and> cnum s' p (x + y)"
  by (rule mpadd_spec [of s p x q y p]) (auto intro!: kept_upd exI dest: cnumD)

lemma mpsub_cnum:
  "cnum s p x \<Longrightarrow> cnum s q y \<Longrightarrow> \<exists>s'. mpsub s p q p = Ok s' \<and> kept {p} s s' \<and> cnum s' p (x - y)"
  by (rule mpsub_spec [of s p x q y p]) (auto intro!: kept_upd exI dest: cnumD)

lemma half_cnum:
  assumes "cnum s p x" "even x"
  shows "\<exists>s'. mpright s p 1 p = Ok s' \<and> kept {p} s s' \<and> cnum s' p (x div 2)"
proof -
  have k: "0 \<le> x \<or> nat 1 div 32 < top (cell s p)" using isnum_zero [OF cnumD(1) [OF assms(1)]] by auto
  obtain w where w: "mpright s p 1 p = Ok (upd s p w)" "isnum w (shr x (nat 1))" "static w = static (cell s p)" "clean w"
    using mpright_spec [OF cnumD(1) [OF assms(1)] cnumD(3) [OF assms(1)] _ k] cnumD(2) [OF assms(1)] by auto
  moreover have "shr x (nat 1) = x div 2" using assms(2) by (auto simp: shr_def elim!: evenE)
  ultimately show ?thesis using kept_upd [of w s p] by auto
qed

interpretation mpcells: int_cells cnum kept mpadd mpsub "\<lambda>s c. mpright s c 1 c" iseven
proof
  show "kept R s s' \<Longrightarrow> c \<notin> R \<Longrightarrow> cnum s c z \<Longrightarrow> cnum s' c z" for R s s' c z by (simp add: kept_def cnum_def)
  show "kept R s s" for R s by (simp add: kept_def)
  show "kept R s s' \<Longrightarrow> kept R' s' s'' \<Longrightarrow> kept (R \<union> R') s s''" for R R' s s' s'' by (simp add: kept_def)
qed (rule mpadd_cnum mpsub_cnum half_cnum iseven_num; assumption)+

section \<open>The algorithm\<close>

text \<open>One pass of the loop that halves \<open>u\<close> (or \<open>v\<close>) and its cofactors, and the loop.\<close>

definition bezout_halve :: "nat \<Rightarrow> nat \<Rightarrow> nat \<Rightarrow> nat \<Rightarrow> nat \<Rightarrow> mps \<Rightarrow> mps outcome" where
  "bezout_halve a b u A B s =
     obind (mpright s u 1 u) (\<lambda>s. obind (iseven s A) (\<lambda>e. obind (if e then iseven s B else Ok False) (\<lambda>e.
     obind (if e then Ok s else obind (mpadd s A b A) (\<lambda>s. mpsub s B a B)) (\<lambda>s.
     obind (mpright s A 1 A) (\<lambda>s. mpright s B 1 B)))))"

definition bezout_halves :: "nat \<Rightarrow> nat \<Rightarrow> nat \<Rightarrow> nat \<Rightarrow> nat \<Rightarrow> mps \<Rightarrow> mps outcome option" where
  "bezout_halves a b u A B = owhile (\<lambda>s. iseven s u) (\<lambda>s. Some (bezout_halve a b u A B s))"

text \<open>One pass of the endless loop, up to its test.\<close>

definition bezout_round :: "nat \<Rightarrow> nat \<Rightarrow> nat \<Rightarrow> nat \<Rightarrow> nat \<Rightarrow> nat \<Rightarrow> nat \<Rightarrow> nat \<Rightarrow> mps \<Rightarrow> mps outcome option" where
  "bezout_round a b u v A B C D s =
     pnext (bezout_halves a b u A B s) (\<lambda>s. pnext (bezout_halves a b v C D s) (\<lambda>s.
     Some (obind (mpcmp (cell s u) (cell s v)) (\<lambda>c.
       if 0 \<le> c then obind (mpsub s u v u) (\<lambda>s. obind (mpsub s A C A) (\<lambda>s. mpsub s B D B))
       else obind (mpsub s v u v) (\<lambda>s. obind (mpsub s C A C) (\<lambda>s. mpsub s D B D))))))"

definition bezout_loop :: "nat \<Rightarrow> nat \<Rightarrow> nat \<Rightarrow> nat \<Rightarrow> nat \<Rightarrow> nat \<Rightarrow> nat \<Rightarrow> nat \<Rightarrow> mps \<Rightarrow> mps outcome option" where
  "bezout_loop a b u v A B C D s =
     pnext (bezout_round a b u v A B C D s)
       (owhile (\<lambda>s. Ok (top (cell s u) \<noteq> 0)) (bezout_round a b u v A B C D))"

text \<open>The loop that takes common factors of two out; \<open>g\<close> counts them.\<close>

definition strip_twos :: "nat \<Rightarrow> nat \<Rightarrow> nat \<times> mps \<Rightarrow> (nat \<times> mps) outcome option" where
  "strip_twos a b = owhile (\<lambda>(g, s). obind (iseven s a) (\<lambda>e. if e then iseven s b else Ok False))
     (\<lambda>(g, s). Some (obind (mpright s a 1 a) (\<lambda>s. obind (mpright s b 1 b) (\<lambda>s. Ok (g + 1, s)))))"

fun mpfrees :: "nat list \<Rightarrow> mps \<Rightarrow> mps outcome" where
  "mpfrees [] s = Ok s"
| "mpfrees (c # cs) s = obind (mpfree s c) (mpfrees cs)"

text \<open>What follows the copies of \<open>a\<close> and \<open>b\<close>.\<close>

definition bezout_main :: "nat \<Rightarrow> nat \<Rightarrow> nat \<Rightarrow> nat \<Rightarrow> nat \<Rightarrow> mps \<Rightarrow> mps outcome option" where
  "bezout_main a b v x y s =
     pnext (strip_twos a b (0, s)) (\<lambda>(g, s).
     onext (mpcopy s (cell s a)) (\<lambda>(u, s). onext (assign_opt (cell s b) (Some v) s) (\<lambda>s.
     onext (mpcopy s mpone) (\<lambda>(A, s). onext (mpcopy s mpzero) (\<lambda>(B, s).
     onext (mpcopy s mpzero) (\<lambda>(C, s). onext (mpcopy s mpone) (\<lambda>(D, s).
     pnext (bezout_loop a b u v A B C D s) (\<lambda>s. Some (
       obind (assign_opt (cell s C) (Some x) s) (\<lambda>s. obind (assign_opt (cell s D) (Some y) s) (\<lambda>s.
       obind (mpleft s v (int g) v) (mpfrees [A, B, C, D, u, a, b]))))))))))))"

definition mpextendedgcd :: "mps \<Rightarrow> nat \<Rightarrow> nat \<Rightarrow> nat \<Rightarrow> nat \<Rightarrow> nat \<Rightarrow> mps outcome option" where
  "mpextendedgcd s a b v x y =
     (if sign (cell s a) < 0 \<or> sign (cell s b) < 0 then
        Some (obind (assign_opt mpzero (Some v) s) (\<lambda>s. obind (assign_opt mpzero (Some y) s) (assign_opt mpzero (Some x))))
      else if top (cell s a) = 0 then
        Some (obind (assign_opt (cell s b) (Some v) s) (\<lambda>s. obind (assign_opt mpone (Some y) s) (assign_opt mpzero (Some x))))
      else if top (cell s b) = 0 then
        Some (obind (assign_opt (cell s a) (Some v) s) (\<lambda>s. obind (assign_opt mpone (Some x) s) (assign_opt mpzero (Some y))))
      else onext (mpcopy s (cell s a)) (\<lambda>(a', s). onext (mpcopy s (cell s b)) (\<lambda>(b', s).
        bezout_main a' b' v x y s)))"

definition mpinvert :: "mps \<Rightarrow> nat \<Rightarrow> nat \<Rightarrow> nat \<Rightarrow> mps outcome option" where
  "mpinvert s b m res =
     onext (mpnew s 0) (\<lambda>(dc1, s). onext (mpnew s 0) (\<lambda>(dc2, s).
     pnext (mpextendedgcd s b m dc1 res dc2) (\<lambda>s. Some (
     obind (mpcmp (cell s dc1) mpone) (\<lambda>r. obind (mpfree s dc1) (\<lambda>s. obind (mpfree s dc2) (\<lambda>s.
     if r \<noteq> 0 then Fail else mpmod s res m res)))))))"

section \<open>The loops end with cofactors of the greatest common divisor\<close>

text \<open>Cell \<open>u\<close> holds \<open>U\<close>, and \<open>A\<close>, \<open>B\<close> cofactors of it.\<close>

definition cofs :: "int \<Rightarrow> int \<Rightarrow> nat \<Rightarrow> nat \<Rightarrow> nat \<Rightarrow> nat \<Rightarrow> nat \<Rightarrow> mps \<Rightarrow> int \<Rightarrow> bool" where
  "cofs p q a b u A B s U \<longleftrightarrow> cnum s a p \<and> cnum s b q \<and> cnum s u U
     \<and> (\<exists>x y. cnum s A x \<and> cnum s B y \<and> p * x + q * y = U)"

lemma cofs_kept: "kept R s s' \<Longrightarrow> {a, b, u, A, B} \<inter> R = {} \<Longrightarrow> cofs p q a b u A B s U \<Longrightarrow> cofs p q a b u A B s' U"
  unfolding cofs_def by (auto simp: kept_def cnum_def)

lemma kept_trans_same: "kept R s s' \<Longrightarrow> kept R s' s'' \<Longrightarrow> kept R s s''"
  by (simp add: kept_def)

lemma kept_mono: "kept R s s' \<Longrightarrow> R \<subseteq> R' \<Longrightarrow> kept R' s s'"
  by (auto simp: kept_def)

lemma bezout_halve_cofs:
  assumes c: "cofs p q a b u A B s U" and d: "distinct [u, A, B, a, b]" and U: "even U" and pq: "odd p \<or> odd q"
  obtains s' where "bezout_halve a b u A B s = Ok s'" "kept {u, A, B} s s'" "cofs p q a b u A B s' (U div 2)"
proof -
  obtain x y where n: "cnum s u U" "cnum s A x" "cnum s B y" "cnum s a p" "cnum s b q" and e: "p * x + q * y = U"
    using c unfolding cofs_def by blast
  obtain s' x' y' where s': "bezout_halve a b u A B s = Ok s'" "kept {u, A, B} s s'" "cnum s' u (U div 2)" "cnum s' A x'"
    "cnum s' B y'" "p * x' + q * y' = U div 2"
    unfolding bezout_halve_def by (rule mpcells.halve_pair [OF n d U e pq])
  moreover have "cnum s' a p" "cnum s' b q" using mpcells.kept_num [OF s'(2)] n(4,5) d by auto
  ultimately show ?thesis by (intro that [of s']) (auto simp: cofs_def)
qed

lemma bezout_halves_cofs:
  assumes c: "cofs p q a b u A B s U" and d: "distinct [u, A, B, a, b]" and U: "0 < U" and pq: "odd p \<or> odd q"
  obtains s' U' k where "bezout_halves a b u A B s = Some (Ok s')" "kept {u, A, B} s s'" "cofs p q a b u A B s' U'"
    "0 < U'" "odd U'" "U = U' * 2 ^ k"
proof -
  define I where "I t \<longleftrightarrow> kept {u, A, B} s t \<and> (\<exists>U' k. cofs p q a b u A B t U' \<and> 0 < U' \<and> U = U' * 2 ^ k)" for t
  have ev: "iseven t u = Ok (even U')" if "cofs p q a b u A B t U'" for t U'
    using that iseven_num by (simp add: cofs_def)
  have "\<exists>s'. owhile (\<lambda>s. iseven s u) (\<lambda>s. Some (bezout_halve a b u A B s)) s = Some (Ok s') \<and> I s' \<and> iseven s' u = Ok False"
  proof (rule owhile_rule [where m = "\<lambda>t. mag (cell t u)"])
    have "U = U * 2 ^ 0" by simp
    then show "I s" unfolding I_def using c U mpcells.kept_refl by blast
    show "\<exists>r. iseven t u = Ok r" if "I t" for t using that ev by (auto simp: I_def)
    show "\<exists>t'. Some (bezout_halve a b u A B t) = Some (Ok t') \<and> I t' \<and> mag (cell t' u) < mag (cell t u)"
      if h: "I t" "iseven t u = Ok True" for t
    proof -
      obtain U' k where k: "kept {u, A, B} s t" "cofs p q a b u A B t U'" "0 < U'" "U = U' * 2 ^ k"
        using h(1) unfolding I_def by blast
      have e: "even U'" using h(2) ev [OF k(2)] by simp
      obtain t' where t': "bezout_halve a b u A B t = Ok t'" "kept {u, A, B} t t'" "cofs p q a b u A B t' (U' div 2)"
        by (rule bezout_halve_cofs [OF k(2) d e pq])
      have p: "0 < U' div 2" "U = U' div 2 * 2 ^ Suc k" using e k(3,4) by (auto elim!: evenE)
      have "I t'" unfolding I_def using kept_trans_same [OF k(1) t'(2)] t'(3) p by blast
      moreover have "int (mag (cell t' u)) = U' div 2" "int (mag (cell t u)) = U'"
        using t'(3) k(2,3) p(1) isnum_mag unfolding cofs_def cnum_def by auto
      ultimately show ?thesis using t'(1) k(3) by auto
    qed
  qed
  then obtain s' where "bezout_halves a b u A B s = Some (Ok s')" "I s'" "iseven s' u = Ok False"
    unfolding bezout_halves_def by blast
  moreover from this(2) obtain U' k where "kept {u, A, B} s s'" "cofs p q a b u A B s' U'" "0 < U'" "U = U' * 2 ^ k"
    unfolding I_def by blast
  ultimately show ?thesis using ev [of s' U'] by (intro that [of s' U' k]) simp_all
qed

lemma gcd_odd_part:
  fixes U V :: int
  assumes "U = U' * 2 ^ k" "odd (gcd U V)"
  shows "gcd U' V = gcd U V"
proof (rule zdvd_antisym_nonneg)
  have "coprime (gcd U V) (2 ^ k)" using assms(2) by simp
  moreover have "gcd U V dvd U' * 2 ^ k" using assms(1) gcd_dvd1 by metis
  ultimately have "gcd U V dvd U'" by (simp add: coprime_dvd_mult_left_iff)
  then show "gcd U V dvd gcd U' V" by simp
  show "gcd U' V dvd gcd U V" using assms(1) by (simp add: dvd_mult2)
qed simp_all

lemma sub_cofs:
  assumes c: "cofs p q a b u A B s U" "cofs p q a b v C D s V" and d: "distinct [u, v, A, B, C, D, a, b]"
  obtains s' where "obind (mpsub s u v u) (\<lambda>s. obind (mpsub s A C A) (\<lambda>s. mpsub s B D B)) = Ok s'"
    "kept {u, A, B} s s'" "cofs p q a b u A B s' (U - V)" "cofs p q a b v C D s' V"
proof -
  obtain x y where n: "cnum s u U" "cnum s A x" "cnum s B y" "cnum s a p" "cnum s b q" "p * x + q * y = U"
    using c(1) unfolding cofs_def by blast
  obtain x' y' where n': "cnum s v V" "cnum s C x'" "cnum s D y'" "p * x' + q * y' = V"
    using c(2) unfolding cofs_def by blast
  obtain s' where s': "obind (mpsub s u v u) (\<lambda>s. obind (mpsub s A C A) (\<lambda>s. mpsub s B D B)) = Ok s'"
    "kept {u, A, B} s s'" "cnum s' u (U - V)" "cnum s' A (x - x')" "cnum s' B (y - y')"
    by (rule mpcells.sub_pair [OF n(1) n'(1) n(2) n'(2) n(3) n'(3)]) (use d in simp)
  have "cnum s' a p" "cnum s' b q" using mpcells.kept_num [OF s'(2)] n(4,5) d by auto
  moreover have "p * (x - x') + q * (y - y') = U - V" using n(6) n'(4) by (simp add: algebra_simps)
  ultimately have "cofs p q a b u A B s' (U - V)" unfolding cofs_def using s'(3-5) by blast
  moreover have "cofs p q a b v C D s' V" using cofs_kept [OF s'(2) _ c(2)] d by auto
  ultimately show ?thesis using s'(1,2) by (intro that [of s'])
qed

lemma bezout_round_cofs:
  assumes c: "cofs p q a b u A B s U" "cofs p q a b v C D s V" and d: "distinct [u, v, A, B, C, D, a, b]"
    and UV: "0 < U" "0 < V" and pq: "odd p \<or> odd q" and g: "odd (gcd U V)"
  obtains s' U' V' where "bezout_round a b u v A B C D s = Some (Ok s')" "kept {u, v, A, B, C, D} s s'"
    "cofs p q a b u A B s' U'" "cofs p q a b v C D s' V'" "0 \<le> U'" "0 < V'" "U' + V' < U + V" "gcd U' V' = gcd U V"
proof -
  obtain s1 U1 k where s1: "bezout_halves a b u A B s = Some (Ok s1)" "kept {u, A, B} s s1" "cofs p q a b u A B s1 U1"
    "0 < U1" "odd U1" "U = U1 * 2 ^ k"
    by (rule bezout_halves_cofs [OF c(1) _ UV(1) pq]) (use d in simp)
  have c1: "cofs p q a b v C D s1 V" using cofs_kept [OF s1(2) _ c(2)] d by auto
  obtain s2 V1 l where s2: "bezout_halves a b v C D s1 = Some (Ok s2)" "kept {v, C, D} s1 s2" "cofs p q a b v C D s2 V1"
    "0 < V1" "odd V1" "V = V1 * 2 ^ l"
    by (rule bezout_halves_cofs [OF c1 _ UV(2) pq]) (use d in auto)
  have c2: "cofs p q a b u A B s2 U1" using cofs_kept [OF s2(2) _ s1(3)] d by auto
  have le: "U1 \<le> U" "V1 \<le> V" using s1(4,6) s2(4,6) by simp_all
  have g1: "gcd U1 V = gcd U V" by (rule gcd_odd_part [OF s1(6) g])
  have g2: "gcd U1 V1 = gcd U V" using gcd_odd_part [OF s2(6), of U1] g g1 by (simp add: gcd.commute)
  have k2: "kept {u, v, A, B, C, D} s s2"
    by (rule kept_trans_same [OF kept_mono [OF s1(2)] kept_mono [OF s2(2)]]) auto
  obtain r where r: "mpcmp (cell s2 u) (cell s2 v) = Ok r" "r < 0 \<longleftrightarrow> U1 < V1"
    using mpcmp_spec [of "cell s2 u" U1 "cell s2 v" V1] c2 s2(3) by (metis cofs_def cnumD(1))
  show ?thesis
  proof (cases "r < 0")
    case False
    obtain s3 where s3: "obind (mpsub s2 u v u) (\<lambda>s. obind (mpsub s A C A) (\<lambda>s. mpsub s B D B)) = Ok s3"
      "kept {u, A, B} s2 s3" "cofs p q a b u A B s3 (U1 - V1)" "cofs p q a b v C D s3 V1"
      by (rule sub_cofs [OF c2 s2(3) d])
    have "bezout_round a b u v A B C D s = Some (Ok s3)"
      unfolding bezout_round_def s1(1) pnext_simps onext_simps s2(1) r(1) obind.simps if_P [OF leI [OF False]] s3(1) ..
    moreover have "kept {u, v, A, B, C, D} s s3" by (rule kept_trans_same [OF k2 kept_mono [OF s3(2)]]) auto
    moreover have "gcd (U1 - V1) V1 = gcd U V" using g2 by (simp add: gcd_diff1)
    ultimately show ?thesis using s3(3,4) False r(2) s2(4) s1(4) le by (intro that [of s3 "U1 - V1" V1]) simp_all
  next
    case True
    have d': "distinct [v, u, C, D, A, B, a, b]" using d by auto
    obtain s3 where s3: "obind (mpsub s2 v u v) (\<lambda>s. obind (mpsub s C A C) (\<lambda>s. mpsub s D B D)) = Ok s3"
      "kept {v, C, D} s2 s3" "cofs p q a b v C D s3 (V1 - U1)" "cofs p q a b u A B s3 U1"
      by (rule sub_cofs [OF s2(3) c2 d'])
    have "\<not> 0 \<le> r" using True by simp
    then have "bezout_round a b u v A B C D s = Some (Ok s3)"
      unfolding bezout_round_def s1(1) pnext_simps onext_simps s2(1) r(1) obind.simps s3(1) by simp
    moreover have "kept {u, v, A, B, C, D} s s3" by (rule kept_trans_same [OF k2 kept_mono [OF s3(2)]]) auto
    moreover have "gcd U1 (V1 - U1) = gcd U V" using g2 gcd_diff1 [of V1 U1] by (simp add: gcd.commute)
    ultimately show ?thesis using s3(3,4) True r(2) s2(4) s1(4) le by (intro that [of s3 U1 "V1 - U1"]) simp_all
  qed
qed

lemma bezout_loop_cofs:
  assumes c: "cofs p q a b u A B s U" "cofs p q a b v C D s V" and d: "distinct [u, v, A, B, C, D, a, b]"
    and UV: "0 < U" "0 < V" and pq: "odd p \<or> odd q" and g: "odd (gcd U V)"
  obtains s' where "bezout_loop a b u v A B C D s = Some (Ok s')" "kept {u, v, A, B, C, D} s s'"
    "cofs p q a b v C D s' (gcd U V)" "cofs p q a b u A B s' 0"
proof -
  define I where "I t \<longleftrightarrow> kept {u, v, A, B, C, D} s t \<and> (\<exists>U' V'. cofs p q a b u A B t U' \<and> cofs p q a b v C D t V'
     \<and> 0 \<le> U' \<and> 0 < V' \<and> gcd U' V' = gcd U V)" for t
  have top: "top (cell t u) = 0 \<longleftrightarrow> U' = 0" if "cofs p q a b u A B t U'" for t U'
    using that isnum_zero cnumD(1) unfolding cofs_def by blast
  have mg: "int (mag (cell t u)) = U'" if "cofs p q a b u A B t U'" "0 \<le> U'" for t u A B U'
    using that isnum_mag cnumD(1) unfolding cofs_def by fastforce
  obtain s0 U0 V0 where s0: "bezout_round a b u v A B C D s = Some (Ok s0)" "kept {u, v, A, B, C, D} s s0"
    "cofs p q a b u A B s0 U0" "cofs p q a b v C D s0 V0" "0 \<le> U0" "0 < V0" "gcd U0 V0 = gcd U V"
    using bezout_round_cofs [OF c d UV pq g] by metis
  have "\<exists>s'. owhile (\<lambda>s. Ok (top (cell s u) \<noteq> 0)) (bezout_round a b u v A B C D) s0 = Some (Ok s')
    \<and> I s' \<and> Ok (top (cell s' u) \<noteq> 0) = Ok False"
  proof (rule owhile_rule [where m = "\<lambda>t. mag (cell t u) + mag (cell t v)"])
    show "I s0" unfolding I_def using s0 by blast
    show "\<exists>t'. bezout_round a b u v A B C D t = Some (Ok t') \<and> I t'
        \<and> mag (cell t' u) + mag (cell t' v) < mag (cell t u) + mag (cell t v)"
      if h: "I t" "Ok (top (cell t u) \<noteq> 0) = Ok True" for t
    proof -
      obtain U1 V1 where k: "kept {u, v, A, B, C, D} s t" "cofs p q a b u A B t U1" "cofs p q a b v C D t V1"
        "0 \<le> U1" "0 < V1" "gcd U1 V1 = gcd U V" using h(1) unfolding I_def by blast
      have p1: "0 < U1" using h(2) top [OF k(2)] k(4) by simp
      have g1: "odd (gcd U1 V1)" using g k(6) by simp
      obtain t' U2 V2 where t': "bezout_round a b u v A B C D t = Some (Ok t')" "kept {u, v, A, B, C, D} t t'"
        "cofs p q a b u A B t' U2" "cofs p q a b v C D t' V2" "0 \<le> U2" "0 < V2" "U2 + V2 < U1 + V1" "gcd U2 V2 = gcd U1 V1"
        by (rule bezout_round_cofs [OF k(2,3) d p1 k(5) pq g1])
      have "I t'" unfolding I_def using kept_trans_same [OF k(1) t'(2)] t'(3-6,8) k(6) by metis
      moreover have "mag (cell t' u) + mag (cell t' v) < mag (cell t u) + mag (cell t v)"
        using mg [OF k(2)] mg [OF k(3)] mg [OF t'(3)] mg [OF t'(4)] k(4,5) t'(5-7) by linarith
      ultimately show ?thesis using t'(1) by blast
    qed
  qed simp
  then obtain s' where s': "owhile (\<lambda>s. Ok (top (cell s u) \<noteq> 0)) (bezout_round a b u v A B C D) s0 = Some (Ok s')"
    "I s'" "top (cell s' u) = 0" by auto
  obtain U1 V1 where k: "kept {u, v, A, B, C, D} s s'" "cofs p q a b u A B s' U1" "cofs p q a b v C D s' V1"
    "0 < V1" "gcd U1 V1 = gcd U V" using s'(2) unfolding I_def by blast
  have "U1 = 0" using top [OF k(2)] s'(3) by simp
  then have "V1 = gcd U V" "U1 = 0" using k(4,5) by auto
  then show ?thesis using k s0(1) s'(1) by (intro that [of s']) (auto simp: bezout_loop_def)
qed

lemma strip_twos_spec:
  assumes c: "cnum s a P" "cnum s b Q" "a \<noteq> b" "0 < P" "0 < Q"
  obtains s' g p q where "strip_twos a b (0, s) = Some (Ok (g, s'))" "kept {a, b} s s'" "cnum s' a p" "cnum s' b q"
    "0 < p" "0 < q" "P = p * 2 ^ g" "Q = q * 2 ^ g" "odd p \<or> odd q"
proof -
  define I where "I = (\<lambda>(g, t). kept {a, b} s t \<and> (\<exists>p q. cnum t a p \<and> cnum t b q \<and> 0 < p \<and> 0 < q
     \<and> P = p * 2 ^ g \<and> Q = q * 2 ^ g))"
  define test where "test = (\<lambda>(g :: nat, s). obind (iseven s a) (\<lambda>e. if e then iseven s b else Ok False))"
  define body where "body = (\<lambda>(g :: nat, s). Some (obind (mpright s a 1 a) (\<lambda>s. obind (mpright s b 1 b) (\<lambda>s. Ok (g + 1, s)))))"
  have tst: "test (g, t) = Ok (even p \<and> even q)" if "cnum t a p" "cnum t b q" for g t p q
    using iseven_num [OF that(1)] iseven_num [OF that(2)] by (simp add: test_def)
  have "\<exists>r. owhile test body (0, s) = Some (Ok r) \<and> I r \<and> test r = Ok False"
  proof (rule owhile_rule [where m = "\<lambda>(g, t). mag (cell t a)"])
    show "I (0, s)" using c by (auto simp: I_def mpcells.kept_refl)
    show "\<exists>t. test r = Ok t" if "I r" for r using that tst by (cases r) (auto simp: I_def)
    show "\<exists>r'. body r = Some (Ok r') \<and> I r' \<and> (case r' of (g, t) \<Rightarrow> mag (cell t a)) < (case r of (g, t) \<Rightarrow> mag (cell t a))"
      if h: "I r" "test r = Ok True" for r
    proof -
      obtain g t p q where r: "r = (g, t)" and k: "kept {a, b} s t" "cnum t a p" "cnum t b q" "0 < p" "0 < q"
        "P = p * 2 ^ g" "Q = q * 2 ^ g" using h(1) unfolding I_def by auto
      have e: "even p" "even q" using h(2) tst [OF k(2,3)] r by simp_all
      obtain t1 where t1: "mpright t a 1 a = Ok t1" "kept {a} t t1" "cnum t1 a (p div 2)" using half_cnum [OF k(2) e(1)] by blast
      have b1: "cnum t1 b q" using mpcells.kept_num [OF t1(2) _ k(3)] c(3) by simp
      obtain t2 where t2: "mpright t1 b 1 b = Ok t2" "kept {b} t1 t2" "cnum t2 b (q div 2)" using half_cnum [OF b1 e(2)] by blast
      have a2: "cnum t2 a (p div 2)" using mpcells.kept_num [OF t2(2) _ t1(3)] c(3) by simp
      have kk: "kept {a, b} s t2"
        by (rule kept_trans_same [OF k(1) kept_trans_same [OF kept_mono [OF t1(2)] kept_mono [OF t2(2)]]]) auto
      have ps: "0 < p div 2" "0 < q div 2" "P = p div 2 * 2 ^ (g + 1)" "Q = q div 2 * 2 ^ (g + 1)"
        using e k(4-7) by (auto elim!: evenE)
      have "I (g + 1, t2)" unfolding I_def using kk a2 t2(3) ps by blast
      moreover have "mag (cell t2 a) < mag (cell t a)"
        using isnum_mag [OF cnumD(1) [OF a2]] isnum_mag [OF cnumD(1) [OF k(2)]] k(4) by linarith
      ultimately show ?thesis using t1(1) t2(1) by (simp add: r body_def)
    qed
  qed
  then obtain g t where r: "strip_twos a b (0, s) = Some (Ok (g, t))" "I (g, t)" "test (g, t) = Ok False"
    unfolding strip_twos_def test_def body_def by fastforce
  obtain p q where k: "kept {a, b} s t" "cnum t a p" "cnum t b q" "0 < p" "0 < q" "P = p * 2 ^ g" "Q = q * 2 ^ g"
    using r(2) unfolding I_def by auto
  then show ?thesis using r tst [OF k(2,3)] by (intro that [of g t p q]) auto
qed

section \<open>Greatest common divisor\<close>

text \<open>A copy goes to the next cell.\<close>

lemma mpcopy_cnum:
  assumes "isnum old z" "0 < mpmindigits s"
  obtains s' where "mpcopy s old = Ok (brk s, s')" "cnum s' (brk s) z" "brk s' = brk s + 1" "mpmindigits s' = mpmindigits s"
    "\<And>c. c \<noteq> brk s \<Longrightarrow> cell s' c = cell s c" "\<not> static (cell s' (brk s))"
proof -
  obtain x where x: "mpcopy s old = Ok (brk s, (upd s (brk s) x)\<lparr>brk := brk s + 1\<rparr>)" "isnum x z" "clean x" "\<not> static x"
    by (rule mpcopy_spec [OF assms])
  then show ?thesis by (intro that [of "(upd s (brk s) x)\<lparr>brk := brk s + 1\<rparr>"]) (simp_all add: cnum_def)
qed

lemma assign_cell:
  assumes "isnum x z" "room (cell s r)"
  obtains s' where "assign_opt x (Some r) s = Ok s'" "isnum (cell s' r) z" "kept {r} s s'"
proof -
  obtain w where "mpassign x (cell s r) = Ok w" "isnum w z" "static w = static (cell s r)"
    using mpassign_isnum [OF assms(2,1)] by metis
  then show ?thesis by (intro that [of "upd s r w"]) (simp_all add: assign_opt_def kept_upd)
qed

lemma mpfrees_cells:
  "(\<forall>c \<in> set cs. \<not> static (cell s c)) \<Longrightarrow> \<exists>s'. mpfrees cs s = Ok s' \<and> kept (set cs) s s'"
proof (induction cs arbitrary: s)
  case Nil
  then show ?case by (simp add: kept_def)
next
  case (Cons c cs)
  define s1 where "s1 = upd s c ((cell s c)\<lparr>digs := replicate (length (digs (cell s c))) 0\<rparr>)"
  have k1: "kept {c} s s1" unfolding s1_def by (rule kept_upd) simp
  then have "\<forall>c \<in> set cs. \<not> static (cell s1 c)" using Cons.prems by (simp add: kept_def)
  then obtain s' where s': "mpfrees cs s1 = Ok s'" "kept (set cs) s1 s'" using Cons.IH by blast
  have "mpfree s c = Ok s1" using Cons.prems by (simp add: mpfree_def s1_def)
  moreover have "kept (set (c # cs)) s s'"
    by (rule kept_trans_same [OF kept_mono [OF k1] kept_mono [OF s'(2)]]) auto
  ultimately show ?case using s'(1) by simp
qed

text \<open>The copies, for what comes after them (\<open>K\<close>).\<close>

lemma bezout_copies:
  assumes n: "cnum s a p" "cnum s b q" "0 < q" and k: "a < brk s" "b < brk s" "v < brk s" "v \<noteq> a" "v \<noteq> b" "a \<noteq> b"
    and r: "room (cell s v)" and m: "0 < mpmindigits s"
  obtains u A B C D s' where
    "\<forall>K :: nat \<Rightarrow> nat \<Rightarrow> nat \<Rightarrow> nat \<Rightarrow> nat \<Rightarrow> mps \<Rightarrow> mps outcome option.
       onext (mpcopy s (cell s a)) (\<lambda>(u, s). onext (assign_opt (cell s b) (Some v) s) (\<lambda>s.
       onext (mpcopy s mpone) (\<lambda>(A, s). onext (mpcopy s mpzero) (\<lambda>(B, s).
       onext (mpcopy s mpzero) (\<lambda>(C, s). onext (mpcopy s mpone) (\<lambda>(D, s). K u A B C D s)))))) = K u A B C D s'"
    "cofs p q a b u A B s' p" "cofs p q a b v C D s' q" "brk s \<le> u" "u < A" "A < B" "B < C" "C < D" "D < brk s'"
    "mpmindigits s' = mpmindigits s" "\<forall>c < brk s. c \<noteq> v \<longrightarrow> cell s' c = cell s c"
    "static (cell s' v) = static (cell s v)" "\<forall>c \<in> {u, A, B, C, D}. \<not> static (cell s' c)"
proof -
  define u A B C D where "u = brk s" and "A = u + 1" and "B = A + 1" and "C = B + 1" and "D = C + 1"
  note ad = u_def A_def B_def C_def D_def
  have lt: "a < u" "b < u" "v < u" "u < A" "A < B" "B < C" "C < D" using k by (simp_all add: ad)
  obtain s2 where s2: "mpcopy s (cell s a) = Ok (u, s2)" "cnum s2 u p" "brk s2 = A" "mpmindigits s2 = mpmindigits s"
    "\<And>c. c \<noteq> u \<Longrightarrow> cell s2 c = cell s c" "\<not> static (cell s2 u)"
    using mpcopy_cnum [OF cnumD(1) [OF n(1)] m] unfolding u_def [symmetric] A_def by blast
  have b2: "isnum (cell s2 b) q" and v2: "room (cell s2 v)"
    using s2(5) [of b] s2(5) [of v] cnumD(1) [OF n(2)] r lt by simp_all
  obtain s3 where s3: "assign_opt (cell s2 b) (Some v) s2 = Ok s3" "isnum (cell s3 v) q" "kept {v} s2 s3"
    by (rule assign_cell [OF b2 v2])
  have m3: "brk s3 = A" "mpmindigits s3 = mpmindigits s" "\<And>c. c \<noteq> v \<Longrightarrow> cell s3 c = cell s2 c"
    using s3(3) s2(3,4) by (simp_all add: kept_def)
  obtain s4 where s4: "mpcopy s3 mpone = Ok (A, s4)" "cnum s4 A 1" "brk s4 = B" "mpmindigits s4 = mpmindigits s"
    "\<And>c. c \<noteq> A \<Longrightarrow> cell s4 c = cell s3 c" "\<not> static (cell s4 A)"
    using mpcopy_cnum [OF mpone_num m [folded m3(2)]] unfolding m3(1,2) B_def by blast
  obtain s5 where s5: "mpcopy s4 mpzero = Ok (B, s5)" "cnum s5 B 0" "brk s5 = C" "mpmindigits s5 = mpmindigits s"
    "\<And>c. c \<noteq> B \<Longrightarrow> cell s5 c = cell s4 c" "\<not> static (cell s5 B)"
    using mpcopy_cnum [OF mpzero_num m [folded s4(4)]] unfolding s4(3,4) C_def by blast
  obtain s6 where s6: "mpcopy s5 mpzero = Ok (C, s6)" "cnum s6 C 0" "brk s6 = D" "mpmindigits s6 = mpmindigits s"
    "\<And>c. c \<noteq> C \<Longrightarrow> cell s6 c = cell s5 c" "\<not> static (cell s6 C)"
    using mpcopy_cnum [OF mpzero_num m [folded s5(4)]] unfolding s5(3,4) D_def by blast
  obtain s7 where s7: "mpcopy s6 mpone = Ok (D, s7)" "cnum s7 D 1" "brk s7 = D + 1" "mpmindigits s7 = mpmindigits s"
    "\<And>c. c \<noteq> D \<Longrightarrow> cell s7 c = cell s6 c" "\<not> static (cell s7 D)"
    using mpcopy_cnum [OF mpone_num m [folded s6(4)]] unfolding s6(3,4) by blast
  have low: "cell s7 c = cell s3 c" if "c < A" for c
    using s7(5) s6(5) s5(5) s4(5) that lt by (metis less_trans nat_neq_iff)
  have low1: "cell s7 c = cell s c" if "c < u" "c \<noteq> v" for c
    using low [of c] m3(3) s2(5) that lt by simp
  have new: "cell s7 u = cell s2 u" "cell s7 v = cell s3 v" "cell s7 A = cell s4 A" "cell s7 B = cell s5 B" "cell s7 C = cell s6 C"
    using low [of u] low [of v] m3(3) [of u] s7(5) s6(5) s5(5) lt by simp_all
  have cv: "clean (cell s7 v)" using isnum_zero [OF s3(2)] n(3) new(2) by (simp add: clean_def)
  have c7: "cnum s7 a p" "cnum s7 b q" "cnum s7 u p" "cnum s7 v q" "cnum s7 A 1" "cnum s7 B 0" "cnum s7 C 0" "cnum s7 D 1"
    using n(1,2) s2(2) s3(2) s4(2) s5(2) s6(2) s7(2) cv low1 [of a] low1 [of b] lt k(4,5) by (simp_all add: cnum_def new)
  have "p * 1 + q * 0 = p" "p * 0 + q * 1 = q" by simp_all
  then have co: "cofs p q a b u A B s7 p" "cofs p q a b v C D s7 q" unfolding cofs_def using c7 by blast+
  have "static (cell s7 v) = static (cell s v)" using new(2) s3(3) s2(5) [of v] lt by (simp add: kept_def)
  moreover have "\<forall>c \<in> {u, A, B, C, D}. \<not> static (cell s7 c)" using new s2(6) s4(6) s5(6) s6(6) s7(6) by simp
  ultimately show ?thesis using s2(1) s3(1) s4(1) s5(1) s6(1) s7(1,3,4) co lt low1
    by (intro that [of u A B C D s7]) (simp_all add: u_def)
qed

text \<open>What follows the loop.\<close>

lemma bezout_results:
  assumes n: "cnum s C X" "cnum s D Y" "cnum s v G" and r: "room (cell s x)" "room (cell s y)"
    and d: "distinct [v, x, y]" "x \<noteq> D" and f: "{v, x, y} \<inter> set cs = {}" "\<forall>c \<in> set cs. \<not> static (cell s c)"
  obtains s' where "obind (assign_opt (cell s C) (Some x) s) (\<lambda>s. obind (assign_opt (cell s D) (Some y) s) (\<lambda>s.
      obind (mpleft s v (int g) v) (mpfrees cs))) = Ok s'" "kept ({v, x, y} \<union> set cs) s s'"
    "isnum (cell s' v) (G * 2 ^ g)" "isnum (cell s' x) X" "isnum (cell s' y) Y"
proof -
  obtain s1 where s1: "assign_opt (cell s C) (Some x) s = Ok s1" "isnum (cell s1 x) X" "kept {x} s s1"
    by (rule assign_cell [OF cnumD(1) [OF n(1)] r(1)])
  have c1: "isnum (cell s1 D) Y" "room (cell s1 y)" "cell s1 v = cell s v"
    using s1(3) n(2) r(2) d by (auto simp: kept_def cnum_def)
  obtain s2 where s2: "assign_opt (cell s1 D) (Some y) s1 = Ok s2" "isnum (cell s2 y) Y" "kept {y} s1 s2"
    by (rule assign_cell [OF c1(1,2)])
  have c2: "isnum (cell s2 v) G" "isnum (cell s2 x) X"
    using s2(3) c1(3) cnumD(1) [OF n(3)] s1(2) d by (auto simp: kept_def)
  obtain w where w: "mpleft s2 v (int g) v = Ok (upd s2 v w)" "isnum w (G * 2 ^ g)" "static w = static (cell s2 v)"
    using mpleft_spec [OF c2(1) isnumD(2) [OF c2(1)], of "int g"] by auto
  define s3 where "s3 = upd s2 v w"
  have k3: "kept {v, x, y} s s3"
    by (rule kept_trans_same [OF kept_mono [OF s1(3)] kept_trans_same [OF kept_mono [OF s2(3)]
          kept_mono [OF kept_upd [OF w(3), folded s3_def]]]]) auto
  obtain s4 where s4: "mpfrees cs s3 = Ok s4" "kept (set cs) s3 s4"
    using mpfrees_cells [of cs s3] f(2) k3 by (auto simp: kept_def)
  have c4: "cell s4 c = cell s3 c" if "c \<in> {v, x, y}" for c using s4(2) f(1) that by (auto simp: kept_def)
  have "kept ({v, x, y} \<union> set cs) s s4"
    by (rule kept_trans_same [OF kept_mono [OF k3] kept_mono [OF s4(2)]]) auto
  moreover have "cell s4 v = w" "cell s4 x = cell s2 x" "cell s4 y = cell s2 y" using c4 d by (auto simp: s3_def)
  ultimately show ?thesis using s1(1) s2(1,2) w(1,2) s4(1) c2(2) by (intro that [of s4]) (simp_all add: s3_def)
qed

lemma bezout_main_gcd:
  assumes n: "cnum s a P" "cnum s b Q" "0 < P" "0 < Q" and k: "a < brk s" "b < brk s" "v < brk s" "x < brk s" "y < brk s"
    and d: "distinct [a, b, v, x, y]" and r: "room (cell s v)" "room (cell s x)" "room (cell s y)"
    and m: "0 < mpmindigits s" and st: "\<not> static (cell s a)" "\<not> static (cell s b)"
  obtains s' X Y where "bezout_main a b v x y s = Some (Ok s')" "same_but {a, b, v, x, y} s s'"
    "\<forall>c < brk s. static (cell s' c) = static (cell s c)"
    "isnum (cell s' v) (gcd P Q)" "isnum (cell s' x) X" "isnum (cell s' y) Y" "P * X + Q * Y = gcd P Q"
proof -
  obtain s1 g p q where s1: "strip_twos a b (0, s) = Some (Ok (g, s1))" "kept {a, b} s s1" "cnum s1 a p" "cnum s1 b q"
    "0 < p" "0 < q" "P = p * 2 ^ g" "Q = q * 2 ^ g" "odd p \<or> odd q"
    by (rule strip_twos_spec [OF n(1,2) _ n(3,4)]) (use d in simp)
  have m1: "brk s1 = brk s" "mpmindigits s1 = mpmindigits s" "\<And>c. c \<noteq> a \<Longrightarrow> c \<noteq> b \<Longrightarrow> cell s1 c = cell s c"
    "\<And>c. static (cell s1 c) = static (cell s c)" using s1(2) by (simp_all add: kept_def)
  have rv: "room (cell s1 v)" using m1(3) [of v] r(1) d by auto
  have pre: "a < brk s1" "b < brk s1" "v < brk s1" "v \<noteq> a" "v \<noteq> b" "a \<noteq> b" using k d m1(1) by auto
  obtain u A B C D s2 where s2:
    "\<forall>K :: nat \<Rightarrow> nat \<Rightarrow> nat \<Rightarrow> nat \<Rightarrow> nat \<Rightarrow> mps \<Rightarrow> mps outcome option.
       onext (mpcopy s1 (cell s1 a)) (\<lambda>(u, s). onext (assign_opt (cell s b) (Some v) s) (\<lambda>s.
       onext (mpcopy s mpone) (\<lambda>(A, s). onext (mpcopy s mpzero) (\<lambda>(B, s).
       onext (mpcopy s mpzero) (\<lambda>(C, s). onext (mpcopy s mpone) (\<lambda>(D, s). K u A B C D s)))))) = K u A B C D s2"
    "cofs p q a b u A B s2 p" "cofs p q a b v C D s2 q" "brk s1 \<le> u" "u < A" "A < B" "B < C" "C < D" "D < brk s2"
    "mpmindigits s2 = mpmindigits s1" "\<forall>c < brk s1. c \<noteq> v \<longrightarrow> cell s2 c = cell s1 c"
    "static (cell s2 v) = static (cell s1 v)" "\<forall>c \<in> {u, A, B, C, D}. \<not> static (cell s2 c)"
    by (rule bezout_copies [OF s1(3,4,6) pre rv m [folded m1(2)]])
  have lt: "a < u" "b < u" "v < u" "x < u" "y < u" using k s2(4) m1(1) by simp_all
  have dist: "distinct [u, v, A, B, C, D, a, b]" using d lt s2(5-8) by auto
  have gq: "odd (gcd p q)" using s1(9) by simp
  obtain s3 where s3: "bezout_loop a b u v A B C D s2 = Some (Ok s3)" "kept {u, v, A, B, C, D} s2 s3"
    "cofs p q a b v C D s3 (gcd p q)"
    using bezout_loop_cofs [OF s2(2,3) dist s1(5,6,9) gq] by metis
  obtain X Y where XY: "cnum s3 C X" "cnum s3 D Y" "p * X + q * Y = gcd p q" "cnum s3 v (gcd p q)"
    using s3(3) unfolding cofs_def by blast
  have low: "cell s3 c = cell s1 c" if "c < brk s1" "c \<noteq> v" for c
    using s3(2) s2(11) that s2(4-8) by (simp add: kept_def)
  have st3: "static (cell s3 c) = static (cell s c)" if "c < brk s1" for c
    using s3(2) s2(11) that s2(12) m1(4) by (cases "c = v") (simp_all add: kept_def)
  have rx: "room (cell s3 x)" "room (cell s3 y)" using low m1(1,3) k d r by auto
  have f: "{v, x, y} \<inter> set [A, B, C, D, u, a, b] = {}" using d lt s2(5-8) by auto
  have xD: "distinct [v, x, y]" "x \<noteq> D" using d lt s2(5-8) by auto
  have nst: "\<forall>c \<in> set [A, B, C, D, u, a, b]. \<not> static (cell s3 c)"
    using s2(13) s3(2) st3 st k m1(1) by (simp add: kept_def)
  obtain s4 where s4: "obind (assign_opt (cell s3 C) (Some x) s3) (\<lambda>s. obind (assign_opt (cell s D) (Some y) s) (\<lambda>s.
      obind (mpleft s v (int g) v) (mpfrees [A, B, C, D, u, a, b]))) = Ok s4"
    "kept ({v, x, y} \<union> set [A, B, C, D, u, a, b]) s3 s4"
    "isnum (cell s4 v) (gcd p q * 2 ^ g)" "isnum (cell s4 x) X" "isnum (cell s4 y) Y"
    by (rule bezout_results [OF XY(1,2,4) rx xD f nst])
  have main: "bezout_main a b v x y s = Some (Ok s4)"
    unfolding bezout_main_def s1(1) pnext_simps onext_simps prod.case s2(1) [rule_format] s3(1) s4(1)
    by (rule refl)
  have kept4: "kept ({a, b, v, x, y} \<union> {u, A, B, C, D}) s2 s4"
    by (rule kept_trans_same [OF kept_mono [OF s3(2)] kept_mono [OF s4(2)]]) auto
  have "cell s4 c = cell s c" if "c < brk s" "c \<notin> {a, b, v, x, y}" for c
    using kept4 s2(11) m1(1,3) that s2(4-8) by (simp add: kept_def)
  then have "same_but {a, b, v, x, y} s s4"
    using kept4 s2(4-10) m1(1,2) by (simp add: same_but_def kept_def)
  moreover have "\<forall>c < brk s. static (cell s4 c) = static (cell s c)"
    using s4(2) st3 m1(1) by (simp add: kept_def)
  moreover have gPQ: "gcd P Q = gcd p q * 2 ^ g"
    unfolding s1(7,8) using gcd_mult_distrib_int [of "2 ^ g" p q] by (simp add: mult.commute)
  moreover have "P * X + Q * Y = gcd P Q"
  proof -
    have "P * X + Q * Y = (p * X + q * Y) * 2 ^ g" unfolding s1(7,8) by (simp add: algebra_simps)
    also have "\<dots> = gcd P Q" unfolding XY(3) gPQ ..
    finally show ?thesis .
  qed
  ultimately show ?thesis using main s4(3-5) by (intro that [of s4 X Y]) simp_all
qed

lemma kept_same_but: "kept R s s' \<Longrightarrow> same_but R s s'"
  by (simp add: kept_def same_but_def)

text \<open>Three assignments to cells that are apart.\<close>

lemma assign_three:
  assumes n: "isnum a z1" "isnum b z2" "isnum c z3" and d: "distinct [p, q, r]"
    and rm: "room (cell s p)" "room (cell s q)" "room (cell s r)"
  obtains s' where "obind (assign_opt a (Some p) s) (\<lambda>s. obind (assign_opt b (Some q) s) (assign_opt c (Some r))) = Ok s'"
    "kept {p, q, r} s s'" "isnum (cell s' p) z1" "isnum (cell s' q) z2" "isnum (cell s' r) z3"
proof -
  obtain s1 where s1: "assign_opt a (Some p) s = Ok s1" "isnum (cell s1 p) z1" "kept {p} s s1"
    by (rule assign_cell [OF n(1) rm(1)])
  have c1: "room (cell s1 q)" "room (cell s1 r)" using s1(3) rm d by (auto simp: kept_def)
  obtain s2 where s2: "assign_opt b (Some q) s1 = Ok s2" "isnum (cell s2 q) z2" "kept {q} s1 s2"
    by (rule assign_cell [OF n(2) c1(1)])
  have c2: "room (cell s2 r)" using s2(3) c1 d by (auto simp: kept_def)
  obtain s3 where s3: "assign_opt c (Some r) s2 = Ok s3" "isnum (cell s3 r) z3" "kept {r} s2 s3"
    by (rule assign_cell [OF n(3) c2])
  have "kept {p, q, r} s s3"
    by (rule kept_trans_same [OF kept_mono [OF s1(3)] kept_trans_same [OF kept_mono [OF s2(3)] kept_mono [OF s3(3)]]]) auto
  then show ?thesis using s1 s2 s3 d by (intro that [of s3]) (auto simp: kept_def)
qed

lemma mpextendedgcd_spec:
  assumes n: "isnum (cell s a) za" "isnum (cell s b) zb" "0 \<le> za" "0 \<le> zb" and k: "a < brk s" "b < brk s" "v < brk s" "x < brk s" "y < brk s"
    and d: "distinct [v, x, y]" and r: "room (cell s v)" "room (cell s x)" "room (cell s y)" and m: "0 < mpmindigits s"
  obtains s' X Y where "mpextendedgcd s a b v x y = Some (Ok s')" "same_but {v, x, y} s s'"
    "\<forall>c < brk s. static (cell s' c) = static (cell s c)"
    "isnum (cell s' v) (gcd za zb)" "isnum (cell s' x) X" "isnum (cell s' y) Y" "za * X + zb * Y = gcd za zb"
proof -
  have sg: "\<not> (sign (cell s a) < 0 \<or> sign (cell s b) < 0)" using isnum_sign n by simp
  note tp = isnum_zero [OF n(1)] isnum_zero [OF n(2)]
  consider "za = 0" | "za \<noteq> 0" "zb = 0" | "za \<noteq> 0" "zb \<noteq> 0" by blast
  then show ?thesis
  proof cases
    case 1
    obtain s' where s': "obind (assign_opt (cell s b) (Some v) s) (\<lambda>s. obind (assign_opt mpone (Some y) s) (assign_opt mpzero (Some x))) = Ok s'"
      "kept {v, y, x} s s'" "isnum (cell s' v) zb" "isnum (cell s' y) 1" "isnum (cell s' x) 0"
      by (rule assign_three [OF n(2) mpone_num mpzero_num, of v y x s]) (use d r in auto)
    have "mpextendedgcd s a b v x y = Some (Ok s')"
      unfolding mpextendedgcd_def if_not_P [OF sg] using s'(1) tp 1 by simp
    then show ?thesis using s' 1 n(4) kept_same_but [OF s'(2)]
      by (intro that [of s' 0 1]) (simp_all add: kept_def insert_commute)
  next
    case 2
    obtain s' where s': "obind (assign_opt (cell s a) (Some v) s) (\<lambda>s. obind (assign_opt mpone (Some x) s) (assign_opt mpzero (Some y))) = Ok s'"
      "kept {v, x, y} s s'" "isnum (cell s' v) za" "isnum (cell s' x) 1" "isnum (cell s' y) 0"
      by (rule assign_three [OF n(1) mpone_num mpzero_num, of v x y s]) (use d r in auto)
    have "mpextendedgcd s a b v x y = Some (Ok s')"
      unfolding mpextendedgcd_def if_not_P [OF sg] using s'(1) tp 2 by simp
    then show ?thesis using s' 2 n(3) kept_same_but [OF s'(2)]
      by (intro that [of s' 1 0]) (simp_all add: kept_def)
  next
    case 3
    define p q where "p = brk s" and "q = p + 1"
    obtain s1 where s1: "mpcopy s (cell s a) = Ok (p, s1)" "cnum s1 p za" "brk s1 = q" "mpmindigits s1 = mpmindigits s"
      "\<And>c. c \<noteq> p \<Longrightarrow> cell s1 c = cell s c" "\<not> static (cell s1 p)"
      using mpcopy_cnum [OF n(1) m] unfolding p_def [symmetric] q_def by blast
    have b1: "isnum (cell s1 b) zb" using s1(5) [of b] n(2) k by (simp add: p_def)
    obtain s2 where s2: "mpcopy s1 (cell s1 b) = Ok (q, s2)" "cnum s2 q zb" "brk s2 = q + 1" "mpmindigits s2 = mpmindigits s"
      "\<And>c. c \<noteq> q \<Longrightarrow> cell s2 c = cell s1 c" "\<not> static (cell s2 q)"
      using mpcopy_cnum [OF b1 m [folded s1(4)]] unfolding s1(3,4) by blast
    have old: "cell s2 c = cell s c" if "c < p" for c using s2(5) [of c] s1(5) [of c] that by (simp add: q_def)
    have new: "cell s2 p = cell s1 p" using s2(5) [of p] by (simp add: q_def)
    have lt: "p < brk s2" "q < brk s2" "v < brk s2" "x < brk s2" "y < brk s2" "v < p" "x < p" "y < p"
      using k s2(3) by (simp_all add: p_def q_def)
    obtain s3 X Y where s3: "bezout_main p q v x y s2 = Some (Ok s3)" "same_but {p, q, v, x, y} s2 s3"
      "\<forall>c < brk s2. static (cell s3 c) = static (cell s2 c)"
      "isnum (cell s3 v) (gcd za zb)" "isnum (cell s3 x) X" "isnum (cell s3 y) Y" "za * X + zb * Y = gcd za zb"
    proof (rule bezout_main_gcd [of s2 p za q zb v x y])
      show "cnum s2 p za" using s1(2) new by (simp add: cnum_def)
      show "distinct [p, q, v, x, y]" using d lt by (auto simp: q_def)
    qed (use s2 3 n(3,4) lt old r m s1(6) new in simp_all)
    have "mpextendedgcd s a b v x y = Some (Ok s3)"
      unfolding mpextendedgcd_def if_not_P [OF sg] using tp 3 s1(1) s2(1) s3(1) by simp
    moreover have "same_but {v, x, y} s s3"
      using s3(2) s2(3,4) old by (auto simp: same_but_def p_def q_def)
    moreover have "\<forall>c < brk s. static (cell s3 c) = static (cell s c)"
      using s3(3) s2(3) old by (simp add: p_def q_def)
    ultimately show ?thesis using s3(4-7) by (intro that [of s3 X Y])
  qed
qed

text \<open>C35: \<open>mpextendedgcd\<close> returns, for two numbers that are not negative: the greatest common divisor and
  factors \<open>x\<close>, \<open>y\<close> with \<open>ax + by = v\<close>.  The operands may be any cells, the results among them, and no other
  number changes.\<close>

theorem mpextendedgcd_bezout:
  assumes "isnum (cell s a) za" "isnum (cell s b) zb" "0 \<le> za" "0 \<le> zb"
    "a < brk s" "b < brk s" "v < brk s" "x < brk s" "y < brk s" "distinct [v, x, y]"
    "room (cell s v)" "room (cell s x)" "room (cell s y)" "0 < mpmindigits s"
  shows "\<exists>s' X Y. mpextendedgcd s a b v x y = Some (Ok s') \<and> same_but {v, x, y} s s'
    \<and> isnum (cell s' v) (gcd za zb) \<and> isnum (cell s' x) X \<and> isnum (cell s' y) Y \<and> za * X + zb * Y = gcd za zb"
  by (rule mpextendedgcd_spec [OF assms]) blast

section \<open>Inverses\<close>

lemma mpnew_cell:
  assumes "0 < mpmindigits s"
  obtains s' where "mpnew s 0 = Ok (brk s, s')" "isnum (cell s' (brk s)) 0" "brk s' = brk s + 1" "mpmindigits s' = mpmindigits s"
    "\<And>c. c \<noteq> brk s \<Longrightarrow> cell s' c = cell s c" "\<not> static (cell s' (brk s))"
proof -
  obtain x where x: "mpnew s 0 = Ok (brk s, (upd s (brk s) x)\<lparr>brk := brk s + 1\<rparr>)" "isnum x 0" "\<not> static x"
    using mpnew_spec [OF _ assms, of 0] by (metis order_refl)
  then show ?thesis by (intro that [of "(upd s (brk s) x)\<lparr>brk := brk s + 1\<rparr>"]) simp_all
qed

lemma gcd_negative:
  assumes "isnum (cell s a) za" "isnum (cell s b) zb" "za < 0 \<or> zb < 0" and d: "distinct [v, x, y]"
    and r: "room (cell s v)" "room (cell s x)" "room (cell s y)"
  obtains s' where "mpextendedgcd s a b v x y = Some (Ok s')" "kept {v, x, y} s s'"
    "isnum (cell s' v) 0" "isnum (cell s' x) 0" "isnum (cell s' y) 0"
proof -
  have sg: "sign (cell s a) < 0 \<or> sign (cell s b) < 0" using isnum_sign assms(1-3) by auto
  obtain s' where s': "obind (assign_opt mpzero (Some v) s) (\<lambda>s. obind (assign_opt mpzero (Some y) s) (assign_opt mpzero (Some x))) = Ok s'"
      "kept {v, y, x} s s'" "isnum (cell s' v) 0" "isnum (cell s' y) 0" "isnum (cell s' x) 0"
    by (rule assign_three [OF mpzero_num mpzero_num mpzero_num, of v y x s]) (use d r in auto)
  moreover from s'(1) have "mpextendedgcd s a b v x y = Some (Ok s')" unfolding mpextendedgcd_def if_P [OF sg] by simp
  ultimately show ?thesis by (intro that [of s']) (simp_all add: insert_commute)
qed

text \<open>Before the residue is taken.\<close>

lemma mpinvert_reduces:
  assumes n: "isnum (cell s b) zb" "isnum (cell s m) zm" "0 < zm" and k: "b < brk s" "m < brk s" "res < brk s"
    and r: "room (cell s res)" "res \<noteq> m" and md: "0 < mpmindigits s"
  obtains s' G X where "mpinvert s b m res = Some (if G \<noteq> 1 then Fail else mpmod s' res m res)"
    "G = 1 \<longleftrightarrow> 0 \<le> zb \<and> coprime zb zm" "0 \<le> zb \<Longrightarrow> \<exists>Y. zb * X + zm * Y = G" "isnum (cell s' res) X"
    "same_but {res} s s'"
proof -
  define p q where "p = brk s" and "q = p + 1"
  obtain s1 where s1: "mpnew s 0 = Ok (p, s1)" "isnum (cell s1 p) 0" "brk s1 = q" "mpmindigits s1 = mpmindigits s"
    "\<And>c. c \<noteq> p \<Longrightarrow> cell s1 c = cell s c" "\<not> static (cell s1 p)"
    using mpnew_cell [OF md] unfolding p_def [symmetric] q_def by blast
  obtain s2 where s2: "mpnew s1 0 = Ok (q, s2)" "isnum (cell s2 q) 0" "brk s2 = q + 1" "mpmindigits s2 = mpmindigits s"
    "\<And>c. c \<noteq> q \<Longrightarrow> cell s2 c = cell s1 c" "\<not> static (cell s2 q)"
    using mpnew_cell [OF md [folded s1(4)]] unfolding s1(3,4) by blast
  have old: "cell s2 c = cell s c" if "c < p" for c using s2(5) [of c] s1(5) [of c] that by (simp add: q_def)
  have new: "cell s2 p = cell s1 p" using s2(5) [of p] by (simp add: q_def)
  have lt: "p < brk s2" "q < brk s2" "res < brk s2" "b < brk s2" "m < brk s2" "res < p" "b < p" "m < p"
    using k s2(3) by (simp_all add: p_def q_def)
  have n2: "isnum (cell s2 b) zb" "isnum (cell s2 m) zm" "room (cell s2 p)" "room (cell s2 q)" "room (cell s2 res)"
    using old lt n(1,2) r(1) s2(2) s1(2) new by (simp_all add: isnumD)
  have d: "distinct [p, res, q]" using lt by (simp add: q_def)
  obtain s3 G X where s3: "mpextendedgcd s2 b m p res q = Some (Ok s3)" "same_but {p, res, q} s2 s3"
    "\<forall>c < brk s2. static (cell s3 c) = static (cell s2 c)" "isnum (cell s3 p) G" "isnum (cell s3 res) X"
    "G = 1 \<longleftrightarrow> 0 \<le> zb \<and> coprime zb zm" "0 \<le> zb \<Longrightarrow> \<exists>Y. zb * X + zm * Y = G"
  proof (cases "0 \<le> zb")
    case True
    obtain t X Y where t: "mpextendedgcd s2 b m p res q = Some (Ok t)" "same_but {p, res, q} s2 t"
      "\<forall>c < brk s2. static (cell t c) = static (cell s2 c)"
      "isnum (cell t p) (gcd zb zm)" "isnum (cell t res) X" "isnum (cell t q) Y" "zb * X + zm * Y = gcd zb zm"
      by (rule mpextendedgcd_spec [OF n2(1,2) True _ lt(4,5,1,3,2) d n2(3,5,4)]) (use n(3) md s2(4) in simp_all)
    then show ?thesis using True by (intro that [of t "gcd zb zm" X]) (auto simp: coprime_iff_gcd_eq_1)
  next
    case False
    obtain t where t: "mpextendedgcd s2 b m p res q = Some (Ok t)" "kept {p, res, q} s2 t" "isnum (cell t p) 0" "isnum (cell t res) 0"
      using gcd_negative [OF n2(1,2) _ d n2(3,5,4)] False by auto
    then show ?thesis using False kept_same_but [OF t(2)] by (intro that [of t 0 0]) (auto simp: kept_def)
  qed
  obtain c where c: "mpcmp (cell s3 p) mpone = Ok c" "c = 0 \<longleftrightarrow> G = 1"
    using mpcmp_spec [OF s3(4) mpone_num] by metis
  have st: "\<forall>c \<in> set [p, q]. \<not> static (cell s3 c)" using s3(3) lt s1(6) s2(6) new by simp
  obtain s4 where s4: "mpfrees [p, q] s3 = Ok s4" "kept (set [p, q]) s3 s4" using mpfrees_cells [OF st] by blast
  have e: "mpinvert s b m res = Some (if G \<noteq> 1 then Fail else mpmod s4 res m res)"
    using s1(1) s2(1) s3(1) c s4(1) by (auto simp: mpinvert_def)
  have "cell s4 c = cell s c" if "c < brk s" "c \<noteq> res" for c
    using s4(2) s3(2) old [of c] that s2(3) by (simp add: same_but_def kept_def p_def q_def)
  then have "same_but {res} s s4" using s4(2) s3(2) s2(3,4) by (simp add: same_but_def kept_def p_def q_def)
  moreover have "isnum (cell s4 res) X" using s4(2) s3(5) lt by (auto simp: kept_def q_def)
  ultimately show ?thesis using e s3(6,7) by (intro that [of G s4 X])
qed

text \<open>C37: \<open>mpinvert\<close> gives the inverse of \<open>b\<close> between 0 and the modulus, or ends with \<open>sysfatal\<close> when there
  is none or \<open>b\<close> is negative; it always returns. The result may replace \<open>b\<close> but not the modulus, which is
  positive.\<close>

theorem mpinvert_inverse:
  assumes "isnum (cell s b) zb" "isnum (cell s m) zm" "0 < zm" "b < brk s" "m < brk s" "res < brk s"
    "room (cell s res)" "res \<noteq> m" "0 < mpmindigits s"
  shows "if 0 \<le> zb \<and> coprime zb zm
    then \<exists>s' z. mpinvert s b m res = Some (Ok s') \<and> same_but {res} s s' \<and> isnum (cell s' res) z
      \<and> 0 \<le> z \<and> z < zm \<and> zb * z mod zm = 1 mod zm
    else mpinvert s b m res = Some Fail"
proof -
  obtain s1 G X where s1: "mpinvert s b m res = Some (if G \<noteq> 1 then Fail else mpmod s1 res m res)"
    "G = 1 \<longleftrightarrow> 0 \<le> zb \<and> coprime zb zm" "0 \<le> zb \<Longrightarrow> \<exists>Y. zb * X + zm * Y = G" "isnum (cell s1 res) X"
    "same_but {res} s s1"
    using mpinvert_reduces [OF assms] by metis
  show ?thesis
  proof (cases "G = 1")
    case False
    then show ?thesis using s1(1,2) by auto
  next
    case True
    have m1: "isnum (cell s1 m) zm" "m < brk s1" "res < brk s1" "0 < mpmindigits s1"
      using s1(5) assms(2,5,6,8,9) by (auto simp: same_but_def)
    obtain s2 where s2: "mpmod s1 res m res = Ok s2" "same_but {res} s1 s2"
      "isnum (cell s2 res) (if X \<le> - zm \<and> X mod zm = 0 \<and> res \<noteq> res then zm else X mod zm)"
      by (rule mpmod_spec [OF s1(4) m1(3,1,2) assms(3) m1(3) isnumD(2) [OF s1(4)] _ m1(4)]) (simp add: assms(8))
    obtain Y where Y: "zb * X + zm * Y = 1" using s1(2,3) True by auto
    have "zb * (X mod zm) mod zm = (zb * X + zm * Y) mod zm" by (simp add: mod_mult_right_eq)
    then have "zb * (X mod zm) mod zm = 1 mod zm" unfolding Y .
    then show ?thesis using s1(1,2) s2 same_but_trans [OF s1(5) s2(2)] True assms(3) by auto
  qed
qed

text \<open>The number 7 in every cell but the first, which holds 12.\<close>

definition gcd_example :: mps where
  "gcd_example = \<lparr>cell = (\<lambda>c. \<lparr>sign = 1, top = 1, digs = [if c = 0 then 12 else 7], static = False\<rparr>), brk = 5, mpmindigits = 1\<rparr>"

lemma gcd_example:
  "isnum (cell gcd_example 0) 12" "0 < c \<Longrightarrow> isnum (cell gcd_example c) 7" "room (cell gcd_example c)"
  "brk gcd_example = 5" "0 < mpmindigits gcd_example"
  by (simp_all add: gcd_example_def isnum_def normal_def room_def mag_def)

theorem mpextendedgcd_bezout_witness:
  "\<exists>s' X Y. mpextendedgcd gcd_example 0 1 0 1 2 = Some (Ok s') \<and> same_but {0, 1, 2} gcd_example s'
    \<and> isnum (cell s' 0) 1 \<and> isnum (cell s' 1) X \<and> isnum (cell s' 2) Y \<and> 12 * X + 7 * Y = 1"
proof -
  have "gcd 12 (7 :: int) = 1" by code_simp
  then show ?thesis
    using mpextendedgcd_bezout [OF gcd_example(1) gcd_example(2) [of 1], of 0 1 2] gcd_example(3,4,5) by simp
qed

theorem mpinvert_inverse_witness:
  "\<exists>s' z. mpinvert gcd_example 0 1 2 = Some (Ok s') \<and> same_but {2} gcd_example s' \<and> isnum (cell s' 2) z
    \<and> 0 \<le> z \<and> z < 7 \<and> 12 * z mod 7 = 1"
proof -
  have "coprime 12 (7 :: int)" by code_simp
  then show ?thesis
    using mpinvert_inverse [OF gcd_example(1) gcd_example(2) [of 1], of 2] gcd_example(3,4,5) by simp
qed

end
