(* ===== verification/MpExp.thy ===== *)
theory MpExp
  imports MpGcd
begin

unbundle bit_operations_syntax

text \<open>
  Powers, \<open>libmp/port/mpexp.c\<close>.  \<open>t[j]\<close> and \<open>t[j^1]\<close> of the source are the first two components of
  the state of the loops.  A search for the highest bit of a digit 0 does not end and is \<open>Undef\<close>.
\<close>

section \<open>Square and multiply\<close>

text \<open>The body of the loop over the bits; \<open>on\<close> says that the bit of the exponent is set.\<close>

definition exp_bit :: "nat \<Rightarrow> nat option \<Rightarrow> bool \<Rightarrow> nat \<times> nat \<times> mps \<Rightarrow> (nat \<times> nat \<times> mps) outcome" where
  "exp_bit b m on = (\<lambda>(cur, oth, s).
     obind (mpmul s cur cur oth) (\<lambda>s.
     obind (if on then obind (mpmul s oth b cur) (\<lambda>s. Ok (cur, oth, s)) else Ok (oth, cur, s)) (\<lambda>(cur, oth, s).
     case m of None \<Rightarrow> Ok (cur, oth, s)
     | Some m \<Rightarrow> if top (cell s m) < top (cell s cur) then obind (mpmod s cur m oth) (\<lambda>s. Ok (oth, cur, s))
         else Ok (cur, oth, s))))"

fun exp_bits :: "nat \<Rightarrow> nat option \<Rightarrow> mpdigit \<Rightarrow> nat \<Rightarrow> nat \<times> nat \<times> mps \<Rightarrow> (nat \<times> nat \<times> mps) outcome" where
  "exp_bits b m d 0 st = Ok st"
| "exp_bits b m d (Suc k) st = obind (exp_bit b m (push_bit k 1 AND d \<noteq> 0) st) (exp_bits b m d k)"

fun exp_digits :: "nat \<Rightarrow> nat option \<Rightarrow> mpdigit list \<Rightarrow> nat \<Rightarrow> nat \<times> nat \<times> mps \<Rightarrow> (nat \<times> nat \<times> mps) outcome" where
  "exp_digits b m p 0 st = Ok st"
| "exp_digits b m p (Suc i) st = obind (rdat p i) (\<lambda>d. obind (exp_bits b m d 32 st) (exp_digits b m p i))"

fun first_bit :: "mpdigit \<Rightarrow> nat \<Rightarrow> nat outcome" where
  "first_bit d 0 = Undef"
| "first_bit d (Suc k) = (if push_bit k 1 AND d = 0 then first_bit d k else Ok k)"

text \<open>A copy, when the result would overwrite the number; the number is then to be freed.\<close>

definition exp_copy :: "nat \<Rightarrow> nat \<Rightarrow> mps \<Rightarrow> (nat \<times> mps) outcome" where
  "exp_copy res b s = (if res = b then mpcopy s (cell s b) else Ok (b, s))"

text \<open>From the first bit of the exponent to the result.\<close>

definition exp_main :: "nat \<Rightarrow> nat \<Rightarrow> nat option \<Rightarrow> nat \<Rightarrow> nat \<Rightarrow> mps \<Rightarrow> mps outcome" where
  "exp_main b e m t res s =
     (let p = digs (cell s e); i = top (cell s e) - 1 in
     obind (rdat p i) (\<lambda>d. obind (first_bit d 32) (\<lambda>k.
     obind (exp_bits b m d k (t, res, s)) (\<lambda>st. obind (exp_digits b m p i st) (\<lambda>(cur, oth, s).
     obind (case m of None \<Rightarrow> Ok (cur, oth, s) | Some m' \<Rightarrow> obind (mpmod s cur m' oth) (\<lambda>s. Ok (oth, cur, s))) (\<lambda>(cur, oth, s).
     if cur = res then mpfree s oth
     else obind (assign_opt (cell s cur) (Some res) s) (\<lambda>s. mpfree s cur)))))))"

definition mpexp :: "mps \<Rightarrow> nat \<Rightarrow> nat \<Rightarrow> nat option \<Rightarrow> nat \<Rightarrow> mps outcome" where
  "mpexp s b e m res =
     obind (mpcmp (cell s e) mpzero) (\<lambda>i.
     if i = 0 then assign_opt mpone (Some res) s
     else if i < 0 then Fail
     else obind (mpcopy s (cell s b)) (\<lambda>(t, s).
       obind (exp_copy res b s) (\<lambda>(b', s). obind (exp_copy res e s) (\<lambda>(e', s).
       obind (case m of None \<Rightarrow> Ok (None, s) | Some m \<Rightarrow> obind (exp_copy res m s) (\<lambda>(m', s). Ok (Some m', s))) (\<lambda>(m', s).
       obind (exp_main b' e' m' t res s) (\<lambda>s.
       obind (if res = b then mpfree s b' else Ok s) (\<lambda>s.
       obind (if res = e then mpfree s e' else Ok s) (\<lambda>s.
       if m = Some res then mpfree s (the m') else Ok s))))))))"

section \<open>The power it computes\<close>

lemma even_halves_small: "a < 32 \<Longrightarrow> even_halves a b"
  by (subst even_halves.simps) simp

lemma top_le: "isnum x z \<Longrightarrow> \<bar>z\<bar> < int (Base ^ k) \<Longrightarrow> top x \<le> k"
proof (rule ccontr)
  assume h: "isnum x z" "\<bar>z\<bar> < int (Base ^ k)" "\<not> top x \<le> k"
  then have "Base ^ (top x - 1) \<le> mag x" using normal_mag [OF isnumD(2) [OF h(1)]] isnumD(1) [OF h(1)] by simp
  moreover have "Base ^ k \<le> Base ^ (top x - 1)" using h(3) by (intro power_increasing) (simp_all add: Suc_le_eq)
  ultimately have "int (Base ^ k) \<le> \<bar>z\<bar>" using isnum_mag [OF h(1)] by (metis le_trans of_nat_le_iff)
  then show False using h(2) by simp
qed

lemma top_less: "isnum x z \<Longrightarrow> \<bar>z\<bar> < int (Base ^ top x)"
  using mag_less [OF isnumD(2)] isnum_mag by (metis of_nat_less_iff)

lemma abs_le: "isnum x z \<Longrightarrow> isnum y w \<Longrightarrow> \<bar>w\<bar> \<le> \<bar>z\<bar> \<Longrightarrow> top y \<le> top x"
  using top_le top_less by (meson le_less_trans)

text \<open>Multiplication apart from the factors, of numbers that are not too long.\<close>

lemma mpmul_apart:
  assumes "isnum (cell s b1) z1" "isnum (cell s b2) z2" "b1 < brk s" "b2 < brk s" "r < brk s" "room (cell s r)"
    "0 < mpmindigits s" "top (cell s b1) < 32" "top (cell s b2) < 32"
  obtains s' where "mpmul s b1 b2 r = Ok s'" "same_but {r} s s'" "isnum (cell s' r) (z1 * z2)" "static (cell s' r) = static (cell s r)"
    "top (cell s' r) \<le> top (cell s b1) + top (cell s b2)"
proof -
  have e: "even_halves (max (top (cell s b1)) (top (cell s b2))) (min (top (cell s b1)) (top (cell s b2)))"
    using assms(8,9) by (intro even_halves_small) simp
  obtain s' where s': "mpmul s b1 b2 r = Ok s'" "same_but {r} s s'" "isnum (cell s' r) (z1 * z2)" "static (cell s' r) = static (cell s r)"
    by (rule mpmul_spec [OF assms(1,3,2,4,6,5,7) e])
  have "\<bar>z1\<bar> * \<bar>z2\<bar> < int (Base ^ top (cell s b1)) * int (Base ^ top (cell s b2))"
    using top_less assms(1,2) by (intro mult_strict_mono) auto
  then have "\<bar>z1 * z2\<bar> < int (Base ^ (top (cell s b1) + top (cell s b2)))" by (simp add: abs_mult power_add)
  then show ?thesis using s' top_le that by blast
qed

text \<open>The state of the loops: \<open>cur\<close> and \<open>oth\<close> are the two cells \<open>t\<close> and \<open>r\<close>, and \<open>cur\<close> holds \<open>z\<close>; the rest of
  the store is as it was.\<close>

definition exp_st :: "nat \<Rightarrow> nat \<Rightarrow> mps \<Rightarrow> int \<Rightarrow> nat \<times> nat \<times> mps \<Rightarrow> bool" where
  "exp_st t r s0 z = (\<lambda>(cur, oth, s). {cur, oth} = {t, r} \<and> cur \<noteq> oth \<and> same_but {t, r} s0 s
     \<and> static (cell s t) = static (cell s0 t) \<and> static (cell s r) = static (cell s0 r)
     \<and> isnum (cell s cur) z \<and> room (cell s oth))"

lemma exp_st_step:
  assumes st: "exp_st t r s0 z (cur, oth, s)" and k: "t < brk s0" "r < brk s0"
    and s': "same_but {oth} s s'" "isnum (cell s' oth) w" "static (cell s' oth) = static (cell s oth)"
  shows "exp_st t r s0 w (oth, cur, s')"
proof -
  have tr: "{cur, oth} = {t, r}" "cur \<noteq> oth" and sb: "same_but {t, r} s0 s" using st by (simp_all add: exp_st_def)
  have "cur < brk s" using tr k sb unfolding same_but_def by (metis insertI1 insert_iff less_le_trans singletonD)
  then have c: "cell s' cur = cell s cur" using s'(1) tr(2) by (simp add: same_but_def)
  have "same_but {t, r} s0 s'"
    by (rule same_but_trans [OF sb same_but_mono [OF s'(1)]]) (use tr(1) in auto)
  moreover have "{oth, cur} = {t, r}" using tr(1) by auto
  moreover have "static (cell s' t) = static (cell s0 t) \<and> static (cell s' r) = static (cell s0 r)"
    using tr c s'(3) st unfolding exp_st_def by (auto simp: doubleton_eq_iff)
  moreover have "room (cell s' cur)" using c st by (simp add: exp_st_def isnum_def)
  ultimately show ?thesis using tr s'(2) by (simp add: exp_st_def)
qed

lemma exp_st_cells:
  assumes "exp_st t r s0 z (cur, oth, s)" "t < brk s0" "r < brk s0"
  shows "isnum (cell s cur) z" "room (cell s oth)" "cur < brk s" "oth < brk s" "mpmindigits s = mpmindigits s0"
    "\<And>c. c < brk s0 \<Longrightarrow> c \<notin> {t, r} \<Longrightarrow> cell s c = cell s0 c \<and> c < brk s \<and> c \<noteq> cur \<and> c \<noteq> oth"
  using assms by (auto simp: exp_st_def same_but_def doubleton_eq_iff)

lemma exp_square:
  assumes st: "exp_st t r s0 z (cur, oth, s)" and k: "t < brk s0" "r < brk s0" and m: "0 < mpmindigits s0"
    and l: "top (cell s cur) < 32"
  obtains s' where "mpmul s cur cur oth = Ok s'" "exp_st t r s0 (z * z) (oth, cur, s')"
    "top (cell s' oth) \<le> 2 * top (cell s cur)"
proof -
  note c = exp_st_cells [OF st k]
  obtain s' where s': "mpmul s cur cur oth = Ok s'" "same_but {oth} s s'" "isnum (cell s' oth) (z * z)"
    "static (cell s' oth) = static (cell s oth)" "top (cell s' oth) \<le> top (cell s cur) + top (cell s cur)"
    by (rule mpmul_apart [OF c(1,1,3,3,4,2) m [folded c(5)] l l])
  then show ?thesis using exp_st_step [OF st k s'(2-4)] that by simp
qed

lemma exp_times:
  assumes st: "exp_st t r s0 z (cur, oth, s)" and k: "t < brk s0" "r < brk s0" and m: "0 < mpmindigits s0"
    and b: "isnum (cell s0 b) zb" "b < brk s0" "b \<notin> {t, r}"
    and l: "top (cell s cur) < 32" "top (cell s0 b) < 32"
  obtains s' where "mpmul s cur b oth = Ok s'" "exp_st t r s0 (z * zb) (oth, cur, s')"
proof -
  note c = exp_st_cells [OF st k]
  note cb = c(6) [OF b(2,3)]
  obtain s' where s': "mpmul s cur b oth = Ok s'" "same_but {oth} s s'" "isnum (cell s' oth) (z * zb)"
    "static (cell s' oth) = static (cell s oth)"
    by (rule mpmul_apart [OF c(1) _ c(3) _ c(4,2) m [folded c(5)] l(1), of b zb]) (use cb b l in simp_all)
  then show ?thesis using exp_st_step [OF st k s'(2-4)] that by simp
qed

lemma exp_reduce:
  assumes st: "exp_st t r s0 z (cur, oth, s)" and k: "t < brk s0" "r < brk s0" and m: "0 < mpmindigits s0"
    and mc: "isnum (cell s0 mc) zm" "0 < zm" "mc < brk s0" "mc \<notin> {t, r}"
  obtains s' w where "mpmod s cur mc oth = Ok s'" "exp_st t r s0 w (oth, cur, s')"
    "w mod zm = z mod zm" "0 \<le> w" "w \<le> zm" "0 \<le> z \<Longrightarrow> w = z mod zm"
proof -
  note c = exp_st_cells [OF st k]
  note cm = c(6) [OF mc(3,4)]
  define w where "w = (if z \<le> - zm \<and> z mod zm = 0 \<and> oth \<noteq> cur then zm else z mod zm)"
  obtain s' where s': "mpmod s cur mc oth = Ok s'" "same_but {oth} s s'" "static (cell s' oth) = static (cell s oth)"
    "isnum (cell s' oth) w"
    unfolding w_def by (rule mpmod_spec [OF c(1,3) _ _ mc(2) c(4,2) _ m [folded c(5)], of mc]) (use cm mc in auto)
  have "w mod zm = z mod zm" "0 \<le> w" "w \<le> zm" "0 \<le> z \<Longrightarrow> w = z mod zm"
    using mc(2) pos_mod_bound [OF mc(2), of z] by (auto simp: w_def order_less_imp_le)
  then show ?thesis using exp_st_step [OF st k s'(2,4,3)] s'(1) that by blast
qed

lemma power_bound: "i \<le> j \<Longrightarrow> \<bar>z\<bar> ^ j < B \<Longrightarrow> 1 < B \<Longrightarrow> \<bar>z\<bar> ^ i < B" for z B :: int
proof (cases "z = 0")
  case False
  assume "i \<le> j" "\<bar>z\<bar> ^ j < B"
  then show ?thesis using power_increasing [of i j "\<bar>z\<bar>"] False by linarith
qed (cases i; simp)

text \<open>The power with the exponent \<open>n\<close>: exact without a modulus, else with the same residue.\<close>

definition exp_pow :: "nat option \<Rightarrow> int \<Rightarrow> int \<Rightarrow> nat \<Rightarrow> int \<Rightarrow> nat \<Rightarrow> bool" where
  "exp_pow m zb zm n z l \<longleftrightarrow> (0 \<le> zb \<longrightarrow> 0 \<le> z)
     \<and> (case m of None \<Rightarrow> z = zb ^ n | Some _ \<Rightarrow> l \<le> 15 \<and> z mod zm = zb ^ n mod zm)"

definition exp_ok :: "nat option \<Rightarrow> int \<Rightarrow> int \<Rightarrow> nat \<Rightarrow> nat \<Rightarrow> mps \<Rightarrow> nat \<Rightarrow> nat \<times> nat \<times> mps \<Rightarrow> bool" where
  "exp_ok m zb zm t r s0 n = (\<lambda>(cur, oth, s).
     \<exists>z. exp_st t r s0 z (cur, oth, s) \<and> exp_pow m zb zm n z (top (cell s cur)))"

text \<open>Base, modulus and the two cells before the loops.  Fifteen digits keep the products below the
  lengths at which Karatsuba's method takes over.\<close>

definition exp_args :: "nat \<Rightarrow> nat option \<Rightarrow> int \<Rightarrow> int \<Rightarrow> nat \<Rightarrow> nat \<Rightarrow> mps \<Rightarrow> bool" where
  "exp_args b m zb zm t r s0 \<longleftrightarrow> isnum (cell s0 b) zb \<and> b < brk s0 \<and> b \<notin> {t, r} \<and> t < brk s0 \<and> r < brk s0
     \<and> 0 < mpmindigits s0 \<and> (\<forall>mc. m = Some mc \<longrightarrow> isnum (cell s0 mc) zm \<and> 0 < zm \<and> mc < brk s0 \<and> mc \<notin> {t, r}
       \<and> top (cell s0 mc) \<le> 15 \<and> top (cell s0 b) \<le> 15)"

abbreviation exp_fits :: "nat option \<Rightarrow> int \<Rightarrow> nat \<Rightarrow> bool" where
  "exp_fits m zb n \<equiv> m = None \<longrightarrow> \<bar>zb\<bar> ^ n < int (Base ^ 31)"

lemma exp_product:
  assumes a: "exp_args b m zb zm t r s0" and ok: "exp_ok m zb zm t r s0 n (cur, oth, s)"
    and f: "exp_fits m zb (2 * n + (if on then 1 else 0))"
  obtains z c o' s' where "obind (mpmul s cur cur oth) (\<lambda>s.
      if on then obind (mpmul s oth b cur) (\<lambda>s. Ok (cur, oth, s)) else Ok (oth, cur, s)) = Ok (c, o', s')"
    "exp_st t r s0 (z * z * (if on then zb else 1)) (c, o', s')" "exp_pow m zb zm n z 0"
proof -
  have ar: "isnum (cell s0 b) zb" "b < brk s0" "b \<notin> {t, r}" "t < brk s0" "r < brk s0" "0 < mpmindigits s0"
    using a by (simp_all add: exp_args_def)
  obtain z where z: "exp_st t r s0 z (cur, oth, s)" "exp_pow m zb zm n z (top (cell s cur))"
    using ok unfolding exp_ok_def by auto
  have B: "1 < int (Base ^ 31)" by (simp add: Base_def)
  have bound: "\<bar>zb\<bar> ^ i < int (Base ^ 31)" if "m = None" "i \<le> 2 * n + (if on then 1 else 0)" for i
    using power_bound [OF that(2) _ B] f that(1) by blast
  have l: "top (cell s cur) < 32"
  proof (cases m)
    case None
    then have "\<bar>z\<bar> < int (Base ^ 31)" using z(2) bound [of n] by (simp add: exp_pow_def power_abs)
    then show ?thesis using top_le [OF exp_st_cells(1) [OF z(1) ar(4,5)]] by fastforce
  qed (use z(2) in \<open>simp add: exp_pow_def\<close>)
  obtain s1 where s1: "mpmul s cur cur oth = Ok s1" "exp_st t r s0 (z * z) (oth, cur, s1)"
    "top (cell s1 oth) \<le> 2 * top (cell s cur)"
    by (rule exp_square [OF z(1) ar(4,5,6) l])
  have p0: "exp_pow m zb zm n z 0" using z(2) by (simp add: exp_pow_def split: option.splits)
  show ?thesis
  proof (cases on)
    case False
    then show ?thesis using s1(1,2) p0 by (intro that [of oth cur s1 z]) simp_all
  next
    case True
    have l2: "top (cell s1 oth) < 32 \<and> top (cell s0 b) < 32"
    proof (cases m)
      case None
      have "\<bar>z * z\<bar> = \<bar>zb\<bar> ^ (2 * n)" using None z(2) by (simp add: exp_pow_def abs_mult power_abs power_add mult_2)
      then have "\<bar>z * z\<bar> < int (Base ^ 31)" using bound [OF None, of "2 * n"] by simp
      moreover have "\<bar>zb\<bar> < int (Base ^ 31)" using bound [OF None, of 1] True by simp
      ultimately show ?thesis
        using top_le [OF exp_st_cells(1) [OF s1(2) ar(4,5)]] top_le [OF ar(1)] by fastforce
    next
      case (Some mc)
      then show ?thesis using z(2) s1(3) a by (auto simp: exp_pow_def exp_args_def)
    qed
    obtain s2 where s2: "mpmul s1 oth b cur = Ok s2" "exp_st t r s0 (z * z * zb) (cur, oth, s2)"
      using exp_times [OF s1(2) ar(4,5,6) ar(1-3)] l2 by blast
    show ?thesis using s1(1) s2 True p0 by (intro that [of cur oth s2 z]) simp_all
  qed
qed

lemma exp_bit_ok:
  assumes a: "exp_args b m zb zm t r s0" and ok: "exp_ok m zb zm t r s0 n st"
    and f: "exp_fits m zb (2 * n + (if on then 1 else 0))"
  obtains st' where "exp_bit b m on st = Ok st'" "exp_ok m zb zm t r s0 (2 * n + (if on then 1 else 0)) st'"
proof -
  obtain cur oth s where st: "st = (cur, oth, s)" by (cases st)
  obtain z c o' s1 where s1: "obind (mpmul s cur cur oth) (\<lambda>s.
      if on then obind (mpmul s oth b cur) (\<lambda>s. Ok (cur, oth, s)) else Ok (oth, cur, s)) = Ok (c, o', s1)"
    "exp_st t r s0 (z * z * (if on then zb else 1)) (c, o', s1)" "exp_pow m zb zm n z 0"
    by (rule exp_product [OF a ok [unfolded st] f])
  define Z where "Z = z * z * (if on then zb else 1)"
  define n' where "n' = 2 * n + (if on then 1 else 0)"
  have p: "zb ^ n' = zb ^ n * zb ^ n * (if on then zb else 1)" by (simp add: n'_def mult_2 power_add)
  have Z: "0 \<le> zb \<longrightarrow> 0 \<le> Z" using s1(3) by (simp add: Z_def exp_pow_def)
  have e: "exp_bit b m on st = (case m of None \<Rightarrow> Ok (c, o', s1)
     | Some m \<Rightarrow> if top (cell s1 m) < top (cell s1 c) then obind (mpmod s1 c m o') (\<lambda>s. Ok (o', c, s)) else Ok (c, o', s1))"
    using s1(1) unfolding exp_bit_def st by auto
  show ?thesis
  proof (cases m)
    case None
    then have "exp_pow m zb zm n' Z 0" using s1(3) Z p by (simp add: exp_pow_def Z_def)
    then have "exp_ok m zb zm t r s0 n' (c, o', s1)" using s1(2) None by (auto simp: exp_ok_def exp_pow_def Z_def)
    then show ?thesis using e None that n'_def by simp
  next
    case (Some mc)
    have mc: "isnum (cell s0 mc) zm" "0 < zm" "mc < brk s0" "mc \<notin> {t, r}" "top (cell s0 mc) \<le> 15"
      and k: "t < brk s0" "r < brk s0" "0 < mpmindigits s0" using a Some by (simp_all add: exp_args_def)
    have zn: "z mod zm = zb ^ n mod zm" using s1(3) Some by (simp add: exp_pow_def)
    have "(z * z) mod zm = (zb ^ n * zb ^ n) mod zm" by (rule mod_mult_cong [OF zn zn])
    then have Zm: "Z mod zm = zb ^ n' mod zm" unfolding Z_def p by (rule mod_mult_cong) simp
    note cm = exp_st_cells(6) [OF s1(2) k(1,2) mc(3,4)]
    show ?thesis
    proof (cases "top (cell s1 mc) < top (cell s1 c)")
      case False
      then have "exp_ok m zb zm t r s0 n' (c, o', s1)"
        using s1(2) Zm Z Some cm mc(5) by (auto simp: exp_ok_def exp_pow_def Z_def)
      then show ?thesis using e Some False that n'_def by simp
    next
      case True
      obtain s2 w where s2: "mpmod s1 c mc o' = Ok s2" "exp_st t r s0 w (o', c, s2)" "w mod zm = Z mod zm" "0 \<le> w" "w \<le> zm"
        using exp_reduce [OF s1(2) k mc(1-4)] unfolding Z_def by metis
      have "top (cell s2 o') \<le> top (cell s0 mc)"
        using abs_le [OF mc(1) exp_st_cells(1) [OF s2(2) k(1,2)]] s2(4,5) by simp
      then have "exp_ok m zb zm t r s0 n' (o', c, s2)"
        using s2(2-4) Zm Some mc(5) by (auto simp: exp_ok_def exp_pow_def)
      then show ?thesis using e Some True s2(1) that n'_def by simp
    qed
  qed
qed

lemma bit_digit: "bit d k \<longleftrightarrow> odd (unat (d :: mpdigit) div 2 ^ k)"
  by (simp add: bit_unsigned_iff flip: bit_iff_odd)

lemma exp_bits_ok:
  assumes a: "exp_args b m zb zm t r s0"
  shows "exp_ok m zb zm t r s0 n st \<Longrightarrow> exp_fits m zb (n * 2 ^ k + unat d mod 2 ^ k) \<Longrightarrow>
    \<exists>st'. exp_bits b m d k st = Ok st' \<and> exp_ok m zb zm t r s0 (n * 2 ^ k + unat d mod 2 ^ k) st'"
proof (induction k arbitrary: n st)
  case (Suc k)
  define on where "on \<longleftrightarrow> push_bit k 1 AND d \<noteq> 0"
  define n' where "n' = 2 * n + (if on then 1 else 0)"
  have "on \<longleftrightarrow> bit d k" unfolding on_def and.commute [of "push_bit k 1"]
    by (simp add: and_exp_eq_0_iff_not_bit push_bit_eq_mult)
  then have on: "on \<longleftrightarrow> odd (unat d div 2 ^ k)" by (simp only: bit_digit)
  have b: "unat d mod 2 ^ Suc k = (if on then 2 ^ k else 0) + unat d mod 2 ^ k"
    using mod_mult2_eq [of "unat d" "2 ^ k" 2] on by (simp add: mult.commute odd_iff_mod_2_eq_one)
  have e: "n' * 2 ^ k + unat d mod 2 ^ k = n * 2 ^ Suc k + unat d mod 2 ^ Suc k"
    unfolding b n'_def by (simp add: algebra_simps)
  have "n' * 1 \<le> n' * 2 ^ k" by (intro mult_le_mono2) simp
  then have le: "n' \<le> n * 2 ^ Suc k + unat d mod 2 ^ Suc k" using e by linarith
  have "1 < int (Base ^ 31)" by (simp add: Base_def)
  then have "exp_fits m zb n'" using power_bound [OF le] Suc.prems(2) by blast
  then obtain st1 where st1: "exp_bit b m on st = Ok st1" "exp_ok m zb zm t r s0 n' st1"
    using exp_bit_ok [OF a Suc.prems(1)] unfolding n'_def by blast
  then show ?case using Suc.IH [OF st1(2)] Suc.prems(2) unfolding e by (simp add: on_def)
qed simp

lemma exp_digits_ok:
  assumes a: "exp_args b m zb zm t r s0"
  shows "i \<le> length p \<Longrightarrow> exp_ok m zb zm t r s0 n st \<Longrightarrow> exp_fits m zb (n * Base ^ i + val (take i p)) \<Longrightarrow>
    \<exists>st'. exp_digits b m p i st = Ok st' \<and> exp_ok m zb zm t r s0 (n * Base ^ i + val (take i p)) st'"
proof (induction i arbitrary: n st)
  case (Suc i)
  define n' where "n' = n * Base + unat (p ! i)"
  have e: "n' * Base ^ i + val (take i p) = n * Base ^ Suc i + val (take (Suc i) p)"
    using val_take_Suc [of i p] Suc.prems(1) by (simp add: n'_def algebra_simps)
  have n: "n * 2 ^ 32 + unat (p ! i) mod 2 ^ 32 = n'" using unat_less_Base [of "p ! i"] by (simp add: n'_def Base_def)
  have "n' * 1 \<le> n' * Base ^ i" by (intro mult_le_mono2) simp
  then have le: "n' \<le> n * Base ^ Suc i + val (take (Suc i) p)" using e by linarith
  have "1 < int (Base ^ 31)" by (simp add: Base_def)
  then have "exp_fits m zb n'" using power_bound [OF le] Suc.prems(3) by blast
  then obtain st1 where st1: "exp_bits b m (p ! i) 32 st = Ok st1" "exp_ok m zb zm t r s0 n' st1"
    using exp_bits_ok [OF a Suc.prems(2), of 32 "p ! i"] unfolding n by blast
  have rd: "rdat p i = Ok (p ! i)" using Suc.prems(1) by simp
  obtain st2 where "exp_digits b m p i st1 = Ok st2" "exp_ok m zb zm t r s0 (n * Base ^ Suc i + val (take (Suc i) p)) st2"
    using Suc.IH [OF _ st1(2)] Suc.prems(1,3) unfolding e by auto
  then show ?case unfolding exp_digits.simps rd obind.simps st1(1) by blast
qed simp

lemma first_bit_spec:
  "unat d < 2 ^ k \<Longrightarrow> d \<noteq> 0 \<Longrightarrow> \<exists>j. first_bit d k = Ok j \<and> unat d = 2 ^ j + unat d mod 2 ^ j"
proof (induction k)
  case (Suc k)
  have "push_bit k 1 AND d = 0 \<longleftrightarrow> \<not> bit d k" unfolding and.commute [of "push_bit k 1"]
    by (simp add: and_exp_eq_0_iff_not_bit push_bit_eq_mult)
  then have b: "push_bit k 1 AND d = 0 \<longleftrightarrow> even (unat d div 2 ^ k)" by (simp only: bit_digit not_not)
  have q: "unat d div 2 ^ k < 2" using Suc.prems(1) by (simp add: less_mult_imp_div_less mult.commute)
  show ?case
  proof (cases "unat d < 2 ^ k")
    case True
    then show ?thesis using Suc b by simp
  next
    case False
    then have "0 < unat d div 2 ^ k" by (simp add: div_greater_zero_iff)
    then have "unat d div 2 ^ k = 1" using q by linarith
    then have "unat d = 2 ^ k + unat d mod 2 ^ k" "\<not> even (unat d div 2 ^ k)"
      using div_mult_mod_eq [of "unat d" "2 ^ k"] by simp_all
    then show ?thesis using b by simp
  qed
qed (simp add: unat_eq_zero)

lemma exp_copy_spec:
  assumes n: "isnum (cell s b) z" "b < brk s" "res < brk s" and m: "0 < mpmindigits s"
  obtains b' s' where "exp_copy res b s = Ok (b', s')" "same_but {} s s'" "isnum (cell s' b') z" "b' < brk s'" "b' \<noteq> res"
    "res = b \<Longrightarrow> \<not> static (cell s' b') \<and> brk s \<le> b'" "res \<noteq> b \<Longrightarrow> b' = b" "b' = b \<or> brk s \<le> b'"
proof (cases "res = b")
  case False
  then show ?thesis using n by (intro that [of b s]) (simp_all add: exp_copy_def same_but_def)
next
  case True
  obtain s' where s': "mpcopy s (cell s b) = Ok (brk s, s')" "cnum s' (brk s) z" "brk s' = brk s + 1" "mpmindigits s' = mpmindigits s"
    "\<And>c. c \<noteq> brk s \<Longrightarrow> cell s' c = cell s c" "\<not> static (cell s' (brk s))"
    using mpcopy_cnum [OF n(1) m] by blast
  then show ?thesis using True n by (intro that [of "brk s" s']) (simp_all add: exp_copy_def same_but_def cnumD)
qed

text \<open>From the copies to the result.\<close>

lemma exp_run:
  assumes a: "exp_args b m zb zm t res s" and tr: "t \<noteq> res"
    and n: "isnum (cell s t) zb" "room (cell s res)" "\<not> static (cell s t)" and ts: "m \<noteq> None \<longrightarrow> top (cell s t) \<le> 15"
    and e: "isnum (cell s ec) ze" "0 < ze" and f: "exp_fits m zb (nat ze)"
  obtains w s' where "exp_main b ec m t res s = Ok s'"
    "same_but {t, res} s s'" "isnum (cell s' res) w"
    "m = None \<Longrightarrow> w = zb ^ nat ze" "m \<noteq> None \<Longrightarrow> w mod zm = zb ^ nat ze mod zm \<and> 0 \<le> w \<and> w \<le> zm"
    "m \<noteq> None \<Longrightarrow> 0 \<le> zb \<Longrightarrow> w = zb ^ nat ze mod zm"
proof -
  have k: "t < brk s" "res < brk s" "0 < mpmindigits s" using a by (simp_all add: exp_args_def)
  define p T where "p = digs (cell s ec)" and "T = top (cell s ec)"
  have T: "0 < T" "T \<le> length p" using isnum_zero [OF e(1)] e(2) roomD(1) [OF isnumD(2) [OF e(1)]] by (simp_all add: p_def T_def)
  define d where "d = p ! (T - 1)"
  have d0: "d \<noteq> 0" using isnumD(1) [OF e(1)] T(1) by (simp add: normal_def d_def p_def T_def)
  have ev: "nat ze = unat d * Base ^ (T - 1) + val (take (T - 1) p)"
  proof -
    have "nat ze = val (take T p)" using isnum_mag [OF e(1)] e(2) by (simp add: mag_def p_def T_def)
    also have "\<dots> = val (take (T - 1) p) + Base ^ (T - 1) * unat d" using val_take_Suc [of "T - 1" p] T by (simp add: d_def)
    finally show ?thesis by simp
  qed
  obtain j where j: "first_bit d 32 = Ok j" "unat d = 2 ^ j + unat d mod 2 ^ j"
    using first_bit_spec [of d 32] unat_less_Base [of d] d0 by (auto simp: Base_def)
  have dj: "1 * 2 ^ j + unat d mod 2 ^ j = unat d" using j(2) by simp
  have st0: "exp_ok m zb zm t res s 1 (t, res, s)"
    using n ts tr by (auto simp: exp_ok_def exp_st_def exp_pow_def same_but_def split: option.splits)
  have "unat d * 1 \<le> unat d * Base ^ (T - 1)" by (intro mult_le_mono2) simp
  then have "unat d \<le> nat ze" using ev by linarith
  moreover have "1 < int (Base ^ 31)" by (simp add: Base_def)
  ultimately have "exp_fits m zb (unat d)" using power_bound [of "unat d" "nat ze"] f by blast
  then obtain st1 where st1: "exp_bits b m d j (t, res, s) = Ok st1" "exp_ok m zb zm t res s (unat d) st1"
    using exp_bits_ok [OF a st0, of j d] unfolding dj by blast
  obtain cur oth s2 where s2: "exp_digits b m p (T - 1) st1 = Ok (cur, oth, s2)" "exp_ok m zb zm t res s (nat ze) (cur, oth, s2)"
  proof -
    have "T - 1 \<le> length p" using T(2) by simp
    then obtain st2 where "exp_digits b m p (T - 1) st1 = Ok st2" "exp_ok m zb zm t res s (nat ze) st2"
      using exp_digits_ok [OF a _ st1(2), of "T - 1" p, folded ev] f by blast
    then show ?thesis by (cases st2) (rule that; simp)
  qed
  obtain z where z: "exp_st t res s z (cur, oth, s2)" "exp_pow m zb zm (nat ze) z (top (cell s2 cur))"
    using s2(2) by (auto simp: exp_ok_def)
  obtain w c o' s3 where s3: "(case m of None \<Rightarrow> Ok (cur, oth, s2) | Some m' \<Rightarrow> obind (mpmod s2 cur m' oth) (\<lambda>s. Ok (oth, cur, s))) = Ok (c, o', s3)"
    "exp_st t res s w (c, o', s3)" "m = None \<longrightarrow> w = zb ^ nat ze" "m \<noteq> None \<longrightarrow> w mod zm = zb ^ nat ze mod zm \<and> 0 \<le> w \<and> w \<le> zm"
    "m \<noteq> None \<longrightarrow> 0 \<le> zb \<longrightarrow> w = zb ^ nat ze mod zm"
  proof (cases m)
    case None
    then show ?thesis using z by (intro that [of cur oth s2 z]) (simp_all add: exp_pow_def)
  next
    case (Some mc)
    have mc: "isnum (cell s mc) zm" "0 < zm" "mc < brk s" "mc \<notin> {t, res}" using a Some by (simp_all add: exp_args_def)
    obtain s' w where "mpmod s2 cur mc oth = Ok s'" "exp_st t res s w (oth, cur, s')"
      "w mod zm = z mod zm" "0 \<le> w" "w \<le> zm" "0 \<le> z \<Longrightarrow> w = z mod zm"
      using exp_reduce [OF z(1) k mc] by metis
    then show ?thesis using Some z(2) by (intro that [of oth cur s' w]) (auto simp: exp_pow_def)
  qed
  have tr3: "{c, o'} = {t, res}" "c \<noteq> o'" "\<not> static (cell s3 t)" "same_but {t, res} s s3"
    and w3: "isnum (cell s3 c) w" "room (cell s3 o')"
    using s3(2) n(3) by (auto simp: exp_st_def)
  obtain s4 where s4: "(if c = res then mpfree s3 o' else obind (assign_opt (cell s3 c) (Some res) s3) (\<lambda>s. mpfree s c)) = Ok s4"
    "kept {t, res} s3 s4" "isnum (cell s4 res) w"
  proof (cases "c = res")
    case True
    then have "o' = t" using tr3(1,2) by (auto simp: doubleton_eq_iff)
    then show ?thesis using True mpfrees_cells [of "[t]" s3] tr3(3) w3(1) tr that by (auto simp: kept_def)
  next
    case False
    then have c: "c = t" "o' = res" using tr3(1,2) by (auto simp: doubleton_eq_iff)
    obtain t4 where t4: "assign_opt (cell s3 c) (Some res) s3 = Ok t4" "isnum (cell t4 res) w" "kept {res} s3 t4"
      by (rule assign_cell [OF w3(1) w3(2) [unfolded c]])
    then have "\<not> static (cell t4 t)" using tr3(3) by (simp add: kept_def)
    then obtain t5 where t5: "mpfree t4 t = Ok t5" "kept {t} t4 t5" using mpfrees_cells [of "[t]" t4] by auto
    have "kept {t, res} s3 t5" by (rule kept_trans_same [OF kept_mono [OF t4(3)] kept_mono [OF t5(2)]]) auto
    moreover have "isnum (cell t5 res) w" using t5(2) t4(2) tr by (auto simp: kept_def)
    ultimately show ?thesis using False c t4(1) t5(1) that by auto
  qed
  have rd: "rdat p (T - 1) = Ok d" using T by (simp add: d_def)
  have "same_but {t, res} s s4" using same_but_trans [OF tr3(4) kept_same_but [OF s4(2)]] .
  moreover have "exp_main b ec m t res s = Ok s4"
    unfolding exp_main_def Let_def p_def [symmetric] T_def [symmetric] rd j(1) st1(1) s2(1) obind.simps prod.case s3(1) s4(1) ..
  ultimately show ?thesis using s4(3) s3(3-5) by (intro that [of s4 w]) simp_all
qed

lemma free_if:
  assumes "P \<Longrightarrow> \<not> static (cell s c)"
  obtains s' where "(if P then mpfree s c else Ok s) = Ok s'" "kept (if P then {c} else {}) s s'"
proof (cases P)
  case True
  then show ?thesis using mpfrees_cells [of "[c]" s] assms that by auto
next
  case False
  then show ?thesis using that [of s] by (simp add: kept_def)
qed

lemma same_cells: "same_but {} s s' \<Longrightarrow> c < brk s \<Longrightarrow> cell s' c = cell s c \<and> c < brk s'"
  by (simp add: same_but_def)

text \<open>The copies of the operands; \<open>q\<close> is the modulus when there is one.\<close>

lemma exp_copies:
  assumes b: "isnum (cell s b) zb" "b < brk s" and e: "isnum (cell s e) ze" "e < brk s"
    and q: "m \<noteq> None \<Longrightarrow> isnum (cell s (the m)) zm \<and> the m < brk s" and r: "res < brk s" and md: "0 < mpmindigits s"
  obtains s' t b' e' m' where
    "\<forall>K :: nat \<Rightarrow> nat \<Rightarrow> nat \<Rightarrow> nat option \<Rightarrow> mps \<Rightarrow> mps outcome.
       obind (mpcopy s (cell s b)) (\<lambda>(t, s). obind (exp_copy res b s) (\<lambda>(b', s). obind (exp_copy res e s) (\<lambda>(e', s).
       obind (case m of None \<Rightarrow> Ok (None, s) | Some m \<Rightarrow> obind (exp_copy res m s) (\<lambda>(m', s). Ok (Some m', s))) (\<lambda>(m', s).
       K t b' e' m' s)))) = K t b' e' m' s'"
    "same_but {} s s'" "t = brk s" "t < brk s'" "isnum (cell s' t) zb" "\<not> static (cell s' t)"
    "isnum (cell s' b') zb" "b' < brk s'" "b' \<notin> {t, res}" "res = b \<longrightarrow> \<not> static (cell s' b') \<and> brk s \<le> b'"
    "isnum (cell s' e') ze" "e' < brk s' \<and> e' \<notin> {t, res}" "res = e \<longrightarrow> \<not> static (cell s' e') \<and> brk s \<le> e'"
    "m' = None \<longleftrightarrow> m = None"
    "m \<noteq> None \<longrightarrow> isnum (cell s' (the m')) zm \<and> the m' < brk s' \<and> the m' \<notin> {t, res}"
    "m = Some res \<longrightarrow> \<not> static (cell s' (the m')) \<and> brk s \<le> the m'"
proof -
  obtain s1 where s1: "mpcopy s (cell s b) = Ok (brk s, s1)" "cnum s1 (brk s) zb" "brk s1 = brk s + 1" "mpmindigits s1 = mpmindigits s"
    "\<And>c. c \<noteq> brk s \<Longrightarrow> cell s1 c = cell s c" "\<not> static (cell s1 (brk s))"
    using mpcopy_cnum [OF b(1) md] by blast
  have n1: "isnum (cell s1 b) zb" "b < brk s1" "res < brk s1" "0 < mpmindigits s1" "same_but {} s s1"
    using b r md s1 by (simp_all add: same_but_def)
  obtain b' s2 where s2: "exp_copy res b s1 = Ok (b', s2)" "same_but {} s1 s2" "isnum (cell s2 b') zb" "b' < brk s2" "b' \<noteq> res"
    "res = b \<Longrightarrow> \<not> static (cell s2 b') \<and> brk s1 \<le> b'" "res \<noteq> b \<Longrightarrow> b' = b" "b' = b \<or> brk s1 \<le> b'"
    using exp_copy_spec [OF n1(1-4)] by metis
  have n2: "isnum (cell s2 e) ze" "e < brk s2" "res < brk s2" "0 < mpmindigits s2"
    using e r n1(3,4) s1(3,5) s2(2) by (simp_all add: same_but_def)
  obtain e' s3 where s3: "exp_copy res e s2 = Ok (e', s3)" "same_but {} s2 s3" "isnum (cell s3 e') ze" "e' < brk s3" "e' \<noteq> res"
    "res = e \<Longrightarrow> \<not> static (cell s3 e') \<and> brk s2 \<le> e'" "res \<noteq> e \<Longrightarrow> e' = e" "e' = e \<or> brk s2 \<le> e'"
    using exp_copy_spec [OF n2] by metis
  have n3: "res < brk s3" "0 < mpmindigits s3" "brk s1 \<le> brk s2" "brk s2 \<le> brk s3"
    using n2(3,4) s2(2) s3(2) by (simp_all add: same_but_def)
  obtain m' s4 where s4: "(case m of None \<Rightarrow> Ok (None, s3) | Some m \<Rightarrow> obind (exp_copy res m s3) (\<lambda>(m', s). Ok (Some m', s))) = Ok (m', s4)"
    "same_but {} s3 s4" "m' = None \<longleftrightarrow> m = None"
    "m \<noteq> None \<longrightarrow> isnum (cell s4 (the m')) zm \<and> the m' < brk s4 \<and> the m' \<notin> {brk s, res}"
    "m = Some res \<longrightarrow> \<not> static (cell s4 (the m')) \<and> brk s \<le> the m'"
  proof (cases m)
    case None
    then show ?thesis by (intro that [of None s3]) (simp_all add: same_but_def)
  next
    case (Some mc)
    have mc: "isnum (cell s3 mc) zm" "mc < brk s3" "mc < brk s"
      using q Some n1(5) s2(2) s3(2) by (auto simp: same_but_def)
    obtain m' s4 where s4: "exp_copy res mc s3 = Ok (m', s4)" "same_but {} s3 s4" "isnum (cell s4 m') zm" "m' < brk s4" "m' \<noteq> res"
      "res = mc \<Longrightarrow> \<not> static (cell s4 m') \<and> brk s3 \<le> m'" "m' = mc \<or> brk s3 \<le> m'"
      using exp_copy_spec [OF mc(1,2) n3(1,2)] by metis
    then show ?thesis using Some mc(3) s1(3) n3 by (intro that [of "Some m'" s4]) auto
  qed
  have c4: "cell s4 c = cell s1 c \<and> c < brk s4" if "c < brk s1" for c
    using same_cells [OF s2(2) that] same_cells [OF s3(2), of c] same_cells [OF s4(2), of c] by simp
  have cb: "cell s4 b' = cell s2 b' \<and> b' < brk s4" using same_cells [OF s3(2) s2(4)] same_cells [OF s4(2), of b'] by simp
  have ce: "cell s4 e' = cell s3 e' \<and> e' < brk s4" using same_cells [OF s4(2) s3(4)] .
  have "same_but {} s s4" by (rule same_but_trans [OF n1(5) same_but_trans [OF s2(2) same_but_trans [OF s3(2) s4(2)]]])
  moreover have "\<forall>K :: nat \<Rightarrow> nat \<Rightarrow> nat \<Rightarrow> nat option \<Rightarrow> mps \<Rightarrow> mps outcome.
       obind (mpcopy s (cell s b)) (\<lambda>(t, s). obind (exp_copy res b s) (\<lambda>(b', s). obind (exp_copy res e s) (\<lambda>(e', s).
       obind (case m of None \<Rightarrow> Ok (None, s) | Some m \<Rightarrow> obind (exp_copy res m s) (\<lambda>(m', s). Ok (Some m', s))) (\<lambda>(m', s).
       K t b' e' m' s)))) = K (brk s) b' e' m' s4"
    unfolding s1(1) obind.simps prod.case s2(1) s3(1) s4(1) by blast
  moreover have "b' \<notin> {brk s, res}" "e' \<notin> {brk s, res}" using s2(5,8) s3(5,8) b(2) e(2) s1(3) n3(3) by auto
  moreover have "res = b \<longrightarrow> \<not> static (cell s4 b') \<and> brk s \<le> b'" using s2(6) cb s1(3) by auto
  moreover have "res = e \<longrightarrow> \<not> static (cell s4 e') \<and> brk s \<le> e'" using s3(6) ce s1(3) n3(3) by auto
  moreover have "isnum (cell s4 (brk s)) zb" "\<not> static (cell s4 (brk s))" "brk s < brk s4"
    using c4 [of "brk s"] s1(2,3,6) by (simp_all add: cnum_def)
  ultimately show ?thesis using s4(3-5) s2(3) s3(3) cb ce by (intro that [of "brk s" b' e' m' s4]) simp_all
qed

lemma mpexp_spec:
  assumes b: "isnum (cell s b) zb" "b < brk s" and e: "isnum (cell s e) ze" "e < brk s" "0 < ze"
    and q: "m \<noteq> None \<Longrightarrow> isnum (cell s (the m)) zm \<and> the m < brk s \<and> 0 < zm \<and> zm < int (Base ^ 15) \<and> \<bar>zb\<bar> < int (Base ^ 15)"
    and r: "res < brk s" "room (cell s res)" and md: "0 < mpmindigits s" and f: "exp_fits m zb (nat ze)"
  obtains s' w where "mpexp s b e m res = Ok s'" "same_but {res} s s'" "isnum (cell s' res) w"
    "m = None \<Longrightarrow> w = zb ^ nat ze" "m \<noteq> None \<Longrightarrow> w mod zm = zb ^ nat ze mod zm \<and> 0 \<le> w \<and> w \<le> zm"
    "m \<noteq> None \<Longrightarrow> 0 \<le> zb \<Longrightarrow> w = zb ^ nat ze mod zm"
proof -
  have q': "m \<noteq> None \<Longrightarrow> isnum (cell s (the m)) zm \<and> the m < brk s" using q by blast
  obtain s1 t b' e' m' where s1:
    "\<forall>K :: nat \<Rightarrow> nat \<Rightarrow> nat \<Rightarrow> nat option \<Rightarrow> mps \<Rightarrow> mps outcome.
       obind (mpcopy s (cell s b)) (\<lambda>(t, s). obind (exp_copy res b s) (\<lambda>(b', s). obind (exp_copy res e s) (\<lambda>(e', s).
       obind (case m of None \<Rightarrow> Ok (None, s) | Some m \<Rightarrow> obind (exp_copy res m s) (\<lambda>(m', s). Ok (Some m', s))) (\<lambda>(m', s).
       K t b' e' m' s)))) = K t b' e' m' s1"
    "same_but {} s s1" "t = brk s" "t < brk s1" "isnum (cell s1 t) zb" "\<not> static (cell s1 t)"
    "isnum (cell s1 b') zb" "b' < brk s1" "b' \<notin> {t, res}" "res = b \<longrightarrow> \<not> static (cell s1 b') \<and> brk s \<le> b'"
    "isnum (cell s1 e') ze" "e' < brk s1 \<and> e' \<notin> {t, res}" "res = e \<longrightarrow> \<not> static (cell s1 e') \<and> brk s \<le> e'"
    "m' = None \<longleftrightarrow> m = None"
    "m \<noteq> None \<longrightarrow> isnum (cell s1 (the m')) zm \<and> the m' < brk s1 \<and> the m' \<notin> {t, res}"
    "m = Some res \<longrightarrow> \<not> static (cell s1 (the m')) \<and> brk s \<le> the m'"
    by (rule exp_copies [OF b e(1,2) q' r(1) md])
  have r1: "res < brk s1" "cell s1 res = cell s res" "t \<noteq> res" "mpmindigits s1 = mpmindigits s"
    using r s1(2,3) by (simp_all add: same_but_def)
  have small: "top (cell s1 b') \<le> 15 \<and> top (cell s1 t) \<le> 15 \<and> top (cell s1 (the m')) \<le> 15" if "m \<noteq> None"
    using top_le [OF s1(7)] top_le [OF s1(5)] top_le [of "cell s1 (the m')" zm] q that s1(15) by simp
  have a: "exp_args b' m' zb zm t res s1"
    using s1(4,7-9,14,15) r1 md q small by (auto simp: exp_args_def)
  have f': "exp_fits m' zb (nat ze)" using f s1(14) by blast
  have sm: "m' \<noteq> None \<longrightarrow> top (cell s1 t) \<le> 15" using small s1(14) by blast
  obtain w s2 where s2: "exp_main b' e' m' t res s1 = Ok s2" "same_but {t, res} s1 s2" "isnum (cell s2 res) w"
    "m' = None \<Longrightarrow> w = zb ^ nat ze" "m' \<noteq> None \<Longrightarrow> w mod zm = zb ^ nat ze mod zm \<and> 0 \<le> w \<and> w \<le> zm"
    "m' \<noteq> None \<Longrightarrow> 0 \<le> zb \<Longrightarrow> w = zb ^ nat ze mod zm"
    using exp_run [OF a r1(3) s1(5) _ s1(6) sm s1(11) e(3) f'] r(2) r1(2) by metis
  have c2: "cell s2 c = cell s1 c" if "c < brk s1" "c \<notin> {t, res}" for c using s2(2) that by (simp add: same_but_def)
  have st: "res = b \<Longrightarrow> \<not> static (cell s2 b')" "res = e \<Longrightarrow> \<not> static (cell s2 e')" "m = Some res \<Longrightarrow> \<not> static (cell s2 (the m'))"
    using c2 s1(8-10,12,13,15,16) by auto
  obtain s3 where s3: "(if res = b then mpfree s2 b' else Ok s2) = Ok s3" "kept (if res = b then {b'} else {}) s2 s3"
    by (rule free_if [OF st(1)])
  obtain s4 where s4: "(if res = e then mpfree s3 e' else Ok s3) = Ok s4" "kept (if res = e then {e'} else {}) s3 s4"
    by (rule free_if [of "res = e" s3 e']) (use st(2) s3(2) in \<open>auto simp: kept_def\<close>)
  obtain s5 where s5: "(if m = Some res then mpfree s4 (the m') else Ok s4) = Ok s5" "kept (if m = Some res then {the m'} else {}) s4 s5"
    by (rule free_if [of "m = Some res" s4 "the m'"]) (use st(3) s3(2) s4(2) in \<open>auto simp: kept_def\<close>)
  have keep: "cell s5 c = cell s2 c" if "c < brk s" for c
    using s3(2) s4(2) s5(2) s1(10,13,16) that by (auto simp: kept_def split: if_splits)
  obtain i where i: "mpcmp (cell s e) mpzero = Ok i" "i \<noteq> 0" "\<not> i < 0"
    using mpcmp_spec [OF e(1) mpzero_num] e(3) by (metis less_irrefl less_trans)
  have "mpexp s b e m res = Ok s5"
    unfolding mpexp_def i(1) obind.simps if_not_P [OF i(2)] if_not_P [OF i(3)] s1(1) [rule_format] s2(1) s3(1) s4(1) s5(1) ..
  moreover have "same_but {res} s s5"
    using s1(2,3) s2(2) s3(2) s4(2) s5(2) keep by (simp add: same_but_def kept_def)
  moreover have "isnum (cell s5 res) w" using keep [OF r(1)] s2(3) by simp
  ultimately show ?thesis using s2(4-6) s1(14) by (intro that [of s5 w]) auto
qed

text \<open>C36: \<open>mpexp\<close> with a modulus, for a base and modulus of at most 15 digits and a base that is not
  negative: the residue of the power, for exponents greater than 0 of any length and any aliasing of the
  four arguments.\<close>

theorem mpexp_mod:
  assumes "isnum (cell s b) zb" "b < brk s" "isnum (cell s e) ze" "e < brk s" "isnum (cell s m) zm" "m < brk s"
    "0 \<le> zb" "0 < ze" "0 < zm" "zb < int (Base ^ 15)" "zm < int (Base ^ 15)" "res < brk s" "room (cell s res)" "0 < mpmindigits s"
  shows "\<exists>s'. mpexp s b e (Some m) res = Ok s' \<and> same_but {res} s s' \<and> isnum (cell s' res) (zb ^ nat ze mod zm)"
proof (rule mpexp_spec [OF assms(1-4,8), of "Some m" zm res])
  fix s' w
  assume "mpexp s b e (Some m) res = Ok s'" "same_but {res} s s'" "isnum (cell s' res) w"
    "Some m \<noteq> None \<Longrightarrow> 0 \<le> zb \<Longrightarrow> w = zb ^ nat ze mod zm"
  then show ?thesis using assms(7) by auto
qed (use assms in simp_all)

theorem mpexp_mod_witness:
  "\<exists>s'. mpexp gcd_example 0 1 (Some 2) 2 = Ok s' \<and> same_but {2} gcd_example s' \<and> isnum (cell s' 2) 5"
proof -
  have B: "12 < int (Base ^ 15)" by (simp add: Base_def)
  have "\<exists>s'. mpexp gcd_example 0 1 (Some 2) 2 = Ok s' \<and> same_but {2} gcd_example s' \<and> isnum (cell s' 2) (12 ^ nat 7 mod 7)"
    using mpexp_mod [OF gcd_example(1) _ gcd_example(2) [of 1] _ gcd_example(2) [of 2], of 2] gcd_example(3-5) B by simp
  then show ?thesis by simp
qed

text \<open>Without a modulus the power is exact while it fits in 31 digits.\<close>

lemma mpexp_power:
  assumes "isnum (cell s b) zb" "b < brk s" "isnum (cell s e) ze" "e < brk s" "0 < ze" "\<bar>zb\<bar> ^ nat ze < int (Base ^ 31)"
    "res < brk s" "room (cell s res)" "0 < mpmindigits s"
  shows "\<exists>s'. mpexp s b e None res = Ok s' \<and> same_but {res} s s' \<and> isnum (cell s' res) (zb ^ nat ze)"
proof -
  obtain s' w where "mpexp s b e None res = Ok s'" "same_but {res} s s'" "isnum (cell s' res) w" "w = zb ^ nat ze"
    using mpexp_spec [OF assms(1-5), of None 0 res] assms(6-9) by auto
  then show ?thesis by auto
qed

end
