(* ===== verification/Spec2Isabelle.thy ===== *)
theory Spec2Isabelle
  imports Wire Styx StatMsg Utf DisStringOps DisOps DisAlt LogExtent LogMsg Enc NandFs MpExp
begin

text \<open>
  A verification library for AimsGui, the Inferno system under \<open>src/aid\<close>.

  \<^bold>\<open>The program.\<close>  The system is a virtual machine (Dis, \<open>libinterp\<close>) inside a small kernel
  (\<open>emu/port\<close> when it is hosted, \<open>os/port\<close> when it is native) that serves and uses name spaces over
  the Styx protocol.  The scheduler of the kernel (\<open>emu/port/dis.c\<close>) runs the programs of the
  machine, whose instructions (\<open>libinterp/xec.c\<close>) work on strings, arrays and channels; blocked
  programs wait in the queues of channels and of alts (\<open>libinterp/alt.c\<close>) until a send or a receive
  puts them back on the run queue.  Kernel and machine rest on C libraries: text and wire formats
  (\<open>lib9\<close>), a log-structured file system on flash (\<open>liblogfs\<close>, over \<open>libnandfs\<close>), and big numbers
  for public keys (\<open>libmp\<close>, used by \<open>libsec\<close> and the \<open>IPint\<close> module of the machine).

  \<^bold>\<open>How code becomes definitions.\<close>  One definition models one C function, and loops of it are
  recursive functions of their own; definitions compute, so that examples evaluate.  Integers have
  the width of the C type (\<open>Word\<close>) where wrap-around can matter and are \<open>nat\<close> or \<open>int\<close> where they
  count objects.  A pointer into an object is the list of what lies from it to the end of the
  object, or an index; \<open>Prelude\<close> has the three ways a routine ends: \<open>Ok\<close> with a result, \<open>Fail\<close>
  with the error of the source (an error return, \<open>error(...)\<close>, \<open>sysfatal\<close>), and \<open>Undef\<close> where C
  leaves the behaviour undefined (a read or write outside of an object, a nil pointer followed).
  Loops that may run for ever are partial functions in the option monad (\<open>None\<close> is not returning)
  unless they are shown to end by a measure.  There is no fuel in any definition.

  \<^bold>\<open>Wire formats.\<close>  \<open>Wire\<close>: the accessors and bounds checks of \<open>include/fcall.h\<close>.  \<open>Styx\<close>:
  \<open>lib9/convS2M.c\<close> and \<open>convM2S.c\<close>; the lemmas give the length of every part, that an encoded
  message decodes to itself, that the encoder fills exactly the size it announced whenever that fits,
  that the decoder stops exactly at the count of the header and yields well-formed messages only, and a
  message for which the 32-bit size wraps.  \<open>StatMsg\<close>: directory entries, \<open>lib9/convD2M.c\<close> and \<open>convM2D.c\<close>.

  \<^bold>\<open>Text.\<close>  \<open>Rune\<close>: \<open>lib9/rune.c\<close>, rewritten into arithmetic first; coding and decoding are inverse,
  and no other spelling is accepted.  \<open>Utf\<close>: the string routines over it (\<open>utflen.c\<close>, \<open>utfnlen.c\<close>,
  \<open>utfrune.c\<close>, \<open>utfrrune.c\<close>, \<open>utfecpy.c\<close>, \<open>runestrlen.c\<close>).  \<open>Enc\<close>: base 64, 32 and 16, \<open>lib9/u64.c\<close>,
  \<open>u32.c\<close>, \<open>u16.c\<close>; the encoders are shown to write the digits of the bytes taken as one number.

  \<^bold>\<open>The virtual machine.\<close>  \<open>DisString\<close>: the heap of strings of \<open>libinterp/string.c\<close>, with bytes or
  16-bit runes in one block, the abstraction \<open>runes_of\<close> to a list of runes, the invariant \<open>wf_str\<close>,
  allocation, duplication and element assignment.  \<open>DisStringOps\<close>: concatenation, slices, comparison
  and conversion are the operations on rune lists.  \<open>DisOps\<close>: integer instructions, exponentiation,
  indexing, and the three case instructions of \<open>libinterp/xec.c\<close>; the locale \<open>string_order\<close> states
  what a binary search needs of a comparison, and is interpreted on \<open>stringcmp\<close>.  \<open>DisSched\<close>: the
  linked run queue of \<open>emu/port/dis.c\<close> refines a list; the locale \<open>fifo\<close> states what a queue
  with or without a capacity promises, and proves that every run of operations answers as a list does.
  \<open>DisChan\<close>: channels; \<open>fifo\<close> is interpreted on the queue of programs and on the ring buffer.  The
  record \<open>achan\<close> and its \<open>astep\<close> say what one channel and its programs do, without pointers; sends,
  receives, writes and ends of turns of the machine implement it (\<open>implements\<close>) for every sequence of
  them, so that values come out in order, no program is lost, and a blocked program gets on.  \<open>DisAlt\<close>: alt instructions, shown to do what one send or receive
  does after all their entries have been taken out of the queues; an alt that is not ready leaves
  the queues alone.  The seed of the random choice is an argument.

  \<^bold>\<open>Flash storage.\<close>  \<open>LogExtent\<close>: extents of a file, \<open>liblogfs/extentlist.c\<close>; insertion refines
  overriding a map from offsets to places, for every pattern of failing allocations.  \<open>LogMsg\<close>:
  log messages, \<open>liblogfs/conv.c\<close> and \<open>gn.c\<close>.  \<open>NandEcc\<close>: the codes of \<open>libnandfs/ecc.c\<close> and
  \<open>hamming31_26.c\<close>, as linear maps over bits.  \<open>NandFs\<close>: pages, tags and blocks of \<open>libnandfs\<close> over
  functions of the flash device that are parameters.

  \<^bold>\<open>Big numbers.\<close>  \<open>MpVec\<close>: vectors of 32-bit digits (\<open>libmp/port/mpvecadd.c\<close>, \<open>mpvecsub.c\<close>,
  \<open>mpveccmp.c\<close>, \<open>mpvecdigmuladd.c\<close>, \<open>mpdigdiv.c\<close>); \<open>val\<close> is the number a vector stands for.  \<open>MpMul\<close>:
  multiplication by rows and by Karatsuba's method (\<open>mpmul.c\<close>), with the lengths for which it is
  right (\<open>even_halves\<close>: below 32 digits, or halves of equal length at each level) and what it computes
  otherwise.  \<open>MpInt\<close>: signed numbers in a store of cells, so that results may be operands
  (\<open>mpaux.c\<close>, \<open>mpcmp.c\<close>, \<open>mpadd.c\<close>, \<open>mpsub.c\<close>, \<open>mpleft.c\<close>, \<open>mpright.c\<close>, \<open>mpmul\<close>); \<open>isnum\<close> relates a
  cell to the integer it holds, and each operation refines the one on integers.  \<open>MpDiv\<close>: Knuth's
  division (\<open>mpdiv.c\<close>) and residues (\<open>mpmod.c\<close>).  \<open>MpGcd\<close>: extended greatest common divisors and
  inverses (\<open>mpextendedgcd.c\<close>, \<open>mpinvert.c\<close>); the locale \<open>int_cells\<close> states what the algorithm asks of
  the store, its lemmas keep Bezout's equation, and the interpretation is on the model of \<open>libmp\<close>.
  \<open>MpExp\<close>: powers (\<open>mpexp.c\<close>), for bases and moduli of up to 15 digits, which keeps every product
  below the 32 digits from which the fault of the Karatsuba routine can show.

  \<^bold>\<open>Not modelled.\<close>  Devices, mount tables and name spaces of the kernel, its block queues, the
  allocator, and the collector: memory does not run out unless a definition says that it may.
  Loader and compilers of Dis, floating point, formatted printing and scanning, buffered I/O,
  ciphers and hashes, conversions of big numbers to and from text, bytes and machine integers,
  \<open>mpeuclid\<close>, random numbers and Chinese remainders; drawing and Tk; the Limbo compiler; the native
  kernel's drivers; the Plan 9 tool chain and third-party libraries.  Pointer sums are unbounded
  offsets, and counts of digits and bits do not overflow an \<open>int\<close>.
\<close>

end
